(* ===== verification/Prelude.thy ===== *)
theory Prelude
  imports Main "HOL-Library.Word" "HOL-Library.Monad_Syntax"
begin

unbundle bit_operations_syntax

text \<open>
  Prelude of the development: the machine types of the C sources, byte objects with
  checked accesses, and the generic lemmas the component theories share.

  A C object (an array, a heap block, a string with its terminator) is the list of its
  elements. Reading or writing outside it is undefined behaviour in C; the accessors
  \<open>rd\<close> and \<open>wr\<close> return \<open>None\<close> there, so a definition whose result is \<open>Some\<close> has been
  shown to stay inside its objects.
\<close>

section \<open>Machine types\<close>

type_synonym u8 = "8 word"
type_synonym u16 = "16 word"
type_synonym u32 = "32 word"
type_synonym u64 = "64 word"
type_synonym bytes = "u8 list"

named_theorems object_simps \<open>accesses inside an object succeed\<close>
named_theorems word_facts \<open>facts on bit masks of machine words\<close>

section \<open>Objects with checked accesses\<close>

definition rd :: "'a list \<Rightarrow> nat \<Rightarrow> 'a option" where
  "rd m i = (if i < length m then Some (m ! i) else None)"

definition wr :: "'a list \<Rightarrow> nat \<Rightarrow> 'a \<Rightarrow> 'a list option" where
  "wr m i v = (if i < length m then Some (m[i := v]) else None)"

text \<open>The bytes of a C string up to its terminator (\<open>strlen\<close>, \<open>strdup\<close> read these).\<close>

definition cstr :: "bytes \<Rightarrow> bytes" where
  "cstr m = takeWhile (\<lambda>c. c \<noteq> 0) m"

lemma rd_Some_iff: "rd m i = Some v \<longleftrightarrow> i < length m \<and> v = m ! i"
  by (auto simp: rd_def)

lemma rd_None_iff: "rd m i = None \<longleftrightarrow> length m \<le> i"
  by (auto simp: rd_def)

lemma rd_in [object_simps]: "i < length m \<Longrightarrow> rd m i = Some (m ! i)"
  by (simp add: rd_def)

lemma rd_out [object_simps]: "length m \<le> i \<Longrightarrow> rd m i = None"
  by (simp add: rd_def)

lemma wr_in [object_simps]: "i < length m \<Longrightarrow> wr m i v = Some (m[i := v])"
  by (simp add: wr_def)

lemma wr_length: "wr m i v = Some m' \<Longrightarrow> length m' = length m"
  by (auto simp: wr_def split: if_splits)

lemma rd_append_mid [simp]: "rd (xs @ y # ys) (length xs) = Some y"
  by (simp add: rd_def)

lemma rd_append_shift [simp]: "rd (xs @ ys) (length xs + i) = rd ys i"
  by (simp add: rd_def)

lemma rd_Cons_0 [simp]: "rd (x # xs) 0 = Some x"
  by (simp add: rd_def)

lemma rd_Cons_Suc [simp]: "rd (x # xs) (Suc i) = rd xs i"
  by (simp add: rd_def)

lemma rd_Nil [simp]: "rd [] i = None"
  by (simp add: rd_def)

lemma wr_append_mid: "wr (xs @ y # ys) (length xs) v = Some (xs @ v # ys)"
  by (simp add: wr_def list_update_append)

lemma cstr_no_nul: "0 \<notin> set s \<Longrightarrow> cstr s = s"
  unfolding cstr_def by (induction s) auto

lemma cstr_append_nul: "0 \<notin> set s \<Longrightarrow> cstr (s @ 0 # t) = s"
  unfolding cstr_def by (induction s) auto

lemma cstr_no_zero: "0 \<notin> set (cstr s)"
  unfolding cstr_def by (induction s) auto

lemma cstr_idem [simp]: "cstr (cstr s) = cstr s"
  by (simp add: cstr_no_nul cstr_no_zero)

section \<open>Results with errors\<close>

text \<open>Going on with the value of a result; an error ends the computation.\<close>

definition bind_r :: "'e + 'a \<Rightarrow> ('a \<Rightarrow> 'e + 'b) \<Rightarrow> 'e + 'b" where
  "bind_r m f = (case m of Inl e \<Rightarrow> Inl e | Inr x \<Rightarrow> f x)"

lemma bind_r_simps [simp]: "bind_r (Inr x) f = f x" "bind_r (Inl e) f = Inl e"
  by (simp_all add: bind_r_def)

section \<open>Words\<close>

text \<open>
  Bytes bit by bit: an equation between bytes, and a comparison with a power of two,
  become statements on the eight bits, which the simplifier decides.
\<close>

lemma byte_high [simp]: "8 \<le> n \<Longrightarrow> \<not> bit (b::u8) n"
  using bit_imp_le_length [of b n] by auto

lemma byte_bits:
  "(a::u8) = b \<longleftrightarrow> (bit a 0 = bit b 0 \<and> bit a 1 = bit b 1 \<and> bit a 2 = bit b 2 \<and> bit a 3 = bit b 3
     \<and> bit a 4 = bit b 4 \<and> bit a 5 = bit b 5 \<and> bit a 6 = bit b 6 \<and> bit a 7 = bit b 7)"
  (is "_ \<longleftrightarrow> ?bits")
proof
  assume h: ?bits
  show "a = b"
  proof (rule bit_word_eqI)
    fix n
    assume "n < LENGTH(8)"
    then have "n = 0 \<or> n = 1 \<or> n = 2 \<or> n = 3 \<or> n = 4 \<or> n = 5 \<or> n = 6 \<or> n = 7" by auto
    with h show "bit a n = bit b n" by auto
  qed
qed auto

lemma unat_less_u8: "unat (w::u8) < 256"
  by (rule order_less_le_trans [OF unsigned_less]) simp

lemma byte_bit_unat: "bit (b::u8) n \<longleftrightarrow> n < 8 \<and> odd (unat b div 2 ^ n)"
proof -
  have "bit (unat b) n = (n < 8 \<and> bit b n)"
    by (auto simp: bit_unsigned_iff dest: bit_imp_le_length)
  moreover have "bit b n \<Longrightarrow> n < 8" by (auto dest: bit_imp_le_length)
  ultimately show ?thesis by (auto simp: bit_iff_odd)
qed

lemma byte_top_bits:
  "(b::u8) < 128 \<longleftrightarrow> \<not> bit b 7" "(b::u8) > 0xbf \<longleftrightarrow> bit b 7 \<and> bit b 6"
proof -
  consider "unat b div 64 = 0" "unat b div 128 = 0" "unat b < 64"
    | "unat b div 64 = 1" "unat b div 128 = 0" "64 \<le> unat b" "unat b < 128"
    | "unat b div 64 = 2" "unat b div 128 = 1" "128 \<le> unat b" "unat b < 192"
    | "unat b div 64 = 3" "unat b div 128 = 1" "192 \<le> unat b"
    using unat_less_u8 [of b] by linarith
  then show "(b::u8) < 128 \<longleftrightarrow> \<not> bit b 7" "(b::u8) > 0xbf \<longleftrightarrow> bit b 7 \<and> bit b 6"
    by (cases; simp add: byte_bit_unat word_less_nat_alt)+
qed

lemma byte_less: "(a::u8) < 2 ^ k \<Longrightarrow> take_bit k a = a"
  using less_mask_eq [of a k] by (simp add: take_bit_eq_mask)

lemma ucast_ucast_byte:
  assumes "(x::u32) < 256"
  shows "ucast (ucast x :: u8) = x"
proof -
  have "take_bit 8 x = x"
    using assms less_mask_eq [of x 8] by (simp add: take_bit_eq_mask)
  then show ?thesis by (simp add: unsigned_ucast_eq)
qed

lemma ucast_up_down_byte: "ucast (ucast (c::u8) :: u32) = c"
  by (rule bit_word_eqI) (simp add: bit_simps)

lemma drop_bit_less:
  fixes x :: "'a::len word"
  assumes "unat x < 2 ^ (n + k)"
  shows "unat (drop_bit n x) < 2 ^ k"
proof -
  have "unat x div 2 ^ n < 2 ^ k"
    using assms by (simp add: power_add less_mult_imp_div_less mult.commute)
  then have "drop_bit n (unat x) < 2 ^ k" by (simp add: drop_bit_eq_div)
  then show ?thesis by (simp add: unat_drop_bit_eq)
qed

lemma unat_less_u64: "unat (w::u64) < 2 ^ 64"
  by (rule order_less_le_trans [OF unsigned_less]) simp

lemma unat_of_nat_u64: "n < 2 ^ 64 \<Longrightarrow> unat (word_of_nat n :: u64) = n"
  by (simp add: unsigned_of_nat take_bit_nat_eq_self)

lemma unat_less_u32: "unat (w::u32) < 2 ^ 32"
  by (rule order_less_le_trans [OF unsigned_less]) simp

lemma unat_of_nat_u32: "n < 2 ^ 32 \<Longrightarrow> unat (word_of_nat n :: u32) = n"
  by (simp add: unsigned_of_nat take_bit_nat_eq_self)

lemma unat_ucast_u32_u64: "unat (ucast (w::u32) :: u64) = unat w"
  using unat_less_u32 [of w] by (simp add: unsigned_ucast_eq take_bit_nat_eq_self)

text \<open>Lengths in words of 32 bits, as the protocol counts them, and the bytes missing to the next word.\<close>

definition bytes_to_int32 :: "nat \<Rightarrow> nat" where
  "bytes_to_int32 n = (n + 3) div 4"

definition padding_for_int32 :: "nat \<Rightarrow> nat" where
  "padding_for_int32 n = nat ((- int n) mod 4)"

end
