(* ===== verification/Clipboard_Text.thy ===== *)
theory Clipboard_Text
  imports Prelude
begin

unbundle bit_operations_syntax

text \<open>
  The text conversions at the top of \<^verbatim>\<open>lorie/clipboard.c\<close>: removal of carriage returns,
  Latin-1 to UTF-8, the UTF-8 check, decoding of one UTF-8 character and UTF-8 to Latin-1.
  Every pointer access of the C loops is a checked access of the object the pointer walks
  over; \<open>None\<close> means that the C code reads or writes outside that object.
\<close>

section \<open>The conversions as the code has them\<close>

text \<open>\<open>lorieConvertLF\<close>: the copy loop with its two indices \<open>i\<close> and \<open>j\<close>.\<close>

function convertLF_loop :: "bytes \<Rightarrow> nat \<Rightarrow> nat \<Rightarrow> nat \<Rightarrow> bytes \<Rightarrow> bytes option" where
  "convertLF_loop src n i j dst =
     (if i < n then
        do { c \<leftarrow> rd src i;
             (if c \<noteq> 0x0d then
                do { dst' \<leftarrow> wr dst j c; convertLF_loop src n (i + 1) (j + 1) dst' }
              else convertLF_loop src n (i + 1) j dst) }
      else Some dst)"
  by pat_completeness auto
termination
  by (relation "measure (\<lambda>(src, n, i, j, dst). n - i)") auto

declare convertLF_loop.simps [simp del]

definition lorieConvertLF :: "bytes \<Rightarrow> bytes \<Rightarrow> nat \<Rightarrow> bytes option" where
  "lorieConvertLF src dst n = convertLF_loop src n 0 0 dst"

text \<open>\<open>lorieLatin1ToUTF8\<close>: \<open>i\<close> walks over \<open>in\<close>, \<open>j\<close> over \<open>out\<close>, until the NUL of \<open>in\<close>.\<close>

function latin1_loop :: "bytes \<Rightarrow> nat \<Rightarrow> bytes \<Rightarrow> nat \<Rightarrow> bytes option" where
  "latin1_loop inp i out j =
     (case rd inp i of
        None \<Rightarrow> None
      | Some c \<Rightarrow>
          if c = 0 then Some out
          else if c < 128 then
            do { out1 \<leftarrow> wr out j c; latin1_loop inp (i + 1) out1 (j + 1) }
          else
            do { out1 \<leftarrow> wr out j (0xc2 + (if c > 0xbf then 1 else 0));
                 out2 \<leftarrow> wr out1 (j + 1) ((c AND 0x3f) + 0x80);
                 latin1_loop inp (i + 1) out2 (j + 2) })"
  by pat_completeness auto
termination
  by (relation "measure (\<lambda>(inp, i, out, j). length inp - i)") (auto simp: rd_Some_iff)

declare latin1_loop.simps [simp del]

definition lorieLatin1ToUTF8 :: "bytes \<Rightarrow> bytes \<Rightarrow> bytes option" where
  "lorieLatin1ToUTF8 out inp = latin1_loop inp 0 out 0"

text \<open>
  \<open>lorieCheckUTF8\<close>: the loop condition reads \<open>utf[ix]\<close> before it compares \<open>ix\<close> with
  \<open>size\<close>, and the continuation bytes are read without any comparison.
\<close>

function checkUTF8_loop :: "bytes \<Rightarrow> nat \<Rightarrow> nat \<Rightarrow> bool option" where
  "checkUTF8_loop utf n ix =
     (case rd utf ix of
        None \<Rightarrow> None
      | Some c \<Rightarrow>
          if \<not> (c \<noteq> 0 \<and> ix < n) then Some True
          else if c AND 0x80 \<noteq> 0 then
            do { c1 \<leftarrow> rd utf (ix + 1);
                 (if c1 AND 0xc0 \<noteq> 0x80 then Some False
                  else if c AND 0xe0 = 0xe0 then
                    do { c2 \<leftarrow> rd utf (ix + 2);
                         (if c2 AND 0xc0 \<noteq> 0x80 then Some False
                          else if c AND 0xf0 = 0xf0 then
                            (if c AND 0xf8 \<noteq> 0xf0 then Some False
                             else do { c3 \<leftarrow> rd utf (ix + 3);
                                       (if c3 AND 0xc0 \<noteq> 0x80 then Some False
                                        else checkUTF8_loop utf n (ix + 4)) })
                          else checkUTF8_loop utf n (ix + 3)) }
                  else checkUTF8_loop utf n (ix + 2)) }
          else checkUTF8_loop utf n (ix + 1))"
  by pat_completeness auto
termination
  by (relation "measure (\<lambda>(utf, n, ix). length utf - ix)") (auto simp: rd_Some_iff)

declare checkUTF8_loop.simps [simp del]

definition lorieCheckUTF8 :: "bytes \<Rightarrow> nat \<Rightarrow> bool option" where
  "lorieCheckUTF8 utf n = checkUTF8_loop utf n 0"

text \<open>
  \<open>lorieUtf8ToUCS4\<close> decodes the character at index \<open>p\<close> of the object \<open>m\<close>. \<open>mx\<close> is the
  \<open>size_t max\<close>; the result is the number of bytes consumed and the code point.
\<close>

function ucs4_skip :: "bytes \<Rightarrow> nat \<Rightarrow> u64 \<Rightarrow> nat \<Rightarrow> nat option" where
  "ucs4_skip m p mx consumed =
     (if mx = 0 then Some consumed
      else case rd m p of
             None \<Rightarrow> None
           | Some s \<Rightarrow> if s AND 0xc0 = 0x80 then ucs4_skip m (p + 1) (mx - 1) (consumed + 1)
                       else Some consumed)"
  by pat_completeness auto
termination
  by (relation "measure (\<lambda>(m, p, mx, consumed). length m - p)") (auto simp: rd_Some_iff)

declare ucs4_skip.simps [simp del]

fun ucs4_cont :: "bytes \<Rightarrow> nat \<Rightarrow> u64 \<Rightarrow> nat \<Rightarrow> u32 \<Rightarrow> nat \<Rightarrow> (nat \<times> u32) option" where
  "ucs4_cont m p mx 0 dst consumed =
     Some (consumed, if 0xd800 \<le> dst \<and> dst < 0xe000 then 0xfffd else dst)"
| "ucs4_cont m p mx (Suc count) dst consumed =
     (if mx = 0 then Some (consumed + 1, 0xfffd)
      else do { s \<leftarrow> rd m p;
                (if s AND 0xc0 \<noteq> 0x80 then Some (consumed + 1, 0xfffd)
                 else ucs4_cont m (p + 1) (mx - 1) count
                        (push_bit 6 dst OR ucast (s AND 0x3f)) (consumed + 1)) })"

definition lorieUtf8ToUCS4 :: "bytes \<Rightarrow> nat \<Rightarrow> u64 \<Rightarrow> (nat \<times> u32) option" where
  "lorieUtf8ToUCS4 m p mx =
     (if mx = 0 then Some (0, 0xfffd)
      else do { s \<leftarrow> rd m p;
                (if s AND 0x80 = 0 then ucs4_cont m (p + 1) (mx - 1) 0 (ucast s) 1
                 else if s AND 0xe0 = 0xc0 then
                   ucs4_cont m (p + 1) (mx - 1) 1 (ucast (s AND 0x1f)) 1
                 else if s AND 0xf0 = 0xe0 then
                   ucs4_cont m (p + 1) (mx - 1) 2 (ucast (s AND 0x0f)) 1
                 else if s AND 0xf8 = 0xf0 then
                   ucs4_cont m (p + 1) (mx - 1) 3 (ucast (s AND 0x07)) 1
                 else do { n \<leftarrow> ucs4_skip m (p + 1) (mx - 1) 1; Some (n, 0xfffd) }) })"

lemma ucs4_cont_consumed:
  "ucs4_cont m p mx k dst n = Some (len, u) \<Longrightarrow> n \<le> len"
  by (induction m p mx k dst n rule: ucs4_cont.induct)
    (auto split: if_splits Option.bind_splits)

lemma ucs4_skip_consumed: "ucs4_skip m p mx n = Some len \<Longrightarrow> n \<le> len"
proof (induction m p mx n rule: ucs4_skip.induct)
  case (1 m p mx n)
  then show ?case
    by (subst (asm) (2) ucs4_skip.simps) (force split: if_splits option.splits)
qed

lemma utf8ToUCS4_progress:
  "lorieUtf8ToUCS4 m p mx = Some (len, u) \<Longrightarrow> mx \<noteq> 0 \<Longrightarrow> 1 \<le> len \<and> p < length m"
  by (auto simp: lorieUtf8ToUCS4_def rd_Some_iff bind_eq_Some_conv
      split: if_splits dest: ucs4_cont_consumed ucs4_skip_consumed)

text \<open>
  \<open>lorieUtf8ToLatin1\<close>: the first loop counts the characters (\<open>in_len\<close> starts at
  \<open>(size_t) -1\<close>), the second fills the variable-length array \<open>out\<close> (\<open>in_len\<close> starts at
  4294967295) and \<open>strdup\<close> copies it up to its first NUL, or returns NULL.
\<close>

function latin1_count :: "bytes \<Rightarrow> nat \<Rightarrow> u64 \<Rightarrow> nat \<Rightarrow> nat option" where
  "latin1_count m p in_len sz =
     (if in_len = 0 then Some sz
      else case rd m p of
             None \<Rightarrow> None
           | Some c \<Rightarrow> if c = 0 then Some sz
               else case lorieUtf8ToUCS4 m p in_len of
                      None \<Rightarrow> None
                    | Some (len, ucs) \<Rightarrow>
                        latin1_count m (p + len) (in_len - word_of_nat len) (sz + 1))"
  by pat_completeness auto
termination
  by (relation "measure (\<lambda>(m, p, l, sz). length m - p)")
    (auto simp: rd_Some_iff dest!: utf8ToUCS4_progress)

declare latin1_count.simps [simp del]

function latin1_fill :: "bytes \<Rightarrow> nat \<Rightarrow> u64 \<Rightarrow> bytes \<Rightarrow> nat \<Rightarrow> bytes option" where
  "latin1_fill m p in_len out position =
     (if in_len = 0 then Some out
      else case rd m p of
             None \<Rightarrow> None
           | Some c \<Rightarrow> if c = 0 then Some out
               else case lorieUtf8ToUCS4 m p in_len of
                      None \<Rightarrow> None
                    | Some (len, ucs) \<Rightarrow>
                        do { out' \<leftarrow> wr out position (if ucs > 0xff then 0x3f else ucast ucs);
                             latin1_fill m (p + len) (in_len - word_of_nat len) out'
                               (position + 1) })"
  by pat_completeness auto
termination
  by (relation "measure (\<lambda>(m, p, l, out, k). length m - p)")
    (auto simp: rd_Some_iff dest!: utf8ToUCS4_progress)

declare latin1_fill.simps [simp del]

definition lorieUtf8ToLatin1 :: "bool \<Rightarrow> bytes \<Rightarrow> bytes option option" where
  "lorieUtf8ToLatin1 strdup_ok src =
     do { sz \<leftarrow> latin1_count src 0 (- 1) 0;
          out \<leftarrow> latin1_fill src 0 4294967295 (replicate (sz + 1) 0) 0;
          Some (if strdup_ok then Some (cstr out) else None) }"

section \<open>UTF-8 as the specification of the conversions\<close>

definition scalar :: "u32 \<Rightarrow> bool" where
  "scalar c \<longleftrightarrow> c < 0x110000 \<and> \<not> (0xd800 \<le> c \<and> c < 0xe000)"

definition cont_byte :: "u32 \<Rightarrow> u8" where
  "cont_byte x = 0x80 OR (ucast x AND 0x3f)"

definition utf8_enc :: "u32 \<Rightarrow> bytes" where
  "utf8_enc c =
     (if c < 0x80 then [ucast c]
      else if c < 0x800 then [0xc0 OR ucast (drop_bit 6 c), cont_byte c]
      else if c < 0x10000 then
        [0xe0 OR ucast (drop_bit 12 c), cont_byte (drop_bit 6 c), cont_byte c]
      else [0xf0 OR ucast (drop_bit 18 c), cont_byte (drop_bit 12 c),
            cont_byte (drop_bit 6 c), cont_byte c])"

definition utf8 :: "u32 list \<Rightarrow> bytes" where
  "utf8 cs = concat (map utf8_enc cs)"

lemma utf8_simps [simp]: "utf8 [] = []" "utf8 (c # cs) = utf8_enc c @ utf8 cs"
  by (simp_all add: utf8_def)

subsection \<open>Bytes of an encoded character\<close>

lemma mask_6: "(0x3f :: u32) = mask 6" "(0x3f :: u8) = mask 6"
  by (simp_all add: mask_eq_exp_minus_1)

lemma cont_byte_hi [word_facts]: "cont_byte x AND 0xc0 = 0x80"
  unfolding cont_byte_def by (simp add: byte_bits bit_simps)

lemma cont_byte_nonzero [word_facts]: "cont_byte x \<noteq> 0"
  using cont_byte_hi [of x] by auto

lemma cont_byte_lo [word_facts]: "ucast (cont_byte x AND 0x3f) = (x AND 0x3f :: u32)"
proof -
  have "(0x80 OR (ucast x AND 0x3f)) AND 0x3f = (ucast x AND 0x3f :: u8)"
    by (simp add: byte_bits bit_simps)
  then show ?thesis by (auto simp: cont_byte_def bit_eq_iff bit_simps mask_6)
qed

lemma push_drop_step [word_facts]:
  "push_bit 6 (drop_bit 6 (y::u32)) OR (y AND 0x3f) = y"
  by (auto simp: bit_eq_iff bit_simps mask_6)

text \<open>Lead bytes: the tag bits the decoder tests and the payload it extracts.\<close>

lemma lead2:
  assumes "(a::u8) < 0x20"
  shows "(0xc0 OR a) AND 0x80 \<noteq> 0" "(0xc0 OR a) AND 0xe0 = 0xc0" "(0xc0 OR a) AND 0x1f = a"
  using byte_less [of a 5] assms by (simp_all add: byte_bits bit_simps)

lemma lead3:
  assumes "(a::u8) < 0x10"
  shows "(0xe0 OR a) AND 0x80 \<noteq> 0" "(0xe0 OR a) AND 0xe0 = 0xe0" "(0xe0 OR a) AND 0xf0 = 0xe0"
    "(0xe0 OR a) AND 0x0f = a"
  using byte_less [of a 4] assms by (simp_all add: byte_bits bit_simps)

lemma lead4:
  assumes "(a::u8) < 0x08"
  shows "(0xf0 OR a) AND 0x80 \<noteq> 0" "(0xf0 OR a) AND 0xe0 = 0xe0" "(0xf0 OR a) AND 0xf0 = 0xf0"
    "(0xf0 OR a) AND 0xf8 = 0xf0" "(0xf0 OR a) AND 0x07 = a"
  using byte_less [of a 3] assms by (simp_all add: byte_bits bit_simps)

lemma ascii_byte:
  assumes "(b::u8) < 0x80"
  shows "b AND 0x80 = 0"
  using assms by (simp add: byte_top_bits byte_bits bit_simps)

lemma payload_less:
  assumes "unat (c::u32) < 2 ^ (n + k)" "k < 8"
  shows "(ucast (drop_bit n c) :: u8) < 2 ^ k"
    "ucast (ucast (drop_bit n c) :: u8) = drop_bit n c"
proof -
  have d: "unat (drop_bit n c) < 2 ^ k" using assms(1) by (rule drop_bit_less)
  have "(2::nat) ^ k < 2 ^ 8" using assms(2) by (intro power_strict_increasing) auto
  with d have l: "unat (drop_bit n c) < 256" by simp
  then show "ucast (ucast (drop_bit n c) :: u8) = drop_bit n c"
    by (intro ucast_ucast_byte) (simp add: word_less_nat_alt)
  have "unat (ucast (drop_bit n c) :: u8) = unat (drop_bit n c)"
    using l by (simp add: unsigned_ucast_eq take_bit_nat_eq_self)
  moreover have "unat (word_of_nat (2 ^ k) :: u8) = 2 ^ k"
    using \<open>(2::nat) ^ k < 2 ^ 8\<close> 
    by (simp only: unsigned_of_nat take_bit_nat_eq_self) (use assms(2) in simp)
  ultimately show "(ucast (drop_bit n c) :: u8) < 2 ^ k" using d by (simp add: word_less_nat_alt)
qed

subsection \<open>Decoding inverts encoding\<close>

lemma ucs4_cont_0: "scalar dst \<Longrightarrow> ucs4_cont m p mx 0 dst n = Some (n, dst)"
  by (auto simp: scalar_def)

lemma ucs4_cont_step:
  assumes "rd m p = Some (cont_byte x)" "mx \<noteq> 0" "drop_bit 6 x = dst"
  shows "ucs4_cont m p mx (Suc k) dst n = ucs4_cont m (p + 1) (mx - 1) k x (n + 1)"
proof -
  have "push_bit 6 dst OR ucast (cont_byte x AND 0x3f) = x"
    using push_drop_step [of x] assms(3) by (simp add: cont_byte_lo)
  with assms show ?thesis by (simp add: cont_byte_hi)
qed

lemma payload2:
  assumes "(c::u32) < 0x800"
  shows "(ucast (drop_bit 6 c) :: u8) < 0x20" "ucast (ucast (drop_bit 6 c) :: u8) = drop_bit 6 c"
  using payload_less [of c 6 5] assms by (simp_all add: word_less_nat_alt)

lemma payload3:
  assumes "(c::u32) < 0x10000"
  shows "(ucast (drop_bit 12 c) :: u8) < 0x10" "ucast (ucast (drop_bit 12 c) :: u8) = drop_bit 12 c"
  using payload_less [of c 12 4] assms by (simp_all add: word_less_nat_alt)

lemma payload4:
  assumes "(c::u32) < 0x110000"
  shows "(ucast (drop_bit 18 c) :: u8) < 0x08" "ucast (ucast (drop_bit 18 c) :: u8) = drop_bit 18 c"
  using payload_less [of c 18 3] assms by (simp_all add: word_less_nat_alt)

lemma room_nonzero:
  assumes "k \<le> unat (mx::u64)" "0 < k" "k < 5"
  shows "mx \<noteq> 0" "1 < k \<Longrightarrow> mx \<noteq> 1" "2 < k \<Longrightarrow> mx \<noteq> 2" "3 < k \<Longrightarrow> mx \<noteq> 3"
  using assms by auto

lemma decode1:
  assumes "c < 0x80" "mx \<noteq> 0" "rd m p = Some (ucast c)"
  shows "lorieUtf8ToUCS4 m p mx = Some (1, c)"
proof -
  have b: "(ucast c :: u8) < 0x80" "ucast (ucast c :: u8) = c"
    using payload_less [of c 0 7] assms(1) by (simp_all add: word_less_nat_alt)
  have "\<not> 0xd800 \<le> c" using assms(1) by (simp add: word_le_nat_alt word_less_nat_alt)
  with b assms(2,3) show ?thesis by (simp add: lorieUtf8ToUCS4_def ascii_byte)
qed

lemma decode2:
  assumes c: "scalar c" "c < 0x800" and room: "2 \<le> unat mx"
    and b: "rd m p = Some (0xc0 OR ucast (drop_bit 6 c))" "rd m (p + 1) = Some (cont_byte c)"
  shows "lorieUtf8ToUCS4 m p mx = Some (2, c)"
proof -
  note nz = room_nonzero [OF room, simplified]
  note p = payload2 [OF c(2)]
  have "lorieUtf8ToUCS4 m p mx = ucs4_cont m (p + 1) (mx - 1) (Suc 0) (drop_bit 6 c) 1"
    using b(1) nz lead2 [OF p(1)] p(2) by (simp add: lorieUtf8ToUCS4_def del: ucs4_cont.simps)
  also have "\<dots> = ucs4_cont m (p + 1 + 1) (mx - 1 - 1) 0 c (1 + 1)"
    by (rule ucs4_cont_step) (use b nz in simp_all)
  finally show ?thesis using c(1) by (simp add: ucs4_cont_0 del: ucs4_cont.simps)
qed

lemma decode3:
  assumes c: "scalar c" "c < 0x10000" and room: "3 \<le> unat mx"
    and b: "rd m p = Some (0xe0 OR ucast (drop_bit 12 c))"
      "rd m (p + 1) = Some (cont_byte (drop_bit 6 c))" "rd m (p + 2) = Some (cont_byte c)"
  shows "lorieUtf8ToUCS4 m p mx = Some (3, c)"
proof -
  note nz = room_nonzero [OF room, simplified]
  note p = payload3 [OF c(2)]
  have "lorieUtf8ToUCS4 m p mx = ucs4_cont m (p + 1) (mx - 1) 2 (drop_bit 12 c) 1"
    using b(1) nz lead3 [OF p(1)] p(2) by (simp add: lorieUtf8ToUCS4_def del: ucs4_cont.simps)
  also have "\<dots> = ucs4_cont m (p + 1) (mx - 1) (Suc (Suc 0)) (drop_bit 12 c) 1"
    by (simp only: numeral_2_eq_2)
  also have "\<dots> = ucs4_cont m (p + 1 + 1) (mx - 1 - 1) (Suc 0) (drop_bit 6 c) (1 + 1)"
    by (rule ucs4_cont_step) (use b nz in simp_all)
  also have "\<dots> = ucs4_cont m (p + 1 + 1 + 1) (mx - 1 - 1 - 1) 0 c (1 + 1 + 1)"
    by (rule ucs4_cont_step) (use b nz in simp_all)
  finally show ?thesis using c(1) by (simp add: ucs4_cont_0 numeral_3_eq_3 del: ucs4_cont.simps)
qed

lemma decode4:
  assumes c: "scalar c" and room: "4 \<le> unat mx"
    and b: "rd m p = Some (0xf0 OR ucast (drop_bit 18 c))"
      "rd m (p + 1) = Some (cont_byte (drop_bit 12 c))"
      "rd m (p + 2) = Some (cont_byte (drop_bit 6 c))" "rd m (p + 3) = Some (cont_byte c)"
  shows "lorieUtf8ToUCS4 m p mx = Some (4, c)"
proof -
  note nz = room_nonzero [OF room, simplified]
  have "c < 0x110000" using c by (simp add: scalar_def)
  note p = payload4 [OF this]
  have "lorieUtf8ToUCS4 m p mx = ucs4_cont m (p + 1) (mx - 1) 3 (drop_bit 18 c) 1"
    using b(1) nz lead4 [OF p(1)] p(2) by (simp add: lorieUtf8ToUCS4_def del: ucs4_cont.simps)
  also have "\<dots> = ucs4_cont m (p + 1) (mx - 1) (Suc (Suc (Suc 0))) (drop_bit 18 c) 1"
    by (simp only: numeral_3_eq_3)
  also have "\<dots> = ucs4_cont m (p + 1 + 1) (mx - 1 - 1) (Suc (Suc 0)) (drop_bit 12 c) (1 + 1)"
    by (rule ucs4_cont_step) (use b nz in simp_all)
  also have "\<dots> = ucs4_cont m (p + 1 + 1 + 1) (mx - 1 - 1 - 1) (Suc 0) (drop_bit 6 c) (1 + 1 + 1)"
    by (rule ucs4_cont_step) (use b nz in simp_all)
  also have "\<dots> = ucs4_cont m (p + 1 + 1 + 1 + 1) (mx - 1 - 1 - 1 - 1) 0 c (1 + 1 + 1 + 1)"
    by (rule ucs4_cont_step) (use b nz in \<open>simp_all add: numeral_3_eq_3\<close>)
  finally show ?thesis using c by (simp add: ucs4_cont_0 del: ucs4_cont.simps)
qed

lemma decode_at:
  assumes "scalar c" "length (utf8_enc c) \<le> unat mx"
  shows "lorieUtf8ToUCS4 (pre @ utf8_enc c @ post) (length pre) mx = Some (length (utf8_enc c), c)"
proof -
  let ?m = "pre @ utf8_enc c @ post"
  have r: "rd ?m (length pre + i) = rd (utf8_enc c @ post) i" for i by simp
  consider "c < 0x80" | "\<not> c < 0x80" "c < 0x800" | "\<not> c < 0x800" "\<not> c < 0x80" "c < 0x10000"
    | "\<not> c < 0x800" "\<not> c < 0x80" "\<not> c < 0x10000" by blast
  then show ?thesis
  proof cases
    case 1
    moreover from this assms have "mx \<noteq> 0" by (auto simp: utf8_enc_def)
    ultimately show ?thesis using assms decode1 [of c mx ?m "length pre"] r [of 0]
      by (auto simp: utf8_enc_def)
  next
    case 2
    then show ?thesis using assms decode2 [of c mx ?m "length pre"] r [of 0] r [of 1]
      by (auto simp: utf8_enc_def)
  next
    case 3
    then show ?thesis using assms decode3 [of c mx ?m "length pre"] r [of 0] r [of 1] r [of 2]
      by (auto simp: utf8_enc_def rd_def)
  next
    case 4
    then show ?thesis
      using assms decode4 [of c mx ?m "length pre"] r [of 0] r [of 1] r [of 2] r [of 3]
      by (auto simp: utf8_enc_def rd_def)
  qed
qed

subsection \<open>Whole strings\<close>

lemma utf8_enc_len: "1 \<le> length (utf8_enc c)" "length (utf8_enc c) \<le> 4"
  by (auto simp: utf8_enc_def)

lemma utf8_enc_nonzero:
  assumes "c \<noteq> 0" "scalar c"
  shows "0 \<notin> set (utf8_enc c)"
proof -
  have nz: "(0xc0 OR a :: u8) \<noteq> 0" "(0xe0 OR a :: u8) \<noteq> 0" "(0xf0 OR a :: u8) \<noteq> 0" for a
    by (simp_all add: byte_bits bit_simps)
  have "c < 0x80 \<Longrightarrow> (ucast c :: u8) \<noteq> 0"
    using assms(1) payload_less(2) [of c 0 7]
    by (auto simp: word_less_nat_alt)
  with nz show ?thesis
    by (simp add: utf8_enc_def cont_byte_nonzero [symmetric] cont_byte_nonzero)
qed

lemma utf8_enc_hd:
  assumes "c \<noteq> 0" "scalar c"
  shows "\<exists>b bs. utf8_enc c = b # bs \<and> b \<noteq> 0"
  using utf8_enc_nonzero [OF assms] utf8_enc_len(1) [of c] by (cases "utf8_enc c") auto

lemma rd_enc:
  assumes "c \<noteq> 0" "scalar c"
  shows "\<exists>b. rd (pre @ utf8_enc c @ post) (length pre) = Some b \<and> b \<noteq> 0"
  using utf8_enc_hd [OF assms] by auto

lemma unat_minus_len:
  "n \<le> unat (w::u64) \<Longrightarrow> unat (w - word_of_nat n) = unat w - n"
  using unat_less_u64 [of w] by (simp add: unat_sub_if' unat_of_nat_u64)

definition to_latin1 :: "u32 \<Rightarrow> u8" where
  "to_latin1 c = (if c > 0xff then 0x3f else ucast c)"

lemma latin1_count_utf8:
  assumes "\<forall>c\<in>set cs. c \<noteq> 0 \<and> scalar c" "length (utf8 cs) < unat L"
  shows "latin1_count (pre @ utf8 cs @ 0 # post) (length pre) L sz = Some (sz + length cs)"
  using assms
proof (induction cs arbitrary: pre L sz)
  case Nil
  then show ?case by (subst latin1_count.simps) auto
next
  case (Cons c cs)
  let ?m = "pre @ utf8_enc c @ utf8 cs @ 0 # post"
  from Cons.prems have c: "c \<noteq> 0" "scalar c" and L: "L \<noteq> 0" by auto
  have n: "length (utf8_enc c) \<le> unat L" using Cons.prems(2) by simp
  obtain b where b: "rd ?m (length pre) = Some b" "b \<noteq> 0"
    using rd_enc [OF c, of pre "utf8 cs @ 0 # post"] by auto
  have d: "lorieUtf8ToUCS4 ?m (length pre) L = Some (length (utf8_enc c), c)"
    using decode_at [OF c(2) n, of pre "utf8 cs @ 0 # post"] by simp
  have "latin1_count ?m (length (pre @ utf8_enc c)) (L - word_of_nat (length (utf8_enc c))) (sz + 1)
      = Some (sz + 1 + length cs)"
    using Cons.IH [of "L - word_of_nat (length (utf8_enc c))" "pre @ utf8_enc c" "sz + 1"]
      Cons.prems n by (simp add: unat_minus_len)
  then show ?case by (subst latin1_count.simps) (simp add: L b d)
qed

lemma latin1_fill_utf8:
  assumes "\<forall>c\<in>set cs. c \<noteq> 0 \<and> scalar c" "length (utf8 cs) < unat L" "length cs \<le> length rest"
  shows "latin1_fill (pre @ utf8 cs @ 0 # post) (length pre) L (done @ rest) (length done)
    = Some (done @ map to_latin1 cs @ drop (length cs) rest)"
  using assms
proof (induction cs arbitrary: pre L "done" rest)
  case Nil
  then show ?case by (subst latin1_fill.simps) auto
next
  case (Cons c cs)
  let ?m = "pre @ utf8_enc c @ utf8 cs @ 0 # post"
  from Cons.prems have c: "c \<noteq> 0" "scalar c" and L: "L \<noteq> 0" by auto
  have n: "length (utf8_enc c) \<le> unat L" using Cons.prems(2) by simp
  obtain r0 rest' where rest: "rest = r0 # rest'" using Cons.prems(3) by (cases rest) auto
  obtain b where b: "rd ?m (length pre) = Some b" "b \<noteq> 0"
    using rd_enc [OF c, of pre "utf8 cs @ 0 # post"] by auto
  have d: "lorieUtf8ToUCS4 ?m (length pre) L = Some (length (utf8_enc c), c)"
    using decode_at [OF c(2) n, of pre "utf8 cs @ 0 # post"] by simp
  have w: "wr (done @ r0 # rest') (length done) (to_latin1 c) = Some ((done @ [to_latin1 c]) @ rest')"
    by (simp add: wr_append_mid)
  have "latin1_fill ?m (length (pre @ utf8_enc c)) (L - word_of_nat (length (utf8_enc c)))
          ((done @ [to_latin1 c]) @ rest') (length (done @ [to_latin1 c]))
      = Some ((done @ [to_latin1 c]) @ map to_latin1 cs @ drop (length cs) rest')"
    using Cons.IH [of "L - word_of_nat (length (utf8_enc c))" rest' "pre @ utf8_enc c"
        "done @ [to_latin1 c]"] Cons.prems n rest by (simp add: unat_minus_len)
  then show ?case
    using w by (subst latin1_fill.simps) (simp add: L b d rest to_latin1_def [symmetric])
qed

lemma drop_zero: "drop n (replicate (Suc n) x) = [x]"
  by (induction n) auto

lemma utf8ToLatin1_valid:
  assumes cs: "\<forall>c\<in>set cs. c \<noteq> 0 \<and> scalar c" and len: "length (utf8 cs) < 4294967295"
  shows "lorieUtf8ToLatin1 ok (utf8 cs @ 0 # post) =
    Some (if ok then Some (cstr (map to_latin1 cs)) else None)"
proof -
  have "unat (- 1 :: u64) = 18446744073709551615" by (simp add: unsigned_minus_1_eq_mask mask_eq_exp_minus_1)
  then have "latin1_count (utf8 cs @ 0 # post) 0 (- 1) 0 = Some (length cs)"
    using latin1_count_utf8 [OF cs, of "- 1" "[]" post 0] len by simp
  moreover have "latin1_fill (utf8 cs @ 0 # post) 0 4294967295 (replicate (length cs + 1) 0) 0
      = Some (map to_latin1 cs @ [0])"
    using latin1_fill_utf8 [OF cs, of 4294967295 "replicate (length cs + 1) 0" "[]" post "[]"] len
    by (simp add: drop_zero del: replicate_Suc drop_replicate)
  moreover have "cstr (map to_latin1 cs @ [0]) = cstr (map to_latin1 cs)"
    unfolding cstr_def by (induction cs) auto
  ultimately show ?thesis by (simp add: lorieUtf8ToLatin1_def)
qed

subsection \<open>The check, the filter and the Latin-1 encoder\<close>

lemma check1:
  assumes "rd m ix = Some b" "b \<noteq> 0" "b < 0x80" "ix < n"
  shows "checkUTF8_loop m n ix = checkUTF8_loop m n (ix + 1)"
  using assms by (subst checkUTF8_loop.simps) (simp add: ascii_byte)

lemma check2:
  assumes "rd m ix = Some (0xc0 OR a)" "a < 0x20" "rd m (ix + 1) = Some (cont_byte x)" "ix < n"
  shows "checkUTF8_loop m n ix = checkUTF8_loop m n (ix + 2)"
  using assms lead2 [OF assms(2)] by (subst checkUTF8_loop.simps) (auto simp: cont_byte_hi)

lemma check3:
  assumes "rd m ix = Some (0xe0 OR a)" "a < 0x10" "rd m (ix + 1) = Some (cont_byte x)"
    "rd m (ix + 2) = Some (cont_byte y)" "ix < n"
  shows "checkUTF8_loop m n ix = checkUTF8_loop m n (ix + 3)"
  using assms lead3 [OF assms(2)] by (subst checkUTF8_loop.simps) (auto simp: cont_byte_hi)

lemma check4:
  assumes "rd m ix = Some (0xf0 OR a)" "a < 0x08" "rd m (ix + 1) = Some (cont_byte x)"
    "rd m (ix + 2) = Some (cont_byte y)" "rd m (ix + 3) = Some (cont_byte z)" "ix < n"
  shows "checkUTF8_loop m n ix = checkUTF8_loop m n (ix + 4)"
  using assms lead4 [OF assms(2)] by (subst checkUTF8_loop.simps) (auto simp: cont_byte_hi)

lemma check_step:
  assumes c: "c \<noteq> 0" "scalar c" and ix: "length pre < n"
  shows "checkUTF8_loop (pre @ utf8_enc c @ post) n (length pre) =
    checkUTF8_loop (pre @ utf8_enc c @ post) n (length pre + length (utf8_enc c))"
proof -
  let ?m = "pre @ utf8_enc c @ post" and ?p = "length pre"
  have r: "rd ?m (?p + i) = rd (utf8_enc c @ post) i" for i by simp
  have lt: "c < 0x110000" using c by (simp add: scalar_def)
  consider "c < 0x80" | "\<not> c < 0x80" "c < 0x800" | "\<not> c < 0x800" "\<not> c < 0x80" "c < 0x10000"
    | "\<not> c < 0x800" "\<not> c < 0x80" "\<not> c < 0x10000" by blast
  then show ?thesis
  proof cases
    case 1
    then have "utf8_enc c = [ucast c]" "(ucast c :: u8) < 0x80"
      using payload_less [of c 0 7] by (simp_all add: utf8_enc_def word_less_nat_alt)
    then show ?thesis
      using check1 [of ?m ?p "ucast c" n] utf8_enc_nonzero [OF c] r [of 0] ix by simp
  next
    case 2
    then have "utf8_enc c = [0xc0 OR ucast (drop_bit 6 c), cont_byte c]"
      by (simp add: utf8_enc_def)
    then show ?thesis
      using check2 [of ?m ?p "ucast (drop_bit 6 c)" c n] payload2 [OF 2(2)] r [of 0] r [of 1] ix
      by simp
  next
    case 3
    then have e: "utf8_enc c =
        [0xe0 OR ucast (drop_bit 12 c), cont_byte (drop_bit 6 c), cont_byte c]"
      by (simp add: utf8_enc_def)
    have "checkUTF8_loop ?m n ?p = checkUTF8_loop ?m n (?p + 3)"
      using r [of 0] r [of 1] r [of 2] e ix payload3 [OF 3(3)]
      by (intro check3 [of ?m ?p "ucast (drop_bit 12 c)" "drop_bit 6 c" c n]) (simp_all add: rd_def)
    moreover have "length (utf8_enc c) = 3" using e by simp
    ultimately show ?thesis by (simp only:)
  next
    case 4
    then have e: "utf8_enc c = [0xf0 OR ucast (drop_bit 18 c), cont_byte (drop_bit 12 c),
        cont_byte (drop_bit 6 c), cont_byte c]"
      by (simp add: utf8_enc_def)
    have "checkUTF8_loop ?m n ?p = checkUTF8_loop ?m n (?p + 4)"
      using r [of 0] r [of 1] r [of 2] r [of 3] e ix payload4 [OF lt]
      by (intro check4 [of ?m ?p "ucast (drop_bit 18 c)" "drop_bit 12 c" "drop_bit 6 c" c n])
        (simp_all add: rd_def)
    moreover have "length (utf8_enc c) = 4" using e by simp
    ultimately show ?thesis by (simp only:)
  qed
qed

lemma check_utf8:
  assumes "\<forall>c\<in>set cs. c \<noteq> 0 \<and> scalar c"
  shows "checkUTF8_loop (pre @ utf8 cs @ post) (length pre + length (utf8 cs)) (length pre) =
    (if post = [] then None else Some True)"
  using assms
proof (induction cs arbitrary: pre)
  case Nil
  then show ?case by (subst checkUTF8_loop.simps) (auto simp: rd_def)
next
  case (Cons c cs)
  have "0 < length (utf8_enc c)" using utf8_enc_len(1) [of c] by linarith
  then have "checkUTF8_loop (pre @ utf8_enc c @ utf8 cs @ post)
      (length pre + length (utf8 (c # cs))) (length pre) =
    checkUTF8_loop ((pre @ utf8_enc c) @ utf8 cs @ post)
      (length (pre @ utf8_enc c) + length (utf8 cs)) (length (pre @ utf8_enc c))"
    using check_step [of c pre "length pre + length (utf8 (c # cs))" "utf8 cs @ post"] Cons.prems
    by (simp add: add.assoc)
  then show ?case using Cons.IH [of "pre @ utf8_enc c"] Cons.prems by simp
qed

lemma convertLF_loop_filter:
  assumes "i \<le> n" "n \<le> length src" "n - i \<le> length rest"
  shows "convertLF_loop src n i (length done) (done @ rest) =
    Some (done @ filter (\<lambda>c. c \<noteq> 0x0d) (drop i (take n src)) @
      drop (length (filter (\<lambda>c. c \<noteq> 0x0d) (drop i (take n src)))) rest)"
  using assms
proof (induction "n - i" arbitrary: i "done" rest)
  case 0
  then show ?case by (subst convertLF_loop.simps) simp
next
  case (Suc k)
  then have i: "i < n" "i < length src" by auto
  have d: "drop i (take n src) = src ! i # drop (i + 1) (take n src)"
    using i by (simp add: Cons_nth_drop_Suc [symmetric])
  show ?case
  proof (cases "src ! i = 0x0d")
    case True
    have "convertLF_loop src n i (length done) (done @ rest) =
        convertLF_loop src n (i + 1) (length done) (done @ rest)"
      using i True by (subst convertLF_loop.simps) (simp add: rd_in)
    with Suc i True d show ?thesis by simp
  next
    case False
    obtain r0 rest' where rest: "rest = r0 # rest'" using Suc.prems(3) i by (cases rest) auto
    have "convertLF_loop src n i (length done) (done @ rest) =
        convertLF_loop src n (i + 1) (length (done @ [src ! i])) ((done @ [src ! i]) @ rest')"
      using i False by (subst convertLF_loop.simps) (simp add: rd_in rest wr_append_mid)
    with Suc.hyps(1) [of "i + 1" rest' "done @ [src ! i]"] Suc.hyps(2) Suc.prems i d False rest
    show ?thesis by simp
  qed
qed

lemma convertLF_filter:
  assumes "n \<le> length src" "n \<le> length dst"
  shows "lorieConvertLF src dst n =
    (let f = filter (\<lambda>c. c \<noteq> 0x0d) (take n src) in Some (f @ drop (length f) dst))"
  using convertLF_loop_filter [of 0 n src dst "[]"] assms by (simp add: lorieConvertLF_def Let_def)

text \<open>Each Latin-1 byte is written as the UTF-8 encoding of the code point it names.\<close>

lemma latin1_bytes:
  "(c::u8) < 128 \<Longrightarrow> utf8_enc (ucast c) = [c]"
  "\<not> c < 128 \<Longrightarrow> utf8_enc (ucast c) =
     [0xc2 + (if c > 0xbf then 1 else 0), (c AND 0x3f) + 0x80]"
proof -
  have b: "unat c < 256" by (rule unat_less_u8)
  then have lt: "unat (ucast c :: u32) = unat c"
    by (simp add: unsigned_ucast_eq take_bit_nat_eq_self)
  have dn: "ucast (ucast c :: u32) = c" by (rule ucast_up_down_byte)
  have dr: "ucast (drop_bit 6 (ucast c :: u32)) = drop_bit 6 c"
    by (rule bit_word_eqI) (simp add: bit_simps)
  show "utf8_enc (ucast c) = [c]" if "c < 128"
    using that lt dn by (simp add: utf8_enc_def word_less_nat_alt)
  show "utf8_enc (ucast c) = [0xc2 + (if c > 0xbf then 1 else 0), (c AND 0x3f) + 0x80]"
    if "\<not> c < 128"
  proof -
    have "(c AND 0x3f) AND 0x80 = 0" by (simp add: byte_bits bit_simps)
    then have "(c AND 0x3f) + 0x80 = 0x80 OR (c AND 0x3f)"
      by (simp add: disjunctive_add_eq_or or.commute)
    moreover have "0xc0 OR drop_bit 6 c = 0xc2 + (if c > 0xbf then 1 else 0)"
      using that by (auto simp: byte_top_bits byte_bits bit_simps)
    ultimately show ?thesis
      using that lt b dn dr by (simp add: utf8_enc_def cont_byte_def word_less_nat_alt)
  qed
qed

lemma latin1_loop_utf8:
  assumes "0 \<notin> set s" "2 * length s \<le> length rest"
  shows "latin1_loop (pre @ s @ 0 # post) (length pre) (done @ rest) (length done) =
    Some (done @ utf8 (map ucast s) @ drop (length (utf8 (map ucast s))) rest)"
  using assms
proof (induction s arbitrary: pre "done" rest)
  case Nil
  then show ?case by (subst latin1_loop.simps) simp
next
  case (Cons c s)
  then have c: "c \<noteq> 0" by auto
  let ?m = "pre @ c # s @ 0 # post"
  let ?e = "utf8_enc (ucast c)"
  obtain r0 r1 rest' where rest: "rest = r0 # r1 # rest'"
    using Cons.prems(2) by (cases rest; cases "tl rest") auto
  have "latin1_loop ?m (length pre) (done @ rest) (length done) =
      latin1_loop ?m (length (pre @ [c])) ((done @ ?e) @ drop (length ?e) rest) (length (done @ ?e))"
  proof (cases "c < 128")
    case True
    then show ?thesis
      using c rest by (subst latin1_loop.simps) (simp add: latin1_bytes(1) wr_append_mid)
  next
    case False
    have w: "wr (done @ x # r1 # rest') (length done + 1) y = Some (done @ x # y # rest')" for x y
      using wr_append_mid [of "done @ [x]" r1 rest' y] by simp
    show ?thesis
      using False c rest
      by (subst latin1_loop.simps) (simp add: latin1_bytes(2) wr_append_mid w [simplified])
  qed
  also have "\<dots> = Some ((done @ ?e) @ utf8 (map ucast s) @
      drop (length (utf8 (map ucast s))) (drop (length ?e) rest))"
    using Cons.IH [of "drop (length ?e) rest" "pre @ [c]" "done @ ?e"] Cons.prems rest
    by (cases "c < 128") (simp_all add: latin1_bytes)
  finally show ?case by (simp add: add.commute)
qed

lemma utf8ToLatin1_map:
  assumes "\<forall>c\<in>set cs. c \<noteq> 0 \<and> scalar c" "length (utf8 cs) < 4294967295"
  shows "lorieUtf8ToLatin1 True (utf8 cs @ 0 # post) =
    Some (Some (map (\<lambda>c. if c > 0xff then 0x3f else ucast c) cs))"
proof -
  have "to_latin1 c \<noteq> 0" if "c \<noteq> 0" for c
  proof (cases "c > 0xff")
    case False
    then have "ucast (ucast c :: u8) = c"
      by (intro ucast_ucast_byte) (simp add: word_less_nat_alt not_less word_le_nat_alt)
    with that False show ?thesis by (auto simp: to_latin1_def)
  qed (simp add: to_latin1_def)
  with assms(1) have "0 \<notin> set (map to_latin1 cs)" by force
  with utf8ToLatin1_valid [OF assms, of True post] show ?thesis
    by (simp add: cstr_no_nul to_latin1_def)
qed

section \<open>Properties of the conversions\<close>

text \<open>decoding with \<open>lorieUtf8ToUCS4\<close> inverts UTF-8 encoding: wherever the encoding of a
  Unicode scalar value stands in an object, the decoder consumes exactly its bytes and
  returns that value.\<close>

theorem utf8_decode_encode:
  assumes "scalar c" "length (utf8_enc c) \<le> unat mx"
  shows "lorieUtf8ToUCS4 (pre @ utf8_enc c @ post) (length pre) mx = Some (length (utf8_enc c), c)"
  using assms by (rule decode_at)

theorem utf8_decode_encode_witness:
  "lorieUtf8ToUCS4 ([0x41] @ utf8_enc 0x20ac @ [0]) 1 4 = Some (3, 0x20ac)"
proof -
  have h: "scalar 0x20ac" "length (utf8_enc 0x20ac) \<le> unat (4 :: u64)"
    by (simp_all add: scalar_def utf8_enc_def)
  have "length (utf8_enc 0x20ac) = 3" by (simp add: utf8_enc_def)
  with utf8_decode_encode [OF h, of "[0x41]" "[0]"] show ?thesis by (simp only: list.size) simp
qed

text \<open>on every NUL-terminated, well-formed UTF-8 text shorter than 4 GiB - 1 bytes,
  \<open>lorieUtf8ToLatin1\<close> stays inside its buffers and yields one Latin-1 byte per character, with
  a question mark for every character above U+00FF.\<close>

theorem utf8ToLatin1_correct:
  assumes "\<forall>c\<in>set cs. c \<noteq> 0 \<and> scalar c" "length (utf8 cs) < 4294967295"
  shows "lorieUtf8ToLatin1 True (utf8 cs @ 0 # post) =
    Some (Some (map (\<lambda>c. if c > 0xff then 0x3f else ucast c) cs))"
  using assms by (rule utf8ToLatin1_map)

theorem utf8ToLatin1_correct_witness:
  "lorieUtf8ToLatin1 True (utf8 [0x41, 0xe9, 0x20ac] @ [0]) = Some (Some [0x41, 0xe9, 0x3f])"
  using utf8ToLatin1_correct [of "[0x41, 0xe9, 0x20ac]" "[]"]
  by (simp add: scalar_def utf8_enc_def)

text \<open>C11: text that leaves X as a Latin-1 \<open>STRING\<close> property and comes back is unchanged:
  \<open>lorieLatin1ToUTF8\<close> fits into the buffer \<open>lorieHandleSelection\<close> gives it, and
  \<open>lorieUtf8ToLatin1\<close> of its result is the original string.\<close>

theorem latin1_utf8_roundtrip:
  assumes "0 \<notin> set s" "length s < 2147483647"
  shows "\<exists>buf. lorieLatin1ToUTF8 (replicate ((length s + 1) * 2) 0) (s @ [0]) = Some buf
    \<and> lorieUtf8ToLatin1 True buf = Some (Some s)"
proof -
  let ?cs = "map ucast s :: u32 list" and ?buf = "replicate ((length s + 1) * 2) (0::u8)"
  have len: "length (utf8 (map ucast t)) \<le> 2 * length t" for t :: bytes
  proof (induction t)
    case (Cons c t)
    then show ?case by (cases "c < 128") (simp_all add: latin1_bytes)
  qed simp
  define k where "k = (length s + 1) * 2 - length (utf8 ?cs) - 1"
  have "drop (length (utf8 ?cs)) ?buf = 0 # replicate k 0"
    using len [of s] by (simp add: k_def Suc_diff_le flip: replicate_Suc)
  then have l: "lorieLatin1ToUTF8 ?buf (s @ [0]) = Some (utf8 ?cs @ 0 # replicate k 0)"
    using latin1_loop_utf8 [of s ?buf "[]" "[]" "[]"] assms(1) by (simp add: lorieLatin1ToUTF8_def)
  have small: "\<not> (ucast c :: u32) > 0xff" "ucast (ucast c :: u32) = c" for c :: u8
    using unat_less_u8 [of c] ucast_up_down_byte [of c]
    by (simp_all only:) (simp add: word_less_nat_alt unsigned_ucast_eq take_bit_nat_eq_self)
  have sc: "scalar (ucast c)" "c \<noteq> 0 \<Longrightarrow> (ucast c :: u32) \<noteq> 0" for c :: u8
    using small [of c]
    by (auto simp: scalar_def word_less_nat_alt word_le_nat_alt not_less)
  have cs: "\<forall>c\<in>set ?cs. c \<noteq> 0 \<and> scalar c"
  proof
    fix d
    assume "d \<in> set ?cs"
    then obtain c where "c \<in> set s" "d = ucast c" by auto
    with assms(1) sc [of c] show "d \<noteq> 0 \<and> scalar d" by metis
  qed
  have "map (\<lambda>c. if c > 0xff then 0x3f else ucast c) ?cs = s"
    using small by (simp add: comp_def)
  then show ?thesis
    using l utf8ToLatin1_map [OF cs, of "replicate k 0"] len [of s] assms(2) by auto
qed

theorem latin1_utf8_roundtrip_witness:
  "\<exists>buf. lorieLatin1ToUTF8 (replicate 6 0) ([0xe9, 0x41] @ [0]) = Some buf
    \<and> lorieUtf8ToLatin1 True buf = Some (Some [0xe9, 0x41])"
  using latin1_utf8_roundtrip [of "[0xe9, 0x41]"] by simp

text \<open>\<open>lorieConvertLF\<close> copies exactly the first \<open>n\<close> bytes without their carriage returns,
  in order, and leaves the rest of the destination as it was.\<close>

theorem convertLF_correct:
  assumes "n \<le> length src" "n \<le> length dst"
  shows "lorieConvertLF src dst n =
    (let f = filter (\<lambda>c. c \<noteq> 0x0d) (take n src) in Some (f @ drop (length f) dst))"
  using assms by (rule convertLF_filter)

theorem convertLF_correct_witness:
  "lorieConvertLF [0x61, 0x0d, 0x0a, 0x62] [0, 0, 0, 0, 0] 4 = Some [0x61, 0x0a, 0x62, 0, 0]"
  using convertLF_correct [of 4 "[0x61, 0x0d, 0x0a, 0x62]" "[0, 0, 0, 0, 0]"] by (simp add: Let_def)

text \<open>\<open>lorieCheckUTF8\<close> accepts every well-formed UTF-8 text that has one more readable byte
  behind it; on a block that holds the text and nothing else, which is what a window property
  is, it reads behind the end of the block.\<close>

theorem checkUTF8_reads_one_more:
  assumes "\<forall>c\<in>set cs. c \<noteq> 0 \<and> scalar c"
  shows "lorieCheckUTF8 (utf8 cs @ post) (length (utf8 cs)) =
    (if post = [] then None else Some True)"
  using check_utf8 [OF assms, of "[]" post] by (simp add: lorieCheckUTF8_def)

theorem checkUTF8_reads_one_more_witness:
  "lorieCheckUTF8 (utf8 [0x41, 0xe9]) 3 = None \<and> lorieCheckUTF8 (utf8 [0x41, 0xe9] @ [7]) 3 = Some True"
  using checkUTF8_reads_one_more [of "[0x41, 0xe9]" "[]"]
    checkUTF8_reads_one_more [of "[0x41, 0xe9]" "[7]"]
  by (simp add: scalar_def utf8_enc_def numeral_3_eq_3)

text \<open>\<open>lorieCheckUTF8\<close> also accepts text that is not UTF-8: a continuation byte in the place
  of a lead byte passes as the start of a two-byte character.\<close>

lemma checkUTF8_accepts_stray_continuation:
  assumes "b AND 0xc0 = 0x80" "x AND 0xc0 = 0x80"
  shows "lorieCheckUTF8 [b, x, 0] 2 = Some True \<and> (\<nexists>cs. [b, x] = utf8 cs)"
proof -
  have b: "b \<noteq> 0 \<and> b AND 0x80 \<noteq> 0 \<and> b AND 0xe0 \<noteq> 0xe0 \<and> \<not> b < 0x80"
    using assms(1) by (simp add: byte_top_bits byte_bits bit_simps)
  then have "lorieCheckUTF8 [b, x, 0] 2 = Some True"
    using assms unfolding lorieCheckUTF8_def
    by (subst checkUTF8_loop.simps, subst checkUTF8_loop.simps) (simp add: rd_def)
  moreover have "hd (utf8_enc c) \<noteq> b" for c
  proof -
    have "(0xc0 OR a) AND 0xc0 \<noteq> 0x80 \<and> (0xe0 OR a) AND 0xc0 \<noteq> 0x80
        \<and> (0xf0 OR a) AND 0xc0 \<noteq> 0x80" for a :: u8
      by (simp add: byte_bits bit_simps)
    moreover have "c < 0x80 \<Longrightarrow> (ucast c :: u8) < 0x80"
      using payload_less(1) [of c 0 7] by (simp add: word_less_nat_alt)
    ultimately show ?thesis using b assms(1) by (auto simp: utf8_enc_def)
  qed
  moreover have "hd (utf8_enc c @ r) = hd (utf8_enc c)" for c r
    using utf8_enc_len(1) [of c] by (cases "utf8_enc c") auto
  ultimately show ?thesis by (metis list.distinct(1) list.sel(1) utf8_simps neq_Nil_conv)
qed

text \<open>on a NUL-terminated text that ends in the lead byte of a two-byte character,
  \<open>lorieUtf8ToLatin1\<close> steps over the terminating NUL and reads behind the string.\<close>

theorem utf8ToLatin1_truncated_overread:
  assumes "\<forall>c\<in>set cs. c \<noteq> 0 \<and> scalar c" "b AND 0xe0 = 0xc0" "length (utf8 cs) < 4294967295"
  shows "lorieUtf8ToLatin1 ok (utf8 cs @ [b, 0]) = None"
proof -
  have b: "b \<noteq> 0 \<and> b AND 0x80 \<noteq> 0"
    using assms(2) by (simp add: byte_bits bit_simps)
  have "latin1_count (pre @ utf8 cs @ [b, 0]) (length pre) L sz = None"
    if "length (utf8 cs) + 4 < unat L" for pre L sz
    using assms(1) that
  proof (induction cs arbitrary: pre L sz)
    case Nil
    then have L: "L \<noteq> 0" "L \<noteq> 1" "L \<noteq> 2" by auto
    have "lorieUtf8ToUCS4 (pre @ [b, 0]) (length pre) L = Some (2, 0xfffd)"
      using b assms(2) L rd_append_shift [of pre "[b, 0]" 1]
      by (simp add: lorieUtf8ToUCS4_def)
    then show ?case using b L
      by (subst latin1_count.simps, subst latin1_count.simps) (simp add: rd_def)
  next
    case (Cons c cs)
    let ?m = "pre @ utf8_enc c @ utf8 cs @ [b, 0]"
    from Cons.prems have c: "c \<noteq> 0" "scalar c" and L: "L \<noteq> 0"
      and n: "length (utf8_enc c) \<le> unat L" by auto
    have d: "lorieUtf8ToUCS4 ?m (length pre) L = Some (length (utf8_enc c), c)"
      using decode_at [OF c(2) n, of pre "utf8 cs @ [b, 0]"] by simp
    show ?case
      using Cons.IH [of "L - word_of_nat (length (utf8_enc c))" "pre @ utf8_enc c" "sz + 1"]
        Cons.prems n rd_enc [OF c, of pre "utf8 cs @ [b, 0]"]
      by (subst latin1_count.simps) (auto simp: L d unat_minus_len)
  qed
  from this [of "- 1" "[]" 0] assms(3) show ?thesis
    by (simp add: lorieUtf8ToLatin1_def unsigned_minus_1_eq_mask mask_eq_exp_minus_1)
qed

theorem utf8ToLatin1_truncated_overread_witness:
  "lorieUtf8ToLatin1 True (utf8 [0x41] @ [0xc3, 0]) = None"
  using utf8ToLatin1_truncated_overread [of "[0x41]" "0xc3" True]
  by (simp add: scalar_def utf8_enc_def)

end
