(* ===== verification/Atoms.thy ===== *)
theory Atoms
  imports Prelude "HOL-Library.List_Lexorder" "HOL-Library.Product_Lexorder"
begin

text \<open>
  The atom table of the X server (\<open>xserver/dix/atom.c\<close> and the generated
  \<open>xserver/dix/initatoms.c\<close>): interned names, kept twice, as a binary search tree ordered by
  a fingerprint and then by name, and as an array indexed by atom.

  \<open>NodeRec\<close> is the tree of nodes, \<open>np\<close> (a pointer to the slot where the search stopped) is a
  path of turns, and an entry of \<open>nodeTable\<close> is uninitialised memory, the null pointer, or a
  pointer to a node, given by the fields of the node that never change after its creation.
  Strings of nodes are kept without their terminator. The value of a \<open>char\<close> promoted to
  \<open>unsigned int\<close> depends on the signedness of \<open>char\<close> (unsigned on ARM, signed on x86), so it is
  the parameter \<open>cv\<close>; the outcome of each allocation is the parameter \<open>alloc\<close>. Lengths are
  below \<open>2 ^ 31\<close> in every caller and are natural numbers here.
\<close>

section \<open>The table and its operations\<close>

datatype NodeRec = Null | Node NodeRec u32 u32 bytes NodeRec

datatype turn = GoLeft | GoRight

datatype table_entry = Uninit | NullPtr | NodePtr u32 u32 bytes

datatype atom_alloc = AllocNode | AllocString | AllocTable

record atoms =
  lastAtom :: u32
  atomRoot :: NodeRec
  tableLength :: u64
  nodeTable :: "table_entry list"

definition InitialTableSize :: nat where "InitialTableSize = 256"

definition XA_LAST_PREDEFINED :: u32 where "XA_LAST_PREDEFINED = 68"

definition BAD_RESOURCE :: u32 where "BAD_RESOURCE = 0xe0000000"

text \<open>\<open>fp = fp * 27 + string[i]; fp = fp * 27 + string[len - 1 - i]\<close> for \<open>i < (len + 1) / 2\<close>.\<close>

fun fingerPrint_loop :: "(u8 \<Rightarrow> u32) \<Rightarrow> bytes \<Rightarrow> nat \<Rightarrow> nat list \<Rightarrow> u32 \<Rightarrow> u32 option" where
  "fingerPrint_loop cv s len [] fp = Some fp"
| "fingerPrint_loop cv s len (i # is) fp = do {
     c \<leftarrow> rd s i;
     d \<leftarrow> rd s (len - 1 - i);
     fingerPrint_loop cv s len is ((fp * 27 + cv c) * 27 + cv d) }"

definition fingerPrint :: "(u8 \<Rightarrow> u32) \<Rightarrow> bytes \<Rightarrow> nat \<Rightarrow> u32 option" where
  "fingerPrint cv s len = fingerPrint_loop cv s len [0..<(len + 1) div 2] 0"

text \<open>\<open>strncmp\<close> of an object and a terminated string: the sign of the first difference.\<close>

fun strncmp :: "bytes \<Rightarrow> bytes \<Rightarrow> nat \<Rightarrow> int option" where
  "strncmp s t 0 = Some 0"
| "strncmp s t (Suc n) = do {
     a \<leftarrow> rd s 0;
     let b = (case t of [] \<Rightarrow> 0 | c # _ \<Rightarrow> c);
     if a < b then Some (- 1)
     else if b < a then Some 1
     else if a = 0 then Some 0
     else strncmp (tl s) (tl t) n }"

text \<open>The \<open>while (*np != NULL)\<close> loop: the path to the slot at which it stops.\<close>

fun atom_np :: "NodeRec \<Rightarrow> bytes \<Rightarrow> nat \<Rightarrow> u32 \<Rightarrow> turn list option" where
  "atom_np Null s len fp = Some []"
| "atom_np (Node l a f nm r) s len fp =
     (if fp < f then map_option ((#) GoLeft) (atom_np l s len fp)
      else if f < fp then map_option ((#) GoRight) (atom_np r s len fp)
      else do {
        comp \<leftarrow> strncmp s nm len;
        if comp < 0 \<or> (comp = 0 \<and> len < length nm) then map_option ((#) GoLeft) (atom_np l s len fp)
        else if 0 < comp then map_option ((#) GoRight) (atom_np r s len fp)
        else Some [] })"

text \<open>Reading and writing \<open>*np\<close>.\<close>

fun slot_get :: "NodeRec \<Rightarrow> turn list \<Rightarrow> NodeRec" where
  "slot_get t [] = t"
| "slot_get Null (_ # _) = Null"
| "slot_get (Node l a f nm r) (GoLeft # p) = slot_get l p"
| "slot_get (Node l a f nm r) (GoRight # p) = slot_get r p"

fun slot_set :: "NodeRec \<Rightarrow> turn list \<Rightarrow> NodeRec \<Rightarrow> NodeRec" where
  "slot_set t [] nd = nd"
| "slot_set Null (_ # _) nd = Null"
| "slot_set (Node l a f nm r) (GoLeft # p) nd = Node (slot_set l p nd) a f nm r"
| "slot_set (Node l a f nm r) (GoRight # p) nd = Node l a f nm (slot_set r p nd)"

text \<open>
  The string a new node gets: while the predefined atoms are made the pointer itself, which
  names the whole literal, later a \<open>strndup\<close> of the first \<open>len\<close> bytes.
\<close>

definition node_string :: "atoms \<Rightarrow> bytes \<Rightarrow> nat \<Rightarrow> bytes" where
  "node_string st s len =
     (if lastAtom st < XA_LAST_PREDEFINED then cstr s else cstr (take len s))"

definition MakeAtom ::
  "(u8 \<Rightarrow> u32) \<Rightarrow> (atom_alloc \<Rightarrow> bool) \<Rightarrow> bytes \<Rightarrow> nat \<Rightarrow> bool \<Rightarrow> atoms \<Rightarrow> (u32 \<times> atoms) option" where
  "MakeAtom cv alloc s len makeit st = do {
     fp \<leftarrow> fingerPrint cv s len;
     np \<leftarrow> atom_np (atomRoot st) s len fp;
     case slot_get (atomRoot st) np of
       Node _ a _ _ _ \<Rightarrow> Some (a, st)
     | Null \<Rightarrow>
         if \<not> makeit then Some (0, st)
         else if \<not> alloc AllocNode then Some (BAD_RESOURCE, st)
         else if \<not> lastAtom st < XA_LAST_PREDEFINED \<and> \<not> alloc AllocString then Some (BAD_RESOURCE, st)
         else do {
           st' \<leftarrow> (if tableLength st \<le> ucast (lastAtom st + 1) then
                    (if alloc AllocTable then
                       Some (Some (st\<lparr>tableLength := push_bit 1 (tableLength st),
                               nodeTable := nodeTable st @ replicate (unat (tableLength st)) Uninit\<rparr>))
                     else Some None)
                  else Some (Some st));
           case st' of
             None \<Rightarrow> Some (BAD_RESOURCE, st)
           | Some st1 \<Rightarrow> do {
               let str = node_string st s len;
               let a = lastAtom st1 + 1;
               table \<leftarrow> wr (nodeTable st1) (unat a) (NodePtr a fp str);
               Some (a, st1\<lparr>atomRoot := slot_set (atomRoot st1) np (Node Null a fp str Null),
                            lastAtom := a, nodeTable := table\<rparr>) } } }"

definition ValidAtom :: "atoms \<Rightarrow> u32 \<Rightarrow> bool" where
  "ValidAtom st atom \<longleftrightarrow> atom \<noteq> 0 \<and> atom \<le> lastAtom st"

text \<open>
  \<open>NameForAtom\<close>: the outer option is undefined behaviour (reading outside the table or an
  uninitialised entry), the inner one the null pointer.
\<close>

definition NameForAtom :: "atoms \<Rightarrow> u32 \<Rightarrow> bytes option option" where
  "NameForAtom st atom =
     (if lastAtom st < atom then Some None
      else do {
        e \<leftarrow> rd (nodeTable st) (unat atom);
        case e of Uninit \<Rightarrow> None | NullPtr \<Rightarrow> Some None | NodePtr _ _ nm \<Rightarrow> Some (Some nm) })"

text \<open>\<open>FreeAtom\<close> visits the nodes in post-order; its value is the list of the strings it frees.\<close>

fun FreeAtom :: "NodeRec \<Rightarrow> bytes list" where
  "FreeAtom Null = []"
| "FreeAtom (Node l a f nm r) =
     FreeAtom l @ FreeAtom r @ (if XA_LAST_PREDEFINED < a then [nm] else [])"

definition FreeAllAtoms :: "atoms \<Rightarrow> atoms" where
  "FreeAllAtoms st =
     (if atomRoot st = Null then st
      else st\<lparr>atomRoot := Null, nodeTable := [], lastAtom := 0\<rparr>)"

definition lit :: "string \<Rightarrow> bytes" where
  "lit s = map of_char s @ [0]"

text \<open>
  The calls of \<open>MakePredeclaredAtoms\<close> with the atoms of \<open>Xatom.h\<close> they must return;
  \<open>AtomError\<close> ends the server, the value \<open>Inl Fatal\<close> here.
\<close>

datatype fatal = Fatal

definition predeclared :: "(string \<times> nat \<times> u32) list" where
  "predeclared = [
    (''PRIMARY'', 7, 1), (''SECONDARY'', 9, 2), (''ARC'', 3, 3), (''ATOM'', 4, 4),
     (''BITMAP'', 6, 5), (''CARDINAL'', 8, 6), (''COLORMAP'', 8, 7), (''CURSOR'', 6, 8),
     (''CUT_BUFFER0'', 11, 9), (''CUT_BUFFER1'', 11, 10), (''CUT_BUFFER2'', 11, 11),
     (''CUT_BUFFER3'', 11, 12), (''CUT_BUFFER4'', 11, 13), (''CUT_BUFFER5'', 11, 14),
     (''CUT_BUFFER6'', 11, 15), (''CUT_BUFFER7'', 11, 16), (''DRAWABLE'', 8, 17),
     (''FONT'', 4, 18), (''INTEGER'', 7, 19), (''PIXMAP'', 6, 20), (''POINT'', 5, 21),
     (''RECTANGLE'', 9, 22), (''RESOURCE_MANAGER'', 16, 23), (''RGB_COLOR_MAP'', 13, 24),
     (''RGB_BEST_MAP'', 12, 25), (''RGB_BLUE_MAP'', 12, 26), (''RGB_DEFAULT_MAP'', 15, 27),
     (''RGB_GRAY_MAP'', 12, 28), (''RGB_GREEN_MAP'', 13, 29), (''RGB_RED_MAP'', 11, 30),
     (''STRING'', 6, 31), (''VISUALID'', 8, 32), (''WINDOW'', 6, 33), (''WM_COMMAND'', 10, 34),
     (''WM_HINTS'', 8, 35), (''WM_CLIENT_MACHINE'', 17, 36), (''WM_ICON_NAME'', 12, 37),
     (''WM_ICON_SIZE'', 12, 38), (''WM_NAME'', 7, 39), (''WM_NORMAL_HINTS'', 15, 40),
     (''WM_SIZE_HINTS'', 13, 41), (''WM_ZOOM_HINTS'', 13, 42), (''MIN_SPACE'', 9, 43),
     (''NORM_SPACE'', 10, 44), (''MAX_SPACE'', 9, 45), (''END_SPACE'', 9, 46),
     (''SUPERSCRIPT_X'', 13, 47), (''SUPERSCRIPT_Y'', 13, 48), (''SUBSCRIPT_X'', 11, 49),
     (''SUBSCRIPT_Y'', 11, 50), (''UNDERLINE_POSITION'', 18, 51),
     (''UNDERLINE_THICKNESS'', 19, 52), (''STRIKEOUT_ASCENT'', 16, 53),
     (''STRIKEOUT_DESCENT'', 17, 54), (''ITALIC_ANGLE'', 12, 55), (''X_HEIGHT'', 8, 56),
     (''QUAD_WIDTH'', 10, 57), (''WEIGHT'', 6, 58), (''POINT_SIZE'', 10, 59),
     (''RESOLUTION'', 10, 60), (''COPYRIGHT'', 9, 61), (''NOTICE'', 6, 62),
     (''FONT_NAME'', 9, 63), (''FAMILY_NAME'', 11, 64), (''FULL_NAME'', 9, 65),
     (''CAP_HEIGHT'', 10, 66), (''WM_CLASS'', 8, 67), (''WM_TRANSIENT_FOR'', 16, 68)]"

fun MakePredeclaredAtoms_from ::
  "(u8 \<Rightarrow> u32) \<Rightarrow> (atom_alloc \<Rightarrow> bool) \<Rightarrow> (string \<times> nat \<times> u32) list \<Rightarrow> atoms \<Rightarrow> (fatal + atoms) option"
where
  "MakePredeclaredAtoms_from cv alloc [] st = Some (Inr st)"
| "MakePredeclaredAtoms_from cv alloc ((s, len, xa) # cs) st = do {
     (a, st') \<leftarrow> MakeAtom cv alloc (lit s) len True st;
     if a \<noteq> xa then Some (Inl Fatal) else MakePredeclaredAtoms_from cv alloc cs st' }"

definition MakePredeclaredAtoms ::
  "(u8 \<Rightarrow> u32) \<Rightarrow> (atom_alloc \<Rightarrow> bool) \<Rightarrow> atoms \<Rightarrow> (fatal + atoms) option" where
  "MakePredeclaredAtoms cv alloc st = MakePredeclaredAtoms_from cv alloc predeclared st"

definition InitAtoms ::
  "(u8 \<Rightarrow> u32) \<Rightarrow> (atom_alloc \<Rightarrow> bool) \<Rightarrow> atoms \<Rightarrow> (fatal + atoms) option" where
  "InitAtoms cv alloc st0 = (
     let st = (FreeAllAtoms st0)\<lparr>tableLength := word_of_nat InitialTableSize\<rparr>
     in if \<not> alloc AllocTable then Some (Inl Fatal)
        else do {
          table \<leftarrow> wr (replicate InitialTableSize Uninit) 0 NullPtr;
          r \<leftarrow> MakePredeclaredAtoms cv alloc (st\<lparr>nodeTable := table\<rparr>);
          case r of
            Inl e \<Rightarrow> Some (Inl e)
          | Inr st' \<Rightarrow> Some (if lastAtom st' \<noteq> XA_LAST_PREDEFINED then Inl Fatal else Inr st') })"

section \<open>Comparing names\<close>

text \<open>The key of a name in the tree: its fingerprint and the string a node keeps of it.\<close>

lemma fingerPrint_loop_ok:
  "\<lbrakk>len \<le> length s; \<forall>i\<in>set is. i < len\<rbrakk> \<Longrightarrow> \<exists>fp'. fingerPrint_loop cv s len is fp = Some fp'"
  by (induction "is" arbitrary: fp) (auto simp: object_simps)

lemma fingerPrint_ok: "len \<le> length s \<Longrightarrow> \<exists>fp. fingerPrint cv s len = Some fp"
  unfolding fingerPrint_def by (rule fingerPrint_loop_ok) auto

lemma fingerPrint_loop_take:
  "\<lbrakk>len \<le> length s; \<forall>i\<in>set is. i < len\<rbrakk>
   \<Longrightarrow> fingerPrint_loop cv (take len s) len is fp = fingerPrint_loop cv s len is fp"
  by (induction "is" arbitrary: fp) (auto simp: rd_def)

lemma fingerPrint_take:
  "len \<le> length s \<Longrightarrow> fingerPrint cv (take len s) len = fingerPrint cv s len"
  unfolding fingerPrint_def by (rule fingerPrint_loop_take) auto

lemma rd_0: "rd s 0 = (case s of [] \<Rightarrow> None | c # _ \<Rightarrow> Some c)"
  by (cases s) simp_all

lemma cstr_Cons: "cstr (c # s) = (if c = 0 then [] else c # cstr s)"
  by (simp add: cstr_def)

lemma cstr_Nil [simp]: "cstr [] = []"
  by (simp add: cstr_def)

lemma strncmp_spec:
  assumes "len \<le> length s" "0 \<notin> set t"
  shows "\<exists>c. strncmp s t len = Some c
           \<and> ((c < 0 \<or> c = 0 \<and> len < length t) \<longleftrightarrow> cstr (take len s) < t)
           \<and> (0 < c \<longleftrightarrow> t < cstr (take len s))"
  using assms
proof (induction len arbitrary: s t)
  case 0
  then show ?case by (cases t) auto
next
  case (Suc n)
  then obtain a s' where s: "s = a # s'" by (cases s) auto
  show ?case
  proof (cases t)
    case Nil
    then show ?thesis using s by (auto simp: cstr_Cons word_gt_0)
  next
    case (Cons b t')
    with Suc.prems have b: "b \<noteq> 0" "0 \<notin> set t'" by auto
    show ?thesis
    proof (cases "a = b")
      case True
      then show ?thesis using Suc.IH [of s' t'] Suc.prems s Cons b by (simp add: cstr_Cons)
    next
      case False
      then show ?thesis using s Cons b
        by (cases a b rule: linorder_cases) (auto simp: cstr_Cons word_gt_0)
    qed
  qed
qed

section \<open>The search tree\<close>

fun nodes :: "NodeRec \<Rightarrow> (u32 \<times> u32 \<times> bytes) list" where
  "nodes Null = []"
| "nodes (Node l a f nm r) = nodes l @ (a, f, nm) # nodes r"

abbreviation node_key :: "u32 \<times> u32 \<times> bytes \<Rightarrow> u32 \<times> bytes" where
  "node_key nd \<equiv> snd nd"

definition search_tree :: "NodeRec \<Rightarrow> bool" where
  "search_tree t \<longleftrightarrow> sorted_wrt (<) (map node_key (nodes t)) \<and> (\<forall>nd\<in>set (nodes t). 0 \<notin> set (snd (snd nd)))"

lemma search_tree_Node:
  "search_tree (Node l a f nm r) \<longleftrightarrow>
     search_tree l \<and> search_tree r \<and> 0 \<notin> set nm
     \<and> (\<forall>nd\<in>set (nodes l). node_key nd < (f, nm)) \<and> (\<forall>nd\<in>set (nodes r). (f, nm) < node_key nd)"
  by (fastforce simp: search_tree_def sorted_wrt_append)

text \<open>
  The search stops at the node with the searched key, or at an empty slot that splits the
  nodes into those before and those after the key.
\<close>

definition np_good :: "NodeRec \<Rightarrow> u32 \<times> bytes \<Rightarrow> turn list \<Rightarrow> bool" where
  "np_good t k p \<longleftrightarrow> (case slot_get t p of
       Node _ a f nm _ \<Rightarrow> (f, nm) = k \<and> (a, f, nm) \<in> set (nodes t)
     | Null \<Rightarrow> (\<exists>xs ys. nodes t = xs @ ys
          \<and> (\<forall>a f nm. nodes (slot_set t p (Node Null a f nm Null)) = xs @ (a, f, nm) # ys)
          \<and> (\<forall>nd\<in>set xs. node_key nd < k) \<and> (\<forall>nd\<in>set ys. k < node_key nd)))"

lemma np_good_slotI:
  assumes "slot_get t p = Null" "nodes t = xs @ ys"
    "\<And>a f nm. nodes (slot_set t p (Node Null a f nm Null)) = xs @ (a, f, nm) # ys"
    "\<forall>nd\<in>set xs. node_key nd < k" "\<forall>nd\<in>set ys. k < node_key nd"
  shows "np_good t k p"
  using assms unfolding np_good_def by auto

lemma np_good_left:
  assumes "np_good l k p" "k < (f, nm)" "\<forall>nd\<in>set (nodes r). (f, nm) < node_key nd"
  shows "np_good (Node l a f nm r) k (GoLeft # p)"
proof (cases "slot_get l p")
  case Null
  then obtain xs ys where *: "nodes l = xs @ ys"
    "\<forall>a f nm. nodes (slot_set l p (Node Null a f nm Null)) = xs @ (a, f, nm) # ys"
    "\<forall>nd\<in>set xs. node_key nd < k" "\<forall>nd\<in>set ys. k < node_key nd"
    using assms(1) by (auto simp: np_good_def)
  have "k < node_key nd" if "nd \<in> set (nodes r)" for nd
    using assms(2,3) that by (meson order.strict_trans)
  then have "\<forall>nd\<in>set (ys @ (a, f, nm) # nodes r). k < node_key nd"
    using * assms(2) by auto
  with * Null show ?thesis
    by (intro np_good_slotI [of _ _ xs "ys @ (a, f, nm) # nodes r"]) simp_all
qed (use assms in \<open>auto simp: np_good_def\<close>)

lemma np_good_right:
  assumes "np_good r k p" "(f, nm) < k" "\<forall>nd\<in>set (nodes l). node_key nd < (f, nm)"
  shows "np_good (Node l a f nm r) k (GoRight # p)"
proof (cases "slot_get r p")
  case Null
  then obtain xs ys where *: "nodes r = xs @ ys"
    "\<forall>a f nm. nodes (slot_set r p (Node Null a f nm Null)) = xs @ (a, f, nm) # ys"
    "\<forall>nd\<in>set xs. node_key nd < k" "\<forall>nd\<in>set ys. k < node_key nd"
    using assms(1) by (auto simp: np_good_def)
  have "node_key nd < k" if "nd \<in> set (nodes l)" for nd
    using assms(2,3) that by (meson order.strict_trans)
  then have "\<forall>nd\<in>set (nodes l @ (a, f, nm) # xs). node_key nd < k"
    using * assms(2) by auto
  with * Null show ?thesis
    by (intro np_good_slotI [of _ _ "nodes l @ (a, f, nm) # xs" ys]) simp_all
qed (use assms in \<open>auto simp: np_good_def\<close>)

lemma atom_np_good:
  assumes "search_tree t" "len \<le> length s"
  shows "\<exists>p. atom_np t s len fp = Some p \<and> np_good t (fp, cstr (take len s)) p"
  using assms(1)
proof (induction t)
  case Null
  then show ?case by (simp add: np_good_def)
next
  case (Node l a f nm r)
  let ?k = "(fp, cstr (take len s))"
  note st = Node.prems [unfolded search_tree_Node]
  obtain p q where l: "atom_np l s len fp = Some p" "np_good l ?k p"
    and r: "atom_np r s len fp = Some q" "np_good r ?k q"
    using Node.IH st by blast
  obtain c where c: "strncmp s nm len = Some c"
      "(c < 0 \<or> c = 0 \<and> len < length nm) \<longleftrightarrow> cstr (take len s) < nm" "0 < c \<longleftrightarrow> nm < cstr (take len s)"
    using strncmp_spec [OF assms(2), of nm] st by blast
  consider "?k < (f, nm)" | "(f, nm) < ?k" | "?k = (f, nm)" by (meson linorder_neqE)
  then show ?case
  proof cases
    case 1
    then have "atom_np (Node l a f nm r) s len fp = Some (GoLeft # p)"
      using l c by (auto simp: less_prod_def)
    with 1 st l show ?thesis by (auto intro: np_good_left)
  next
    case 2
    then have "atom_np (Node l a f nm r) s len fp = Some (GoRight # q)"
      using r c by (auto simp: less_prod_def)
    with 2 st r show ?thesis by (auto intro: np_good_right)
  next
    case 3
    then have "atom_np (Node l a f nm r) s len fp = Some []" using c by auto
    with 3 show ?thesis by (auto simp: np_good_def)
  qed
qed


section \<open>The invariant and the abstract table\<close>

text \<open>
  Abstractly the table is the list of the keys of the atoms \<open>1 .. lastAtom\<close>, without
  duplicates; interning a key gives its position, appending it when it is new.
\<close>

definition entry_at :: "atoms \<Rightarrow> nat \<Rightarrow> table_entry" where
  "entry_at st i = nodeTable st ! i"

definition atoms_ok :: "atoms \<Rightarrow> bool" where
  "atoms_ok st \<longleftrightarrow>
     search_tree (atomRoot st)
     \<and> length (nodeTable st) = unat (tableLength st)
     \<and> unat (lastAtom st) < length (nodeTable st)
     \<and> unat (tableLength st) \<le> max InitialTableSize (2 * unat (lastAtom st))
     \<and> nodeTable st ! 0 = NullPtr
     \<and> (\<forall>i. 0 < i \<and> i \<le> unat (lastAtom st) \<longrightarrow>
          (\<exists>f nm. (word_of_nat i, f, nm) \<in> set (nodes (atomRoot st))
                \<and> nodeTable st ! i = NodePtr (word_of_nat i) f nm))
     \<and> (\<forall>(a, f, nm) \<in> set (nodes (atomRoot st)).
          0 < unat a \<and> unat a \<le> unat (lastAtom st) \<and> nodeTable st ! unat a = NodePtr a f nm)"

lemmas atoms_ok_dest = atoms_ok_def [THEN iffD1]

definition intern :: "'k list \<Rightarrow> 'k \<Rightarrow> nat \<times> 'k list" where
  "intern ks k = (if k \<in> set ks then (Suc (length (takeWhile (\<lambda>x. x \<noteq> k) ks)), ks)
                  else (Suc (length ks), ks @ [k]))"

fun entry_key :: "table_entry \<Rightarrow> u32 \<times> bytes" where
  "entry_key (NodePtr a f nm) = (f, nm)"
| "entry_key _ = (0, [])"

definition names :: "atoms \<Rightarrow> (u32 \<times> bytes) list" where
  "names st = map (\<lambda>i. entry_key (nodeTable st ! i)) [1..<Suc (unat (lastAtom st))]"

lemma length_names [simp]: "length (names st) = unat (lastAtom st)"
  by (simp add: names_def)

lemma names_nth: "i < unat (lastAtom st) \<Longrightarrow> names st ! i = entry_key (nodeTable st ! Suc i)"
  by (simp add: names_def del: upt_Suc)

lemma names_entry:
  assumes "atoms_ok st" "i < unat (lastAtom st)"
  shows "\<exists>f nm. (word_of_nat (Suc i), f, nm) \<in> set (nodes (atomRoot st))
           \<and> nodeTable st ! Suc i = NodePtr (word_of_nat (Suc i)) f nm \<and> names st ! i = (f, nm)"
proof -
  have "0 < Suc i \<and> Suc i \<le> unat (lastAtom st)" using assms(2) by simp
  then obtain f nm where "(word_of_nat (Suc i), f, nm) \<in> set (nodes (atomRoot st))"
    "nodeTable st ! Suc i = NodePtr (word_of_nat (Suc i)) f nm"
    using assms(1) unfolding atoms_ok_def by blast
  with names_nth [OF assms(2)] show ?thesis by auto
qed

lemma node_names:
  assumes "atoms_ok st" "(a, f, nm) \<in> set (nodes (atomRoot st))"
  shows "0 < unat a" "unat a \<le> unat (lastAtom st)" "names st ! (unat a - 1) = (f, nm)"
proof -
  have *: "0 < unat a \<and> unat a \<le> unat (lastAtom st) \<and> nodeTable st ! unat a = NodePtr a f nm"
    using assms unfolding atoms_ok_def by blast
  then show "0 < unat a" "unat a \<le> unat (lastAtom st)" by auto
  have "unat a - 1 < unat (lastAtom st)" using * by linarith
  from names_nth [OF this] * show "names st ! (unat a - 1) = (f, nm)" by simp
qed

lemma search_tree_key_inj:
  assumes "search_tree t" "(a, k) \<in> set (nodes t)" "(b, k) \<in> set (nodes t)"
  shows "a = b"
proof -
  have "distinct (map node_key (nodes t))"
    using assms(1) unfolding search_tree_def by (metis strict_sorted_iff)
  then have "inj_on node_key (set (nodes t))" by (simp add: distinct_map)
  from inj_onD [OF this _ assms(2,3)] show ?thesis by simp
qed

lemma names_distinct:
  assumes "atoms_ok st"
  shows "distinct (names st)"
proof (unfold distinct_conv_nth, intro allI impI)
  fix i j
  assume i: "i < length (names st)" and j: "j < length (names st)" and "i \<noteq> j"
  have b: "Suc i < 2 ^ 32" "Suc j < 2 ^ 32" using i j unat_less_u32 [of "lastAtom st"] by simp_all
  have "search_tree (atomRoot st)" using assms by (simp add: atoms_ok_def)
  moreover obtain f nm g nn where
    "(word_of_nat (Suc i), f, nm) \<in> set (nodes (atomRoot st))" "names st ! i = (f, nm)"
    "(word_of_nat (Suc j), g, nn) \<in> set (nodes (atomRoot st))" "names st ! j = (g, nn)"
    using names_entry [OF assms] i j by (metis length_names)
  moreover have "word_of_nat (Suc i) \<noteq> (word_of_nat (Suc j) :: u32)"
    using b \<open>i \<noteq> j\<close> unat_of_nat_u32 by (metis Suc_inject)
  ultimately show "names st ! i \<noteq> names st ! j" using search_tree_key_inj by metis
qed

lemma names_keys:
  assumes "atoms_ok st"
  shows "set (names st) = set (map node_key (nodes (atomRoot st)))"
proof
  show "set (names st) \<subseteq> set (map node_key (nodes (atomRoot st)))"
    using names_entry [OF assms] by (force simp: in_set_conv_nth)
  show "set (map node_key (nodes (atomRoot st))) \<subseteq> set (names st)"
  proof
    fix k
    assume "k \<in> set (map node_key (nodes (atomRoot st)))"
    then obtain a f nm where k: "k = (f, nm)" and "(a, f, nm) \<in> set (nodes (atomRoot st))" by auto
    from node_names [OF assms this(2)] have "unat a - 1 < length (names st)"
      "names st ! (unat a - 1) = k" using k by auto
    then show "k \<in> set (names st)" by (metis nth_mem)
  qed
qed

lemma intern_nth:
  assumes "distinct ks" "i < length ks" "ks ! i = k"
  shows "intern ks k = (Suc i, ks)"
proof -
  have "takeWhile (\<lambda>x. x \<noteq> k) ks = take i ks"
    using assms by (intro takeWhile_eq_take_P_nth) (auto simp: nth_eq_iff_index_eq)
  then show ?thesis using assms by (auto simp: intern_def)
qed


section \<open>Interning\<close>

text \<open>The state in which the table has room for one more atom.\<close>

definition grown :: "atoms \<Rightarrow> atoms" where
  "grown st = (if tableLength st \<le> ucast (lastAtom st + 1)
     then st\<lparr>tableLength := push_bit 1 (tableLength st),
             nodeTable := nodeTable st @ replicate (unat (tableLength st)) Uninit\<rparr> else st)"

definition added :: "atoms \<Rightarrow> turn list \<Rightarrow> u32 \<times> bytes \<Rightarrow> atoms" where
  "added st np k = (grown st)\<lparr>
     atomRoot := slot_set (atomRoot st) np (Node Null (lastAtom st + 1) (fst k) (snd k) Null),
     lastAtom := lastAtom st + 1,
     nodeTable := (nodeTable (grown st))[unat (lastAtom st + 1) := NodePtr (lastAtom st + 1) (fst k) (snd k)]\<rparr>"

definition atoms_left :: "atoms \<Rightarrow> bool" where
  "atoms_left st \<longleftrightarrow> Suc (unat (lastAtom st)) < unat BAD_RESOURCE"

lemma lastAtom_Suc:
  assumes "atoms_left st"
  shows "unat (lastAtom st + 1) = Suc (unat (lastAtom st))"
    and "unat (ucast (lastAtom st + 1) :: u64) = Suc (unat (lastAtom st))"
proof -
  have "Suc (unat (lastAtom st)) < 2 ^ 32" using assms by (simp add: atoms_left_def BAD_RESOURCE_def)
  then show *: "unat (lastAtom st + 1) = Suc (unat (lastAtom st))"
    using unat_of_nat_u32 [of "Suc (unat (lastAtom st))"] by (simp add: add.commute)
  show "unat (ucast (lastAtom st + 1) :: u64) = Suc (unat (lastAtom st))"
    using * by (simp add: unat_ucast_u32_u64)
qed

lemma tableLength_bound:
  assumes "atoms_ok st"
  shows "unat (tableLength st) < 2 ^ 33"
  using assms unat_less_u32 [of "lastAtom st"] by (auto simp: atoms_ok_def InitialTableSize_def)

lemma unat_double: "unat (w::u64) < 2 ^ 63 \<Longrightarrow> unat (push_bit 1 w) = 2 * unat w"
  using unat_mult_lem [of w 2] by (simp add: push_bit_eq_mult mult.commute)

lemma grown_table:
  assumes "atoms_ok st" "atoms_left st"
  shows "length (nodeTable (grown st)) = unat (tableLength (grown st))"
    and "Suc (unat (lastAtom st)) < length (nodeTable (grown st))"
    and "unat (tableLength (grown st)) \<le> max InitialTableSize (2 * Suc (unat (lastAtom st)))"
    and "i \<le> unat (lastAtom st) \<Longrightarrow> nodeTable (grown st) ! i = nodeTable st ! i"
proof -
  have ok: "length (nodeTable st) = unat (tableLength st)" "unat (lastAtom st) < length (nodeTable st)"
    "unat (tableLength st) \<le> max InitialTableSize (2 * unat (lastAtom st))"
    using assms(1) by (simp_all add: atoms_ok_def)
  have d: "unat (push_bit 1 (tableLength st)) = 2 * unat (tableLength st)"
    using tableLength_bound [OF assms(1)] by (intro unat_double) simp
  have le: "tableLength st \<le> ucast (lastAtom st + 1) \<longleftrightarrow> unat (tableLength st) \<le> Suc (unat (lastAtom st))"
    by (simp add: word_le_nat_alt lastAtom_Suc [OF assms(2)])
  show "length (nodeTable (grown st)) = unat (tableLength (grown st))"
    "Suc (unat (lastAtom st)) < length (nodeTable (grown st))"
    "unat (tableLength (grown st)) \<le> max InitialTableSize (2 * Suc (unat (lastAtom st)))"
    "i \<le> unat (lastAtom st) \<Longrightarrow> nodeTable (grown st) ! i = nodeTable st ! i"
    using ok d le by (auto simp: grown_def nth_append)
qed

lemma added_fields [simp]:
  "lastAtom (added st np k) = lastAtom st + 1"
  "atomRoot (added st np k) = slot_set (atomRoot st) np (Node Null (lastAtom st + 1) (fst k) (snd k) Null)"
  "tableLength (added st np k) = tableLength (grown st)"
  "nodeTable (added st np k) =
     (nodeTable (grown st))[unat (lastAtom st + 1) := NodePtr (lastAtom st + 1) (fst k) (snd k)]"
  by (simp_all add: added_def)

lemma added_entry:
  assumes "atoms_ok st" "atoms_left st"
  shows "i \<le> unat (lastAtom st) \<Longrightarrow> nodeTable (added st np k) ! i = nodeTable st ! i"
    and "nodeTable (added st np k) ! Suc (unat (lastAtom st)) = NodePtr (lastAtom st + 1) (fst k) (snd k)"
  using grown_table [OF assms] by (simp_all add: lastAtom_Suc [OF assms(2)])

lemma added_names:
  assumes "atoms_ok st" "atoms_left st"
  shows "names (added st np k) = names st @ [k]"
proof (rule nth_equalityI)
  show "length (names (added st np k)) = length (names st @ [k])"
    by (simp add: lastAtom_Suc [OF assms(2)])
  fix i
  assume "i < length (names (added st np k))"
  then have i: "i < Suc (unat (lastAtom st))" by (simp add: lastAtom_Suc [OF assms(2)])
  then have "names (added st np k) ! i = entry_key (nodeTable (added st np k) ! Suc i)"
    by (intro names_nth) (simp add: lastAtom_Suc [OF assms(2)])
  also have "\<dots> = (names st @ [k]) ! i"
    using i added_entry(1) [OF assms, of "Suc i" np k] added_entry(2) [OF assms, of np k]
    by (cases "i = unat (lastAtom st)") (simp_all add: nth_append names_nth del: added_fields)
  finally show "names (added st np k) ! i = (names st @ [k]) ! i" .
qed

lemma added_tree:
  assumes "search_tree (atomRoot st)" "np_good (atomRoot st) k np" "slot_get (atomRoot st) np = Null"
    and "0 \<notin> set (snd k)"
  shows "search_tree (atomRoot (added st np k))"
    and "set (nodes (atomRoot (added st np k))) = insert (lastAtom st + 1, k) (set (nodes (atomRoot st)))"
    and "k \<notin> set (map node_key (nodes (atomRoot st)))"
proof -
  obtain xs ys where *: "nodes (atomRoot st) = xs @ ys"
    "\<forall>a f nm. nodes (slot_set (atomRoot st) np (Node Null a f nm Null)) = xs @ (a, f, nm) # ys"
    "\<forall>nd\<in>set xs. node_key nd < k" "\<forall>nd\<in>set ys. k < node_key nd"
    using assms(2,3) by (auto simp: np_good_def)
  have n: "nodes (atomRoot (added st np k)) = xs @ (lastAtom st + 1, k) # ys" using * by simp
  then show "set (nodes (atomRoot (added st np k))) = insert (lastAtom st + 1, k) (set (nodes (atomRoot st)))"
    using * by auto
  show "search_tree (atomRoot (added st np k))"
    using assms(1,4) * n unfolding search_tree_def
    by (auto simp: sorted_wrt_append simp del: added_fields)
  show "k \<notin> set (map node_key (nodes (atomRoot st)))"
    using * by (auto dest: less_imp_neq)
qed

lemma added_ok:
  assumes ok: "atoms_ok st" "atoms_left st"
    and np: "np_good (atomRoot st) k np" "slot_get (atomRoot st) np = Null" "0 \<notin> set (snd k)"
  shows "atoms_ok (added st np k)"
proof -
  note g = grown_table [OF ok] and S = lastAtom_Suc [OF ok(2)]
  have st: "search_tree (atomRoot st)" using ok by (simp add: atoms_ok_def)
  note tr = added_tree [OF st np]
  have new: "word_of_nat (Suc (unat (lastAtom st))) = lastAtom st + 1"
    by (simp add: add.commute)
  have old: "0 < i \<and> i \<le> unat (lastAtom st) \<longrightarrow> (\<exists>f nm. (word_of_nat i, f, nm) \<in> set (nodes (atomRoot st))
      \<and> nodeTable st ! i = NodePtr (word_of_nat i) f nm)" for i
    using ok(1) unfolding atoms_ok_def by blast
  have "\<exists>f nm. (word_of_nat i, f, nm) \<in> set (nodes (atomRoot (added st np k)))
      \<and> nodeTable (added st np k) ! i = NodePtr (word_of_nat i) f nm"
    if "0 < i" "i \<le> Suc (unat (lastAtom st))" for i
  proof (cases "i = Suc (unat (lastAtom st))")
    case True
    then show ?thesis using added_entry(2) [OF ok, of np k] new tr(2) by (cases k) auto
  next
    case False
    then show ?thesis using old [of i] that added_entry(1) [OF ok, of i np k] tr(2) by fastforce
  qed
  moreover have "0 < unat a \<and> unat a \<le> Suc (unat (lastAtom st)) \<and>
      nodeTable (added st np k) ! unat a = NodePtr a f nm"
    if "(a, f, nm) \<in> set (nodes (atomRoot (added st np k)))" for a f nm
    using that unfolding tr(2)
  proof (rule insertE)
    assume "(a, f, nm) = (lastAtom st + 1, k)"
    then show ?thesis using added_entry(2) [OF ok, of np k] S by auto
  next
    assume "(a, f, nm) \<in> set (nodes (atomRoot st))"
    then show ?thesis using ok(1) added_entry(1) [OF ok, of "unat a" np k]
      unfolding atoms_ok_def by fastforce
  qed
  moreover have "length (nodeTable (added st np k)) = length (nodeTable (grown st))" by simp
  ultimately show ?thesis
    using tr(1) g ok added_entry(1) [OF ok, of 0 np k] unfolding atoms_ok_def
    by (auto simp: S simp del: added_fields(2,4)) 
qed


text \<open>
  The key under which \<open>MakeAtom\<close> searches a name, and the condition under which the string it
  keeps is that name: the literals of the predefined atoms are passed with their length.
\<close>

definition atom_key :: "(u8 \<Rightarrow> u32) \<Rightarrow> bytes \<Rightarrow> nat \<Rightarrow> u32 \<times> bytes" where
  "atom_key cv s len = (the (fingerPrint cv s len), cstr (take len s))"

definition name_ok :: "atoms \<Rightarrow> bytes \<Rightarrow> nat \<Rightarrow> bool" where
  "name_ok st s len \<longleftrightarrow> len \<le> length s
     \<and> (lastAtom st < XA_LAST_PREDEFINED \<longrightarrow> cstr s = cstr (take len s))"

lemma MakeAtom_cases:
  assumes "atoms_ok st" "atoms_left st" "name_ok st s len"
  obtains (found) a where "atom_key cv s len \<in> set (names st)" "0 < unat a" "unat a \<le> unat (lastAtom st)"
      "names st ! (unat a - 1) = atom_key cv s len"
      "\<And>alloc makeit. MakeAtom cv alloc s len makeit st = Some (a, st)"
  | (fresh) np where "atom_key cv s len \<notin> set (names st)" "atoms_ok (added st np (atom_key cv s len))"
      "\<And>alloc makeit. MakeAtom cv alloc s len makeit st =
         (if \<not> makeit then Some (0, st)
          else if alloc AllocNode \<and> (lastAtom st < XA_LAST_PREDEFINED \<or> alloc AllocString)
               \<and> (tableLength st \<le> ucast (lastAtom st + 1) \<longrightarrow> alloc AllocTable)
          then Some (lastAtom st + 1, added st np (atom_key cv s len))
          else Some (BAD_RESOURCE, st))"
proof -
  let ?k = "atom_key cv s len"
  have len: "len \<le> length s" using assms(3) by (simp add: name_ok_def)
  obtain fp where fp: "fingerPrint cv s len = Some fp" using fingerPrint_ok [OF len] by blast
  have k: "?k = (fp, cstr (take len s))" by (simp add: atom_key_def fp)
  have t: "search_tree (atomRoot st)" using assms(1) by (simp add: atoms_ok_def)
  obtain np where np: "atom_np (atomRoot st) s len fp = Some np" "np_good (atomRoot st) ?k np"
    using atom_np_good [OF t len, of fp] k by auto
  show thesis
  proof (cases "slot_get (atomRoot st) np")
    case (Node l a f nm r)
    then have "(a, ?k) \<in> set (nodes (atomRoot st))" using np(2) by (auto simp: np_good_def)
    then have "?k \<in> set (names st)" "0 < unat a" "unat a \<le> unat (lastAtom st)"
      "names st ! (unat a - 1) = ?k"
      using node_names [OF assms(1), of a "fst ?k" "snd ?k"] names_keys [OF assms(1)] by force+
    moreover have "MakeAtom cv alloc s len makeit st = Some (a, st)" for alloc makeit
      using Node fp np(1) by (simp add: MakeAtom_def)
    ultimately show thesis using found by blast
  next
    case Null
    have z: "0 \<notin> set (snd ?k)" by (simp add: k cstr_no_zero)
    have str: "node_string st s len = snd ?k"
      using assms(3) by (simp add: node_string_def name_ok_def k)
    note g = grown_table [OF assms(1,2)]
    have room: "wr (nodeTable (grown st)) (unat (lastAtom st + 1)) v
        = Some ((nodeTable (grown st))[unat (lastAtom st + 1) := v])" for v
      using g(2) by (simp add: wr_def lastAtom_Suc [OF assms(2)])
    have "MakeAtom cv alloc s len makeit st =
         (if \<not> makeit then Some (0, st)
          else if alloc AllocNode \<and> (lastAtom st < XA_LAST_PREDEFINED \<or> alloc AllocString)
               \<and> (tableLength st \<le> ucast (lastAtom st + 1) \<longrightarrow> alloc AllocTable)
          then Some (lastAtom st + 1, added st np ?k)
          else Some (BAD_RESOURCE, st))" for alloc makeit
      using Null fp np(1) str room k
      by (cases "tableLength st \<le> ucast (lastAtom st + 1)")
        (simp_all add: MakeAtom_def added_def grown_def Let_def)
    moreover have "?k \<notin> set (names st)"
      using added_tree(3) [OF t np(2) Null z] names_keys [OF assms(1)] by simp
    ultimately show thesis
      using fresh added_ok [OF assms(1,2) np(2) Null z] by blast
  qed
qed

lemma MakeAtom_refines:
  assumes "atoms_ok st" "atoms_left st" "name_ok st s len" "\<forall>x. alloc x"
  shows "\<exists>a st'. MakeAtom cv alloc s len True st = Some (a, st') \<and> atoms_ok st'
           \<and> intern (names st) (atom_key cv s len) = (unat a, names st') \<and> lastAtom st' = word_of_nat (length (names st'))"
  using assms(1-3)
proof (cases rule: MakeAtom_cases [where cv = cv])
  case (found a)
  have "unat a - 1 < length (names st)" using found(2,3) by simp
  from intern_nth [OF names_distinct [OF assms(1)] this found(4)] found(2)
  show ?thesis using found(5) assms(1) by simp
next
  case (fresh np)
  then show ?thesis
    using assms(4) added_names [OF assms(1,2)] lastAtom_Suc(1) [OF assms(2)]
    by (simp add: intern_def add.commute)
qed

lemma MakeAtom_no_make:
  assumes "atoms_ok st" "atoms_left st" "name_ok st s len"
  shows "MakeAtom cv alloc s len False st =
    Some (if atom_key cv s len \<in> set (names st)
          then word_of_nat (fst (intern (names st) (atom_key cv s len))) else 0, st)"
  using assms
proof (cases rule: MakeAtom_cases [where cv = cv])
  case (found a)
  have "unat a - 1 < length (names st)" using found(2,3) by simp
  from intern_nth [OF names_distinct [OF assms(1)] this found(4)] found(2)
  show ?thesis using found(1,5) by simp
qed simp

lemma NameForAtom_names:
  assumes "atoms_ok st"
  shows "NameForAtom st a = Some (if ValidAtom st a then Some (snd (names st ! (unat a - 1))) else None)"
proof -
  have ok: "unat (lastAtom st) < length (nodeTable st)" "nodeTable st ! 0 = NullPtr"
    using assms by (simp_all add: atoms_ok_def)
  consider "lastAtom st < a" | "a = 0" | "ValidAtom st a"
    unfolding ValidAtom_def using not_le by blast
  then show ?thesis
  proof cases
    case 2
    have "rd (nodeTable st) 0 = Some NullPtr" using ok by (cases "nodeTable st") auto
    with 2 show ?thesis by (simp add: NameForAtom_def ValidAtom_def)
  next
    case 3
    then have a: "0 < unat a" "unat a \<le> unat (lastAtom st)"
      by (simp_all add: ValidAtom_def word_le_nat_alt unat_gt_0)
    then have i: "unat a - 1 < unat (lastAtom st)" "Suc (unat a - 1) = unat a" by linarith+
    obtain f nm where e: "nodeTable st ! unat a = NodePtr (word_of_nat (unat a)) f nm"
      "names st ! (unat a - 1) = (f, nm)"
      using names_entry [OF assms i(1)] unfolding i(2) by blast
    have "rd (nodeTable st) (unat a) = Some (nodeTable st ! unat a)" using a ok by (simp add: rd_def)
    moreover have "\<not> lastAtom st < a" using a by (simp add: word_less_nat_alt)
    ultimately show ?thesis using e 3 by (simp add: NameForAtom_def)
  qed (simp add: NameForAtom_def ValidAtom_def not_le [symmetric])
qed


section \<open>The predefined atoms\<close>

lemma of_char_byte_inj: "(of_char c :: u8) = of_char d \<longleftrightarrow> c = d"
proof
  assume "(of_char c :: u8) = of_char d"
  then have "unat (word_of_nat (of_char c) :: u8) = unat (word_of_nat (of_char d) :: u8)"
    by (simp add: of_nat_of_char)
  then show "c = d" by (simp add: unsigned_of_nat take_bit_eq_mod)
qed simp

lemma of_char_byte_zero: "(of_char c :: u8) = 0 \<longleftrightarrow> c = CHR 0x00"
proof -
  have "(of_char (CHR 0x00) :: u8) = 0" by simp
  then show ?thesis using of_char_byte_inj [of c "CHR 0x00"] by metis
qed

lemma cstr_lit:
  assumes "CHR 0x00 \<notin> set s"
  shows "cstr (lit s) = map of_char s" "cstr (take (length s) (lit s)) = map of_char s"
proof -
  have z: "0 \<notin> set (map of_char s :: bytes)"
    using assms by (induction s) (auto simp: of_char_byte_zero eq_commute [of 0])
  then show "cstr (lit s) = map of_char s" by (simp add: lit_def cstr_append_nul)
  show "cstr (take (length s) (lit s)) = map of_char s" using z by (simp add: lit_def cstr_no_nul)
qed

definition calls_ok :: "nat \<Rightarrow> (string \<times> nat \<times> u32) list \<Rightarrow> bool" where
  "calls_ok n cs \<longleftrightarrow>
     (\<forall>(s, len, xa) \<in> set cs. len = length s \<and> CHR 0x00 \<notin> set s)
     \<and> distinct (map fst cs) \<and> map (\<lambda>(s, len, xa). unat xa) cs = [Suc n..<Suc n + length cs]"

lemma calls_ok_Cons:
  "calls_ok n ((s, len, xa) # cs) \<longleftrightarrow>
     len = length s \<and> CHR 0x00 \<notin> set s \<and> s \<notin> set (map fst cs) \<and> unat xa = Suc n \<and> calls_ok (Suc n) cs"
  by (auto simp: calls_ok_def upt_rec [of "Suc n"] simp del: upt_Suc)

lemma MakePredeclaredAtoms_from_ok:
  assumes "atoms_ok st" "calls_ok (unat (lastAtom st)) cs" "\<forall>x. alloc x"
    and "unat (lastAtom st) + length cs \<le> 68"
    and "\<forall>s\<in>set (map fst cs). map of_char s \<notin> snd ` set (names st)"
  shows "\<exists>st'. MakePredeclaredAtoms_from cv alloc cs st = Some (Inr st') \<and> atoms_ok st'
    \<and> map snd (names st') = map snd (names st) @ map (\<lambda>c. map of_char (fst c)) cs"
  using assms(1,2,4,5)
proof (induction cs arbitrary: st)
  case (Cons c cs)
  obtain s len xa where c: "c = (s, len, xa)" by (cases c)
  note ok = Cons.prems(2) [unfolded c calls_ok_Cons]
  let ?k = "atom_key cv (lit s) len"
  have k: "snd ?k = map of_char s" using cstr_lit(2) [of s] ok by (simp add: atom_key_def)
  have left: "atoms_left st" using Cons.prems(3) by (simp add: atoms_left_def BAD_RESOURCE_def)
  have name: "name_ok st (lit s) len" using cstr_lit [of s] ok by (auto simp: name_ok_def lit_def)
  obtain a st' where m: "MakeAtom cv alloc (lit s) len True st = Some (a, st')" "atoms_ok st'"
      "intern (names st) ?k = (unat a, names st')" "lastAtom st' = word_of_nat (length (names st'))"
    using MakeAtom_refines [OF Cons.prems(1) left name assms(3)] by blast
  have "map of_char s \<notin> snd ` set (names st)" using Cons.prems(4) c by simp
  then have fresh: "?k \<notin> set (names st)" using k by (metis image_eqI)
  then have a: "unat a = Suc (unat (lastAtom st))" and names: "names st' = names st @ [?k]"
    using m(3) by (auto simp: intern_def)
  have last: "unat (lastAtom st') = Suc (unat (lastAtom st))" using names by (metis length_append_singleton length_names)
  have xa: "a = xa" using a ok by (metis word_unat_eq_iff)
  have "map of_char s' \<noteq> (map of_char s :: bytes)" if "s' \<in> set (map fst cs)" for s'
    using that ok inj_map_eq_map [of "of_char :: char \<Rightarrow> u8" s' s] of_char_byte_inj by (metis injI)
  then have "\<forall>s'\<in>set (map fst cs). map of_char s' \<notin> snd ` set (names st')"
    using Cons.prems(4) unfolding names by (simp add: k c)
  with Cons.IH [OF m(2)] ok last Cons.prems(3) obtain st'' where
    "MakePredeclaredAtoms_from cv alloc cs st' = Some (Inr st'')" "atoms_ok st''"
    "map snd (names st'') = map snd (names st') @ map (\<lambda>c. map of_char (fst c)) cs" by auto
  then show ?case using m(1) xa c names k by simp
qed simp

lemma predeclared_calls_ok: "calls_ok 0 predeclared"
  unfolding calls_ok_def predeclared_def by (simp del: upt_Suc; simp add: upt_rec)

lemma InitAtoms_ok:
  assumes "\<forall>x. alloc x" "atomRoot st0 = Null \<longrightarrow> lastAtom st0 = 0"
  shows "\<exists>st. InitAtoms cv alloc st0 = Some (Inr st) \<and> atoms_ok st \<and> lastAtom st = XA_LAST_PREDEFINED
    \<and> map snd (names st) = map (\<lambda>c. map of_char (fst c)) predeclared"
proof -
  define st where "st = (FreeAllAtoms st0)\<lparr>tableLength := word_of_nat InitialTableSize,
      nodeTable := NullPtr # replicate 255 Uninit\<rparr>"
  have f: "lastAtom st = 0" "atomRoot st = Null" "nodeTable st = NullPtr # replicate 255 Uninit"
    "unat (tableLength st) = 256"
    using assms(2) by (auto simp: st_def FreeAllAtoms_def InitialTableSize_def)
  have ok: "atoms_ok st" using f by (auto simp: atoms_ok_def search_tree_def InitialTableSize_def)  
  have n: "names st = []" using f by (simp add: names_def)
  have len: "length predeclared = 68" by (simp add: predeclared_def)
  obtain st' where m: "MakePredeclaredAtoms_from cv alloc predeclared st = Some (Inr st')" "atoms_ok st'"
    "map snd (names st') = map (\<lambda>c. map of_char (fst c)) predeclared"
    using MakePredeclaredAtoms_from_ok [OF ok _ assms(1), of predeclared cv] predeclared_calls_ok f n len by auto
  have "unat (lastAtom st') = 68" using arg_cong [OF m(3), of length] len by simp
  then have "lastAtom st' = XA_LAST_PREDEFINED" by (simp add: XA_LAST_PREDEFINED_def word_unat_eq_iff)
  moreover have "wr (replicate InitialTableSize Uninit) 0 NullPtr = Some (NullPtr # replicate 255 Uninit)"
    by (simp add: wr_def InitialTableSize_def numeral_eq_Suc)
  ultimately show ?thesis using m assms(1)
    by (simp add: InitAtoms_def MakePredeclaredAtoms_def st_def)
qed


section \<open>Properties\<close>

lemma MakeAtom_again:
  assumes "atoms_ok st" "atoms_left st" "name_ok st s len"
    and "atom_key cv s len \<in> set (names st)"
  shows "MakeAtom cv alloc s len makeit st
    = Some (word_of_nat (fst (intern (names st) (atom_key cv s len))), st)"
  using assms(1-3)
proof (cases rule: MakeAtom_cases [where cv = cv])
  case (found a)
  have "unat a - 1 < length (names st)" using found(2,3) by simp
  from intern_nth [OF names_distinct [OF assms(1)] this found(4)] found(2)
  show ?thesis using found(1,5) by simp
next
  case (fresh np)
  with assms(4) show ?thesis by simp
qed

lemma takeWhile_neq_less: "k \<in> set ks \<Longrightarrow> length (takeWhile (\<lambda>x. x \<noteq> k) ks) < length ks"
  by (induction ks) auto

lemma intern_result:
  assumes "intern ks k = (n, ks')" "distinct ks"
  shows "0 < n" "n \<le> length ks'" "ks' ! (n - 1) = k" "k \<in> set ks'" "distinct ks'" "intern ks' k = (n, ks')"
proof -
  show *: "0 < n" "n \<le> length ks'" "k \<in> set ks'" "distinct ks'"
    using assms by (auto simp: intern_def takeWhile_neq_less Suc_le_eq split: if_splits)
  show k: "ks' ! (n - 1) = k"
    using assms nth_length_takeWhile [of "\<lambda>x. x \<noteq> k" ks] takeWhile_neq_less [of k ks]
    by (auto simp: intern_def split: if_splits)
  show "intern ks' k = (n, ks')" using intern_nth [OF *(4) _ k] * by simp
qed

lemma MakeAtom_name:
  assumes "atoms_ok st" "atoms_left st" "name_ok st s len" "\<forall>x. alloc x"
    and m: "MakeAtom cv alloc s len True st = Some (a, st')"
  shows "atoms_ok st'" "ValidAtom st' a" "NameForAtom st' a = Some (Some (cstr (take len s)))"
    and "intern (names st) (atom_key cv s len) = (unat a, names st')"
proof -
  have r: "atoms_ok st'" "intern (names st) (atom_key cv s len) = (unat a, names st')"
    using MakeAtom_refines [OF assms(1-4), of cv] m by auto
  note i = intern_result [OF r(2) names_distinct [OF assms(1)]]
  have "ValidAtom st' a"
    using i(1,2) by (auto simp: ValidAtom_def word_le_nat_alt unat_gt_0)
  then show "atoms_ok st'" "ValidAtom st' a" "NameForAtom st' a = Some (Some (cstr (take len s)))"
    "intern (names st) (atom_key cv s len) = (unat a, names st')"
    using r NameForAtom_names [OF r(1), of a] i(3) by (simp_all add: atom_key_def)
qed

lemma name_ok_mono: "name_ok st s len \<Longrightarrow> lastAtom st \<le> lastAtom st' \<Longrightarrow> name_ok st' s len"
  by (auto simp: name_ok_def)

text \<open>C4: When memory does not run out, \<open>MakeAtom\<close> on the search tree and the node table does what
  interning does on the list of names: a name that is in the table gets the atom it has, a new
  one the next number, and the tree stays ordered and in step with the table, inside its
  bounds.\<close>
theorem MakeAtom_interns:
  assumes "atoms_ok st" "atoms_left st" "name_ok st s len" "\<forall>x. alloc x"
  shows "\<exists>a st'. MakeAtom cv alloc s len True st = Some (a, st') \<and> atoms_ok st'
           \<and> intern (names st) (atom_key cv s len) = (unat a, names st')"
  using MakeAtom_refines [OF assms] by blast

text \<open>After \<open>MakeAtom\<close> has interned a name, the atom it returned is valid, \<open>NameForAtom\<close> gives the
  name back, and interning or looking up the same name again returns the same atom and changes
  nothing.\<close>
theorem atom_name_roundtrip:
  assumes "atoms_ok st" "atoms_left st" "name_ok st s len" "\<forall>x. alloc x"
    and "MakeAtom cv alloc s len True st = Some (a, st')" "atoms_left st'"
  shows "ValidAtom st' a \<and> NameForAtom st' a = Some (Some (cstr (take len s)))
    \<and> MakeAtom cv alloc' s len makeit st' = Some (a, st')"
proof -
  note m = MakeAtom_name [OF assms(1-5)]
  note i = intern_result [OF m(4) names_distinct [OF assms(1)]]
  have "unat (lastAtom st) \<le> unat (lastAtom st')"
    using m(4) by (metis intern_def length_append_singleton length_names le_SucI order_refl snd_conv)
  then have "name_ok st' s len" using name_ok_mono [OF assms(3)] by (simp add: word_le_nat_alt)
  from MakeAtom_again [OF m(1) assms(6) this i(4)] i(6) m show ?thesis by simp
qed

text \<open>When an allocation fails, \<open>MakeAtom\<close> of a new name returns \<open>BAD_RESOURCE\<close> and the table is as
  before; a lookup of a name that is not there returns \<open>None\<close> (0).\<close>
theorem MakeAtom_error:
  assumes "atoms_ok st" "atoms_left st" "name_ok st s len" "atom_key cv s len \<notin> set (names st)"
  shows "MakeAtom cv alloc s len False st = Some (0, st)
    \<and> (\<not> alloc AllocNode \<or> tableLength st \<le> ucast (lastAtom st + 1) \<and> \<not> alloc AllocTable
         \<longrightarrow> MakeAtom cv alloc s len True st = Some (BAD_RESOURCE, st))"
  using assms(1-3) by (cases rule: MakeAtom_cases [where cv = cv]; use assms(4) in auto)

text \<open>\<open>InitAtoms\<close> builds the table of the 68 predefined atoms, each at the number \<open>Xatom.h\<close> gives it,
  without a fatal error.\<close>
theorem InitAtoms_predefined:
  assumes "\<forall>x. alloc x" "atomRoot st0 = Null \<longrightarrow> lastAtom st0 = 0"
  shows "\<exists>st. InitAtoms cv alloc st0 = Some (Inr st) \<and> atoms_ok st \<and> lastAtom st = XA_LAST_PREDEFINED
    \<and> (\<forall>(s, len, xa)\<in>set predeclared. NameForAtom st xa = Some (Some (map of_char s)))"
proof -
  obtain st where st: "InitAtoms cv alloc st0 = Some (Inr st)" "atoms_ok st" "lastAtom st = XA_LAST_PREDEFINED"
    "map snd (names st) = map (\<lambda>c. map of_char (fst c)) predeclared"
    using InitAtoms_ok [OF assms] by blast
  have len: "length (names st) = length predeclared" using arg_cong [OF st(4), of length] by simp
  have "NameForAtom st xa = Some (Some (map of_char s))" if elem: "(s, len, xa) \<in> set predeclared" for s len xa
  proof -
    obtain i where i: "i < length predeclared" "predeclared ! i = (s, len, xa)"
      using elem unfolding in_set_conv_nth by blast
    have "map (\<lambda>(s, len, xa). unat xa) predeclared ! i = Suc i"
      using predeclared_calls_ok i(1) unfolding calls_ok_def by (simp del: upt_Suc)
    then have xa: "unat xa = Suc i" using i by simp
    have "ValidAtom st xa"
      using xa i(1) len by (auto simp: ValidAtom_def word_le_nat_alt)
    moreover have "snd (names st ! i) = map of_char s"
      using arg_cong [OF st(4), of "\<lambda>l. l ! i"] i len by simp
    ultimately show ?thesis using NameForAtom_names [OF st(2), of xa] xa by simp
  qed
  with st show ?thesis by blast
qed


text \<open>A table that starts empty, for the witnesses.\<close>

definition no_atoms :: atoms where
  "no_atoms = \<lparr>lastAtom = 0, atomRoot = Null, tableLength = 0, nodeTable = []\<rparr>"

definition fresh_atoms :: atoms where
  "fresh_atoms = \<lparr>lastAtom = 0, atomRoot = Null, tableLength = 256, nodeTable = NullPtr # replicate 255 Uninit\<rparr>"

lemma fresh_atoms_ok: "atoms_ok fresh_atoms" "atoms_left fresh_atoms" "names fresh_atoms = []"
  by (auto simp: fresh_atoms_def atoms_ok_def search_tree_def InitialTableSize_def atoms_left_def
      BAD_RESOURCE_def names_def)

lemma fresh_name_ok: "name_ok fresh_atoms (lit ''ABC'') 3"
  by (simp add: name_ok_def lit_def cstr_def)

theorem MakeAtom_interns_witness:
  "\<exists>a st'. MakeAtom ucast (\<lambda>_. True) (lit ''ABC'') 3 True fresh_atoms = Some (a, st') \<and> atoms_ok st'
     \<and> intern (names fresh_atoms) (atom_key ucast (lit ''ABC'') 3) = (unat a, names st')"
  by (rule MakeAtom_interns [OF fresh_atoms_ok(1,2) fresh_name_ok]) simp

theorem atom_name_roundtrip_witness:
  "\<exists>a st'. MakeAtom ucast (\<lambda>_. True) (lit ''ABC'') 3 True fresh_atoms = Some (a, st')
     \<and> NameForAtom st' a = Some (Some (cstr (take 3 (lit ''ABC''))))
     \<and> MakeAtom ucast (\<lambda>_. False) (lit ''ABC'') 3 False st' = Some (a, st')"
proof -
  obtain a st' where m: "MakeAtom ucast (\<lambda>_. True) (lit ''ABC'') 3 True fresh_atoms = Some (a, st')"
    "intern (names fresh_atoms) (atom_key ucast (lit ''ABC'') 3) = (unat a, names st')"
    using MakeAtom_refines [OF fresh_atoms_ok(1,2) fresh_name_ok, of "\<lambda>_. True" ucast] by auto
  have "names st' = [atom_key ucast (lit ''ABC'') 3]" using m(2) by (auto simp: intern_def fresh_atoms_ok(3))
  from arg_cong [OF this, of length] have "atoms_left st'" by (simp add: atoms_left_def BAD_RESOURCE_def)
  with atom_name_roundtrip [OF fresh_atoms_ok(1,2) fresh_name_ok _ m(1), of "\<lambda>_. False" False] m(1)
  show ?thesis by blast
qed

theorem MakeAtom_error_witness:
  "MakeAtom ucast (\<lambda>_. False) (lit ''ABC'') 3 False fresh_atoms = Some (0, fresh_atoms)
   \<and> MakeAtom ucast (\<lambda>_. False) (lit ''ABC'') 3 True fresh_atoms = Some (BAD_RESOURCE, fresh_atoms)"
  using MakeAtom_error [OF fresh_atoms_ok(1,2) fresh_name_ok, of ucast "\<lambda>_. False"]
  by (simp add: fresh_atoms_ok(3))

theorem InitAtoms_predefined_witness:
  "\<exists>st. InitAtoms ucast (\<lambda>_. True) no_atoms = Some (Inr st)
     \<and> NameForAtom st 4 = Some (Some (map of_char ''ATOM''))"
proof -
  have "(''ATOM'', 4, 4) \<in> set predeclared" by (simp add: predeclared_def)
  moreover have "atomRoot no_atoms = Null \<longrightarrow> lastAtom no_atoms = 0" by (simp add: no_atoms_def)
  ultimately show ?thesis using InitAtoms_predefined [of "\<lambda>_. True" no_atoms ucast] by fast
qed

end
