(* ===== verification/Dix_Base.thy ===== *)
theory Dix_Base
  imports Atoms
begin

text \<open>
  The state and the services of the X server core the other components share: time stamps,
  lookups of windows, and the messages written to clients (\<open>xserver/dix/dixutils.c\<close>,
  \<open>xserver/dix/dispatch.c\<close>, \<open>xserver/dix/events.c\<close>, \<open>xserver/include/dix.h\<close>).

  The state is the record \<open>dix\<close>, open to extension, so that the handlers run unchanged on the
  larger state of the clipboard. What the core calls and these theories do not model (the
  system clock, the input queue, the security hooks, the allocator, the registered callbacks)
  is the record \<open>env\<close> of functions, an argument of every operation that uses it. A client is
  a number, the server's own client is 0, and \<open>NullClient\<close> is \<open>None\<close>. Messages are collected
  in \<open>outputs\<close> in the order in which they are written.
\<close>

section \<open>Data\<close>

type_synonym XID = u32
type_synonym client = nat
type_synonym access = u32

definition serverClient :: client where "serverClient = 0"

datatype rc = Success | BadRequest | BadValue | BadWindow | BadPixmap | BadAtom | BadMatch
  | BadDrawable | BadAccess | BadAlloc | BadIDChoice | BadLength | BadImplementation

datatype time_order = EARLIER | SAMETIME | LATER

record TimeStamp =
  months :: u32
  milliseconds :: u32

record Selection =
  s_selection :: u32
  s_lastTimeChanged :: TimeStamp
  s_window :: XID
  s_pWin :: "XID option"
  s_client :: "client option"

datatype SelectionCallbackKind = SelectionSetOwner | SelectionWindowDestroy | SelectionClientClose

record PropertyRec =
  p_propertyName :: u32
  p_type :: u32
  p_format :: u32
  p_size :: u32
  p_data :: bytes

datatype property_state = PropertyNewValue | PropertyDelete

datatype xEvent =
    SelectionClear (time: u32) (window: XID) (atom: u32)
  | SelectionRequest (time: u32) (owner: XID) (requestor: XID) (selection: u32) (target: u32) (property: u32)
  | SelectionNotify (time: u32) (requestor: XID) (selection: u32) (target: u32) (property: u32)
  | PropertyNotify (window: XID) (state: property_state) (atom: u32) (time: u32)

datatype reply =
    GetSelectionOwnerReply XID
  | GetPropertyReply (r_format: u32) (r_bytesAfter: u32) (r_nItems: u32) (r_propertyType: u32) (r_data: bytes)
  | ListPropertiesReply "u32 list"

datatype message =
    ToClient client xEvent
  | ToWindow XID xEvent
  | ReplyTo client reply

datatype drawable_type = DRAWABLE_WINDOW | DRAWABLE_PIXMAP | UNDRAWABLE_WINDOW

datatype dix_alloc = AllocSelection | AllocProperty | AllocPropertyData | AllocWindowOptional | AllocReply
  | AllocRotate | AllocDataTarget | AllocLatin1

record dix =
  atomTable :: atoms
  currentTime :: TimeStamp
  clockReads :: nat
  drawables :: "XID \<Rightarrow> drawable_type option"
  clientGone :: "client \<Rightarrow> bool"
  errorValue :: "client \<Rightarrow> u32"
  CurrentSelections :: "Selection list"
  userProps :: "XID \<Rightarrow> PropertyRec list"
  outputs :: "message list"

record 's env =
  GetTimeInMillis :: "nat \<Rightarrow> u32"
  InputCheckPending :: "'s \<Rightarrow> bool"
  ProcessInputEvents :: "'s \<Rightarrow> 's"
  XaceResource :: "client \<Rightarrow> XID \<Rightarrow> access \<Rightarrow> rc"
  XaceSelection :: "client \<Rightarrow> u32 \<Rightarrow> access \<Rightarrow> rc"
  XaceProperty :: "client \<Rightarrow> XID \<Rightarrow> PropertyRec \<Rightarrow> access \<Rightarrow> rc"
  alloc_ok :: "dix_alloc \<Rightarrow> bool"
  SelectionCallback :: "(Selection \<Rightarrow> client option \<Rightarrow> SelectionCallbackKind \<Rightarrow> 's \<Rightarrow> 's) list"
  PropertyStateCallback :: "(XID \<Rightarrow> property_state \<Rightarrow> PropertyRec \<Rightarrow> 's \<Rightarrow> 's) list"

text \<open>The access masks of \<open>xserver/include/dixaccess.h\<close>.\<close>

definition DixReadAccess :: access where "DixReadAccess = push_bit 0 1"
definition DixWriteAccess :: access where "DixWriteAccess = push_bit 1 1"
definition DixDestroyAccess :: access where "DixDestroyAccess = push_bit 2 1"
definition DixCreateAccess :: access where "DixCreateAccess = push_bit 3 1"
definition DixGetAttrAccess :: access where "DixGetAttrAccess = push_bit 4 1"
definition DixSetAttrAccess :: access where "DixSetAttrAccess = push_bit 5 1"
definition DixListPropAccess :: access where "DixListPropAccess = push_bit 6 1"
definition DixGetPropAccess :: access where "DixGetPropAccess = push_bit 7 1"
definition DixSetPropAccess :: access where "DixSetPropAccess = push_bit 8 1"
definition DixBlendAccess :: access where "DixBlendAccess = push_bit 16 1"
definition DixPostAccess :: access where "DixPostAccess = push_bit 28 1"

section \<open>Time stamps\<close>

definition CompareTimeStamps :: "TimeStamp \<Rightarrow> TimeStamp \<Rightarrow> time_order" where
  "CompareTimeStamps a b =
     (if months a < months b then EARLIER
      else if months a > months b then LATER
      else if milliseconds a < milliseconds b then EARLIER
      else if milliseconds a > milliseconds b then LATER
      else SAMETIME)"

definition HALFMONTH :: u64 where "HALFMONTH = push_bit 31 1"

definition ClientTimeToServerTime :: "u32 \<Rightarrow> 'a dix_scheme \<Rightarrow> TimeStamp" where
  "ClientTimeToServerTime c s =
     (let now = currentTime s in
      if c = 0 then now
      else if c > milliseconds now then
        (if (ucast c :: u64) - ucast (milliseconds now) > HALFMONTH
         then \<lparr>months = months now - 1, milliseconds = c\<rparr> else \<lparr>months = months now, milliseconds = c\<rparr>)
      else if c < milliseconds now then
        (if (ucast (milliseconds now) :: u64) - ucast c > HALFMONTH
         then \<lparr>months = months now + 1, milliseconds = c\<rparr> else \<lparr>months = months now, milliseconds = c\<rparr>)
      else \<lparr>months = months now, milliseconds = c\<rparr>)"

text \<open>The reading of the clock both updates begin with.\<close>

definition read_clock :: "'a dix_scheme env \<Rightarrow> 'a dix_scheme \<Rightarrow> TimeStamp \<times> 'a dix_scheme" where
  "read_clock env s =
     (let ms = GetTimeInMillis env (clockReads s);
          m = months (currentTime s)
      in (\<lparr>months = (if ms < milliseconds (currentTime s) then m + 1 else m), milliseconds = ms\<rparr>,
          s\<lparr>clockReads := Suc (clockReads s)\<rparr>))"

definition UpdateCurrentTime :: "'a dix_scheme env \<Rightarrow> 'a dix_scheme \<Rightarrow> 'a dix_scheme" where
  "UpdateCurrentTime env s0 =
     (let (systime, s1) = read_clock env s0;
          s2 = (if InputCheckPending env s1 then ProcessInputEvents env s1 else s1)
      in if CompareTimeStamps systime (currentTime s2) = LATER then s2\<lparr>currentTime := systime\<rparr> else s2)"

definition UpdateCurrentTimeIf :: "'a dix_scheme env \<Rightarrow> 'a dix_scheme \<Rightarrow> 'a dix_scheme" where
  "UpdateCurrentTimeIf env s0 =
     (let (systime, s1) = read_clock env s0
      in if CompareTimeStamps systime (currentTime s1) = LATER then s1\<lparr>currentTime := systime\<rparr> else s1)"

section \<open>Lookups and messages\<close>

definition set_errorValue :: "client \<Rightarrow> u32 \<Rightarrow> 'a dix_scheme \<Rightarrow> 'a dix_scheme" where
  "set_errorValue c v s = s\<lparr>errorValue := (errorValue s)(c := v)\<rparr>"

text \<open>
  \<open>dixLookupResourceByClass\<close> for the class \<open>RC_DRAWABLE\<close>: the client tables are the map
  \<open>drawables\<close>.
\<close>

definition lookupDrawableResource ::
  "'a dix_scheme env \<Rightarrow> XID \<Rightarrow> client \<Rightarrow> access \<Rightarrow> 'a dix_scheme \<Rightarrow> rc \<times> drawable_type option \<times> 'a dix_scheme" where
  "lookupDrawableResource env i c mode s =
     (let s' = set_errorValue c i s in
      case drawables s i of
        None \<Rightarrow> (BadValue, None, s')
      | Some d \<Rightarrow> (let rc = XaceResource env c i mode in
                   if rc \<noteq> Success then (rc, None, s') else (Success, Some d, s')))"

text \<open>\<open>M_WINDOW\<close> admits windows only, \<open>M_DRAWABLE\<close> (type 0) windows and pixmaps.\<close>

definition dixLookupDrawable ::
  "'a dix_scheme env \<Rightarrow> XID \<Rightarrow> client \<Rightarrow> drawable_type set \<Rightarrow> access \<Rightarrow> 'a dix_scheme \<Rightarrow> rc \<times> 'a dix_scheme" where
  "dixLookupDrawable env i c types mode s =
     (let (rc, d, s1) = lookupDrawableResource env i c mode s;
          s2 = (if rc \<noteq> Success then set_errorValue c i s1 else s1)
      in if rc = BadValue then (BadDrawable, s2)
         else if rc \<noteq> Success then (rc, s2)
         else if the d \<notin> (if types = {} then {DRAWABLE_WINDOW, DRAWABLE_PIXMAP} else types)
         then (BadMatch, s2)
         else (Success, s2))"

definition dixLookupWindow ::
  "'a dix_scheme env \<Rightarrow> XID \<Rightarrow> client \<Rightarrow> access \<Rightarrow> 'a dix_scheme \<Rightarrow> rc \<times> 'a dix_scheme" where
  "dixLookupWindow env i c mode s =
     (let (rc, s1) = dixLookupDrawable env i c {DRAWABLE_WINDOW} mode s
      in (if rc = BadMatch \<or> rc = BadDrawable then BadWindow else rc, s1))"

definition emit :: "message \<Rightarrow> 'a dix_scheme \<Rightarrow> 'a dix_scheme" where
  "emit x s = s\<lparr>outputs := outputs s @ [x]\<rparr>"

text \<open>\<open>WriteEventsToClient\<close> for the single events of these components.\<close>

definition WriteEventsToClient :: "client option \<Rightarrow> xEvent \<Rightarrow> 'a dix_scheme \<Rightarrow> 'a dix_scheme" where
  "WriteEventsToClient pClient ev s =
     (case pClient of
        None \<Rightarrow> s
      | Some c \<Rightarrow> if c = serverClient \<or> clientGone s c then s else emit (ToClient c ev) s)"

definition WriteReplyToClient :: "client \<Rightarrow> reply \<Rightarrow> 'a dix_scheme \<Rightarrow> 'a dix_scheme" where
  "WriteReplyToClient c r s = emit (ReplyTo c r) s"

text \<open>The length checks of \<open>xserver/include/dix.h\<close>; sizes in units of four bytes.\<close>

definition REQUEST_SIZE_MATCH :: "nat \<Rightarrow> nat \<Rightarrow> bool" where
  "REQUEST_SIZE_MATCH sz req_len \<longleftrightarrow> sz = req_len"

definition REQUEST_AT_LEAST_SIZE :: "nat \<Rightarrow> nat \<Rightarrow> bool" where
  "REQUEST_AT_LEAST_SIZE sz req_len \<longleftrightarrow> \<not> sz > req_len"

definition REQUEST_FIXED_SIZE :: "nat \<Rightarrow> nat \<Rightarrow> nat \<Rightarrow> bool" where
  "REQUEST_FIXED_SIZE sz n req_len \<longleftrightarrow>
     \<not> (sz > req_len \<or> n div 4 \<ge> req_len \<or> (4 * sz + n + 3) div 4 \<noteq> req_len)"

definition CallCallbacks :: "('s \<Rightarrow> 's) list \<Rightarrow> 's \<Rightarrow> 's" where
  "CallCallbacks cbs s = fold (\<lambda>f. f) cbs s"

section \<open>Lemmas on time stamps\<close>

text \<open>A time stamp as one number of milliseconds.\<close>

definition ts_val :: "TimeStamp \<Rightarrow> nat" where
  "ts_val t = unat (months t) * 2 ^ 32 + unat (milliseconds t)"

lemma CompareTimeStamps_val:
  "CompareTimeStamps a b = EARLIER \<longleftrightarrow> ts_val a < ts_val b"
  "CompareTimeStamps a b = LATER \<longleftrightarrow> ts_val b < ts_val a"
  "CompareTimeStamps a b = SAMETIME \<longleftrightarrow> ts_val a = ts_val b"
proof -
  have *: "unat (milliseconds a) < 2 ^ 32" "unat (milliseconds b) < 2 ^ 32"
    by (rule unat_less_u32)+
  consider "unat (months a) < unat (months b)" | "unat (months b) < unat (months a)"
    | "unat (months a) = unat (months b)" by linarith
  note cases = this
  show "CompareTimeStamps a b = EARLIER \<longleftrightarrow> ts_val a < ts_val b"
    by (rule cases; use * in \<open>auto simp: CompareTimeStamps_def ts_val_def word_less_nat_alt\<close>)
  show "CompareTimeStamps a b = LATER \<longleftrightarrow> ts_val b < ts_val a"
    by (rule cases; use * in \<open>auto simp: CompareTimeStamps_def ts_val_def word_less_nat_alt\<close>)
  show "CompareTimeStamps a b = SAMETIME \<longleftrightarrow> ts_val a = ts_val b"
    by (rule cases; use * in \<open>auto simp: CompareTimeStamps_def ts_val_def word_less_nat_alt\<close>)
qed

lemma unat_minus_1_u32: "0 < unat (w::u32) \<Longrightarrow> unat (w - 1) = unat w - 1"
  using unat_minus_one [of w] by (auto simp: unat_gt_0)

lemma unat_plus_1_u32: "unat (w::u32) < 2 ^ 32 - 1 \<Longrightarrow> unat (w + 1) = Suc (unat w)"
  using unat_of_nat_u32 [of "Suc (unat w)"] by (simp add: add.commute)

lemma unat_diff_u64:
  assumes "(b::u32) < a"
  shows "unat ((ucast a :: u64) - ucast b) = unat a - unat b"
proof -
  have "(ucast b :: u64) \<le> ucast a"
    using assms by (simp add: word_le_nat_alt word_less_nat_alt unat_ucast_u32_u64)
  then show ?thesis by (simp add: unat_sub unat_ucast_u32_u64)
qed

lemma unat_HALFMONTH: "unat HALFMONTH = 2 ^ 31"
  by (simp add: HALFMONTH_def push_bit_eq_mult)

lemma ClientTimeToServerTime_near:
  fixes s :: "'a dix_scheme"
  assumes "c \<noteq> 0" "0 < unat (months (currentTime s))" "unat (months (currentTime s)) < 2 ^ 32 - 1"
  shows "milliseconds (ClientTimeToServerTime c s) = c"
    and "ts_val (ClientTimeToServerTime c s) \<le> ts_val (currentTime s) + 2 ^ 31
    \<and> ts_val (currentTime s) \<le> ts_val (ClientTimeToServerTime c s) + 2 ^ 31"
proof -
  let ?now = "currentTime s"
  obtain k where k: "unat (months ?now) = Suc k" using assms(2) by (cases "unat (months ?now)") auto
  have m: "unat (months ?now - 1) = k" "unat (months ?now + 1) = Suc (Suc k)"
    using assms(2,3) k by (simp_all add: unat_minus_1_u32 unat_plus_1_u32)
  have b: "unat c < 2 ^ 32" "unat (milliseconds ?now) < 2 ^ 32" by (rule unat_less_u32)+
  show "milliseconds (ClientTimeToServerTime c s) = c"
    using assms(1) by (simp add: ClientTimeToServerTime_def Let_def)
  consider "milliseconds ?now < c" | "c < milliseconds ?now" | "c = milliseconds ?now"
    by (meson linorder_neqE)
  then show "ts_val (ClientTimeToServerTime c s) \<le> ts_val (currentTime s) + 2 ^ 31
    \<and> ts_val (currentTime s) \<le> ts_val (ClientTimeToServerTime c s) + 2 ^ 31"
  proof cases
    case 1
    have d: "(ucast c :: u64) - ucast (milliseconds ?now) > HALFMONTH
        \<longleftrightarrow> 2 ^ 31 < unat c - unat (milliseconds ?now)"
      by (simp add: word_less_nat_alt unat_HALFMONTH unat_diff_u64 [OF 1])
    from 1 have "unat (milliseconds ?now) < unat c" by (simp add: word_less_nat_alt)
    then show ?thesis using 1 assms(1) d k m b
      by (auto simp: ClientTimeToServerTime_def Let_def ts_val_def)
  next
    case 2
    have d: "(ucast (milliseconds ?now) :: u64) - ucast c > HALFMONTH
        \<longleftrightarrow> 2 ^ 31 < unat (milliseconds ?now) - unat c"
      by (simp add: word_less_nat_alt unat_HALFMONTH unat_diff_u64 [OF 2])
    from 2 have "unat c < unat (milliseconds ?now)" by (simp add: word_less_nat_alt)
    then show ?thesis using 2 assms(1) d k m b
      by (auto simp: ClientTimeToServerTime_def Let_def ts_val_def)
  next
    case 3
    then show ?thesis using assms by (simp add: ClientTimeToServerTime_def Let_def ts_val_def)
  qed
qed

text \<open>
  What the core relies on of input processing: it leaves the tables alone and time does not run
  backwards.
\<close>

definition input_frame :: "'a dix_scheme env \<Rightarrow> bool" where
  "input_frame env \<longleftrightarrow> (\<forall>s. CurrentSelections (ProcessInputEvents env s) = CurrentSelections s
     \<and> userProps (ProcessInputEvents env s) = userProps s
     \<and> atomTable (ProcessInputEvents env s) = atomTable s
     \<and> drawables (ProcessInputEvents env s) = drawables s
     \<and> clientGone (ProcessInputEvents env s) = clientGone s
     \<and> outputs (ProcessInputEvents env s) = outputs s
     \<and> dix.more (ProcessInputEvents env s) = dix.more s
     \<and> ts_val (currentTime s) \<le> ts_val (currentTime (ProcessInputEvents env s)))"

named_theorems dix_simps \<open>what the shared services change of the state\<close>

lemma UpdateCurrentTime_frame [dix_simps]:
  assumes "input_frame env"
  shows "CurrentSelections (UpdateCurrentTime env s) = CurrentSelections s"
    "userProps (UpdateCurrentTime env s) = userProps s"
    "atomTable (UpdateCurrentTime env s) = atomTable s"
    "drawables (UpdateCurrentTime env s) = drawables s"
    "clientGone (UpdateCurrentTime env s) = clientGone s"
    "outputs (UpdateCurrentTime env s) = outputs s"
    "dix.more (UpdateCurrentTime env s) = dix.more s"
  using assms by (simp_all add: input_frame_def UpdateCurrentTime_def read_clock_def Let_def)

lemma UpdateCurrentTime_mono:
  assumes "input_frame env"
  shows "ts_val (currentTime s) \<le> ts_val (currentTime (UpdateCurrentTime env s))"
proof -
  let ?s = "s\<lparr>clockReads := Suc (clockReads s)\<rparr>"
  have "ts_val (currentTime ?s) \<le> ts_val (currentTime (ProcessInputEvents env ?s))"
    using assms unfolding input_frame_def by blast
  then show ?thesis
    by (auto simp: UpdateCurrentTime_def read_clock_def Let_def CompareTimeStamps_val)
qed

lemma UpdateCurrentTimeIf_frame [dix_simps]:
  "CurrentSelections (UpdateCurrentTimeIf env s) = CurrentSelections s"
  "userProps (UpdateCurrentTimeIf env s) = userProps s"
  "atomTable (UpdateCurrentTimeIf env s) = atomTable s"
  "drawables (UpdateCurrentTimeIf env s) = drawables s"
  "clientGone (UpdateCurrentTimeIf env s) = clientGone s"
  "outputs (UpdateCurrentTimeIf env s) = outputs s"
  "errorValue (UpdateCurrentTimeIf env s) = errorValue s"
  "dix.more (UpdateCurrentTimeIf env s) = dix.more s"
  by (simp_all add: UpdateCurrentTimeIf_def read_clock_def Let_def)

lemma UpdateCurrentTimeIf_mono:
  "ts_val (currentTime s) \<le> ts_val (currentTime (UpdateCurrentTimeIf env s))"
  by (auto simp: UpdateCurrentTimeIf_def read_clock_def Let_def CompareTimeStamps_val)

section \<open>Lemmas on lookups and messages\<close>

lemma set_errorValue_frame [dix_simps]:
  "CurrentSelections (set_errorValue c v s) = CurrentSelections s"
  "userProps (set_errorValue c v s) = userProps s"
  "atomTable (set_errorValue c v s) = atomTable s"
  "currentTime (set_errorValue c v s) = currentTime s"
  "drawables (set_errorValue c v s) = drawables s"
  "clientGone (set_errorValue c v s) = clientGone s"
  "outputs (set_errorValue c v s) = outputs s"
  "dix.more (set_errorValue c v s) = dix.more s"
  by (simp_all add: set_errorValue_def)

text \<open>A window lookup only writes the error value of the client, and succeeds exactly on windows the hook admits.\<close>

lemma dixLookupWindow_state: "snd (dixLookupWindow env i c mode s) = set_errorValue c i s"
  by (auto simp: dixLookupWindow_def dixLookupDrawable_def lookupDrawableResource_def set_errorValue_def
      Let_def split: option.splits)

lemma dixLookupWindow_Success:
  "fst (dixLookupWindow env i c mode s) = Success
     \<longleftrightarrow> drawables s i = Some DRAWABLE_WINDOW \<and> XaceResource env c i mode = Success"
  by (auto simp: dixLookupWindow_def dixLookupDrawable_def lookupDrawableResource_def Let_def
      split: option.splits)

lemma dixLookupWindow_BadWindow:
  "drawables s i \<noteq> Some DRAWABLE_WINDOW \<Longrightarrow> XaceResource env c i mode = Success
     \<Longrightarrow> fst (dixLookupWindow env i c mode s) = BadWindow"
  by (auto simp: dixLookupWindow_def dixLookupDrawable_def lookupDrawableResource_def Let_def
      split: option.splits)

lemma emit_frame [dix_simps]:
  "CurrentSelections (emit x s) = CurrentSelections s"
  "userProps (emit x s) = userProps s"
  "atomTable (emit x s) = atomTable s"
  "currentTime (emit x s) = currentTime s"
  "drawables (emit x s) = drawables s"
  "clientGone (emit x s) = clientGone s"
  "errorValue (emit x s) = errorValue s"
  "dix.more (emit x s) = dix.more s"
  "outputs (emit x s) = outputs s @ [x]"
  by (simp_all add: emit_def)

definition live :: "'a dix_scheme \<Rightarrow> client option \<Rightarrow> bool" where
  "live s pClient \<longleftrightarrow> (case pClient of None \<Rightarrow> False | Some c \<Rightarrow> c \<noteq> serverClient \<and> \<not> clientGone s c)"

lemma WriteEventsToClient_live:
  "WriteEventsToClient pClient ev s = (if live s pClient then emit (ToClient (the pClient) ev) s else s)"
  by (auto simp: WriteEventsToClient_def live_def split: option.splits)

lemma WriteEventsToClient_frame [dix_simps]:
  "CurrentSelections (WriteEventsToClient p ev s) = CurrentSelections s"
  "userProps (WriteEventsToClient p ev s) = userProps s"
  "atomTable (WriteEventsToClient p ev s) = atomTable s"
  "currentTime (WriteEventsToClient p ev s) = currentTime s"
  "drawables (WriteEventsToClient p ev s) = drawables s"
  "clientGone (WriteEventsToClient p ev s) = clientGone s"
  "errorValue (WriteEventsToClient p ev s) = errorValue s"
  "dix.more (WriteEventsToClient p ev s) = dix.more s"
  by (simp_all add: WriteEventsToClient_live dix_simps)

lemma CallCallbacks_frame:
  assumes "\<forall>cb\<in>set cbs. \<forall>s. f (cb s) = f s"
  shows "f (CallCallbacks cbs s) = f s"
  using assms unfolding CallCallbacks_def by (induction cbs arbitrary: s) auto

section \<open>Properties\<close>

text \<open>The server reads the 32-bit time of a client as the time stamp nearest to its own time that has
  these milliseconds: the two are at most half a month (\<open>2 ^ 31\<close> milliseconds) apart, across the
  wrap-around of the counter too.\<close>
theorem client_time_nearest:
  assumes "c \<noteq> 0" "0 < unat (months (currentTime s))" "unat (months (currentTime s)) < 2 ^ 32 - 1"
  shows "milliseconds (ClientTimeToServerTime c s) = c
    \<and> ts_val (ClientTimeToServerTime c s) \<le> ts_val (currentTime s) + 2 ^ 31
    \<and> ts_val (currentTime s) \<le> ts_val (ClientTimeToServerTime c s) + 2 ^ 31"
  using ClientTimeToServerTime_near [OF assms] by blast

text \<open>The time of the server never runs backwards, whatever the clock returns: both updates leave it
  or move it forward.\<close>
theorem server_time_monotone:
  assumes "input_frame env"
  shows "CompareTimeStamps (currentTime (UpdateCurrentTime env s)) (currentTime s) \<noteq> EARLIER
    \<and> CompareTimeStamps (currentTime (UpdateCurrentTimeIf env s)) (currentTime s) \<noteq> EARLIER"
  using UpdateCurrentTime_mono [OF assms, of s] UpdateCurrentTimeIf_mono [of s env]
  by (auto simp: CompareTimeStamps_val)

text \<open>A state and services for the witnesses.\<close>

definition idle_env :: "'s env" where
  "idle_env = \<lparr>GetTimeInMillis = (\<lambda>n. word_of_nat (1000 + n)), InputCheckPending = (\<lambda>s. False),
     ProcessInputEvents = (\<lambda>s. s), XaceResource = (\<lambda>c i m. Success), XaceSelection = (\<lambda>c i m. Success),
     XaceProperty = (\<lambda>c i p m. Success), alloc_ok = (\<lambda>x. True), SelectionCallback = [],
     PropertyStateCallback = []\<rparr>"

definition small_atoms :: atoms where
  "small_atoms = \<lparr>lastAtom = 100, atomRoot = Null, tableLength = 256, nodeTable = []\<rparr>"

definition small_dix :: dix where
  "small_dix = \<lparr>atomTable = small_atoms, currentTime = \<lparr>months = 1, milliseconds = 5\<rparr>, clockReads = 0,
     drawables = (\<lambda>i. if i = 1 \<or> i = 7 then Some DRAWABLE_WINDOW else None), clientGone = (\<lambda>c. False),
     errorValue = (\<lambda>c. 0), CurrentSelections = [], userProps = (\<lambda>w. []), outputs = []\<rparr>"

lemma idle_env_frame: "input_frame (idle_env :: 'a dix_scheme env)"
  by (simp add: input_frame_def idle_env_def)

theorem client_time_nearest_witness:
  "milliseconds (ClientTimeToServerTime 0xfffffff0 small_dix) = 0xfffffff0
    \<and> ts_val (ClientTimeToServerTime 0xfffffff0 small_dix) \<le> ts_val (currentTime small_dix) + 2 ^ 31
    \<and> ts_val (currentTime small_dix) \<le> ts_val (ClientTimeToServerTime 0xfffffff0 small_dix) + 2 ^ 31"
  by (rule client_time_nearest) (simp_all add: small_dix_def)

theorem server_time_monotone_witness:
  "CompareTimeStamps (currentTime (UpdateCurrentTime idle_env small_dix)) (currentTime small_dix) \<noteq> EARLIER
    \<and> CompareTimeStamps (currentTime (UpdateCurrentTimeIf idle_env small_dix)) (currentTime small_dix) \<noteq> EARLIER"
  by (rule server_time_monotone) (rule idle_env_frame)

end
