(* ===== verification/Selections.thy ===== *)
theory Selections
  imports Dix_Base
begin

text \<open>
  Selections (\<open>xserver/dix/selection.c\<close>): the global list of selections and the requests on it.
  A pointer \<open>pSel\<close> to an entry of the list is the atom of the entry, which identifies it by the
  invariant \<open>selections_ok\<close>; the security hook may refuse an access but does not replace the
  entry (no module that does so is built).
\<close>

section \<open>Operations\<close>

fun find_selection :: "Selection list \<Rightarrow> u32 \<Rightarrow> Selection option" where
  "find_selection [] a = None"
| "find_selection (x # xs) a = (if s_selection x = a then Some x else find_selection xs a)"

text \<open>Assignments through \<open>pSel\<close>.\<close>

fun update_selection :: "u32 \<Rightarrow> (Selection \<Rightarrow> Selection) \<Rightarrow> Selection list \<Rightarrow> Selection list" where
  "update_selection a f [] = []"
| "update_selection a f (x # xs) = (if s_selection x = a then f x # xs else x # update_selection a f xs)"

definition dixLookupSelection ::
  "'a dix_scheme env \<Rightarrow> u32 \<Rightarrow> client \<Rightarrow> access \<Rightarrow> 'a dix_scheme \<Rightarrow> rc \<times> Selection option \<times> 'a dix_scheme" where
  "dixLookupSelection env a c mode s =
     (let s' = set_errorValue c a s in
      case find_selection (CurrentSelections s) a of
        None \<Rightarrow> (BadMatch, None, s')
      | Some x \<Rightarrow> (XaceSelection env c a mode, Some x, s'))"

definition InitSelections :: "'a dix_scheme \<Rightarrow> 'a dix_scheme" where
  "InitSelections s = s\<lparr>CurrentSelections := []\<rparr>"

definition CallSelectionCallback ::
  "'a dix_scheme env \<Rightarrow> Selection \<Rightarrow> client option \<Rightarrow> SelectionCallbackKind \<Rightarrow> 'a dix_scheme \<Rightarrow> 'a dix_scheme" where
  "CallSelectionCallback env x c kind s = CallCallbacks (map (\<lambda>cb. cb x c kind) (SelectionCallback env)) s"

definition disown :: "Selection \<Rightarrow> Selection" where
  "disown x = x\<lparr>s_pWin := None, s_window := 0, s_client := None\<rparr>"

text \<open>
  The two loops over the list: each entry the condition selects is announced to the callbacks
  and then disowned; the loop walks the atoms the list had when it started, which the callbacks
  do not change.
\<close>

fun disown_loop ::
  "'a dix_scheme env \<Rightarrow> (Selection \<Rightarrow> bool) \<Rightarrow> SelectionCallbackKind \<Rightarrow> u32 list \<Rightarrow> 'a dix_scheme \<Rightarrow> 'a dix_scheme" where
  "disown_loop env P kind [] s = s"
| "disown_loop env P kind (a # as) s =
     (case find_selection (CurrentSelections s) a of
        None \<Rightarrow> disown_loop env P kind as s
      | Some x \<Rightarrow>
          if P x then
            let s1 = CallSelectionCallback env x None kind s
            in disown_loop env P kind as
                 (s1\<lparr>CurrentSelections := update_selection a disown (CurrentSelections s1)\<rparr>)
          else disown_loop env P kind as s)"

definition DeleteWindowFromAnySelections :: "'a dix_scheme env \<Rightarrow> XID \<Rightarrow> 'a dix_scheme \<Rightarrow> 'a dix_scheme" where
  "DeleteWindowFromAnySelections env w s =
     disown_loop env (\<lambda>x. s_pWin x = Some w) SelectionWindowDestroy (map s_selection (CurrentSelections s)) s"

definition DeleteClientFromAnySelections :: "'a dix_scheme env \<Rightarrow> client \<Rightarrow> 'a dix_scheme \<Rightarrow> 'a dix_scheme" where
  "DeleteClientFromAnySelections env c s =
     disown_loop env (\<lambda>x. s_client x = Some c) SelectionClientClose (map s_selection (CurrentSelections s)) s"

text \<open>
  The entry a request works on: the existing one, or a new one put in front of the list. The
  result is an error, or the state with the entry in the list.
\<close>

definition new_selection :: "u32 \<Rightarrow> Selection" where
  "new_selection a = \<lparr>s_selection = a, s_lastTimeChanged = \<lparr>months = 0, milliseconds = 0\<rparr>, s_window = 0,
     s_pWin = None, s_client = None\<rparr>"

definition add_selection ::
  "'a dix_scheme env \<Rightarrow> u32 \<Rightarrow> client \<Rightarrow> 'a dix_scheme \<Rightarrow> rc \<times> 'a dix_scheme" where
  "add_selection env a c s =
     (if \<not> alloc_ok env AllocSelection then (BadAlloc, s)
      else let rc = XaceSelection env c a (DixCreateAccess OR DixSetAttrAccess)
           in if rc \<noteq> Success then (rc, s)
              else (Success, s\<lparr>CurrentSelections := new_selection a # CurrentSelections s\<rparr>))"

definition assign_owner ::
  "TimeStamp \<Rightarrow> XID \<Rightarrow> XID option \<Rightarrow> client option \<Rightarrow> Selection \<Rightarrow> Selection" where
  "assign_owner t w pw c x = x\<lparr>s_lastTimeChanged := t, s_window := w, s_pWin := pw, s_client := c\<rparr>"

definition set_owner ::
  "'a dix_scheme env \<Rightarrow> u32 \<Rightarrow> TimeStamp \<Rightarrow> XID \<Rightarrow> XID option \<Rightarrow> client option \<Rightarrow> client \<Rightarrow> 'a dix_scheme \<Rightarrow> 'a dix_scheme"
where
  "set_owner env a t w pw own c s =
     (let s1 = s\<lparr>CurrentSelections := update_selection a (assign_owner t w pw own) (CurrentSelections s)\<rparr>;
          x = the (find_selection (CurrentSelections s1) a)
      in CallSelectionCallback env x (Some c) SelectionSetOwner s1)"

definition ProcSetSelectionOwner ::
  "'a dix_scheme env \<Rightarrow> client \<Rightarrow> nat \<Rightarrow> XID \<Rightarrow> u32 \<Rightarrow> u32 \<Rightarrow> 'a dix_scheme \<Rightarrow> rc \<times> 'a dix_scheme" where
  "ProcSetSelectionOwner env c req_len w a tm s0 =
     (if \<not> REQUEST_SIZE_MATCH 4 req_len then (BadLength, s0) else
      let s = UpdateCurrentTime env s0;
          t = ClientTimeToServerTime tm s
      in if CompareTimeStamps t (currentTime s) = LATER then (Success, s) else
      let (rc, s1) = (if w \<noteq> 0 then dixLookupWindow env w c DixSetAttrAccess s else (Success, s));
          pw = (if w \<noteq> 0 then Some w else None)
      in if rc \<noteq> Success then (rc, s1)
      else if \<not> ValidAtom (atomTable s1) a then (BadAtom, set_errorValue c a s1) else
      let (rc, pSel, s2) = dixLookupSelection env a c DixSetAttrAccess s1;
          own = (if pw \<noteq> None then Some c else None)
      in if rc = Success then
           (if CompareTimeStamps t (s_lastTimeChanged (the pSel)) = EARLIER then (Success, s2) else
            let x = the pSel;
                s3 = (if s_client x \<noteq> None \<and> (pw = None \<or> s_client x \<noteq> Some c)
                      then WriteEventsToClient (s_client x)
                             (SelectionClear (milliseconds t) (s_window x) (s_selection x)) s2
                      else s2)
            in (Success, set_owner env a t w pw own c s3))
         else if rc = BadMatch then
           (let (rc, s3) = add_selection env a c s2
            in if rc \<noteq> Success then (rc, s3) else (Success, set_owner env a t w pw own c s3))
         else (rc, s2))"

definition ProcGetSelectionOwner ::
  "'a dix_scheme env \<Rightarrow> client \<Rightarrow> nat \<Rightarrow> u32 \<Rightarrow> 'a dix_scheme \<Rightarrow> rc \<times> 'a dix_scheme" where
  "ProcGetSelectionOwner env c req_len a s =
     (if \<not> REQUEST_SIZE_MATCH 2 req_len then (BadLength, s)
      else if \<not> ValidAtom (atomTable s) a then (BadAtom, set_errorValue c a s) else
      let (rc, pSel, s1) = dixLookupSelection env a c DixGetAttrAccess s
      in if rc = Success then (Success, WriteReplyToClient c (GetSelectionOwnerReply (s_window (the pSel))) s1)
         else if rc = BadMatch then (Success, WriteReplyToClient c (GetSelectionOwnerReply 0) s1)
         else (rc, s1))"

definition convert_params_ok :: "'a dix_scheme \<Rightarrow> u32 \<Rightarrow> u32 \<Rightarrow> u32 \<Rightarrow> bool" where
  "convert_params_ok s sel tgt prop \<longleftrightarrow>
     ValidAtom (atomTable s) sel \<and> ValidAtom (atomTable s) tgt \<and> (prop = 0 \<or> ValidAtom (atomTable s) prop)"

definition ProcConvertSelection ::
  "'a dix_scheme env \<Rightarrow> client \<Rightarrow> nat \<Rightarrow> XID \<Rightarrow> u32 \<Rightarrow> u32 \<Rightarrow> u32 \<Rightarrow> u32 \<Rightarrow> 'a dix_scheme \<Rightarrow> rc \<times> 'a dix_scheme"
where
  "ProcConvertSelection env c req_len req sel tgt prop tm s0 =
     (if \<not> REQUEST_SIZE_MATCH 6 req_len then (BadLength, s0) else
      let (rc, s1) = dixLookupWindow env req c DixSetAttrAccess s0
      in if rc \<noteq> Success then (rc, s1)
      else if \<not> convert_params_ok s1 sel tgt prop then (BadAtom, set_errorValue c prop s1) else
      let s2 = (if tm = 0 then UpdateCurrentTime env s1 else s1);
          (rc, pSel, s3) = dixLookupSelection env sel c DixReadAccess s2
      in if rc \<noteq> Success \<and> rc \<noteq> BadMatch then (rc, s3)
      else if rc = Success \<and> s_window (the pSel) \<noteq> 0 \<and> s_client (the pSel) \<noteq> None
              \<and> s_client (the pSel) \<noteq> Some serverClient \<and> \<not> clientGone s3 (the (s_client (the pSel)))
      then (Success, WriteEventsToClient (s_client (the pSel))
                       (SelectionRequest tm (s_window (the pSel)) req sel tgt prop) s3)
      else (Success, WriteEventsToClient (Some c) (SelectionNotify tm req sel tgt 0) s3))"

section \<open>The list of selections\<close>

lemma find_selection_Some: "find_selection xs a = Some x \<Longrightarrow> x \<in> set xs \<and> s_selection x = a"
  by (induction xs) (auto split: if_splits)

lemma find_selection_None: "find_selection xs a = None \<longleftrightarrow> a \<notin> s_selection ` set xs"
  by (induction xs) auto

lemma find_selection_mem:
  "distinct (map s_selection xs) \<Longrightarrow> x \<in> set xs \<Longrightarrow> find_selection xs (s_selection x) = Some x"
  by (induction xs) auto

text \<open>Assignments that keep the atom of an entry.\<close>

definition keeps_atom :: "(Selection \<Rightarrow> Selection) \<Rightarrow> bool" where
  "keeps_atom f \<longleftrightarrow> (\<forall>x. s_selection (f x) = s_selection x)"

lemma disown_keeps [simp]: "keeps_atom disown"
  by (simp add: keeps_atom_def disown_def)

lemma assign_owner_keeps [simp]: "keeps_atom (assign_owner t w pw c)"
  by (simp add: keeps_atom_def assign_owner_def)

lemma update_selection_atoms:
  "keeps_atom f \<Longrightarrow> map s_selection (update_selection a f xs) = map s_selection xs"
  by (induction xs) (auto simp: keeps_atom_def)

lemma find_update_same:
  "keeps_atom f \<Longrightarrow> find_selection (update_selection a f xs) a = map_option f (find_selection xs a)"
  by (induction xs) (auto simp: keeps_atom_def)

lemma find_update_other:
  "keeps_atom f \<Longrightarrow> b \<noteq> a \<Longrightarrow> find_selection (update_selection a f xs) b = find_selection xs b"
  by (induction xs) (auto simp: keeps_atom_def)

lemma update_selection_set:
  "x \<in> set (update_selection a f xs) \<Longrightarrow> x \<in> set xs \<or> (\<exists>y\<in>set xs. s_selection y = a \<and> x = f y)"
  by (induction xs) (auto split: if_splits)

section \<open>The invariant\<close>

text \<open>
  An entry has an owner window exactly when it has an owner client, and was last changed no
  later than now; no two entries have the same atom.
\<close>

definition owner_ok :: "Selection \<Rightarrow> bool" where
  "owner_ok x \<longleftrightarrow> (s_client x = None \<longleftrightarrow> s_pWin x = None)
     \<and> s_window x = (case s_pWin x of None \<Rightarrow> 0 | Some w \<Rightarrow> w) \<and> s_pWin x \<noteq> Some 0"

definition selections_ok :: "'a dix_scheme \<Rightarrow> bool" where
  "selections_ok s \<longleftrightarrow> distinct (map s_selection (CurrentSelections s))
     \<and> (\<forall>x\<in>set (CurrentSelections s).
          owner_ok x \<and> ts_val (s_lastTimeChanged x) \<le> ts_val (currentTime s))"

text \<open>What the selections rely on of the callbacks: they leave the list and the time alone.\<close>

definition callbacks_frame :: "'a dix_scheme env \<Rightarrow> bool" where
  "callbacks_frame env \<longleftrightarrow> (\<forall>cb\<in>set (SelectionCallback env). \<forall>x c k s.
     CurrentSelections (cb x c k s) = CurrentSelections s \<and> currentTime (cb x c k s) = currentTime s
     \<and> clientGone (cb x c k s) = clientGone s \<and> atomTable (cb x c k s) = atomTable s)"

lemma CallSelectionCallback_frame:
  assumes "callbacks_frame env"
  shows "CurrentSelections (CallSelectionCallback env x c k s) = CurrentSelections s"
    "currentTime (CallSelectionCallback env x c k s) = currentTime s"
    "clientGone (CallSelectionCallback env x c k s) = clientGone s"
    "atomTable (CallSelectionCallback env x c k s) = atomTable s"
  using assms unfolding CallSelectionCallback_def callbacks_frame_def
  by (auto intro!: CallCallbacks_frame)

lemma selections_ok_cong:
  "\<lbrakk>selections_ok s; CurrentSelections s' = CurrentSelections s; ts_val (currentTime s) \<le> ts_val (currentTime s')\<rbrakk>
   \<Longrightarrow> selections_ok s'"
  by (fastforce simp: selections_ok_def)

lemma selections_ok_time:
  "input_frame env \<Longrightarrow> selections_ok s \<Longrightarrow> selections_ok (UpdateCurrentTime env s)"
  by (erule selections_ok_cong) (simp_all add: dix_simps UpdateCurrentTime_mono)

lemma selections_ok_update:
  assumes "selections_ok s" "keeps_atom f"
    and "\<And>x. x \<in> set (CurrentSelections s) \<Longrightarrow> s_selection x = a
         \<Longrightarrow> owner_ok (f x) \<and> ts_val (s_lastTimeChanged (f x)) \<le> ts_val (currentTime s)"
  shows "selections_ok (s\<lparr>CurrentSelections := update_selection a f (CurrentSelections s)\<rparr>)"
  using assms update_selection_set [of _ a f "CurrentSelections s"]
  by (fastforce simp: selections_ok_def update_selection_atoms)

lemma dixLookupSelection_simps [dix_simps]:
  "fst (snd (dixLookupSelection env a c m s)) = find_selection (CurrentSelections s) a"
  "snd (snd (dixLookupSelection env a c m s)) = set_errorValue c a s"
  by (simp_all add: dixLookupSelection_def Let_def split: option.splits)

lemma dixLookupSelection_rc:
  "fst (dixLookupSelection env a c m s) =
     (if a \<in> s_selection ` set (CurrentSelections s) then XaceSelection env c a m else BadMatch)"
  using find_selection_None [of "CurrentSelections s" a]
  by (cases "find_selection (CurrentSelections s) a") (auto simp: dixLookupSelection_def Let_def)

lemma set_owner_ok:
  assumes "selections_ok s" "callbacks_frame env" "ts_val t \<le> ts_val (currentTime s)"
    and "own = None \<longleftrightarrow> pw = None" "w = (case pw of None \<Rightarrow> 0 | Some v \<Rightarrow> v)" "pw \<noteq> Some 0"
  shows "selections_ok (set_owner env a t w pw own c s)"
proof -
  have "selections_ok (s\<lparr>CurrentSelections := update_selection a (assign_owner t w pw own) (CurrentSelections s)\<rparr>)"
    using assms(1) by (rule selections_ok_update) (use assms in \<open>simp_all add: assign_owner_def owner_ok_def\<close>)
  then show ?thesis
    by (rule selections_ok_cong) (simp_all add: set_owner_def Let_def CallSelectionCallback_frame [OF assms(2)])
qed

lemma add_selection_ok:
  assumes "selections_ok s" "a \<notin> s_selection ` set (CurrentSelections s)" "add_selection env a c s = (rc, s')"
  shows "selections_ok s'" "currentTime s' = currentTime s"
    "rc = Success \<Longrightarrow> CurrentSelections s' = new_selection a # CurrentSelections s"
  using assms
  by (auto simp: add_selection_def Let_def selections_ok_def new_selection_def owner_ok_def ts_val_def split: if_splits)


section \<open>Changing the owner\<close>

text \<open>
  The time a request sets the owner at, and the conditions under which the request is ignored:
  its time is after the server's, or before the last change of the selection.
\<close>

abbreviation request_time :: "'a dix_scheme env \<Rightarrow> u32 \<Rightarrow> 'a dix_scheme \<Rightarrow> TimeStamp" where
  "request_time env tm s \<equiv> ClientTimeToServerTime tm (UpdateCurrentTime env s)"

definition stale :: "'a dix_scheme env \<Rightarrow> u32 \<Rightarrow> u32 \<Rightarrow> 'a dix_scheme \<Rightarrow> bool" where
  "stale env a tm s \<longleftrightarrow>
     ts_val (currentTime (UpdateCurrentTime env s)) < ts_val (request_time env tm s)
     \<or> (\<exists>x. find_selection (CurrentSelections s) a = Some x
             \<and> ts_val (request_time env tm s) < ts_val (s_lastTimeChanged x))"

definition looked_up :: "'a dix_scheme env \<Rightarrow> client \<Rightarrow> XID \<Rightarrow> 'a dix_scheme \<Rightarrow> 'a dix_scheme" where
  "looked_up env c w s =
     (if w \<noteq> 0 then set_errorValue c w (UpdateCurrentTime env s) else UpdateCurrentTime env s)"

lemma looked_up_frame:
  assumes "input_frame env"
  shows "CurrentSelections (looked_up env c w s) = CurrentSelections s"
    "atomTable (looked_up env c w s) = atomTable s"
    "clientGone (looked_up env c w s) = clientGone s"
    "outputs (looked_up env c w s) = outputs s"
    "currentTime (looked_up env c w s) = currentTime (UpdateCurrentTime env s)"
  using assms by (simp_all add: looked_up_def dix_simps)

text \<open>The state in which the assignments of the request start: after the lookups and the \<open>SelectionClear\<close>.\<close>

definition cleared ::
  "'a dix_scheme env \<Rightarrow> client \<Rightarrow> XID \<Rightarrow> u32 \<Rightarrow> u32 \<Rightarrow> 'a dix_scheme \<Rightarrow> 'a dix_scheme" where
  "cleared env c w a tm s0 =
     (let s2 = set_errorValue c a (looked_up env c w s0)
      in case find_selection (CurrentSelections s0) a of
           None \<Rightarrow> s2\<lparr>CurrentSelections := new_selection a # CurrentSelections s2\<rparr>
         | Some x \<Rightarrow> if s_client x \<noteq> None \<and> (w = 0 \<or> s_client x \<noteq> Some c)
                     then WriteEventsToClient (s_client x)
                       (SelectionClear (milliseconds (request_time env tm s0)) (s_window x) a) s2
                     else s2)"

lemma cleared_frame:
  assumes "input_frame env"
  shows "currentTime (cleared env c w a tm s) = currentTime (UpdateCurrentTime env s)"
    "clientGone (cleared env c w a tm s) = clientGone s"
    "atomTable (cleared env c w a tm s) = atomTable s"
    "CurrentSelections (cleared env c w a tm s) =
       (if a \<in> s_selection ` set (CurrentSelections s) then CurrentSelections s
        else new_selection a # CurrentSelections s)"
  using find_selection_None [of "CurrentSelections s" a]
  by (auto simp: cleared_def Let_def dix_simps looked_up_frame assms split: option.splits)

lemma cleared_ok:
  assumes "input_frame env" "selections_ok s"
  shows "selections_ok (cleared env c w a tm s)"
proof (cases "a \<in> s_selection ` set (CurrentSelections s)")
  case True
  then show ?thesis using assms UpdateCurrentTime_mono [OF assms(1), of s]
    by (intro selections_ok_cong [OF assms(2)]) (simp_all add: cleared_frame)
next
  case False
  then show ?thesis using selections_ok_time [OF assms]
    by (auto simp: selections_ok_def cleared_frame [OF assms(1)] dix_simps assms(1)
        new_selection_def owner_ok_def ts_val_def)
qed

text \<open>
  The request as one case distinction. The security hook refuses with an error other than
  \<open>BadMatch\<close>, which stands for a selection that does not exist.
\<close>

definition xace_ok :: "'s env \<Rightarrow> bool" where
  "xace_ok env \<longleftrightarrow> (\<forall>c a m. XaceSelection env c a m \<noteq> BadMatch)"

lemma ProcSetSelectionOwner_eq:
  assumes "input_frame env" "xace_ok env"
  shows "ProcSetSelectionOwner env c n w a tm s =
   (if n \<noteq> 4 then (BadLength, s)
    else if ts_val (currentTime (UpdateCurrentTime env s)) < ts_val (request_time env tm s)
    then (Success, UpdateCurrentTime env s)
    else if w \<noteq> 0 \<and> fst (dixLookupWindow env w c DixSetAttrAccess (UpdateCurrentTime env s)) \<noteq> Success
    then dixLookupWindow env w c DixSetAttrAccess (UpdateCurrentTime env s)
    else if \<not> ValidAtom (atomTable s) a then (BadAtom, set_errorValue c a (looked_up env c w s))
    else if find_selection (CurrentSelections s) a \<noteq> None \<and> XaceSelection env c a DixSetAttrAccess \<noteq> Success
    then (XaceSelection env c a DixSetAttrAccess, set_errorValue c a (looked_up env c w s))
    else if stale env a tm s then (Success, set_errorValue c a (looked_up env c w s))
    else if find_selection (CurrentSelections s) a = None
            \<and> fst (add_selection env a c (set_errorValue c a (looked_up env c w s))) \<noteq> Success
    then add_selection env a c (set_errorValue c a (looked_up env c w s))
    else (Success, set_owner env a (request_time env tm s) w (if w \<noteq> 0 then Some w else None)
            (if w \<noteq> 0 then Some c else None) c (cleared env c w a tm s)))"
proof -
  have look: "(if w \<noteq> 0 then dixLookupWindow env w c DixSetAttrAccess s' else (Success, s'))
     = (if w \<noteq> 0 then fst (dixLookupWindow env w c DixSetAttrAccess s') else Success,
        if w \<noteq> 0 then set_errorValue c w s' else s')" for s' :: "'a dix_scheme"
    by (simp add: prod_eq_iff dixLookupWindow_state)
  have sel: "dixLookupSelection env a c m s' =
     (if find_selection (CurrentSelections s') a \<noteq> None then XaceSelection env c a m else BadMatch,
      find_selection (CurrentSelections s') a, set_errorValue c a s')" for m and s' :: "'a dix_scheme"
    using find_selection_None [of "CurrentSelections s'" a]
    by (simp add: prod_eq_iff dixLookupSelection_rc dixLookupSelection_simps)
  let ?s1 = "looked_up env c w s"
  note s1 = looked_up_frame [OF assms(1)]
  have dl: "w \<noteq> 0 \<Longrightarrow> (fst (dixLookupWindow env w c DixSetAttrAccess (UpdateCurrentTime env s)), ?s1)
      = dixLookupWindow env w c DixSetAttrAccess (UpdateCurrentTime env s)"
    by (simp add: prod_eq_iff dixLookupWindow_state looked_up_def)
  have pw: "(if (if w \<noteq> 0 then Some w else None) \<noteq> None then Some c else None) = (if w \<noteq> 0 then Some c else None)"
    "((if w \<noteq> 0 then Some w else None) = None) = (w = 0)" by simp_all
  have x: "XaceSelection env c a m \<noteq> BadMatch" for m using assms(2) by (simp add: xace_ok_def)
  note unf = ProcSetSelectionOwner_def look sel Let_def REQUEST_SIZE_MATCH_def CompareTimeStamps_val
    looked_up_def [symmetric] prod.case pw
  show ?thesis
  proof (cases "find_selection (CurrentSelections s) a")
    case None
    have cl: "cleared env c w a tm s = (set_errorValue c a ?s1)\<lparr>CurrentSelections :=
        new_selection a # CurrentSelections s\<rparr>"
      by (simp add: cleared_def None Let_def s1 dix_simps)
    have st: "stale env a tm s \<longleftrightarrow>
       ts_val (currentTime (UpdateCurrentTime env s)) < ts_val (request_time env tm s)"
      by (simp add: stale_def None)
    have ad: "add_selection env a c (set_errorValue c a ?s1) =
       (fst (add_selection env a c (set_errorValue c a ?s1)),
        if fst (add_selection env a c (set_errorValue c a ?s1)) = Success then cleared env c w a tm s
        else set_errorValue c a ?s1)"
      by (simp add: add_selection_def Let_def cl s1 dix_simps)
    show ?thesis
      unfolding unf st
      by (subst (1 2 3) ad) (simp add: s1 None dl)
  next
    case (Some x)
    then have "s_selection x = a" using find_selection_Some by blast
    then have cl: "cleared env c w a tm s = (if s_client x \<noteq> None \<and> (w = 0 \<or> s_client x \<noteq> Some c)
        then WriteEventsToClient (s_client x)
           (SelectionClear (milliseconds (request_time env tm s)) (s_window x) (s_selection x)) (set_errorValue c a ?s1)
        else set_errorValue c a ?s1)"
      by (simp add: cleared_def Some Let_def)
    have st: "stale env a tm s \<longleftrightarrow>
       ts_val (currentTime (UpdateCurrentTime env s)) < ts_val (request_time env tm s)
       \<or> ts_val (request_time env tm s) < ts_val (s_lastTimeChanged x)"
      by (simp add: stale_def Some)
    show ?thesis
      unfolding unf st cl by (simp add: s1 Some x dl)
  qed
qed


lemma add_selection_keeps:
  "fst (add_selection env a c s) \<noteq> Success \<Longrightarrow> snd (add_selection env a c s) = s"
  by (auto simp: add_selection_def Let_def split: if_splits)

text \<open>A request either changes no selection, or sets the owner.\<close>

lemma ProcSetSelectionOwner_cases:
  assumes "input_frame env" "xace_ok env"
  obtains (unchanged) "CurrentSelections (snd (ProcSetSelectionOwner env c n w a tm s)) = CurrentSelections s"
      "ts_val (currentTime s) \<le> ts_val (currentTime (snd (ProcSetSelectionOwner env c n w a tm s)))"
      "fst (ProcSetSelectionOwner env c n w a tm s) = Success \<Longrightarrow> stale env a tm s"
  | (set) "ProcSetSelectionOwner env c n w a tm s =
        (Success, set_owner env a (request_time env tm s) w (if w \<noteq> 0 then Some w else None)
           (if w \<noteq> 0 then Some c else None) c (cleared env c w a tm s))"
      "\<not> stale env a tm s" "ValidAtom (atomTable s) a"
proof -
  note eq = ProcSetSelectionOwner_eq [OF assms, of c n w a tm s]
  note fr = dix_simps assms(1) UpdateCurrentTime_mono dixLookupWindow_state looked_up_frame
  consider "n \<noteq> 4" | "n = 4" "ts_val (currentTime (UpdateCurrentTime env s)) < ts_val (request_time env tm s)"
    | "n = 4" "\<not> ts_val (currentTime (UpdateCurrentTime env s)) < ts_val (request_time env tm s)" by blast
  then show thesis
  proof cases
    case 1
    then show thesis using eq unchanged by simp
  next
    case 2
    then show thesis using eq by (intro unchanged) (simp_all add: fr stale_def)
  next
    case 3
    show thesis
    proof (cases "w \<noteq> 0 \<and> fst (dixLookupWindow env w c DixSetAttrAccess (UpdateCurrentTime env s)) \<noteq> Success")
      case True
      then show thesis using eq 3 by (intro unchanged) (simp_all add: fr)
    next
      case w: False
      show thesis
      proof (cases "ValidAtom (atomTable s) a")
        case False
        then show thesis using eq 3 w by (intro unchanged) (simp_all add: fr)
      next
        case v: True
        show thesis
        proof (cases "find_selection (CurrentSelections s) a \<noteq> None
              \<and> XaceSelection env c a DixSetAttrAccess \<noteq> Success")
          case True
          then show thesis using eq 3 w v by (intro unchanged) (simp_all add: fr)
        next
          case x: False
          show thesis
          proof (cases "stale env a tm s")
            case True
            then show thesis using eq 3 w v x by (intro unchanged) (simp_all add: fr)
          next
            case ns: False
            show thesis
            proof (cases "find_selection (CurrentSelections s) a = None
                \<and> fst (add_selection env a c (set_errorValue c a (looked_up env c w s))) \<noteq> Success")
              case True
              then show thesis using eq 3 w v x ns by (intro unchanged) (simp_all add: fr add_selection_keeps)
            next
              case False
              with eq 3 w v x ns show thesis by (intro set) auto
            qed
          qed
        qed
      qed
    qed
  qed
qed


lemma ProcSetSelectionOwner_ok:
  assumes "input_frame env" "xace_ok env" "callbacks_frame env" "selections_ok s"
  shows "selections_ok (snd (ProcSetSelectionOwner env c n w a tm s))"
  using assms(1,2)
proof (cases rule: ProcSetSelectionOwner_cases [where c = c and n = n and w = w and a = a and tm = tm and s = s])
  case unchanged
  from assms(4) unchanged(1,2) show ?thesis by (rule selections_ok_cong)
next
  case set
  have "ts_val (request_time env tm s) \<le> ts_val (currentTime (cleared env c w a tm s))"
    using set(2) by (simp add: cleared_frame [OF assms(1)] stale_def not_less)
  then show ?thesis unfolding set(1) snd_conv
    by (intro set_owner_ok cleared_ok assms) auto
qed

section \<open>Disowning\<close>

lemma disown_step:
  assumes "callbacks_frame env"
  shows "CurrentSelections ((CallSelectionCallback env x None k s)\<lparr>CurrentSelections :=
      update_selection a disown (CurrentSelections (CallSelectionCallback env x None k s))\<rparr>)
      = update_selection a disown (CurrentSelections s)"
  by (simp add: CallSelectionCallback_frame [OF assms])

text \<open>The loop disowns exactly the entries the condition selects.\<close>

lemma disown_loop_selections:
  assumes "callbacks_frame env" "distinct (map s_selection (CurrentSelections s))"
    and "distinct as" "set as \<subseteq> s_selection ` set (CurrentSelections s)"
  shows "CurrentSelections (disown_loop env P k as s)
    = map (\<lambda>x. if s_selection x \<in> set as \<and> P x then disown x else x) (CurrentSelections s)
    \<and> currentTime (disown_loop env P k as s) = currentTime s
    \<and> atomTable (disown_loop env P k as s) = atomTable s
    \<and> clientGone (disown_loop env P k as s) = clientGone s"
  using assms(2-)
proof (induction "as" arbitrary: s)
  case (Cons a as)
  obtain x where x: "x \<in> set (CurrentSelections s)" "s_selection x = a" using Cons.prems(3) by auto
  then have f: "find_selection (CurrentSelections s) a = Some x"
    using find_selection_mem [OF Cons.prems(1)] by blast
  have uniq: "y = x" if "y \<in> set (CurrentSelections s)" "s_selection y = a" for y
    using that f find_selection_mem [OF Cons.prems(1) that(1)] by simp
  show ?case
  proof (cases "P x")
    case False
    with Cons f uniq show ?thesis by (auto intro!: map_cong)
  next
    case True
    let ?t = "CallSelectionCallback env x None k s"
    let ?s = "?t\<lparr>CurrentSelections := update_selection a disown (CurrentSelections ?t)\<rparr>"
    have m: "update_selection a disown xs = map (\<lambda>y. if s_selection y = a then disown y else y) xs"
      if "distinct (map s_selection xs)" for xs
      using that by (induction xs) (auto intro!: map_idI [symmetric] simp: image_iff dest!: bspec)
    have cs: "CurrentSelections ?s = map (\<lambda>y. if s_selection y = a then disown y else y) (CurrentSelections s)"
      using m [OF Cons.prems(1)] by (simp add: CallSelectionCallback_frame [OF assms(1)])
    have at: "map s_selection (CurrentSelections ?s) = map s_selection (CurrentSelections s)"
      unfolding cs by (simp add: disown_def)
    have "set as \<subseteq> s_selection ` set (CurrentSelections ?s)"
      using Cons.prems(3) at by (metis list.set_map set_subset_Cons subset_trans)
    with Cons.IH [of ?s] Cons.prems(1,2) at
    have "CurrentSelections (disown_loop env P k as ?s)
       = map (\<lambda>x. if s_selection x \<in> set as \<and> P x then disown x else x) (CurrentSelections ?s)
      \<and> currentTime (disown_loop env P k as ?s) = currentTime ?s
      \<and> atomTable (disown_loop env P k as ?s) = atomTable ?s
      \<and> clientGone (disown_loop env P k as ?s) = clientGone ?s" by simp
    moreover have "disown_loop env P k (a # as) s = disown_loop env P k as ?s"
      using f True by (simp add: Let_def)
    moreover have "map (\<lambda>x. if s_selection x \<in> set as \<and> P x then disown x else x) (CurrentSelections ?s)
      = map (\<lambda>x. if s_selection x \<in> set (a # as) \<and> P x then disown x else x) (CurrentSelections s)"
      unfolding cs map_map
    proof (rule map_cong [OF refl])
      fix y
      assume y: "y \<in> set (CurrentSelections s)"
      show "((\<lambda>x. if s_selection x \<in> set as \<and> P x then disown x else x) \<circ>
          (\<lambda>y. if s_selection y = a then disown y else y)) y
        = (if s_selection y \<in> set (a # as) \<and> P y then disown y else y)"
        using uniq [OF y] Cons.prems(2) True by (cases "s_selection y = a") (auto simp: disown_def)
    qed
    ultimately show ?thesis by (simp add: CallSelectionCallback_frame [OF assms(1)])
  qed
qed simp

lemma disown_all:
  assumes "callbacks_frame env" "selections_ok s"
  shows "CurrentSelections (disown_loop env P k (map s_selection (CurrentSelections s)) s)
     = map (\<lambda>x. if P x then disown x else x) (CurrentSelections s)"
    and "selections_ok (disown_loop env P k (map s_selection (CurrentSelections s)) s)"
proof -
  note l = disown_loop_selections [OF assms(1), of s "map s_selection (CurrentSelections s)" P k]
  have d: "distinct (map s_selection (CurrentSelections s))" using assms(2) by (simp add: selections_ok_def)
  show m: "CurrentSelections (disown_loop env P k (map s_selection (CurrentSelections s)) s)
     = map (\<lambda>x. if P x then disown x else x) (CurrentSelections s)"
    using l d by auto
  have "s_selection \<circ> (\<lambda>x. if P x then disown x else x) = s_selection" by (auto simp: disown_def)
  then show "selections_ok (disown_loop env P k (map s_selection (CurrentSelections s)) s)"
    using assms(2) l d unfolding selections_ok_def m map_map
    by (auto simp: disown_def owner_ok_def)
qed


section \<open>The other requests\<close>

lemma ProcGetSelectionOwner_frame:
  "CurrentSelections (snd (ProcGetSelectionOwner env c n a s)) = CurrentSelections s"
  "currentTime (snd (ProcGetSelectionOwner env c n a s)) = currentTime s"
  by (simp_all add: ProcGetSelectionOwner_def Let_def case_prod_beta dix_simps WriteReplyToClient_def)

lemma ProcConvertSelection_frame:
  assumes "input_frame env"
  shows "CurrentSelections (snd (ProcConvertSelection env c n req sel tgt prop tm s)) = CurrentSelections s"
    "ts_val (currentTime s) \<le> ts_val (currentTime (snd (ProcConvertSelection env c n req sel tgt prop tm s)))"
proof -
  have "ts_val (currentTime s) \<le> ts_val (currentTime (UpdateCurrentTime env (set_errorValue c req s)))"
    using UpdateCurrentTime_mono [OF assms, of "set_errorValue c req s"] by (simp add: dix_simps)
  then show "CurrentSelections (snd (ProcConvertSelection env c n req sel tgt prop tm s)) = CurrentSelections s"
    "ts_val (currentTime s) \<le> ts_val (currentTime (snd (ProcConvertSelection env c n req sel tgt prop tm s)))"
    using assms
    by (simp_all add: ProcConvertSelection_def Let_def case_prod_beta dix_simps dixLookupWindow_state)
qed

section \<open>The state machine\<close>

inductive selection_step :: "'a dix_scheme env \<Rightarrow> 'a dix_scheme \<Rightarrow> 'a dix_scheme \<Rightarrow> bool" for env where
  set_owner: "selection_step env s (snd (ProcSetSelectionOwner env c n w a tm s))"
| get_owner: "selection_step env s (snd (ProcGetSelectionOwner env c n a s))"
| convert: "selection_step env s (snd (ProcConvertSelection env c n req sel tgt prop tm s))"
| window_gone: "selection_step env s (DeleteWindowFromAnySelections env w s)"
| client_gone: "selection_step env s (DeleteClientFromAnySelections env c s)"
| reset: "selection_step env s (InitSelections s)"
| time: "selection_step env s (UpdateCurrentTime env s)"

lemma selection_step_ok:
  assumes "selection_step env s s'" "input_frame env" "xace_ok env" "callbacks_frame env" "selections_ok s"
  shows "selections_ok s'"
  using assms
proof cases
  case (set_owner c n w a tm)
  then show ?thesis using ProcSetSelectionOwner_ok [OF assms(2-5)] by simp
next
  case (get_owner c n a)
  show ?thesis by (rule selections_ok_cong [OF assms(5)]) (simp_all add: get_owner ProcGetSelectionOwner_frame)
next
  case (convert c n req sel tgt pr tm)
  show ?thesis
    by (rule selections_ok_cong [OF assms(5)]) (simp_all add: convert ProcConvertSelection_frame [OF assms(2)])
next
  case reset
  then show ?thesis by (simp add: InitSelections_def selections_ok_def)
next
  case time
  then show ?thesis using selections_ok_time [OF assms(2,5)] by simp
qed (simp_all add: DeleteWindowFromAnySelections_def DeleteClientFromAnySelections_def disown_all [OF assms(4,5)])

section \<open>Properties\<close>

text \<open>C5: Whatever requests, window destructions and disconnections come in whatever order, no two entries
  of the list name the same selection, an entry has an owner window exactly when it has an owner
  client, and no entry was changed later than the present time of the server.\<close>
theorem selections_invariant:
  assumes "(selection_step env)\<^sup>*\<^sup>* s s'" "input_frame env" "xace_ok env" "callbacks_frame env" "selections_ok s"
  shows "selections_ok s'"
  using assms(1,5) by (induction rule: rtranclp_induct) (auto intro: selection_step_ok [OF _ assms(2-4)])

text \<open>A request that is granted makes the client the owner (or nobody, for the window None) and leaves
  every other selection as it was; a request whose time is in the future or before the last
  change is answered with success and changes no selection.\<close>
theorem set_selection_owner:
  assumes "input_frame env" "xace_ok env" "callbacks_frame env"
    and "fst (ProcSetSelectionOwner env c n w a tm s) = Success"
  shows "if stale env a tm s
    then CurrentSelections (snd (ProcSetSelectionOwner env c n w a tm s)) = CurrentSelections s
    else (\<exists>x. find_selection (CurrentSelections (snd (ProcSetSelectionOwner env c n w a tm s))) a = Some x
            \<and> s_window x = w \<and> s_client x = (if w \<noteq> 0 then Some c else None)
            \<and> s_lastTimeChanged x = request_time env tm s)
       \<and> (\<forall>b. b \<noteq> a \<longrightarrow> find_selection (CurrentSelections (snd (ProcSetSelectionOwner env c n w a tm s))) b
                = find_selection (CurrentSelections s) b)"
  using assms(1,2)
proof (cases rule: ProcSetSelectionOwner_cases [where c = c and n = n and w = w and a = a and tm = tm and s = s])
  case unchanged
  then show ?thesis using assms(4) by simp
next
  case set
  define cs where "cs = CurrentSelections (cleared env c w a tm s)"
  have cs: "find_selection cs a \<noteq> None" "\<And>b. b \<noteq> a \<Longrightarrow> find_selection cs b = find_selection (CurrentSelections s) b"
    using find_selection_None [of cs a]
    by (auto simp: cs_def cleared_frame [OF assms(1)] new_selection_def)
  show ?thesis unfolding set(1) using set(2) cs
    by (auto simp: set_owner_def Let_def CallSelectionCallback_frame [OF assms(3)] cs_def [symmetric]
        find_update_same find_update_other assign_owner_def)
qed

text \<open>After a client disconnects, no selection has it as owner: the entries it owned have neither
  client nor window, the others are as before; and the same for a window that is destroyed.\<close>
theorem owner_gone:
  assumes "callbacks_frame env" "selections_ok s"
  shows "CurrentSelections (DeleteClientFromAnySelections env c s)
      = map (\<lambda>x. if s_client x = Some c then disown x else x) (CurrentSelections s)
    \<and> CurrentSelections (DeleteWindowFromAnySelections env w s)
      = map (\<lambda>x. if s_pWin x = Some w then disown x else x) (CurrentSelections s)"
  unfolding DeleteClientFromAnySelections_def DeleteWindowFromAnySelections_def
  by (simp only: disown_all [OF assms])

text \<open>A valid \<open>ConvertSelection\<close> request of a connected client is answered by exactly one event: the
  owner gets a \<open>SelectionRequest\<close> when the selection has a connected owner other than the server,
  else the client gets the refusal \<open>SelectionNotify\<close> with property None.\<close>
theorem convert_selection_one_event:
  assumes "input_frame env" "XaceSelection env c sel DixReadAccess = Success" "live s (Some c)"
    and "fst (ProcConvertSelection env c 6 req sel tgt prop tm s) = Success"
  shows "outputs (snd (ProcConvertSelection env c 6 req sel tgt prop tm s)) = outputs s @
    [case find_selection (CurrentSelections s) sel of
       Some x \<Rightarrow> (if s_window x \<noteq> 0 \<and> live s (s_client x)
                   then ToClient (the (s_client x)) (SelectionRequest tm (s_window x) req sel tgt prop)
                   else ToClient c (SelectionNotify tm req sel tgt 0))
     | None \<Rightarrow> ToClient c (SelectionNotify tm req sel tgt 0)]"
proof -
  define s1 where "s1 = (if tm = 0 then UpdateCurrentTime env (set_errorValue c req s) else set_errorValue c req s)"
  have s1: "CurrentSelections s1 = CurrentSelections s" "clientGone s1 = clientGone s" "outputs s1 = outputs s"
    using assms(1) by (simp_all add: s1_def dix_simps)
  have ok: "fst (dixLookupWindow env req c DixSetAttrAccess s) = Success"
    "convert_params_ok (set_errorValue c req s) sel tgt prop"
    using assms(4) unfolding ProcConvertSelection_def
    by (auto simp: REQUEST_SIZE_MATCH_def case_prod_beta dixLookupWindow_state Let_def split: if_splits)
  show ?thesis
    unfolding ProcConvertSelection_def using ok assms(2,3) s1
    by (cases "find_selection (CurrentSelections s) sel")
      (auto simp: REQUEST_SIZE_MATCH_def Let_def case_prod_beta dixLookupWindow_state s1_def [symmetric] dixLookupSelection_def
        WriteEventsToClient_live live_def dix_simps split: option.splits)
qed


lemma idle_env_ok: "xace_ok (idle_env :: 'a dix_scheme env)" "callbacks_frame (idle_env :: 'a dix_scheme env)"
  by (simp_all add: xace_ok_def callbacks_frame_def idle_env_def)

lemma small_dix_ok: "selections_ok small_dix"
  by (simp add: selections_ok_def small_dix_def)

text \<open>A state in which client 3 owns the selection 60 with window 7.\<close>

definition owned_dix :: dix where
  "owned_dix = small_dix\<lparr>CurrentSelections := [\<lparr>s_selection = 60, s_lastTimeChanged = \<lparr>months = 1, milliseconds = 2\<rparr>,
     s_window = 7, s_pWin = Some 7, s_client = Some 3\<rparr>]\<rparr>"

lemma owned_dix_ok: "selections_ok owned_dix"
  by (simp add: selections_ok_def owned_dix_def small_dix_def owner_ok_def ts_val_def)

theorem selections_invariant_witness:
  "selections_ok (snd (ProcSetSelectionOwner idle_env 4 4 7 60 0 owned_dix))"
proof -
  have "(selection_step idle_env)\<^sup>*\<^sup>* owned_dix (snd (ProcSetSelectionOwner idle_env 4 4 7 60 0 owned_dix))"
    by (rule r_into_rtranclp) (rule selection_step.set_owner)
  from selections_invariant [OF this idle_env_frame idle_env_ok owned_dix_ok] show ?thesis .
qed

lemmas owned_eval = owned_dix_def small_dix_def small_atoms_def idle_env_def UpdateCurrentTime_def read_clock_def
  ClientTimeToServerTime_def CompareTimeStamps_def ValidAtom_def dixLookupWindow_def dixLookupDrawable_def
  lookupDrawableResource_def dixLookupSelection_def set_errorValue_def REQUEST_SIZE_MATCH_def Let_def

theorem set_selection_owner_witness:
  "fst (ProcSetSelectionOwner idle_env 4 4 7 60 0 owned_dix) = Success \<and> \<not> stale idle_env 60 0 owned_dix
   \<and> (\<exists>x. find_selection (CurrentSelections (snd (ProcSetSelectionOwner idle_env 4 4 7 60 0 owned_dix))) 60 = Some x
        \<and> s_client x = Some 4)"
proof -
  have 1: "fst (ProcSetSelectionOwner idle_env 4 4 7 60 0 owned_dix) = Success"
    by (simp add: ProcSetSelectionOwner_def owned_eval)
  have 2: "\<not> stale idle_env 60 0 owned_dix" by (simp add: stale_def owned_eval ts_val_def)
  from set_selection_owner [OF idle_env_frame idle_env_ok 1] 1 2 show ?thesis by auto
qed

theorem owner_gone_witness:
  "CurrentSelections (DeleteClientFromAnySelections idle_env 3 owned_dix) = map disown (CurrentSelections owned_dix)"
  using conjunct1 [OF owner_gone [OF idle_env_ok(2) owned_dix_ok, of 3]] by (simp add: owned_dix_def small_dix_def)

theorem convert_selection_one_event_witness:
  "outputs (snd (ProcConvertSelection idle_env 4 6 1 60 31 31 0 owned_dix))
    = [ToClient 3 (SelectionRequest 0 7 1 60 31 31)]"
proof -
  have "fst (ProcConvertSelection idle_env 4 6 1 60 31 31 0 owned_dix) = Success"
    by (simp add: ProcConvertSelection_def convert_params_ok_def owned_eval)
  moreover have "XaceSelection idle_env 4 60 DixReadAccess = Success" "live owned_dix (Some 4)"
    by (simp_all add: idle_env_def live_def owned_dix_def small_dix_def serverClient_def)
  ultimately show ?thesis
    using convert_selection_one_event [OF idle_env_frame, of 4 60 owned_dix 1 31 31 0]
    by (simp add: owned_dix_def small_dix_def live_def serverClient_def)
qed

end
