(* ===== verification/Properties.thy ===== *)
theory Properties
  imports Dix_Base
begin

text \<open>
  Window properties (\<open>xserver/dix/property.c\<close>): the list of properties of each window, the
  requests that read, change, rotate and delete them, and the events these generate.

  A pointer to a property is its window and its name, which identify it by the invariant
  \<open>props_ok\<close>. Operations that copy property data return an option: \<open>None\<close> means that the copy
  reads outside its source object or that a byte count leaves the range of \<open>int\<close>. The hook may
  refuse an access but does not replace the property. \<open>alloc_ok env AllocWindowOptional\<close> is false
  exactly when the window has no optional record and none can be allocated. A \<open>char\<close> of a
  request is unsigned, as on ARM; its sign only shows in the error value of a refused request.
\<close>

section \<open>Operations\<close>

fun find_property :: "PropertyRec list \<Rightarrow> u32 \<Rightarrow> PropertyRec option" where
  "find_property [] a = None"
| "find_property (p # ps) a = (if p_propertyName p = a then Some p else find_property ps a)"

fun update_property :: "u32 \<Rightarrow> (PropertyRec \<Rightarrow> PropertyRec) \<Rightarrow> PropertyRec list \<Rightarrow> PropertyRec list" where
  "update_property a f [] = []"
| "update_property a f (p # ps) = (if p_propertyName p = a then f p # ps else p # update_property a f ps)"

text \<open>Unlinking: the head, or behind the element found by walking to the one before it.\<close>

fun unlink_property :: "u32 \<Rightarrow> PropertyRec list \<Rightarrow> PropertyRec list" where
  "unlink_property a [] = []"
| "unlink_property a (p # ps) = (if p_propertyName p = a then ps else p # unlink_property a ps)"

definition set_props :: "XID \<Rightarrow> PropertyRec list \<Rightarrow> 'a dix_scheme \<Rightarrow> 'a dix_scheme" where
  "set_props w ps s = s\<lparr>userProps := (userProps s)(w := ps)\<rparr>"

definition dixLookupProperty ::
  "'a dix_scheme env \<Rightarrow> XID \<Rightarrow> u32 \<Rightarrow> client \<Rightarrow> access \<Rightarrow> 'a dix_scheme \<Rightarrow> rc \<times> PropertyRec option \<times> 'a dix_scheme" where
  "dixLookupProperty env w a c mode s =
     (let s' = set_errorValue c a s in
      case find_property (userProps s w) a of
        None \<Rightarrow> (BadMatch, None, s')
      | Some p \<Rightarrow> (XaceProperty env c w p mode, Some p, s'))"

definition deliverPropertyNotifyEvent ::
  "'a dix_scheme env \<Rightarrow> XID \<Rightarrow> property_state \<Rightarrow> PropertyRec \<Rightarrow> 'a dix_scheme \<Rightarrow> 'a dix_scheme" where
  "deliverPropertyNotifyEvent env w st p s =
     (let s1 = UpdateCurrentTimeIf env s;
          ev = PropertyNotify w st (p_propertyName p) (milliseconds (currentTime s1));
          s2 = CallCallbacks (map (\<lambda>cb. cb w st p) (PropertyStateCallback env)) s1
      in emit (ToWindow w ev) s2)"

datatype PropMode = PropModeReplace | PropModePrepend | PropModeAppend

text \<open>\<open>malloc\<close> and \<open>memcpy\<close> of \<open>n\<close> bytes of an object: \<open>None\<close> when it is shorter.\<close>

definition memdup :: "bytes \<Rightarrow> nat \<Rightarrow> bytes option" where
  "memdup v n = (if n \<le> length v then Some (take n v) else None)"

definition changed_prop :: "u32 \<Rightarrow> u32 \<Rightarrow> nat \<Rightarrow> bytes \<Rightarrow> PropertyRec \<Rightarrow> PropertyRec" where
  "changed_prop ty format len d p =
     p\<lparr>p_data := d, p_size := word_of_nat len, p_type := ty, p_format := format\<rparr>"

text \<open>
  The new contents of an existing property. \<open>Inl\<close> is the error the branch returns,
  \<open>pProp->size * sizeInBytes\<close> is computed in 32 bits.
\<close>

definition changed_contents ::
  "'s env \<Rightarrow> PropertyRec \<Rightarrow> u32 \<Rightarrow> u32 \<Rightarrow> PropMode \<Rightarrow> nat \<Rightarrow> bytes \<Rightarrow> (rc + PropertyRec) option" where
  "changed_contents env p ty format mode len v =
     (let sizeInBytes = unat (drop_bit 3 format);
          totalSize = len * sizeInBytes;
          oldSize = unat (p_size p * drop_bit 3 format)
      in if mode = PropModeReplace then
           (if totalSize \<noteq> 0 \<and> \<not> alloc_ok env AllocPropertyData then Some (Inl BadAlloc)
            else do { d \<leftarrow> memdup v totalSize; Some (Inr (changed_prop ty format len d p)) })
         else if len = 0 then Some (Inr p)
         else if \<not> alloc_ok env AllocPropertyData then Some (Inl BadAlloc)
         else do {
           old \<leftarrow> memdup (p_data p) oldSize;
           new \<leftarrow> memdup v totalSize;
           Some (Inr (p\<lparr>p_data := (if mode = PropModeAppend then old @ new else new @ old),
                        p_size := p_size p + word_of_nat len\<rparr>)) })"

definition dixChangeWindowProperty ::
  "'a dix_scheme env \<Rightarrow> client \<Rightarrow> XID \<Rightarrow> u32 \<Rightarrow> u32 \<Rightarrow> u32 \<Rightarrow> PropMode \<Rightarrow> nat \<Rightarrow> bytes \<Rightarrow> bool \<Rightarrow> 'a dix_scheme
   \<Rightarrow> (rc \<times> 'a dix_scheme) option" where
  "dixChangeWindowProperty env c w a ty format mode len v sendevent s =
     (let totalSize = len * unat (drop_bit 3 format);
          access_mode = (if mode = PropModeReplace then DixWriteAccess else DixBlendAccess);
          (rc, pProp, s1) = dixLookupProperty env w a c access_mode s
      in if totalSize \<ge> 2 ^ 31 then None
      else if rc = BadMatch then
        (if \<not> alloc_ok env AllocWindowOptional then Some (BadAlloc, s1)
         else if \<not> alloc_ok env AllocProperty then Some (BadAlloc, s1)
         else if totalSize \<noteq> 0 \<and> \<not> alloc_ok env AllocPropertyData then Some (BadAlloc, s1)
         else do {
           d \<leftarrow> memdup v totalSize;
           let p = \<lparr>p_propertyName = a, p_type = ty, p_format = format, p_size = word_of_nat len, p_data = d\<rparr>;
           let rc = XaceProperty env c w p (DixCreateAccess OR DixWriteAccess);
           if rc \<noteq> Success then Some (rc, set_errorValue c a s1)
           else let s2 = set_props w (p # userProps s1 w) s1
                in Some (Success, if sendevent then deliverPropertyNotifyEvent env w PropertyNewValue p s2 else s2) })
      else if rc = Success then
        (let p = the pProp in
         if format \<noteq> p_format p \<and> mode \<noteq> PropModeReplace then Some (BadMatch, s1)
         else if p_type p \<noteq> ty \<and> mode \<noteq> PropModeReplace then Some (BadMatch, s1)
         else do {
           r \<leftarrow> changed_contents env p ty format mode len v;
           case r of
             Inl e \<Rightarrow> Some (e, s1)
           | Inr p' \<Rightarrow>
               let rc = XaceProperty env c w p' (access_mode OR DixPostAccess)
               in if rc \<noteq> Success then Some (rc, s1)
                  else let s2 = set_props w (update_property a (\<lambda>_. p') (userProps s1 w)) s1
                       in Some (Success,
                            if sendevent then deliverPropertyNotifyEvent env w PropertyNewValue p' s2 else s2) })
      else Some (rc, s1))"

text \<open>The mode byte of a request.\<close>

definition prop_mode :: "u8 \<Rightarrow> PropMode option" where
  "prop_mode m = (if m = 0 then Some PropModeReplace else if m = 1 then Some PropModePrepend
     else if m = 2 then Some PropModeAppend else None)"

text \<open>
  \<open>len > bytes_to_int32(0xffffffff - sizeof(xChangePropertyReq))\<close>: the argument of
  \<open>bytes_to_int32\<close> is an \<open>int\<close>, so the bound is a negative number, compared as an
  \<open>unsigned long\<close>.
\<close>

definition change_length_bound :: u64 where
  "change_length_bound = word_of_int (sint ((0xffffffff - 24 :: u32) + 3) div 4)"

definition ProcChangeProperty ::
  "'a dix_scheme env \<Rightarrow> client \<Rightarrow> nat \<Rightarrow> u8 \<Rightarrow> XID \<Rightarrow> u32 \<Rightarrow> u32 \<Rightarrow> u8 \<Rightarrow> u32 \<Rightarrow> bytes \<Rightarrow> 'a dix_scheme
   \<Rightarrow> (rc \<times> 'a dix_scheme) option" where
  "ProcChangeProperty env c req_len mode w a ty format nUnits data s0 =
     (if \<not> REQUEST_AT_LEAST_SIZE 6 req_len then Some (BadLength, s0) else
      let s = UpdateCurrentTime env s0 in
      case prop_mode mode of
        None \<Rightarrow> Some (BadValue, set_errorValue c (ucast mode) s)
      | Some md \<Rightarrow>
          if format \<noteq> 8 \<and> format \<noteq> 16 \<and> format \<noteq> 32 then Some (BadValue, set_errorValue c (ucast format) s)
          else if (ucast nUnits :: u64) > change_length_bound then Some (BadLength, s)
          else if \<not> REQUEST_FIXED_SIZE 6 (unat nUnits * unat (drop_bit 3 format)) req_len
          then Some (BadLength, s) else
          let (rc, s1) = dixLookupWindow env w c DixSetPropAccess s
          in if rc \<noteq> Success then Some (rc, s1)
             else if \<not> ValidAtom (atomTable s1) a then Some (BadAtom, set_errorValue c a s1)
             else if \<not> ValidAtom (atomTable s1) ty then Some (BadAtom, set_errorValue c ty s1)
             else dixChangeWindowProperty env c w a ty (ucast format) md (unat nUnits) data True s1)"

definition DeleteProperty ::
  "'a dix_scheme env \<Rightarrow> client \<Rightarrow> XID \<Rightarrow> u32 \<Rightarrow> 'a dix_scheme \<Rightarrow> rc \<times> 'a dix_scheme" where
  "DeleteProperty env c w a s =
     (let (rc, pProp, s1) = dixLookupProperty env w a c DixDestroyAccess s
      in if rc = BadMatch then (Success, s1)
         else if rc = Success then
           (let s2 = set_props w (unlink_property a (userProps s1 w)) s1
            in (rc, deliverPropertyNotifyEvent env w PropertyDelete (the pProp) s2))
         else (rc, s1))"

definition ProcDeleteProperty ::
  "'a dix_scheme env \<Rightarrow> client \<Rightarrow> nat \<Rightarrow> XID \<Rightarrow> u32 \<Rightarrow> 'a dix_scheme \<Rightarrow> rc \<times> 'a dix_scheme" where
  "ProcDeleteProperty env c req_len w a s0 =
     (if \<not> REQUEST_SIZE_MATCH 3 req_len then (BadLength, s0) else
      let s = UpdateCurrentTime env s0;
          (rc, s1) = dixLookupWindow env w c DixSetPropAccess s
      in if rc \<noteq> Success then (rc, s1)
         else if \<not> ValidAtom (atomTable s1) a then (BadAtom, set_errorValue c a s1)
         else DeleteProperty env c w a s1)"

text \<open>\<open>DeleteAllWindowProperties\<close> announces each property while the list is still in place.\<close>

definition DeleteAllWindowProperties :: "'a dix_scheme env \<Rightarrow> XID \<Rightarrow> 'a dix_scheme \<Rightarrow> 'a dix_scheme" where
  "DeleteAllWindowProperties env w s =
     set_props w [] (fold (deliverPropertyNotifyEvent env w PropertyDelete) (userProps s w) s)"

definition NullPropertyReply :: "client \<Rightarrow> u32 \<Rightarrow> u32 \<Rightarrow> 'a dix_scheme \<Rightarrow> rc \<times> 'a dix_scheme" where
  "NullPropertyReply c ty format s = (Success, WriteReplyToClient c (GetPropertyReply format 0 0 ty []) s)"

definition ProcGetProperty ::
  "'a dix_scheme env \<Rightarrow> client \<Rightarrow> nat \<Rightarrow> u8 \<Rightarrow> XID \<Rightarrow> u32 \<Rightarrow> u32 \<Rightarrow> u32 \<Rightarrow> u32 \<Rightarrow> 'a dix_scheme
   \<Rightarrow> (rc \<times> 'a dix_scheme) option" where
  "ProcGetProperty env c req_len delete w a ty longOffset longLength s0 =
     (if \<not> REQUEST_SIZE_MATCH 6 req_len then Some (BadLength, s0) else
      let s = (if delete \<noteq> 0 then UpdateCurrentTime env s0 else s0);
          win_mode = (if delete \<noteq> 0 then DixGetPropAccess OR DixSetPropAccess else DixGetPropAccess);
          prop_mode = (if delete \<noteq> 0 then DixReadAccess OR DixDestroyAccess else DixReadAccess);
          (rc, s1) = dixLookupWindow env w c win_mode s
      in if rc \<noteq> Success then Some (rc, s1)
      else if \<not> ValidAtom (atomTable s1) a then Some (BadAtom, set_errorValue c a s1)
      else if delete \<noteq> 1 \<and> delete \<noteq> 0 then Some (BadValue, set_errorValue c (ucast delete) s1)
      else if ty \<noteq> 0 \<and> \<not> ValidAtom (atomTable s1) ty then Some (BadAtom, set_errorValue c ty s1) else
      let (rc, pProp, s2) = dixLookupProperty env w a c prop_mode s1;
          p = the pProp
      in if rc = BadMatch then Some (NullPropertyReply c 0 0 s2)
      else if rc \<noteq> Success then Some (rc, s2)
      else if ty \<noteq> p_type p \<and> ty \<noteq> 0 then
        Some (Success, WriteReplyToClient c (GetPropertyReply (p_format p) (p_size p) 0 (p_type p) []) s2) else
      let n = unat ((p_format p div 8) * p_size p);
          ind = unat (push_bit 2 longOffset)
      in if n < ind then Some (BadValue, set_errorValue c longOffset s2) else
      let len = min (n - ind) (unat (4 * longLength));
          bytesAfter = word_of_nat (n - (ind + len)) :: u32;
          s3 = (if delete \<noteq> 0 \<and> bytesAfter = 0 then deliverPropertyNotifyEvent env w PropertyDelete p s2 else s2)
      in do {
        d \<leftarrow> memdup (drop ind (p_data p)) len;
        let r = GetPropertyReply (p_format p) bytesAfter (word_of_nat (len div (unat (p_format p) div 8))) (p_type p) d;
        let s4 = WriteReplyToClient c r s3;
        Some (Success, if delete \<noteq> 0 \<and> bytesAfter = 0 then set_props w (unlink_property a (userProps s4 w)) s4 else s4) })"

definition ProcListProperties ::
  "'a dix_scheme env \<Rightarrow> client \<Rightarrow> nat \<Rightarrow> XID \<Rightarrow> 'a dix_scheme \<Rightarrow> rc \<times> 'a dix_scheme" where
  "ProcListProperties env c req_len w s =
     (if \<not> REQUEST_SIZE_MATCH 2 req_len then (BadLength, s) else
      let (rc, s1) = dixLookupWindow env w c DixListPropAccess s
      in if rc \<noteq> Success then (rc, s1)
         else if userProps s1 w \<noteq> [] \<and> \<not> alloc_ok env AllocReply then (BadAlloc, s1)
         else (Success, WriteReplyToClient c (ListPropertiesReply
                (map p_propertyName (filter (\<lambda>p. XaceProperty env c w p DixGetAttrAccess = Success) (userProps s1 w)))) s1))"

text \<open>
  \<open>ProcRotateProperties\<close>: the first loop checks the atoms and saves the properties, the second
  one announces the change of the property \<open>i\<close> and writes its saved contents to the property
  \<open>j\<close>. \<open>Inl\<close> is the error at which the first loop leaves.
\<close>

fun rotate_save ::
  "'a dix_scheme env \<Rightarrow> client \<Rightarrow> XID \<Rightarrow> u32 list \<Rightarrow> 'a dix_scheme \<Rightarrow> (rc + PropertyRec list) \<times> 'a dix_scheme" where
  "rotate_save env c w [] s = (Inr [], s)"
| "rotate_save env c w (a # as) s =
     (if \<not> ValidAtom (atomTable s) a then (Inl BadAtom, set_errorValue c a s)
      else if a \<in> set as then (Inl BadMatch, s)
      else let (rc, pProp, s1) = dixLookupProperty env w a c (DixReadAccess OR DixWriteAccess) s
           in if rc \<noteq> Success then (Inl rc, s1)
              else let (r, s2) = rotate_save env c w as s1
                   in (map_sum id ((#) (the pProp)) r, s2))"

definition rotated :: "PropertyRec \<Rightarrow> PropertyRec \<Rightarrow> PropertyRec" where
  "rotated saved p = p\<lparr>p_type := p_type saved, p_format := p_format saved, p_size := p_size saved, p_data := p_data saved\<rparr>"

definition rotate_one ::
  "'a dix_scheme env \<Rightarrow> XID \<Rightarrow> u32 list \<Rightarrow> PropertyRec list \<Rightarrow> nat \<Rightarrow> nat \<Rightarrow> 'a dix_scheme \<Rightarrow> 'a dix_scheme" where
  "rotate_one env w as saved delta i s =
     (let j = (i + delta) mod length as;
          s1 = deliverPropertyNotifyEvent env w PropertyNewValue (the (find_property (userProps s w) (as ! i))) s
      in set_props w (update_property (as ! j) (rotated (saved ! i)) (userProps s1 w)) s1)"

text \<open>\<open>while (delta < 0) delta += nAtoms\<close>.\<close>

function rotate_delta :: "int \<Rightarrow> nat \<Rightarrow> nat" where
  "rotate_delta delta n = (if delta < 0 \<and> 0 < n then rotate_delta (delta + int n) n else nat delta)"
  by auto
termination by (relation "measure (\<lambda>(delta, n). nat (- delta))") auto

declare rotate_delta.simps [simp del]

definition ProcRotateProperties ::
  "'a dix_scheme env \<Rightarrow> client \<Rightarrow> nat \<Rightarrow> XID \<Rightarrow> u32 list \<Rightarrow> 16 word \<Rightarrow> 'a dix_scheme \<Rightarrow> rc \<times> 'a dix_scheme" where
  "ProcRotateProperties env c req_len w as nPositions s0 =
     (if \<not> REQUEST_FIXED_SIZE 3 (4 * length as) req_len then (BadLength, s0) else
      let s = UpdateCurrentTime env s0;
          (rc, s1) = dixLookupWindow env w c DixSetPropAccess s
      in if rc \<noteq> Success \<or> as = [] then (rc, s1)
         else if \<not> alloc_ok env AllocRotate then (BadAlloc, s1) else
      let (r, s2) = rotate_save env c w as s1
      in case r of
           Inl e \<Rightarrow> (e, s2)
         | Inr saved \<Rightarrow>
             if \<bar>sint nPositions\<bar> mod int (length as) \<noteq> 0 then
               (Success, fold (rotate_one env w as saved (rotate_delta (sint nPositions) (length as)))
                           [0..<length as] s2)
             else (Success, s2))"

section \<open>The list of properties\<close>

lemma find_property_Some: "find_property ps a = Some p \<Longrightarrow> p \<in> set ps \<and> p_propertyName p = a"
  by (induction ps) (auto split: if_splits)

lemma find_property_None: "find_property ps a = None \<longleftrightarrow> a \<notin> p_propertyName ` set ps"
  by (induction ps) auto

definition keeps_name :: "(PropertyRec \<Rightarrow> PropertyRec) \<Rightarrow> u32 \<Rightarrow> bool" where
  "keeps_name f a \<longleftrightarrow> (\<forall>p. p_propertyName p = a \<longrightarrow> p_propertyName (f p) = a)"

lemma find_update_property:
  "keeps_name f a \<Longrightarrow> find_property (update_property a f ps) b
     = (if b = a then map_option f (find_property ps a) else find_property ps b)"
  by (induction ps) (auto simp: keeps_name_def)

lemma update_property_names:
  "keeps_name f a \<Longrightarrow> map p_propertyName (update_property a f ps) = map p_propertyName ps"
  by (induction ps) (auto simp: keeps_name_def)

lemma find_unlink_property:
  "distinct (map p_propertyName ps) \<Longrightarrow> find_property (unlink_property a ps) b
     = (if b = a then None else find_property ps b)"
  by (induction ps) (auto simp: find_property_None [symmetric])

lemma unlink_property_subset: "set (unlink_property a ps) \<subseteq> set ps"
  by (induction ps) auto

lemma unlink_property_distinct:
  "distinct (map p_propertyName ps) \<Longrightarrow> distinct (map p_propertyName (unlink_property a ps))"
  using unlink_property_subset by (induction ps) (auto dest!: unlink_property_subset [THEN subsetD])

lemma update_property_set: "set (update_property a f ps) \<subseteq> set ps \<union> f ` {p \<in> set ps. p_propertyName p = a}"
  by (induction ps) auto

section \<open>Well-formed properties\<close>

definition format_ok :: "u32 \<Rightarrow> bool" where
  "format_ok f \<longleftrightarrow> f = 8 \<or> f = 16 \<or> f = 32"

definition unit :: "u32 \<Rightarrow> nat" where
  "unit f = unat f div 8"

text \<open>The data has as many bytes as the format and the size say, fewer than \<open>2 ^ 32\<close>.\<close>

definition prop_ok :: "PropertyRec \<Rightarrow> bool" where
  "prop_ok p \<longleftrightarrow> format_ok (p_format p) \<and> length (p_data p) = unat (p_size p) * unit (p_format p)
     \<and> length (p_data p) < 2 ^ 32"

definition props_ok :: "'a dix_scheme \<Rightarrow> bool" where
  "props_ok s \<longleftrightarrow> (\<forall>w. distinct (map p_propertyName (userProps s w)) \<and> (\<forall>p\<in>set (userProps s w). prop_ok p))"

lemma format_cases:
  assumes "format_ok f"
  shows "unat (drop_bit 3 f) = unit f" "unat (f div 8) = unit f" "0 < unit f" "unit f \<le> 4"
  using assms by (auto simp: format_ok_def unit_def unat_drop_bit_eq drop_bit_eq_div unat_div)

lemma unat_mult_u32: "unat (a::u32) * unat b < 2 ^ 32 \<Longrightarrow> unat (a * b) = unat a * unat b"
  using unat_mult_lem [of a b] by simp

lemma prop_ok_bytes:
  assumes "prop_ok p"
  shows "unat (p_size p * drop_bit 3 (p_format p)) = length (p_data p)"
    "unat ((p_format p div 8) * p_size p) = length (p_data p)"
proof -
  have f: "unat (drop_bit 3 (p_format p)) = unit (p_format p)" "unat (p_format p div 8) = unit (p_format p)"
    using assms format_cases by (auto simp: prop_ok_def)
  show "unat (p_size p * drop_bit 3 (p_format p)) = length (p_data p)"
    using assms f unat_mult_u32 [of "p_size p" "drop_bit 3 (p_format p)"] by (simp add: prop_ok_def)
  show "unat ((p_format p div 8) * p_size p) = length (p_data p)"
    using assms f unat_mult_u32 [of "p_format p div 8" "p_size p"] by (simp add: prop_ok_def mult.commute)
qed

text \<open>What the properties rely on of the callbacks.\<close>

definition property_callbacks_frame :: "'a dix_scheme env \<Rightarrow> bool" where
  "property_callbacks_frame env \<longleftrightarrow> (\<forall>cb\<in>set (PropertyStateCallback env). \<forall>w st p s.
     userProps (cb w st p s) = userProps s \<and> outputs (cb w st p s) = outputs s
     \<and> atomTable (cb w st p s) = atomTable s \<and> drawables (cb w st p s) = drawables s
     \<and> CurrentSelections (cb w st p s) = CurrentSelections s \<and> currentTime (cb w st p s) = currentTime s
     \<and> clientGone (cb w st p s) = clientGone s \<and> dix.more (cb w st p s) = dix.more s)"

lemma deliver_frame:
  assumes "property_callbacks_frame env"
  shows "userProps (deliverPropertyNotifyEvent env w st p s) = userProps s"
    "atomTable (deliverPropertyNotifyEvent env w st p s) = atomTable s"
    "drawables (deliverPropertyNotifyEvent env w st p s) = drawables s"
    "CurrentSelections (deliverPropertyNotifyEvent env w st p s) = CurrentSelections s"
    "clientGone (deliverPropertyNotifyEvent env w st p s) = clientGone s"
    "dix.more (deliverPropertyNotifyEvent env w st p s) = dix.more s"
    "outputs (deliverPropertyNotifyEvent env w st p s) = outputs s @
       [ToWindow w (PropertyNotify w st (p_propertyName p) (milliseconds (currentTime (UpdateCurrentTimeIf env s))))]"
proof -
  let ?cbs = "map (\<lambda>cb. cb w st p) (PropertyStateCallback env)"
  have "userProps (CallCallbacks ?cbs s') = userProps s'" "atomTable (CallCallbacks ?cbs s') = atomTable s'"
    "drawables (CallCallbacks ?cbs s') = drawables s'" "outputs (CallCallbacks ?cbs s') = outputs s'"
    "CurrentSelections (CallCallbacks ?cbs s') = CurrentSelections s'"
    "clientGone (CallCallbacks ?cbs s') = clientGone s'" "dix.more (CallCallbacks ?cbs s') = dix.more s'" for s'
    using assms unfolding property_callbacks_frame_def by (auto intro!: CallCallbacks_frame)
  then show "userProps (deliverPropertyNotifyEvent env w st p s) = userProps s"
    "atomTable (deliverPropertyNotifyEvent env w st p s) = atomTable s"
    "drawables (deliverPropertyNotifyEvent env w st p s) = drawables s"
    "CurrentSelections (deliverPropertyNotifyEvent env w st p s) = CurrentSelections s"
    "clientGone (deliverPropertyNotifyEvent env w st p s) = clientGone s"
    "dix.more (deliverPropertyNotifyEvent env w st p s) = dix.more s"
    "outputs (deliverPropertyNotifyEvent env w st p s) = outputs s @
       [ToWindow w (PropertyNotify w st (p_propertyName p) (milliseconds (currentTime (UpdateCurrentTimeIf env s))))]"
    by (simp_all add: deliverPropertyNotifyEvent_def Let_def dix_simps)
qed

lemma set_props_simps [simp]:
  "userProps (set_props w ps s) = (userProps s)(w := ps)"
  "atomTable (set_props w ps s) = atomTable s"
  "drawables (set_props w ps s) = drawables s"
  "CurrentSelections (set_props w ps s) = CurrentSelections s"
  "clientGone (set_props w ps s) = clientGone s"
  "currentTime (set_props w ps s) = currentTime s"
  "outputs (set_props w ps s) = outputs s"
  "dix.more (set_props w ps s) = dix.more s"
  by (simp_all add: set_props_def)


section \<open>Changing a property\<close>

text \<open>
  The record a change leaves: the new contents for a property that does not exist or is
  replaced, the concatenation for one that is appended or prepended to.
\<close>

definition merged :: "PropertyRec option \<Rightarrow> PropMode \<Rightarrow> u32 \<Rightarrow> u32 \<Rightarrow> u32 \<Rightarrow> nat \<Rightarrow> bytes \<Rightarrow> PropertyRec" where
  "merged old mode a ty format len v =
     (case old of
        Some p \<Rightarrow> if mode = PropModeReplace
                  then \<lparr>p_propertyName = a, p_type = ty, p_format = format, p_size = word_of_nat len, p_data = v\<rparr>
                  else p\<lparr>p_size := p_size p + word_of_nat len,
                          p_data := (if mode = PropModeAppend then p_data p @ v else v @ p_data p)\<rparr>
      | None \<Rightarrow> \<lparr>p_propertyName = a, p_type = ty, p_format = format, p_size = word_of_nat len, p_data = v\<rparr>)"

text \<open>Appending and prepending need the type and the format the property has.\<close>

definition compatible :: "PropertyRec option \<Rightarrow> PropMode \<Rightarrow> u32 \<Rightarrow> u32 \<Rightarrow> bool" where
  "compatible old mode ty format \<longleftrightarrow>
     (case old of Some p \<Rightarrow> mode = PropModeReplace \<or> p_type p = ty \<and> p_format p = format | None \<Rightarrow> True)"

definition fits :: "PropertyRec option \<Rightarrow> PropMode \<Rightarrow> bytes \<Rightarrow> bool" where
  "fits old mode v \<longleftrightarrow>
     (case old of Some p \<Rightarrow> mode = PropModeReplace \<or> length (p_data p) + length v < 2 ^ 32 | None \<Rightarrow> True)"

definition granted :: "'s env \<Rightarrow> bool" where
  "granted env \<longleftrightarrow> (\<forall>x. alloc_ok env x) \<and> (\<forall>c w p m. XaceProperty env c w p m = Success)"

lemma granted_dest: "granted env \<Longrightarrow> alloc_ok env x" "granted env \<Longrightarrow> XaceProperty env c w p m = Success"
  by (simp_all add: granted_def)

lemma memdup_all [simp]: "memdup v (length v) = Some v"
  by (simp add: memdup_def)

lemma memdup_0 [simp]: "memdup v 0 = Some []"
  by (simp add: memdup_def)

lemma memdup_take: "n \<le> length v \<Longrightarrow> memdup v n = Some (take n v)"
  by (simp add: memdup_def)

lemma merged_name: "find_property ps a = old \<Longrightarrow> p_propertyName (merged old mode a ty format len v) = a"
  by (cases old) (auto simp: merged_def dest: find_property_Some)

lemma length_units:
  assumes "length v = len * unit f" "format_ok f" "length v < 2 ^ 32"
  shows "len < 2 ^ 32" "unat (word_of_nat len :: u32) = len"
proof -
  have "len \<le> len * unit f" using format_cases(3) [OF assms(2)] by (cases "unit f") simp_all
  then show "len < 2 ^ 32" using assms(1,3) by linarith
  then show "unat (word_of_nat len :: u32) = len" by (rule unat_of_nat_u32)
qed

lemma unat_add_u32: "unat (a::u32) + unat b < 2 ^ 32 \<Longrightarrow> unat (a + b) = unat a + unat b"
  using unat_add_lem [of a b] by simp

lemma merged_ok:
  assumes "\<forall>p. old = Some p \<longrightarrow> prop_ok p" "format_ok format" "length v = len * unit format" "length v < 2 ^ 31"
    and "compatible old mode ty format" "fits old mode v"
  shows "prop_ok (merged old mode a ty format len v)"
proof (cases "old = None \<or> mode = PropModeReplace")
  case True
  then show ?thesis using assms(2-4) length_units [OF assms(3,2)]
    by (cases old) (auto simp: merged_def prop_ok_def)
next
  case False
  then obtain p where p: "old = Some p" "mode \<noteq> PropModeReplace" by auto
  then have ok: "prop_ok p" "p_format p = format" "length (p_data p) + length v < 2 ^ 32"
    using assms(1,5,6) by (auto simp: compatible_def fits_def)
  have l: "length (p_data p) = unat (p_size p) * unit format" using ok by (simp add: prop_ok_def)
  have u: "unat (word_of_nat len :: u32) = len" using length_units [OF assms(3,2)] assms(4) by simp
  have "(unat (p_size p) + len) * 1 \<le> (unat (p_size p) + len) * unit format"
    using format_cases(3) [OF assms(2)] by (intro mult_le_mono2) simp
  also have "\<dots> < 2 ^ 32" using ok(3) l assms(3) by (simp add: distrib_right)
  finally have "unat (p_size p + word_of_nat len) = unat (p_size p) + len"
    using unat_add_u32 [of "p_size p" "word_of_nat len"] u by simp
  then show ?thesis using ok l assms(2,3) p
    by (auto simp: merged_def prop_ok_def distrib_right add.commute)
qed

lemma changed_contents_merged:
  assumes "granted env" "prop_ok p" "p_propertyName p = a" "format_ok format" "length v = len * unit format"
    and "compatible (Some p) mode ty format"
  shows "changed_contents env p ty format mode len v = Some (Inr (merged (Some p) mode a ty format len v))"
proof -
  have f: "unat (drop_bit 3 format) = unit format" using format_cases [OF assms(4)] by simp
  show ?thesis
  proof (cases "mode = PropModeReplace")
    case True
    then show ?thesis using assms(1,3,5) f
      by (cases p) (auto simp: changed_contents_def changed_prop_def merged_def Let_def granted_dest memdup_def)
  next
    case False
    then have pf: "p_format p = format" using assms(6) by (simp add: compatible_def)
    have "unat (p_size p * drop_bit 3 format) = length (p_data p)"
      using prop_ok_bytes [OF assms(2)] pf by simp
    then show ?thesis using False assms(1,5) f
      by (cases "len = 0") (auto simp: changed_contents_def merged_def Let_def granted_dest memdup_def)
  qed
qed

lemma dixLookupProperty_eq:
  "dixLookupProperty env w a c m s =
     (case find_property (userProps s w) a of None \<Rightarrow> BadMatch | Some p \<Rightarrow> XaceProperty env c w p m,
      find_property (userProps s w) a, set_errorValue c a s)"
  by (simp add: dixLookupProperty_def Let_def split: option.splits)

text \<open>The list of properties a change leaves.\<close>

definition put_property :: "PropertyRec \<Rightarrow> PropertyRec list \<Rightarrow> PropertyRec list" where
  "put_property p ps = (if find_property ps (p_propertyName p) = None then p # ps
     else update_property (p_propertyName p) (\<lambda>_. p) ps)"

lemma find_put_property:
  "find_property (put_property p ps) b = (if b = p_propertyName p then Some p else find_property ps b)"
  by (auto simp: put_property_def find_update_property keeps_name_def)

lemma put_property_ok:
  assumes "distinct (map p_propertyName ps)" "\<forall>q\<in>set ps. prop_ok q" "prop_ok p"
  shows "distinct (map p_propertyName (put_property p ps))" "\<forall>q\<in>set (put_property p ps). prop_ok q"
  using assms update_property_set [of "p_propertyName p" "\<lambda>_. p" ps]
  by (auto simp: put_property_def find_property_None update_property_names keeps_name_def)

lemma dixChangeWindowProperty_done:
  assumes "granted env" "props_ok s" "format_ok format" "length v = len * unit format" "length v < 2 ^ 31"
    and "compatible (find_property (userProps s w) a) mode ty format"
  shows "dixChangeWindowProperty env c w a ty format mode len v sendevent s =
     (let p = merged (find_property (userProps s w) a) mode a ty format len v;
          s' = set_props w (put_property p (userProps s w)) (set_errorValue c a s)
      in Some (Success, if sendevent then deliverPropertyNotifyEvent env w PropertyNewValue p s' else s'))"
proof -
  have f: "unat (drop_bit 3 format) = unit format" using format_cases [OF assms(3)] by simp
  show ?thesis
  proof (cases "find_property (userProps s w) a")
    case None
    then show ?thesis using assms(1,4,5) f
      by (auto simp: dixChangeWindowProperty_def dixLookupProperty_eq Let_def granted_dest merged_def
          put_property_def dix_simps memdup_def)
  next
    case (Some p)
    have p: "prop_ok p" "p_propertyName p = a"
      using assms(2) find_property_Some [OF Some] by (auto simp: props_ok_def)
    have nm: "p_propertyName (merged (Some p) mode a ty format len v) = a"
      using merged_name [OF Some] .
    have cc: "changed_contents env p ty format mode len v = Some (Inr (merged (Some p) mode a ty format len v))"
      using changed_contents_merged [OF assms(1) p assms(3,4)] assms(6) Some by simp
    have match: "\<not> (format \<noteq> p_format p \<and> mode \<noteq> PropModeReplace)" "\<not> (p_type p \<noteq> ty \<and> mode \<noteq> PropModeReplace)"
      using assms(6) Some by (auto simp: compatible_def)
    have total: "\<not> 2 ^ 31 \<le> len * unat (drop_bit 3 format)" using assms(4,5) f by simp
    have pp: "put_property (merged (Some p) mode a ty format len v) (userProps s w)
        = update_property a (\<lambda>_. merged (Some p) mode a ty format len v) (userProps s w)"
      by (simp add: put_property_def nm Some)
    show ?thesis
      unfolding dixChangeWindowProperty_def dixLookupProperty_eq Let_def Some prod.case option.case option.sel
        if_not_P [OF total] granted_dest(2) [OF assms(1)] if_not_P [OF match(1)] if_not_P [OF match(2)] cc pp
      by (simp add: dix_simps)
  qed
qed

lemma put_merged_ok:
  assumes "props_ok s" "format_ok format" "length v = len * unit format" "length v < 2 ^ 31"
    and "compatible (find_property (userProps s w) a) mode ty format" "fits (find_property (userProps s w) a) mode v"
    and "userProps s' = userProps s"
  shows "props_ok (set_props w (put_property (merged (find_property (userProps s w) a) mode a ty format len v)
           (userProps s w)) s')"
proof -
  have "prop_ok (merged (find_property (userProps s w) a) mode a ty format len v)"
  proof (rule merged_ok [OF _ assms(2-6)])
    show "\<forall>p. find_property (userProps s w) a = Some p \<longrightarrow> prop_ok p"
      using assms(1) find_property_Some unfolding props_ok_def by blast
  qed
  moreover have "distinct (map p_propertyName (userProps s w))" "\<forall>q\<in>set (userProps s w). prop_ok q"
    using assms(1) unfolding props_ok_def by blast+
  ultimately show ?thesis using put_property_ok assms(1) unfolding props_ok_def set_props_simps assms(7)
    by (metis fun_upd_apply)
qed

lemma props_ok_deliver:
  "property_callbacks_frame env \<Longrightarrow> props_ok (deliverPropertyNotifyEvent env w st p s) = props_ok s"
  by (simp add: props_ok_def deliver_frame)


section \<open>Reading a property\<close>

lemma take_min_drop: "take (min (length d - k) m) (drop k d) = take m (drop k d)"
  by (simp add: min_def)

lemma memdup_slice: "memdup (drop k d) (min (length d - k) m) = Some (take m (drop k d))"
  by (simp add: memdup_def take_min_drop)

lemma unat_shift2: "unat (w::u32) < 2 ^ 30 \<Longrightarrow> unat (push_bit 2 w) = 4 * unat w" "unat (w::u32) < 2 ^ 30 \<Longrightarrow> unat (4 * w) = 4 * unat w"
  using unat_mult_lem [of 4 w] by (simp_all add: push_bit_eq_mult mult.commute)

text \<open>
  The reply to a request that reads \<open>longLength\<close> units from \<open>longOffset\<close>, the request being
  granted and naming a property of the asked type.
\<close>

lemma ProcGetProperty_reply:
  assumes "granted env" "props_ok s" "drawables s w = Some DRAWABLE_WINDOW" "XaceResource env c w DixGetPropAccess = Success"
    and "ValidAtom (atomTable s) a" "find_property (userProps s w) a = Some p" "ty = 0 \<or> ty = p_type p \<and> ValidAtom (atomTable s) ty"
    and "unat off < 2 ^ 30" "unat ln < 2 ^ 30" "4 * unat off \<le> length (p_data p)"
  shows "\<exists>s'. ProcGetProperty env c 6 0 w a ty off ln s = Some (Success, s')
    \<and> userProps s' = userProps s
    \<and> outputs s' = outputs s @ [ReplyTo c (GetPropertyReply (p_format p)
         (word_of_nat (length (p_data p) - (4 * unat off + min (length (p_data p) - 4 * unat off) (4 * unat ln))))
         (word_of_nat (min (length (p_data p) - 4 * unat off) (4 * unat ln) div unit (p_format p)))
         (p_type p) (take (4 * unat ln) (drop (4 * unat off) (p_data p))))]"
proof -
  have pok: "prop_ok p" using assms(2) find_property_Some [OF assms(6)] unfolding props_ok_def by blast
  have n: "unat ((p_format p div 8) * p_size p) = length (p_data p)" using prop_ok_bytes [OF pok] by simp
  have lk: "dixLookupWindow env w c DixGetPropAccess s = (Success, set_errorValue c w s)"
    using dixLookupWindow_Success [of env w c DixGetPropAccess s] assms(3,4)
    by (simp add: prod_eq_iff dixLookupWindow_state)
  note u = unat_shift2 [OF assms(8)] unat_shift2 [OF assms(9)]
  show ?thesis
    using assms(5,7,10)
    by (auto simp: ProcGetProperty_def REQUEST_SIZE_MATCH_def lk dixLookupProperty_eq Let_def dix_simps assms(6)
        granted_dest [OF assms(1)] n u memdup_slice unit_def WriteReplyToClient_def)
qed


section \<open>Requests stay inside their data\<close>

lemma change_length_guard_dead: "\<not> (ucast (nUnits::u32) :: u64) > change_length_bound"
proof -
  have "unat change_length_bound = 18446744073709551610" by (simp add: change_length_bound_def)
  then show ?thesis using unat_less_u32 [of nUnits]
    by (simp add: word_less_nat_alt unat_ucast_u32_u64)
qed

lemma defined_if: "\<lbrakk>b \<Longrightarrow> x \<noteq> None; \<not> b \<Longrightarrow> y \<noteq> None\<rbrakk> \<Longrightarrow> (if b then x else y) \<noteq> None"
  by simp

lemma defined_sum: "\<lbrakk>\<And>a. f a \<noteq> None; \<And>b. g b \<noteq> None\<rbrakk> \<Longrightarrow> (case r of Inl a \<Rightarrow> f a | Inr b \<Rightarrow> g b) \<noteq> None"
  by (cases r) simp_all

lemma changed_contents_defined:
  assumes "mode = PropModeReplace \<or> prop_ok p \<and> p_format p = format" "len * unat (drop_bit 3 format) \<le> length v"
  shows "changed_contents env p ty format mode len v \<noteq> None"
  using assms prop_ok_bytes [of p]
  by (auto simp: changed_contents_def Let_def memdup_def)

lemma dixChangeWindowProperty_defined:
  assumes "props_ok s" "len * unat (drop_bit 3 format) \<le> length v" "len * unat (drop_bit 3 format) < 2 ^ 31"
  shows "dixChangeWindowProperty env c w a ty format mode len v ev s \<noteq> None"
proof (cases "find_property (userProps s w) a")
  case None
  then show ?thesis using assms
    by (auto simp: dixChangeWindowProperty_def dixLookupProperty_eq Let_def memdup_def)
next
  case (Some p)
  have "prop_ok p" using assms(1) find_property_Some [OF Some] unfolding props_ok_def by blast
  then have cc: "changed_contents env p ty format mode len v \<noteq> None" if "mode = PropModeReplace \<or> p_format p = format"
    using changed_contents_defined [OF _ assms(2)] that by blast
  have total: "\<not> 2 ^ 31 \<le> len * unat (drop_bit 3 format)" using assms(3) by simp
  obtain am where am: "(if mode = PropModeReplace then DixWriteAccess else DixBlendAccess) = am" by blast
  show ?thesis
  proof (cases "mode = PropModeReplace \<or> p_format p = format")
    case True
    with cc obtain r where r: "changed_contents env p ty format mode len v = Some r" by blast
    show ?thesis
      unfolding dixChangeWindowProperty_def dixLookupProperty_eq Let_def Some prod.case option.case option.sel
        if_not_P [OF total] am memdup_take [OF assms(2)] r bind.bind_lunit
      by (intro defined_if defined_sum; simp)
  next
    case False
    then have f: "format \<noteq> p_format p \<and> mode \<noteq> PropModeReplace" by auto
    show ?thesis
      unfolding dixChangeWindowProperty_def dixLookupProperty_eq Let_def Some prod.case option.case option.sel
        if_not_P [OF total] am memdup_take [OF assms(2)] if_P [OF f] bind.bind_lunit
      by (intro defined_if; simp)
  qed
qed

lemma ProcChangeProperty_defined:
  assumes "props_ok s" "input_frame env" "length data = 4 * (req_len - 6)" "req_len \<le> 4194303"
  shows "ProcChangeProperty env c req_len mode w a ty format nUnits data s \<noteq> None"
proof -
  let ?n = "unat nUnits * unat (drop_bit 3 format)"
  let ?s = "snd (dixLookupWindow env w c DixSetPropAccess (UpdateCurrentTime env s))"
  have ok: "props_ok ?s" using assms(1,2) by (simp add: props_ok_def dixLookupWindow_state dix_simps)
  have "dixChangeWindowProperty env c w a ty (ucast format) md (unat nUnits) data True ?s \<noteq> None"
    if "REQUEST_FIXED_SIZE 6 ?n req_len" "format = 8 \<or> format = 16 \<or> format = 32" for md
  proof (rule dixChangeWindowProperty_defined [OF ok])
    have f: "unat (drop_bit 3 (ucast format :: u32)) = unat (drop_bit 3 format)"
      using that(2) by auto
    have "(24 + ?n + 3) div 4 = req_len" using that(1) by (simp add: REQUEST_FIXED_SIZE_def)
    then have "?n \<le> 4 * (req_len - 6)" by linarith
    then show "unat nUnits * unat (drop_bit 3 (ucast format :: u32)) \<le> length data"
      "unat nUnits * unat (drop_bit 3 (ucast format :: u32)) < 2 ^ 31"
      using assms(3,4) f by simp_all
  qed
  then show ?thesis
    by (auto simp: ProcChangeProperty_def Let_def case_prod_beta split: option.splits)
qed

section \<open>Rotation\<close>

lemma rotate_delta_mod: "0 < n \<Longrightarrow> int (rotate_delta d n mod n) = d mod int n"
proof (induction d n rule: rotate_delta.induct)
  case (1 d n)
  then show ?case by (subst rotate_delta.simps) (auto simp: zmod_int)
qed

lemma rotated_name [simp]: "p_propertyName (rotated q p) = p_propertyName p"
  by (simp add: rotated_def)

lemma keeps_rotated [simp]: "keeps_name (rotated q) a"
  by (simp add: keeps_name_def)

lemma rotate_one_props:
  assumes "property_callbacks_frame env"
  shows "userProps (rotate_one env w as saved delta i s) =
    (userProps s)(w := update_property (as ! ((i + delta) mod length as)) (rotated (saved ! i)) (userProps s w))"
  by (simp add: rotate_one_def Let_def deliver_frame [OF assms])

lemma mod_add_inj:
  assumes "i < n" "k < n" "(i + d) mod n = (k + d) mod (n::nat)"
  shows "i = k"
proof -
  have "int (i + d) mod int n = int (k + d) mod int n" using assms(3) by (metis zmod_int)
  then have "int n dvd int i - int k" by (simp add: mod_eq_dvd_iff)
  moreover have "\<bar>int i - int k\<bar> < int n" using assms(1,2) by linarith
  ultimately show ?thesis using dvd_imp_le_int [of "int i - int k" "int n"] by fastforce
qed

text \<open>After the first \<open>k\<close> rounds of the second loop.\<close>

lemma rotate_loop:
  assumes "property_callbacks_frame env" "distinct as" "as \<noteq> []" "k \<le> length as"
    and "\<And>i. i < length as \<Longrightarrow> find_property (userProps s w) (as ! i) = Some (saved ! i)"
  shows "(\<forall>i<k. find_property (userProps (fold (rotate_one env w as saved delta) [0..<k] s) w)
             (as ! ((i + delta) mod length as)) = Some (rotated (saved ! i) (saved ! ((i + delta) mod length as))))
     \<and> (\<forall>a. (\<forall>i<k. a \<noteq> as ! ((i + delta) mod length as)) \<longrightarrow>
          find_property (userProps (fold (rotate_one env w as saved delta) [0..<k] s) w) a = find_property (userProps s w) a)
     \<and> (\<forall>v. v \<noteq> w \<longrightarrow> userProps (fold (rotate_one env w as saved delta) [0..<k] s) v = userProps s v)"
  using assms(4)
proof (induction k)
  case (Suc k)
  let ?j = "\<lambda>i. (i + delta) mod length as"
  let ?s = "fold (rotate_one env w as saved delta) [0..<k] s"
  have jl: "?j i < length as" for i using assms(3) by simp
  have new: "as ! ?j k \<noteq> as ! ?j i" if "i < k" for i
  proof -
    have "?j k \<noteq> ?j i" using that Suc.prems mod_add_inj [of k "length as" i delta] by auto
    then show ?thesis using nth_eq_iff_index_eq [OF assms(2) jl jl, of k i] by simp
  qed
  have old: "find_property (userProps ?s w) (as ! ?j k) = Some (saved ! ?j k)"
    using Suc.IH Suc.prems new assms(5) [OF jl, of k] by simp
  have step: "fold (rotate_one env w as saved delta) [0..<Suc k] s = rotate_one env w as saved delta k ?s" by simp
  show ?case unfolding step
  proof (intro conjI allI impI)
    fix i
    assume "i < Suc k"
    then show "find_property (userProps (rotate_one env w as saved delta k ?s) w) (as ! ?j i)
        = Some (rotated (saved ! i) (saved ! ?j i))"
      using Suc new [of i] old
      by (cases "i = k") (auto simp: rotate_one_props [OF assms(1)] find_update_property)
  next
    fix a
    assume "\<forall>i<Suc k. a \<noteq> as ! ?j i"
    then show "find_property (userProps (rotate_one env w as saved delta k ?s) w) a = find_property (userProps s w) a"
      using Suc by (auto simp: rotate_one_props [OF assms(1)] find_update_property)
  next
    fix v
    assume "v \<noteq> w"
    then show "userProps (rotate_one env w as saved delta k ?s) v = userProps s v"
      using Suc by (simp add: rotate_one_props [OF assms(1)])
  qed
qed simp

lemma rotate_save_ok:
  assumes "granted env" "distinct as" "\<forall>a\<in>set as. ValidAtom (atomTable s) a \<and> find_property (userProps s w) a \<noteq> None"
  shows "\<exists>s'. rotate_save env c w as s = (Inr (map (\<lambda>a. the (find_property (userProps s w) a)) as), s')
    \<and> userProps s' = userProps s"
  using assms(2,3)
proof (induction "as" arbitrary: s)
  case (Cons a as)
  have "\<exists>s'. rotate_save env c w as (set_errorValue c a s) =
      (Inr (map (\<lambda>a. the (find_property (userProps s w) a)) as), s') \<and> userProps s' = userProps s"
    using Cons.IH [of "set_errorValue c a s"] Cons.prems by (simp add: dix_simps)
  then show ?case using Cons.prems
    by (auto simp: dixLookupProperty_eq granted_dest [OF assms(1)])
qed simp


section \<open>Properties\<close>

text \<open>C6: A granted change of a property leaves exactly the new contents (replace) or the concatenation of
  the old and the new bytes (append, prepend), keeps every property well-formed, touches no other
  property of any window, and announces the change with one \<open>PropertyNotify\<close>.\<close>
theorem change_property_contents:
  assumes "granted env" "property_callbacks_frame env" "props_ok s" "format_ok format"
    and "length v = len * unit format" "length v < 2 ^ 31"
    and "compatible (find_property (userProps s w) a) mode ty format" "fits (find_property (userProps s w) a) mode v"
  shows "\<exists>s'. dixChangeWindowProperty env c w a ty format mode len v True s = Some (Success, s') \<and> props_ok s'
    \<and> find_property (userProps s' w) a = Some (merged (find_property (userProps s w) a) mode a ty format len v)
    \<and> (\<forall>b. b \<noteq> a \<longrightarrow> find_property (userProps s' w) b = find_property (userProps s w) b)
    \<and> (\<forall>w'. w' \<noteq> w \<longrightarrow> userProps s' w' = userProps s w')
    \<and> (\<exists>tm. outputs s' = outputs s @ [ToWindow w (PropertyNotify w PropertyNewValue a tm)])"
proof -
  let ?p = "merged (find_property (userProps s w) a) mode a ty format len v"
  let ?t = "set_props w (put_property ?p (userProps s w)) (set_errorValue c a s)"
  let ?s = "deliverPropertyNotifyEvent env w PropertyNewValue ?p ?t"
  have nm: "p_propertyName ?p = a" by (rule merged_name) simp
  have eq: "dixChangeWindowProperty env c w a ty format mode len v True s = Some (Success, ?s)"
    using dixChangeWindowProperty_done [OF assms(1,3-7), of c True] by (simp add: Let_def)
  have ok: "props_ok ?s" unfolding props_ok_deliver [OF assms(2)]
    by (rule put_merged_ok [OF assms(3-8)]) (simp add: dix_simps)
  show ?thesis
    by (rule exI [of _ ?s]) (use eq ok nm in \<open>simp add: deliver_frame [OF assms(2)] find_put_property dix_simps\<close>)
qed

text \<open>C12: \<open>GetProperty\<close> replies with the bytes of the property from \<open>4 * longOffset\<close> on, at most
  \<open>4 * longLength\<close> of them, with the number of bytes that remain and the number of items, and
  reads nothing outside the property.\<close>
theorem get_property_slice:
  assumes "granted env" "props_ok s" "drawables s w = Some DRAWABLE_WINDOW" "XaceResource env c w DixGetPropAccess = Success"
    and "ValidAtom (atomTable s) a" "find_property (userProps s w) a = Some p" "ty = 0 \<or> ty = p_type p \<and> ValidAtom (atomTable s) ty"
    and "unat off < 2 ^ 30" "unat ln < 2 ^ 30" "4 * unat off \<le> length (p_data p)"
  shows "\<exists>s'. ProcGetProperty env c 6 0 w a ty off ln s = Some (Success, s') \<and> userProps s' = userProps s
    \<and> outputs s' = outputs s @ [ReplyTo c (GetPropertyReply (p_format p)
         (word_of_nat (length (p_data p) - (4 * unat off + min (length (p_data p) - 4 * unat off) (4 * unat ln))))
         (word_of_nat (min (length (p_data p) - 4 * unat off) (4 * unat ln) div unit (p_format p)))
         (p_type p) (take (4 * unat ln) (drop (4 * unat off) (p_data p))))]"
  using ProcGetProperty_reply [OF assms] .

text \<open>A \<open>ChangeProperty\<close> request, whatever its fields say, never makes the server read behind the data
  the client sent (the request length minus the header), as long as requests have at most the
  16 MB the server admits.\<close>
theorem change_request_in_bounds:
  assumes "props_ok s" "input_frame env" "length data = 4 * (req_len - 6)" "req_len \<le> 4194303"
  shows "ProcChangeProperty env c req_len mode w a ty format nUnits data s \<noteq> None"
  by (rule ProcChangeProperty_defined [OF assms])

text \<open>\<open>RotateProperties\<close> by \<open>nPositions\<close> (possibly negative) moves type, format, size and data of the
  \<open>i\<close>-th named property to the property \<open>nPositions\<close> places further, cyclically, and leaves the
  names and all other properties as they are.\<close>
theorem rotate_properties:
  assumes "granted env" "input_frame env" "property_callbacks_frame env"
    and "drawables s w = Some DRAWABLE_WINDOW" "XaceResource env c w DixSetPropAccess = Success"
    and "as \<noteq> []" "distinct as" "\<forall>a\<in>set as. ValidAtom (atomTable s) a \<and> find_property (userProps s w) a \<noteq> None"
    and "\<bar>sint nPositions\<bar> mod int (length as) \<noteq> 0" "i < length as"
  shows "\<exists>s' j. ProcRotateProperties env c (3 + length as) w as nPositions s = (Success, s')
    \<and> j < length as \<and> int j = (int i + sint nPositions) mod int (length as)
    \<and> find_property (userProps s' w) (as ! j)
        = Some (rotated (the (find_property (userProps s w) (as ! i))) (the (find_property (userProps s w) (as ! j))))
    \<and> (\<forall>b. b \<notin> set as \<longrightarrow> find_property (userProps s' w) b = find_property (userProps s w) b)"
proof -
  let ?n = "length as"
  let ?d = "rotate_delta (sint nPositions) ?n"
  let ?s1 = "set_errorValue c w (UpdateCurrentTime env s)"
  let ?saved = "map (\<lambda>a. the (find_property (userProps s w) a)) as"
  have fr: "userProps ?s1 = userProps s" "atomTable ?s1 = atomTable s" using assms(2) by (simp_all add: dix_simps)
  obtain s2 where s2: "rotate_save env c w as ?s1 = (Inr ?saved, s2)" "userProps s2 = userProps s"
    using rotate_save_ok [OF assms(1,7), of ?s1 w c] assms(8) fr by auto
  have lk: "dixLookupWindow env w c DixSetPropAccess (UpdateCurrentTime env s) = (Success, ?s1)"
    using dixLookupWindow_Success [of env w c DixSetPropAccess "UpdateCurrentTime env s"] assms(2,4,5)
    by (simp add: prod_eq_iff dixLookupWindow_state dix_simps)
  have eq: "ProcRotateProperties env c (3 + ?n) w as nPositions s
     = (Success, fold (rotate_one env w as ?saved ?d) [0..<?n] s2)"
    using assms(6,9) s2(1)
    by (simp add: ProcRotateProperties_def REQUEST_FIXED_SIZE_def Let_def lk granted_dest [OF assms(1)])
  have find: "find_property (userProps s2 w) (as ! k) = Some (?saved ! k)" if "k < ?n" for k
    using that assms(8) s2(2) by (auto simp: nth_mem)
  have j: "int ((i + ?d) mod ?n) = (int i + sint nPositions) mod int ?n"
  proof -
    have d: "int ?d mod int ?n = sint nPositions mod int ?n"
      using rotate_delta_mod [of ?n "sint nPositions"] assms(6) by (simp add: zmod_int)
    have "int ((i + ?d) mod ?n) = (int i + int ?d) mod int ?n" by (simp add: zmod_int)
    also have "\<dots> = (int i + int ?d mod int ?n) mod int ?n" by (rule mod_add_right_eq [symmetric])
    also have "\<dots> = (int i + sint nPositions) mod int ?n" unfolding d by (rule mod_add_right_eq)
    finally show ?thesis .
  qed
  have jl: "(k + ?d) mod ?n < ?n" for k using assms(6) by simp
  note l = rotate_loop [OF assms(3,7,6) order_refl find, of ?d]
  show ?thesis
  proof (intro exI conjI)
    show "ProcRotateProperties env c (3 + ?n) w as nPositions s
     = (Success, fold (rotate_one env w as ?saved ?d) [0..<?n] s2)" by (rule eq)
    show "(i + ?d) mod ?n < ?n" by (rule jl)
    show "int ((i + ?d) mod ?n) = (int i + sint nPositions) mod int ?n" by (rule j)
    show "find_property (userProps (fold (rotate_one env w as ?saved ?d) [0..<?n] s2) w) (as ! ((i + ?d) mod ?n))
        = Some (rotated (the (find_property (userProps s w) (as ! i)))
            (the (find_property (userProps s w) (as ! ((i + ?d) mod ?n)))))"
      using l assms(10) jl [of i] by simp
    show "\<forall>b. b \<notin> set as \<longrightarrow> find_property (userProps (fold (rotate_one env w as ?saved ?d) [0..<?n] s2) w) b
        = find_property (userProps s w) b"
    proof (intro allI impI)
      fix b
      assume "b \<notin> set as"
      then have "\<forall>i<?n. b \<noteq> as ! ((i + ?d) mod ?n)" using jl nth_mem by blast
      with l s2(2) show "find_property (userProps (fold (rotate_one env w as ?saved ?d) [0..<?n] s2) w) b
        = find_property (userProps s w) b" by simp
    qed
  qed
qed


text \<open>Window 7 with the properties 60 and 61 for the witnesses.\<close>

definition prop_dix :: dix where
  "prop_dix = small_dix\<lparr>userProps := (\<lambda>w. if w = 7 then
     [\<lparr>p_propertyName = 60, p_type = 31, p_format = 8, p_size = 3, p_data = [1, 2, 3]\<rparr>,
      \<lparr>p_propertyName = 61, p_type = 4, p_format = 16, p_size = 2, p_data = [4, 5, 6, 7]\<rparr>] else [])\<rparr>"

lemma prop_dix_ok: "props_ok prop_dix"
  by (auto simp: props_ok_def prop_dix_def prop_ok_def format_ok_def unit_def)

lemma idle_env_granted: "granted idle_env" "property_callbacks_frame (idle_env :: 'a dix_scheme env)"
  by (simp_all add: granted_def property_callbacks_frame_def idle_env_def)

lemma prop_dix_lookup: "drawables prop_dix 7 = Some DRAWABLE_WINDOW" "XaceResource idle_env c w m = Success"
  "ValidAtom (atomTable prop_dix) 60" "ValidAtom (atomTable prop_dix) 61"
  "find_property (userProps prop_dix 7) 60 = Some \<lparr>p_propertyName = 60, p_type = 31, p_format = 8, p_size = 3, p_data = [1, 2, 3]\<rparr>"
  "find_property (userProps prop_dix 7) 61 = Some \<lparr>p_propertyName = 61, p_type = 4, p_format = 16, p_size = 2, p_data = [4, 5, 6, 7]\<rparr>"
  by (simp_all add: prop_dix_def small_dix_def idle_env_def ValidAtom_def small_atoms_def)

theorem change_property_contents_witness:
  "\<exists>s'. dixChangeWindowProperty idle_env 3 7 60 31 8 PropModeAppend 2 [8, 9] True prop_dix = Some (Success, s')
    \<and> find_property (userProps s' 7) 60
        = Some \<lparr>p_propertyName = 60, p_type = 31, p_format = 8, p_size = 5, p_data = [1, 2, 3, 8, 9]\<rparr>"
  using change_property_contents [OF idle_env_granted prop_dix_ok, of 8 "[8, 9]" 2 7 60 PropModeAppend 31 3]
  by (auto simp: prop_dix_lookup format_ok_def unit_def compatible_def fits_def merged_def)

theorem get_property_slice_witness:
  "\<exists>s'. ProcGetProperty idle_env 3 6 0 7 61 4 0 1 prop_dix = Some (Success, s')
    \<and> outputs s' = outputs prop_dix @ [ReplyTo 3 (GetPropertyReply 16 0 2 4 [4, 5, 6, 7])]"
  using get_property_slice [OF idle_env_granted(1) prop_dix_ok prop_dix_lookup(1,2,4,6), of 4 0 1 3]
  by (auto simp: prop_dix_def small_dix_def ValidAtom_def small_atoms_def unit_def)

theorem change_request_in_bounds_witness:
  "ProcChangeProperty idle_env 3 7 0 7 60 31 8 4 [1, 2, 3, 4] prop_dix \<noteq> None"
  by (rule change_request_in_bounds [OF prop_dix_ok idle_env_frame]) simp_all

theorem rotate_properties_witness:
  "\<exists>s' j. ProcRotateProperties idle_env 3 5 7 [60, 61] 1 prop_dix = (Success, s') \<and> int j = 1
    \<and> find_property (userProps s' 7) ([60, 61] ! j)
       = Some \<lparr>p_propertyName = 61, p_type = 31, p_format = 8, p_size = 3, p_data = [1, 2, 3]\<rparr>"
proof -
  have "\<forall>a\<in>set [60, 61]. ValidAtom (atomTable prop_dix) a \<and> find_property (userProps prop_dix 7) a \<noteq> None"
    by (simp add: prop_dix_lookup)
  from rotate_properties [OF idle_env_granted(1) idle_env_frame idle_env_granted(2) prop_dix_lookup(1,2) _ _ this,
      of 1 0 3] obtain s' j where
    *: "ProcRotateProperties idle_env 3 5 7 [60, 61] 1 prop_dix = (Success, s')" "int j = 1"
    "find_property (userProps s' 7) ([60, 61] ! j) = Some (rotated (the (find_property (userProps prop_dix 7) 60))
       (the (find_property (userProps prop_dix 7) ([60, 61] ! j))))" by auto
  then have "j = 1" by simp
  with * show ?thesis by (auto simp: prop_dix_lookup rotated_def)
qed

end
