(* ===== verification/Clipboard.thy ===== *)
theory Clipboard
  imports Clipboard_Text Selections Properties
begin

text \<open>
  The clipboard bridge between X clients and Android (\<open>lorie/clipboard.c\<close>, behind the text
  conversions of \<open>Clipboard_Text\<close>).

  The state extends \<open>dix\<close> by the file-level variables: the atoms, the switch, the text
  \<open>cachedData\<close> that Android sent (an object with its terminator) and the list of requests that
  wait for it. Messages to the Android activity (\<open>lorieSendClipboardData\<close>,
  \<open>lorieRequestClipboard\<close>) are collected in \<open>toActivity\<close>. The handler of \<open>SendEvent\<close> that was in
  place before is a parameter. A waiting request holds a \<open>ClientPtr\<close>; \<open>CloseDownClient\<close> frees the
  structure of a client that has gone, unless its close-down mode retains it, and nothing removes
  the requests of the client: using such a pointer is undefined (\<open>None\<close>). \<open>slack\<close> is what the memory behind the data of a property holds,
  which the UTF-8 check can read; with an empty \<open>slack\<close> such a read is undefined.
\<close>

section \<open>State\<close>

record LorieDataTarget =
  ldt_client :: client
  ldt_selection :: u32
  ldt_target :: u32
  ldt_property :: u32
  ldt_requestor :: XID
  ldt_time :: u32

datatype activity_message = SendClipboardData bytes | RequestClipboard

datatype proc_handler = DixProc | LorieProc

record lorie = dix +
  root_window :: XID
  xaTIMESTAMP :: u32
  xaTEXT :: u32
  xaCLIPBOARD :: u32
  xaTARGETS :: u32
  xaSTRING :: u32
  xaUTF8_STRING :: u32
  clipboardEnabled :: bool
  cachedData :: "bytes option"
  lorieDataTargetHead :: "LorieDataTarget list"
  procConvertSelection :: proc_handler
  procSendEvent :: proc_handler
  origProcConvertSelection :: "proc_handler option"
  origProcSendEvent :: "proc_handler option"
  toActivity :: "activity_message list"
  clientRetained :: "client \<Rightarrow> bool"

type_synonym lorie_env = "lorie env"

abbreviation XA_ATOM :: u32 where "XA_ATOM \<equiv> 4"
abbreviation XA_INTEGER :: u32 where "XA_INTEGER \<equiv> 19"
abbreviation XA_STRING :: u32 where "XA_STRING \<equiv> 31"

section \<open>Receiving the selection of an X client\<close>

definition lorieEnableClipboardSync :: "bool \<Rightarrow> lorie \<Rightarrow> lorie" where
  "lorieEnableClipboardSync enable s = s\<lparr>clipboardEnabled := enable\<rparr>"

definition to_activity :: "activity_message \<Rightarrow> lorie \<Rightarrow> lorie" where
  "to_activity m s = s\<lparr>toActivity := toActivity s @ [m]\<rparr>"

definition lorieSelectionRequest :: "lorie_env \<Rightarrow> u32 \<Rightarrow> u32 \<Rightarrow> lorie \<Rightarrow> lorie" where
  "lorieSelectionRequest env sel tgt s =
     (if clipboardEnabled s then
        let (rc, pSel, s1) = dixLookupSelection env sel serverClient DixGetAttrAccess s
        in if rc = Success then
             WriteEventsToClient (s_client (the pSel))
               (SelectionRequest (milliseconds (currentTime s1)) (s_window (the pSel)) (root_window s1) sel tgt tgt) s1
           else s1
      else s)"

text \<open>\<open>(const Atom*) prop->data\<close>: the data as an array of 32-bit numbers of the (little-endian) host.\<close>

definition atom_at :: "bytes \<Rightarrow> nat \<Rightarrow> u32 option" where
  "atom_at d i = do {
     a \<leftarrow> rd d (4 * i); b \<leftarrow> rd d (4 * i + 1); c \<leftarrow> rd d (4 * i + 2); e \<leftarrow> rd d (4 * i + 3);
     Some (ucast a OR push_bit 8 (ucast b) OR push_bit 16 (ucast c) OR push_bit 24 (ucast e)) }"

fun hasAtom_loop :: "u32 \<Rightarrow> bytes \<Rightarrow> nat list \<Rightarrow> bool option" where
  "hasAtom_loop a d [] = Some False"
| "hasAtom_loop a d (i # is) = do {
     x \<leftarrow> atom_at d i;
     if x = a then Some True else hasAtom_loop a d is }"

definition lorieHasAtom :: "u32 \<Rightarrow> bytes \<Rightarrow> nat \<Rightarrow> bool option" where
  "lorieHasAtom a d n = hasAtom_loop a d [0..<n]"

definition lorieHandleSelection :: "lorie_env \<Rightarrow> bytes \<Rightarrow> u32 \<Rightarrow> lorie \<Rightarrow> lorie option" where
  "lorieHandleSelection env slack tgt s0 =
     (if tgt \<noteq> xaTARGETS s0 \<and> tgt \<noteq> xaSTRING s0 \<and> tgt \<noteq> xaUTF8_STRING s0 then Some s0 else
      let (rc, prop, s) = dixLookupProperty env (root_window s0) tgt serverClient DixReadAccess s0;
          p = the prop;
          n = unat (p_size p)
      in if rc \<noteq> Success then Some s
      else if tgt = xaTARGETS s \<and> p_type p = XA_ATOM \<and> p_format p = 32 then do {
        utf8 \<leftarrow> lorieHasAtom (xaUTF8_STRING s) (p_data p) n;
        if utf8 then Some (lorieSelectionRequest env (xaCLIPBOARD s) (xaUTF8_STRING s) s)
        else do {
          str \<leftarrow> lorieHasAtom (xaSTRING s) (p_data p) n;
          if str then Some (lorieSelectionRequest env (xaCLIPBOARD s) (xaSTRING s) s) else Some s } }
      else if tgt = xaSTRING s \<and> p_type p = xaSTRING s \<and> p_format p = 8 then do {
        filtered \<leftarrow> lorieConvertLF (p_data p) (replicate (n + 1) 0) n;
        utf8 \<leftarrow> lorieLatin1ToUTF8 (replicate ((n + 1) * 2) 0) filtered;
        Some (to_activity (SendClipboardData (cstr utf8)) s) }
      else if tgt = xaUTF8_STRING s \<and> p_type p = xaUTF8_STRING s \<and> p_format p = 8 then do {
        valid \<leftarrow> lorieCheckUTF8 (p_data p @ slack) n;
        if \<not> valid then Some s
        else do {
          filtered \<leftarrow> lorieConvertLF (p_data p) (replicate (n + 1) 0) n;
          Some (to_activity (SendClipboardData (cstr filtered)) s) } }
      else Some s)"

text \<open>The event a client asks to be sent: a \<open>SelectionNotify\<close> with its fields, or another one.\<close>

definition lorieProcSendEvent ::
  "lorie_env \<Rightarrow> bytes \<Rightarrow> (client \<Rightarrow> xEvent \<Rightarrow> lorie \<Rightarrow> rc \<times> lorie) \<Rightarrow> client \<Rightarrow> nat \<Rightarrow> xEvent \<Rightarrow> lorie \<Rightarrow> (rc \<times> lorie) option" where
  "lorieProcSendEvent env slack orig c req_len ev s =
     (if \<not> REQUEST_SIZE_MATCH 11 req_len then Some (BadLength, s) else
      do {
        s1 \<leftarrow> (case ev of
                 SelectionNotify tm req sel tgt prop \<Rightarrow>
                   if clipboardEnabled s \<and> req = root_window s \<and> sel = xaCLIPBOARD s \<and> tgt = prop
                   then lorieHandleSelection env slack tgt s else Some s
               | _ \<Rightarrow> Some s);
        Some (orig c ev s1) })"

definition lorieSelectionCallback ::
  "lorie_env \<Rightarrow> Selection \<Rightarrow> client option \<Rightarrow> SelectionCallbackKind \<Rightarrow> lorie \<Rightarrow> lorie" where
  "lorieSelectionCallback env x c kind s =
     (if clipboardEnabled s \<and> s_selection x = xaCLIPBOARD s \<and> kind = SelectionSetOwner
         \<and> s_client x \<noteq> Some serverClient
      then lorieSelectionRequest env (xaCLIPBOARD s) (xaTARGETS s) s else s)"

section \<open>Announcing and sending the text of Android\<close>

definition atoms_bytes :: "u32 list \<Rightarrow> bytes" where
  "atoms_bytes as = concat (map (\<lambda>a. [ucast a, ucast (drop_bit 8 a), ucast (drop_bit 16 a), ucast (drop_bit 24 a)]) as)"

definition freed :: "lorie \<Rightarrow> client \<Rightarrow> bool" where
  "freed s c \<longleftrightarrow> c \<noteq> serverClient \<and> clientGone s c \<and> \<not> clientRetained s c"

definition lorieConvertSelection ::
  "lorie_env \<Rightarrow> client \<Rightarrow> u32 \<Rightarrow> u32 \<Rightarrow> u32 \<Rightarrow> XID \<Rightarrow> u32 \<Rightarrow> bytes option \<Rightarrow> lorie \<Rightarrow> (rc \<times> lorie) option" where
  "lorieConvertSelection env c sel tgt prop req tm data s0 =
     (if freed s0 c then None else
      let (rc, pSel, s1) = dixLookupSelection env sel c DixGetAttrAccess s0
      in if rc \<noteq> Success then Some (rc, s1) else
      let (rc, s2) = dixLookupWindow env req c DixSetAttrAccess s1;
          realProperty = (if prop \<noteq> 0 then prop else tgt);
          notify = (\<lambda>s. (Success, WriteEventsToClient (Some c) (SelectionNotify tm req sel tgt prop) s));
          change = (\<lambda>ty format len v. do {
            (rc, s) \<leftarrow> dixChangeWindowProperty env serverClient req realProperty ty format PropModeReplace len v True s2;
            Some (if rc \<noteq> Success then (rc, s) else notify s) })
      in if rc \<noteq> Success then Some (rc, s2)
      else if tgt = xaTARGETS s2 then
        change XA_ATOM 32 5
          (atoms_bytes [xaTARGETS s2, xaTIMESTAMP s2, xaSTRING s2, xaTEXT s2, xaUTF8_STRING s2])
      else if tgt = xaTIMESTAMP s2 then
        change XA_INTEGER 32 1 (atoms_bytes [milliseconds (s_lastTimeChanged (the pSel))])
      else case data of
        None \<Rightarrow>
          if tgt \<noteq> xaSTRING s2 \<and> tgt \<noteq> xaTEXT s2 \<and> tgt \<noteq> xaUTF8_STRING s2 then Some (BadMatch, s2)
          else if \<not> alloc_ok env AllocDataTarget then Some (BadAlloc, s2)
          else Some (Success, to_activity RequestClipboard (s2\<lparr>lorieDataTargetHead :=
                 \<lparr>ldt_client = c, ldt_selection = sel, ldt_target = tgt, ldt_property = prop, ldt_requestor = req,
                   ldt_time = tm\<rparr> # lorieDataTargetHead s2\<rparr>))
      | Some d \<Rightarrow>
          if tgt = xaSTRING s2 \<or> tgt = xaTEXT s2 then do {
            latin1 \<leftarrow> lorieUtf8ToLatin1 (alloc_ok env AllocLatin1) d;
            case latin1 of
              None \<Rightarrow> Some (BadAlloc, s2)
            | Some l \<Rightarrow> change XA_STRING 8 (length l) l }
          else if tgt = xaUTF8_STRING s2 then change (xaUTF8_STRING s2) 8 (length (cstr d)) (cstr d)
          else Some (BadMatch, s2))"

definition lorieProcConvertSelection ::
  "lorie_env \<Rightarrow> client \<Rightarrow> nat \<Rightarrow> XID \<Rightarrow> u32 \<Rightarrow> u32 \<Rightarrow> u32 \<Rightarrow> u32 \<Rightarrow> lorie \<Rightarrow> (rc \<times> lorie) option" where
  "lorieProcConvertSelection env c req_len req sel tgt prop tm s0 =
     (if \<not> REQUEST_SIZE_MATCH 6 req_len then Some (BadLength, s0) else
      let (rc, s1) = dixLookupWindow env req c DixSetAttrAccess s0
      in if rc \<noteq> Success then Some (rc, s1)
      else if \<not> convert_params_ok s1 sel tgt prop then Some (BadAtom, set_errorValue c prop s1) else
      let (rc, pSel, s2) = dixLookupSelection env sel c DixReadAccess s1
      in if rc = Success \<and> s_client (the pSel) = Some serverClient \<and> s_window (the pSel) = root_window s2 then do {
           (rc, s3) \<leftarrow> lorieConvertSelection env c sel tgt prop req tm (cachedData s2) s2;
           Some (Success, if rc \<noteq> Success
                          then WriteEventsToClient (Some c) (SelectionNotify tm req sel tgt 0) s3 else s3) }
         else Some (ProcConvertSelection env c req_len req sel tgt prop tm s2))"

definition lorieOwnSelection :: "lorie_env \<Rightarrow> u32 \<Rightarrow> lorie \<Rightarrow> rc \<times> lorie" where
  "lorieOwnSelection env sel s0 =
     (let (rc, pSel, s1) = dixLookupSelection env sel serverClient DixSetAttrAccess s0;
          own = (\<lambda>s. (Success, set_owner env sel (currentTime s) (root_window s) (Some (root_window s))
                                 (Some serverClient) serverClient s))
      in if rc = Success then
           own (if s_client (the pSel) \<noteq> None \<and> s_client (the pSel) \<noteq> Some serverClient
                then WriteEventsToClient (s_client (the pSel))
                  (SelectionClear (milliseconds (currentTime s1)) (s_window (the pSel)) (s_selection (the pSel))) s1
                else s1)
         else if rc = BadMatch then
           (let (rc, s2) = add_selection env sel serverClient s1
            in if rc \<noteq> Success then (rc, s2) else own s2)
         else (rc, s1))"

definition lorieHandleClipboardAnnounce :: "lorie_env \<Rightarrow> lorie \<Rightarrow> lorie" where
  "lorieHandleClipboardAnnounce env s =
     (let s1 = s\<lparr>cachedData := None\<rparr> in snd (lorieOwnSelection env (xaCLIPBOARD s1) s1))"

text \<open>
  The loop of \<open>lorieHandleClipboardData\<close> over the waiting requests; a request that is answered
  with data does not change the list, whose head is removed after each round.
\<close>

fun handle_targets :: "lorie_env \<Rightarrow> bytes \<Rightarrow> LorieDataTarget list \<Rightarrow> lorie \<Rightarrow> lorie option" where
  "handle_targets env d [] s = Some s"
| "handle_targets env d (t # ts) s = do {
     (rc, s1) \<leftarrow> lorieConvertSelection env (ldt_client t) (ldt_selection t) (ldt_target t) (ldt_property t)
                    (ldt_requestor t) (ldt_time t) (cachedData s) s;
     let s2 = (if rc \<noteq> Success
               then WriteEventsToClient (Some (ldt_client t))
                 (SelectionNotify (ldt_time t) (ldt_requestor t) (ldt_selection t) (ldt_target t) 0) s1
               else s1);
     handle_targets env d ts (s2\<lparr>lorieDataTargetHead := ts\<rparr>) }"

definition lorieHandleClipboardData :: "lorie_env \<Rightarrow> bytes \<Rightarrow> lorie \<Rightarrow> lorie option" where
  "lorieHandleClipboardData env d s =
     (let s1 = s\<lparr>cachedData := Some d\<rparr> in handle_targets env d (lorieDataTargetHead s1) s1)"

text \<open>
  \<open>lorieInitClipboard\<close>: the atoms, the two entries of \<open>ProcVector\<close>, which are wrapped once, and
  the callback; \<open>Inl\<close> is the fatal error when the callback cannot be added.
\<close>

definition make_xa :: "(u8 \<Rightarrow> u32) \<Rightarrow> (atom_alloc \<Rightarrow> bool) \<Rightarrow> string \<Rightarrow> lorie \<Rightarrow> (u32 \<times> lorie) option" where
  "make_xa cv alloc name s = do {
     (a, t) \<leftarrow> MakeAtom cv alloc (lit name) (length name) True (atomTable s);
     Some (a, s\<lparr>atomTable := t\<rparr>) }"

definition lorieInitClipboard ::
  "(u8 \<Rightarrow> u32) \<Rightarrow> (atom_alloc \<Rightarrow> bool) \<Rightarrow> bool \<Rightarrow> lorie \<Rightarrow> (fatal + lorie) option" where
  "lorieInitClipboard cv alloc callback_ok s0 = do {
     (a1, s1) \<leftarrow> make_xa cv alloc ''TIMESTAMP'' s0;
     (a2, s2) \<leftarrow> make_xa cv alloc ''TEXT'' s1;
     (a3, s3) \<leftarrow> make_xa cv alloc ''CLIPBOARD'' s2;
     (a4, s4) \<leftarrow> make_xa cv alloc ''TARGETS'' s3;
     (a5, s5) \<leftarrow> make_xa cv alloc ''STRING'' s4;
     (a6, s6) \<leftarrow> make_xa cv alloc ''UTF8_STRING'' s5;
     let s7 = s6\<lparr>xaTIMESTAMP := a1, xaTEXT := a2, xaCLIPBOARD := a3, xaTARGETS := a4, xaSTRING := a5,
                 xaUTF8_STRING := a6\<rparr>;
     let s8 = (if origProcConvertSelection s7 = None
               then s7\<lparr>origProcConvertSelection := Some (procConvertSelection s7), procConvertSelection := LorieProc\<rparr>
               else s7);
     let s9 = (if origProcSendEvent s8 = None
               then s8\<lparr>origProcSendEvent := Some (procSendEvent s8), procSendEvent := LorieProc\<rparr> else s8);
     Some (if callback_ok then Inr s9 else Inl Fatal) }"

section \<open>What the core operations keep of the clipboard\<close>

lemma lorie_more:
  assumes "dix.more (s'::lorie) = dix.more s"
  shows "root_window s' = root_window s" "xaTIMESTAMP s' = xaTIMESTAMP s" "xaTEXT s' = xaTEXT s"
    "xaCLIPBOARD s' = xaCLIPBOARD s" "xaTARGETS s' = xaTARGETS s" "xaSTRING s' = xaSTRING s"
    "xaUTF8_STRING s' = xaUTF8_STRING s" "clipboardEnabled s' = clipboardEnabled s" "cachedData s' = cachedData s"
    "lorieDataTargetHead s' = lorieDataTargetHead s" "toActivity s' = toActivity s"
    "clientRetained s' = clientRetained s"
  using assms by (cases s; cases s'; simp)+

lemmas set_errorValue_lorie = lorie_more [OF set_errorValue_frame(8)]
lemmas WriteEventsToClient_lorie = lorie_more [OF WriteEventsToClient_frame(8)]

fun to_client :: "message \<Rightarrow> bool" where
  "to_client (ToClient c ev) = True"
| "to_client _ = False"

text \<open>The events written to clients, without the announcements to windows.\<close>

definition client_events :: "'a dix_scheme \<Rightarrow> message list" where
  "client_events s = filter to_client (outputs s)"

lemma client_events_write:
  "client_events (WriteEventsToClient p ev s)
     = client_events s @ (if live s p then [ToClient (the p) ev] else [])"
  by (simp add: client_events_def WriteEventsToClient_live dix_simps)

definition same_clients :: "'a dix_scheme \<Rightarrow> 'a dix_scheme \<Rightarrow> bool" where
  "same_clients s s' \<longleftrightarrow> client_events s' = client_events s \<and> dix.more s' = dix.more s \<and> clientGone s' = clientGone s
     \<and> CurrentSelections s' = CurrentSelections s \<and> atomTable s' = atomTable s \<and> drawables s' = drawables s"

lemma same_clients_refl [simp]: "same_clients s s"
  by (simp add: same_clients_def)

lemma same_clients_trans: "same_clients s t \<Longrightarrow> same_clients t u \<Longrightarrow> same_clients s u"
  by (simp add: same_clients_def)

lemma same_clients_error [simp]: "same_clients s (set_errorValue c v s)"
  by (simp add: same_clients_def client_events_def dix_simps)

lemma same_clients_props: "same_clients s t \<Longrightarrow> same_clients s (set_props w ps t)"
  by (simp add: same_clients_def client_events_def)

lemma same_clients_deliver:
  "property_callbacks_frame env \<Longrightarrow> same_clients s t \<Longrightarrow> same_clients s (deliverPropertyNotifyEvent env w st p t)"
  by (simp add: same_clients_def client_events_def deliver_frame)

lemma same_clients_change:
  assumes "property_callbacks_frame env"
    and "dixChangeWindowProperty env c w a ty format mode len v ev s = Some (rc, s')"
  shows "same_clients s s'"
proof -
  have e: "same_clients s (set_errorValue c a (set_errorValue c a s))"
    by (rule same_clients_trans [OF same_clients_error same_clients_error])
  show ?thesis
    using assms(2) e same_clients_error [of s c a] unfolding dixChangeWindowProperty_def dixLookupProperty_eq
    by (auto simp: Let_def memdup_def intro!: same_clients_props same_clients_deliver [OF assms(1)]
        split: if_splits option.splits sum.splits bind_splits)
qed


section \<open>Answering with data\<close>

text \<open>
  A conversion with data keeps the list of waiting requests and, when it succeeds, writes the
  one \<open>SelectionNotify\<close>; when it fails it writes nothing to clients.
\<close>

definition answered :: "client \<Rightarrow> xEvent \<Rightarrow> rc \<Rightarrow> lorie \<Rightarrow> lorie \<Rightarrow> bool" where
  "answered c ev rc s s' \<longleftrightarrow>
     client_events s' = client_events s @ (if rc = Success \<and> live s (Some c) then [ToClient c ev] else [])
     \<and> dix.more s' = dix.more s \<and> clientGone s' = clientGone s \<and> CurrentSelections s' = CurrentSelections s
     \<and> atomTable s' = atomTable s \<and> drawables s' = drawables s"

lemma answered_fail: "rc \<noteq> Success \<Longrightarrow> same_clients s s' \<Longrightarrow> answered c ev rc s s'"
  by (simp add: answered_def same_clients_def)

lemma answered_notify:
  "same_clients s t \<Longrightarrow> answered c ev Success s (WriteEventsToClient (Some c) ev t)"
  by (simp add: answered_def same_clients_def client_events_write live_def dix_simps)

lemma answered_data:
  assumes "property_callbacks_frame env"
    and "lorieConvertSelection env c sel tgt pr req tm (Some d) s = Some (rc, s')"
  shows "answered c (SelectionNotify tm req sel tgt pr) rc s s'"
proof -
  let ?t = "set_errorValue c req (set_errorValue c sel s)"
  have e: "same_clients s (set_errorValue c sel s)" "same_clients s ?t"
    by (auto intro: same_clients_trans [OF same_clients_error same_clients_error])
  have ch: "same_clients s u"
    if "dixChangeWindowProperty env serverClient req p ty f m n v True ?t = Some (r, u)" for p ty f m n v r u
    using same_clients_trans [OF e(2) same_clients_change [OF assms(1) that]] .
  have sel: "dixLookupSelection env sel c DixGetAttrAccess s =
      (fst (dixLookupSelection env sel c DixGetAttrAccess s), find_selection (CurrentSelections s) sel, set_errorValue c sel s)"
    by (simp add: prod_eq_iff dixLookupSelection_simps)
  have win: "dixLookupWindow env req c DixSetAttrAccess (set_errorValue c sel s) =
      (fst (dixLookupWindow env req c DixSetAttrAccess (set_errorValue c sel s)), ?t)"
    by (simp add: prod_eq_iff dixLookupWindow_state)
  obtain rc1 rc2 where r: "dixLookupSelection env sel c DixGetAttrAccess s
        = (rc1, find_selection (CurrentSelections s) sel, set_errorValue c sel s)"
      "dixLookupWindow env req c DixSetAttrAccess (set_errorValue c sel s) = (rc2, ?t)"
    using sel win by blast
  show ?thesis
    using assms(2) unfolding lorieConvertSelection_def r(1) Let_def prod.case r(2)
    by (auto simp: e intro!: answered_fail answered_notify dest!: ch
        split: if_splits option.splits bind_splits prod.splits)
qed


text \<open>Replacing a property keeps all properties well-formed, whether or not it succeeds.\<close>

lemma props_ok_error [simp]: "props_ok (set_errorValue c v s) = props_ok s"
  by (simp add: props_ok_def dix_simps)

lemma props_ok_add:
  assumes "props_ok s" "prop_ok p" "find_property (userProps s w) (p_propertyName p) = None" "userProps s' = userProps s"
  shows "props_ok (set_props w (p # userProps s w) s')"
  using assms by (auto simp: props_ok_def find_property_None)

lemma props_ok_update:
  assumes "props_ok s" "prop_ok p'" "p_propertyName p' = a" "userProps s' = userProps s"
  shows "props_ok (set_props w (update_property a (\<lambda>_. p') (userProps s w)) s')"
proof -
  have k: "keeps_name (\<lambda>_. p') a" using assms(3) by (simp add: keeps_name_def)
  have "\<forall>q\<in>set (update_property a (\<lambda>_. p') (userProps s w)). prop_ok q"
    using update_property_set [of a "\<lambda>_. p'" "userProps s w"] assms(1,2) unfolding props_ok_def by blast
  then show ?thesis
    using assms(1,4) update_property_names [OF k, of "userProps s w"] by (simp add: props_ok_def)
qed

lemma changed_replace:
  assumes "changed_contents env p ty format PropModeReplace len v = Some (Inr p')" "format_ok format"
    and "length v = len * unit format" "length v < 2 ^ 31"
  shows "prop_ok p' \<and> p_propertyName p' = p_propertyName p"
proof -
  have f: "unat (drop_bit 3 format) = unit format" using format_cases [OF assms(2)] by simp
  have "p' = changed_prop ty format len v p"
    using assms(1,3) f by (auto simp: changed_contents_def Let_def memdup_def split: if_splits)
  then show ?thesis using assms(2-4) length_units [OF assms(3,2)] by (simp add: changed_prop_def prop_ok_def)
qed

text \<open>As for selections, the hook refuses with an error other than \<open>BadMatch\<close>.\<close>

definition property_xace_ok :: "'s env \<Rightarrow> bool" where
  "property_xace_ok env \<longleftrightarrow> (\<forall>c w p m. XaceProperty env c w p m \<noteq> BadMatch)"

lemma props_ok_replace:
  assumes "property_callbacks_frame env" "property_xace_ok env" "props_ok s" "format_ok format" "length v = len * unit format" "length v < 2 ^ 31"
    and "dixChangeWindowProperty env c w a ty format PropModeReplace len v ev s = Some (rc, s')"
  shows "props_ok s'"
proof -
  have f: "unat (drop_bit 3 format) = unit format" using format_cases [OF assms(4)] by simp
  have md: "memdup v (len * unit format) = Some v" using assms(5) by (simp add: memdup_def)
  show ?thesis
  proof (cases "find_property (userProps s w) a")
    case None
    let ?p = "\<lparr>p_propertyName = a, p_type = ty, p_format = format, p_size = word_of_nat len, p_data = v\<rparr>"
    have "prop_ok ?p" using assms(4-6) length_units [OF assms(5,4)] by (simp add: prop_ok_def)
    then have "props_ok (set_props w (?p # userProps s w) (set_errorValue c a s))"
      using None assms(3) by (intro props_ok_add) (simp_all add: dix_simps)
    then show ?thesis
      using assms(3,7) None unfolding dixChangeWindowProperty_def dixLookupProperty_eq
      by (auto simp: Let_def f md props_ok_deliver [OF assms(1)] dix_simps split: if_splits)
  next
    case (Some p)
    have "props_ok (set_props w (update_property a (\<lambda>_. p') (userProps s w)) (set_errorValue c a s))"
      if "changed_contents env p ty format PropModeReplace len v = Some (Inr p')" for p'
      using changed_replace [OF that assms(4-6)] find_property_Some [OF Some] assms(3)
      by (intro props_ok_update) (simp_all add: dix_simps)
    moreover have "prop_ok p" "p_propertyName p = a"
      using find_property_Some [OF Some] assms(3) unfolding props_ok_def by blast+
    moreover have "XaceProperty env c w p m \<noteq> BadMatch" for m
      using assms(2) by (simp add: property_xace_ok_def)
    ultimately show ?thesis
      using assms(3,7) Some unfolding dixChangeWindowProperty_def dixLookupProperty_eq
      by (auto simp: Let_def f md props_ok_deliver [OF assms(1)] dix_simps split: if_splits bind_splits sum.splits)
  qed
qed


lemma unit_8_32: "unit 8 = 1" "unit 32 = 4" "format_ok 8" "format_ok 32"
  by (simp_all add: unit_def format_ok_def)

lemma length_atoms_bytes: "length (atoms_bytes as) = 4 * length as"
  by (induction "as") (simp_all add: atoms_bytes_def)

lemma props_ok_write [simp]: "props_ok (WriteEventsToClient p ev s) = props_ok s"
  by (simp add: props_ok_def dix_simps)

text \<open>A text as Android sends it: well-formed UTF-8 with its terminator, below 2 GB.\<close>

definition android_text :: "u32 list \<Rightarrow> bytes \<Rightarrow> bool" where
  "android_text cs d \<longleftrightarrow> d = utf8 cs @ [0] \<and> (\<forall>c\<in>set cs. c \<noteq> 0 \<and> scalar c) \<and> length d < 2 ^ 31"

lemma utf8_no_nul: "\<forall>c\<in>set cs. c \<noteq> 0 \<and> scalar c \<Longrightarrow> 0 \<notin> set (utf8 cs)"
  by (induction cs) (auto dest: utf8_enc_nonzero)

lemma android_text_cstr: "android_text cs d \<Longrightarrow> cstr d = utf8 cs"
  using utf8_no_nul cstr_append_nul by (auto simp: android_text_def)

lemma utf8_length: "length cs \<le> length (utf8 cs)"
proof (induction cs)
  case (Cons c cs)
  then show ?case using utf8_enc_len(1) [of c] by simp
qed simp

definition latin1_of :: "u32 list \<Rightarrow> bytes" where
  "latin1_of cs = map (\<lambda>c. if c > 0xff then 0x3f else ucast c) cs"

lemma android_text_latin1:
  assumes "android_text cs d"
  shows "lorieUtf8ToLatin1 True d = Some (Some (latin1_of cs))" "lorieUtf8ToLatin1 False d = Some None"
    "length (latin1_of cs) < 2 ^ 31"
proof -
  have *: "\<forall>c\<in>set cs. c \<noteq> 0 \<and> scalar c" "length (utf8 cs) < 4294967295" "d = utf8 cs @ 0 # []"
    using assms by (auto simp: android_text_def)
  show 1: "lorieUtf8ToLatin1 True d = Some (Some (latin1_of cs))"
    unfolding *(3) latin1_of_def by (rule utf8ToLatin1_map [OF *(1,2)])
  from 1 show "lorieUtf8ToLatin1 False d = Some None"
    by (auto simp: lorieUtf8ToLatin1_def split: bind_splits)
  show "length (latin1_of cs) < 2 ^ 31"
    using assms utf8_length [of cs] by (auto simp: latin1_of_def android_text_def)
qed


definition bridge_env :: "'a dix_scheme env \<Rightarrow> bool" where
  "bridge_env env \<longleftrightarrow> property_callbacks_frame env \<and> property_xace_ok env"

lemma change_total:
  assumes "bridge_env env" "props_ok s" "format_ok format" "length v = len * unit format" "length v < 2 ^ 31"
  obtains rc s' where "dixChangeWindowProperty env c w a ty format PropModeReplace len v ev s = Some (rc, s')" "props_ok s'"
proof -
  have f: "unat (drop_bit 3 format) = unit format" using format_cases [OF assms(3)] by simp
  have "dixChangeWindowProperty env c w a ty format PropModeReplace len v ev s \<noteq> None"
    using assms(4,5) f by (intro dixChangeWindowProperty_defined [OF assms(2)]) simp_all
  then obtain rc s' where r: "dixChangeWindowProperty env c w a ty format PropModeReplace len v ev s = Some (rc, s')"
    by auto
  moreover have "props_ok s'"
    using props_ok_replace [OF _ _ assms(2-5) r] assms(1) by (simp add: bridge_env_def)
  ultimately show thesis using that by blast
qed

lemma convert_data_total:
  assumes "bridge_env env" "props_ok s" "android_text cs d" "\<not> freed s c"
  shows "\<exists>rc s'. lorieConvertSelection env c sel tgt pr req tm (Some d) s = Some (rc, s') \<and> props_ok s'"
proof -
  let ?t = "set_errorValue c req (set_errorValue c sel s)"
  have t: "props_ok ?t" using assms(2) by simp
  obtain rc1 rc2 where r: "dixLookupSelection env sel c DixGetAttrAccess s
        = (rc1, find_selection (CurrentSelections s) sel, set_errorValue c sel s)"
      "dixLookupWindow env req c DixSetAttrAccess (set_errorValue c sel s) = (rc2, ?t)"
    by (metis dixLookupSelection_simps dixLookupWindow_state prod.collapse)
  note fr = if_not_P [OF assms(4)]
  have ch: "\<exists>rc s'. (dixChangeWindowProperty env serverClient req p ty f PropModeReplace n v True ?t \<bind>
       (\<lambda>(rc, s). Some (if rc \<noteq> Success then (rc, s) else (Success, WriteEventsToClient (Some c) ev s))))
       = Some (rc, s') \<and> props_ok s'"
    if "format_ok f" "length v = n * unit f" "length v < 2 ^ 31" for p ty f n v ev
    by (rule change_total [OF assms(1) t that, of serverClient req p ty True]) auto
  have l: "length (cstr d) < 2 ^ 31"
    using android_text_cstr [OF assms(3)] assms(3) by (auto simp: android_text_def)
  note c8 = ch [OF unit_8_32(3)] and c32 = ch [OF unit_8_32(4)]
  note lat = android_text_latin1 [OF assms(3)]
  note unf = lorieConvertSelection_def fr r(1) Let_def prod.case r(2)
  show ?thesis
  proof (cases "rc1 = Success \<and> rc2 = Success")
    case ok: True
    let ?a = "atoms_bytes [xaTARGETS ?t, xaTIMESTAMP ?t, xaSTRING ?t, xaTEXT ?t, xaUTF8_STRING ?t]"
    have a: "length ?a = 5 * unit 32" "length ?a < 2 ^ 31" by (simp_all add: length_atoms_bytes unit_8_32)
    have b: "length (atoms_bytes [x]) = 1 * unit 32" "length (atoms_bytes [x]) < 2 ^ 31" for x
      by (simp_all add: length_atoms_bytes unit_8_32)
    have e: "length w = length w * unit 8" for w :: bytes by (simp add: unit_8_32)
    show ?thesis
      unfolding unf using ok c32 [OF a] c32 [OF b] c8 [OF e l] c8 [OF e lat(3)] lat(1,2) t
      by (cases "alloc_ok env AllocLatin1") (auto simp: rc.simps)
  qed (use assms(2) t in \<open>auto simp: unf\<close>)
qed


section \<open>All waiting requests are answered\<close>

text \<open>The answer to a waiting request: with its property, or refused with property None.\<close>

definition answer :: "lorie \<Rightarrow> LorieDataTarget \<Rightarrow> bool \<Rightarrow> message list" where
  "answer s t ok =
     (if live s (Some (ldt_client t)) then
        [ToClient (ldt_client t) (SelectionNotify (ldt_time t) (ldt_requestor t) (ldt_selection t) (ldt_target t)
           (if ok then ldt_property t else 0))] else [])"

section \<open>The server as owner\<close>

lemma lorieSelectionRequest_frame:
  "CurrentSelections (lorieSelectionRequest env sel tgt s) = CurrentSelections s"
  "currentTime (lorieSelectionRequest env sel tgt s) = currentTime s"
  "clientGone (lorieSelectionRequest env sel tgt s) = clientGone s"
  "atomTable (lorieSelectionRequest env sel tgt s) = atomTable s"
  "dix.more (lorieSelectionRequest env sel tgt s) = dix.more s"
  by (simp_all add: lorieSelectionRequest_def case_prod_beta Let_def dix_simps)

text \<open>The services with the callback of the clipboard registered.\<close>

definition with_clipboard :: "lorie_env \<Rightarrow> lorie_env" where
  "with_clipboard env = env\<lparr>SelectionCallback := [lorieSelectionCallback env]\<rparr>"

lemma with_clipboard_simps [simp]:
  "XaceSelection (with_clipboard env) = XaceSelection env"
  "XaceResource (with_clipboard env) = XaceResource env"
  "alloc_ok (with_clipboard env) = alloc_ok env"
  "SelectionCallback (with_clipboard env) = [lorieSelectionCallback env]"
  by (simp_all add: with_clipboard_def)

lemma with_clipboard_frame:
  "callbacks_frame (with_clipboard env)" "input_frame env \<Longrightarrow> input_frame (with_clipboard env)"
  "xace_ok env \<Longrightarrow> xace_ok (with_clipboard env)"
  by (simp_all add: callbacks_frame_def lorieSelectionCallback_def lorieSelectionRequest_frame
      input_frame_def xace_ok_def with_clipboard_def)


lemma set_owner_state:
  "set_owner (with_clipboard env) a t w pw own c s =
     (let s1 = s\<lparr>CurrentSelections := update_selection a (assign_owner t w pw own) (CurrentSelections s)\<rparr>
      in lorieSelectionCallback env (the (find_selection (CurrentSelections s1) a)) (Some c) SelectionSetOwner s1)"
  by (simp add: set_owner_def CallSelectionCallback_def CallCallbacks_def Let_def)

lemma find_selection_added:
  assumes "a \<in> s_selection ` set xs"
  shows "find_selection (update_selection a (assign_owner t w pw own) xs) a
    = Some (assign_owner t w pw own (the (find_selection xs a)))"
  using assms find_selection_None [of xs a] by (cases "find_selection xs a") (simp_all add: find_update_same)

text \<open>The server takes the selection; its own callback does not ask it for the data.\<close>

lemma server_owns:
  assumes "a \<in> s_selection ` set (CurrentSelections s)"
  shows "set_owner (with_clipboard env) a t w pw (Some serverClient) c s =
     s\<lparr>CurrentSelections := update_selection a (assign_owner t w pw (Some serverClient)) (CurrentSelections s)\<rparr>"
  using assms
  by (simp add: set_owner_state Let_def lorieSelectionCallback_def find_selection_added assign_owner_def)

lemma lorieOwnSelection_eq:
  assumes "\<forall>c a m. XaceSelection env c a m = Success" "alloc_ok env AllocSelection"
  shows "lorieOwnSelection (with_clipboard env) a s =
    (let s1 = set_errorValue serverClient a s;
         s2 = (case find_selection (CurrentSelections s) a of
                 None \<Rightarrow> s1\<lparr>CurrentSelections := new_selection a # CurrentSelections s\<rparr>
               | Some x \<Rightarrow> if s_client x \<noteq> None \<and> s_client x \<noteq> Some serverClient
                    then WriteEventsToClient (s_client x) (SelectionClear (milliseconds (currentTime s)) (s_window x) a) s1
                    else s1)
     in (Success, s2\<lparr>CurrentSelections := update_selection a (assign_owner (currentTime s) (root_window s)
            (Some (root_window s)) (Some serverClient)) (CurrentSelections s2)\<rparr>))"
proof (cases "find_selection (CurrentSelections s) a")
  case None
  have "s_selection (new_selection a) = a" by (simp add: new_selection_def)
  then show ?thesis using None assms
    by (simp add: lorieOwnSelection_def dixLookupSelection_def Let_def add_selection_def server_owns dix_simps
        set_errorValue_lorie)
next
  case (Some x)
  have a: "s_selection x = a" "a \<in> s_selection ` set (CurrentSelections s)"
    using find_selection_Some [OF Some] by auto
  show ?thesis using Some assms a
    by (simp add: lorieOwnSelection_def dixLookupSelection_def Let_def server_owns dix_simps
        set_errorValue_lorie WriteEventsToClient_lorie)
qed


section \<open>One request from question to answer\<close>

definition clip_owner :: "lorie \<Rightarrow> bool" where
  "clip_owner s \<longleftrightarrow> (\<exists>x. find_selection (CurrentSelections s) (xaCLIPBOARD s) = Some x
     \<and> s_client x = Some serverClient \<and> s_window x = root_window s)"

definition all_granted :: "lorie_env \<Rightarrow> bool" where
  "all_granted env \<longleftrightarrow> granted env \<and> property_callbacks_frame env
     \<and> (\<forall>c a m. XaceSelection env c a m = Success) \<and> (\<forall>c w m. XaceResource env c w m = Success)"

text \<open>The six atoms are different, as \<open>lorieInitClipboard\<close> makes them.\<close>

definition xa_distinct :: "lorie \<Rightarrow> bool" where
  "xa_distinct s \<longleftrightarrow> distinct [xaTIMESTAMP s, xaTEXT s, xaCLIPBOARD s, xaTARGETS s, xaSTRING s, xaUTF8_STRING s]"

lemma all_granted_lookups:
  assumes "all_granted env" "drawables s w = Some DRAWABLE_WINDOW"
  shows "dixLookupWindow env w c m s = (Success, set_errorValue c w s)"
    "dixLookupSelection env a c m s = (if find_selection (CurrentSelections s) a = None then BadMatch else Success,
       find_selection (CurrentSelections s) a, set_errorValue c a s)"
proof -
  show "dixLookupWindow env w c m s = (Success, set_errorValue c w s)"
    using dixLookupWindow_Success [of env w c m s] assms by (simp add: prod_eq_iff dixLookupWindow_state all_granted_def)
  show "dixLookupSelection env a c m s = (if find_selection (CurrentSelections s) a = None then BadMatch else Success,
       find_selection (CurrentSelections s) a, set_errorValue c a s)"
    using assms(1) by (auto simp: dixLookupSelection_def Let_def all_granted_def split: option.splits)
qed

text \<open>A conversion to text with the data at hand: the property is replaced and the client is told.\<close>

definition text_of :: "lorie \<Rightarrow> u32 \<Rightarrow> u32 list \<Rightarrow> bytes" where
  "text_of s tgt cs = (if tgt = xaUTF8_STRING s then utf8 cs else latin1_of cs)"

definition type_of :: "lorie \<Rightarrow> u32 \<Rightarrow> u32" where
  "type_of s tgt = (if tgt = xaUTF8_STRING s then xaUTF8_STRING s else XA_STRING)"

lemma text_of_length:
  assumes "android_text cs d"
  shows "length (text_of s tgt cs) < 2 ^ 31"
  using android_text_latin1(3) [OF assms] assms by (auto simp: text_of_def android_text_def)

lemma convert_text:
  assumes "all_granted env" "props_ok s" "xa_distinct s" "android_text cs d"
    and "find_selection (CurrentSelections s) sel \<noteq> None" "drawables s req = Some DRAWABLE_WINDOW"
    and "tgt \<in> {xaUTF8_STRING s, xaSTRING s, xaTEXT s}" "\<not> freed s c"
  shows "\<exists>s'. lorieConvertSelection env c sel tgt pr req tm (Some d) s
      = Some (Success, WriteEventsToClient (Some c) (SelectionNotify tm req sel tgt pr) s')
    \<and> same_clients s s'
    \<and> find_property (userProps s' req) (if pr \<noteq> 0 then pr else tgt)
        = Some \<lparr>p_propertyName = (if pr \<noteq> 0 then pr else tgt), p_type = type_of s tgt, p_format = 8,
                p_size = word_of_nat (length (text_of s tgt cs)), p_data = text_of s tgt cs\<rparr>"
proof -
  let ?s1 = "set_errorValue c sel s"
  let ?t = "set_errorValue c req ?s1"
  let ?a = "if pr \<noteq> 0 then pr else tgt"
  let ?v = "text_of s tgt cs"
  let ?p = "\<lparr>p_propertyName = ?a, p_type = type_of s tgt, p_format = 8, p_size = word_of_nat (length ?v), p_data = ?v\<rparr>"
  have g: "granted env" "property_callbacks_frame env" using assms(1) by (simp_all add: all_granted_def)
  let ?u = "set_props req (put_property ?p (userProps ?t req)) (set_errorValue serverClient ?a ?t)"
  let ?w = "deliverPropertyNotifyEvent env req PropertyNewValue ?p ?u"
  have m: "merged o' PropModeReplace ?a (type_of s tgt) 8 (length ?v) ?v = ?p" for o'
    by (cases o') (simp_all add: merged_def)
  have "compatible o' PropModeReplace ty f" for o' ty f by (cases o') (simp_all add: compatible_def)
  then have ch: "dixChangeWindowProperty env serverClient req ?a (type_of s tgt) 8 PropModeReplace (length ?v) ?v True ?t
      = Some (Success, ?w)"
    using dixChangeWindowProperty_done [OF g(1), of ?t 8 ?v "length ?v" req ?a PropModeReplace "type_of s tgt" serverClient True]
      text_of_length [OF assms(4), of s tgt] assms(2) m by (simp add: unit_8_32 Let_def)
  have same: "same_clients s ?w"
    by (rule same_clients_deliver [OF g(2)], rule same_clients_props,
        rule same_clients_trans [OF same_clients_trans [OF same_clients_error same_clients_error] same_clients_error])
  have nT: "tgt \<noteq> xaTARGETS s" "tgt \<noteq> xaTIMESTAMP s"
    using assms(3,7) by (auto simp: xa_distinct_def)
  have lat: "lorieUtf8ToLatin1 (alloc_ok env AllocLatin1) d = Some (Some (latin1_of cs))"
    using android_text_latin1 [OF assms(4)] granted_dest(1) [OF g(1)] by simp
  have dr: "drawables ?s1 req = Some DRAWABLE_WINDOW" using assms(6) by (simp add: dix_simps)
  have eq: "lorieConvertSelection env c sel tgt pr req tm (Some d) s
      = Some (Success, WriteEventsToClient (Some c) (SelectionNotify tm req sel tgt pr) ?w)"
  proof (cases "tgt = xaUTF8_STRING s")
    case True
    then have d: "tgt \<noteq> xaSTRING s" "tgt \<noteq> xaTEXT s" using assms(3) by (auto simp: xa_distinct_def)
    have "?v = cstr d" using True android_text_cstr [OF assms(4)] by (simp add: text_of_def)
    with ch True d nT assms(5) show ?thesis
      unfolding lorieConvertSelection_def if_not_P [OF assms(8)] all_granted_lookups(2) [OF assms(1,6)] Let_def prod.case
        all_granted_lookups(1) [OF assms(1) dr]
      by (simp add: set_errorValue_lorie type_of_def)
  next
    case False
    then have d: "tgt = xaSTRING s \<or> tgt = xaTEXT s" using assms(7) by auto
    have "?v = latin1_of cs" using False by (simp add: text_of_def)
    with ch False d nT assms(5) lat show ?thesis
      unfolding lorieConvertSelection_def if_not_P [OF assms(8)] all_granted_lookups(2) [OF assms(1,6)] Let_def prod.case
        all_granted_lookups(1) [OF assms(1) dr]
      by (simp add: set_errorValue_lorie type_of_def)
  qed
  have "find_property (userProps ?w req) ?a = Some ?p"
    by (simp add: deliver_frame [OF g(2)] find_put_property)
  with eq same show ?thesis by blast
qed


text \<open>When everything is granted, a request with data succeeds exactly when its selection and its window
  exist and its target is one of the five the server offers.\<close>

definition convertible :: "lorie \<Rightarrow> LorieDataTarget \<Rightarrow> bool" where
  "convertible s t \<longleftrightarrow> find_selection (CurrentSelections s) (ldt_selection t) \<noteq> None
     \<and> drawables s (ldt_requestor t) = Some DRAWABLE_WINDOW
     \<and> ldt_target t \<in> {xaTARGETS s, xaTIMESTAMP s, xaSTRING s, xaTEXT s, xaUTF8_STRING s}"

lemma convert_outcome:
  assumes "all_granted env" "props_ok s" "android_text cs d" "\<not> freed s c"
    and "lorieConvertSelection env c sel tgt pr req tm (Some d) s = Some (rc, s')"
  shows "rc = Success \<longleftrightarrow> find_selection (CurrentSelections s) sel \<noteq> None
     \<and> drawables s req = Some DRAWABLE_WINDOW
     \<and> tgt \<in> {xaTARGETS s, xaTIMESTAMP s, xaSTRING s, xaTEXT s, xaUTF8_STRING s}"
proof -
  let ?s1 = "set_errorValue c sel s"
  let ?t = "set_errorValue c req ?s1"
  note g = assms(1) [unfolded all_granted_def]
  have t: "props_ok ?t" using assms(2) by simp
  have ch: "\<exists>s'. dixChangeWindowProperty env serverClient req p ty f PropModeReplace n v True ?t = Some (Success, s')"
    if "format_ok f" "length v = n * unit f" "length v < 2 ^ 31" for p ty f n v
  proof -
    have "compatible o' PropModeReplace ty f" for o' by (cases o') (simp_all add: compatible_def)
    then show ?thesis using dixChangeWindowProperty_done [of env ?t f v n req p PropModeReplace ty serverClient True] g t that
      by (simp add: Let_def)
  qed
  have a: "length (atoms_bytes as) = length as * unit 32" for as by (simp add: length_atoms_bytes unit_8_32)
  have e: "length w = length w * unit 8" for w :: bytes by (simp add: unit_8_32)
  have l: "length (cstr d) < 2 ^ 31"
    using android_text_cstr [OF assms(3)] assms(3) by (auto simp: android_text_def)
  have al: "alloc_ok env AllocLatin1" using granted_dest(1) g by blast
  let ?a5 = "atoms_bytes [xaTARGETS ?t, xaTIMESTAMP ?t, xaSTRING ?t, xaTEXT ?t, xaUTF8_STRING ?t]"
  have c5: "length ?a5 < 2 ^ 31" "length ?a5 = 5 * unit 32" "length (atoms_bytes [x]) < 2 ^ 31" "length (atoms_bytes [x]) = 1 * unit 32" for x
    by (simp_all add: length_atoms_bytes unit_8_32)
  let ?m = "milliseconds (s_lastTimeChanged (the (find_selection (CurrentSelections s) sel)))"
  note chs = ch [OF unit_8_32(4) c5(2,1), of "if pr \<noteq> 0 then pr else tgt" XA_ATOM]
    ch [OF unit_8_32(4) c5(4,3) [of ?m], of "if pr \<noteq> 0 then pr else tgt" XA_INTEGER]
    ch [OF unit_8_32(3) e l, of "if pr \<noteq> 0 then pr else tgt" "xaUTF8_STRING ?t"]
    ch [OF unit_8_32(3) e android_text_latin1(3) [OF assms(3)], of "if pr \<noteq> 0 then pr else tgt" XA_STRING]
  define rc1 where "rc1 = fst (dixLookupSelection env sel c DixGetAttrAccess s)"
  define rc2 where "rc2 = fst (dixLookupWindow env req c DixSetAttrAccess ?s1)"
  have r1: "dixLookupSelection env sel c DixGetAttrAccess s = (rc1, find_selection (CurrentSelections s) sel, ?s1)"
    by (simp add: prod_eq_iff rc1_def dixLookupSelection_simps)
  have r2: "dixLookupWindow env req c DixSetAttrAccess ?s1 = (rc2, ?t)"
    by (simp add: prod_eq_iff rc2_def dixLookupWindow_state)
  have s1: "rc1 = Success \<longleftrightarrow> find_selection (CurrentSelections s) sel \<noteq> None"
    using g by (cases "find_selection (CurrentSelections s) sel") (simp_all add: rc1_def dixLookupSelection_def)
  have s2: "rc2 = Success \<longleftrightarrow> drawables s req = Some DRAWABLE_WINDOW"
    using g dixLookupWindow_Success [of env req c DixSetAttrAccess ?s1] by (simp add: rc2_def dix_simps)
  show ?thesis
  proof (cases "rc1 = Success \<and> rc2 = Success")
    case False
    then show ?thesis using assms(4,5) s1 s2
      unfolding lorieConvertSelection_def if_not_P [OF assms(4)] r1 r2 Let_def prod.case
      by (auto split: if_splits)
  next
    case True
    then have ok: "find_selection (CurrentSelections s) sel \<noteq> None" "drawables s req = Some DRAWABLE_WINDOW"
      using s1 s2 by blast+
    consider "tgt = xaTARGETS ?t" | "tgt = xaTIMESTAMP ?t" "tgt \<noteq> xaTARGETS ?t"
      | "tgt = xaSTRING ?t \<or> tgt = xaTEXT ?t" "tgt \<noteq> xaTIMESTAMP ?t" "tgt \<noteq> xaTARGETS ?t"
      | "tgt = xaUTF8_STRING ?t" "tgt \<noteq> xaSTRING ?t \<and> tgt \<noteq> xaTEXT ?t" "tgt \<noteq> xaTIMESTAMP ?t" "tgt \<noteq> xaTARGETS ?t"
      | "tgt \<notin> {xaTARGETS ?t, xaTIMESTAMP ?t, xaSTRING ?t, xaTEXT ?t, xaUTF8_STRING ?t}" by blast
    then show ?thesis
      using assms(5) True ok chs android_text_latin1(1) [OF assms(3)] al
      unfolding lorieConvertSelection_def if_not_P [OF assms(4)] r1 r2 Let_def prod.case
      by cases (auto simp: set_errorValue_lorie split: bind_splits)
  qed
qed

lemma handle_targets_answers:
  assumes "bridge_env env" "android_text cs d"
    and "props_ok s" "cachedData s = Some d" "lorieDataTargetHead s = ts" "\<forall>t\<in>set ts. \<not> freed s (ldt_client t)"
  shows "\<exists>s' oks. handle_targets env d ts s = Some s' \<and> length oks = length ts
    \<and> client_events s' = client_events s @ concat (map2 (answer s) ts oks)
    \<and> (all_granted env \<longrightarrow> oks = map (convertible s) ts)
    \<and> lorieDataTargetHead s' = [] \<and> cachedData s' = Some d \<and> props_ok s'"
  using assms(3-6)
proof (induction ts arbitrary: s)
  case (Cons t ts)
  have pc: "property_callbacks_frame env" using assms(1) by (simp add: bridge_env_def)
  have nf: "\<not> freed s (ldt_client t)" using Cons.prems by simp
  let ?ev = "\<lambda>p. SelectionNotify (ldt_time t) (ldt_requestor t) (ldt_selection t) (ldt_target t) p"
  obtain rc s1 where r: "lorieConvertSelection env (ldt_client t) (ldt_selection t) (ldt_target t) (ldt_property t)
      (ldt_requestor t) (ldt_time t) (Some d) s = Some (rc, s1)" "props_ok s1"
    using convert_data_total [OF assms(1) Cons.prems(1) assms(2) nf] by blast
  have rc: "all_granted env \<Longrightarrow> rc = Success \<longleftrightarrow> convertible s t"
    using convert_outcome [OF _ Cons.prems(1) assms(2) nf r(1)] by (simp add: convertible_def)
  from answered_data [OF pc r(1)]
  have a: "client_events s1 = client_events s @ (if rc = Success \<and> live s (Some (ldt_client t))
        then [ToClient (ldt_client t) (?ev (ldt_property t))] else [])"
    "dix.more s1 = dix.more s" "clientGone s1 = clientGone s" "CurrentSelections s1 = CurrentSelections s"
    "drawables s1 = drawables s" by (auto simp: answered_def)
  note m = lorie_more [OF a(2)]
  define s2 where "s2 = (if rc \<noteq> Success then WriteEventsToClient (Some (ldt_client t)) (?ev 0) s1 else s1)"
  define s3 where "s3 = s2\<lparr>lorieDataTargetHead := ts\<rparr>"
  have live: "live s3 c = live s c" for c
    using a(3) by (cases c) (simp_all add: s3_def s2_def live_def dix_simps)
  have fr: "freed s3 c = freed s c" for c
    using a(3) m by (simp add: s3_def s2_def freed_def dix_simps WriteEventsToClient_lorie)
  have cv: "convertible s3 = convertible s"
    using a m by (simp add: fun_eq_iff s3_def s2_def convertible_def dix_simps WriteEventsToClient_lorie)
  have ce: "client_events s3 = client_events s @ answer s t (rc = Success)"
  proof -
    have "client_events s3 = client_events s2" by (simp add: s3_def client_events_def)
    then show ?thesis using a(1,3) by (simp add: s2_def client_events_write answer_def live_def)
  qed
  have s3: "props_ok s3" "cachedData s3 = Some d" "lorieDataTargetHead s3 = ts" "\<forall>t\<in>set ts. \<not> freed s3 (ldt_client t)"
    using r(2) Cons.prems m(9) fr
    by (auto simp: s3_def s2_def props_ok_def WriteEventsToClient_lorie dix_simps)
  obtain s' oks where IH: "handle_targets env d ts s3 = Some s'" "length oks = length ts"
      "client_events s' = client_events s3 @ concat (map2 (answer s3) ts oks)"
      "all_granted env \<longrightarrow> oks = map (convertible s3) ts"
      "lorieDataTargetHead s' = []" "cachedData s' = Some d" "props_ok s'"
    using Cons.IH [OF s3] by blast
  have "handle_targets env d (t # ts) s = Some s'"
    using r(1) Cons.prems IH(1) by (simp add: s3_def s2_def)
  moreover have "answer s3 = answer s" by (simp add: fun_eq_iff answer_def live)
  ultimately show ?case using IH ce rc cv
    by (intro exI [of _ s'] exI [of _ "(rc = Success) # oks"]) simp
qed auto

text \<open>A request of a client whose structure has been freed is reached, whatever is answered before it.\<close>

lemma handle_targets_freed:
  assumes "property_callbacks_frame env" "cachedData s = Some d" "t \<in> set ts" "freed s (ldt_client t)"
  shows "handle_targets env d ts s = None"
  using assms(2-4)
proof (induction ts arbitrary: s)
  case (Cons u ts)
  let ?conv = "lorieConvertSelection env (ldt_client u) (ldt_selection u) (ldt_target u) (ldt_property u)
      (ldt_requestor u) (ldt_time u) (Some d) s"
  show ?case
  proof (cases ?conv)
    case None
    then show ?thesis using Cons.prems(1) by simp
  next
    case (Some r)
    then obtain rc s1 where r: "?conv = Some (rc, s1)" by (cases r) auto
    then have "\<not> freed s (ldt_client u)" by (auto simp: lorieConvertSelection_def)
    then have mem: "t \<in> set ts" using Cons.prems(2,3) by auto
    from answered_data [OF assms(1) r] have a: "dix.more s1 = dix.more s" "clientGone s1 = clientGone s"
      by (auto simp: answered_def)
    define s3 where "s3 = (if rc \<noteq> Success then WriteEventsToClient (Some (ldt_client u))
       (SelectionNotify (ldt_time u) (ldt_requestor u) (ldt_selection u) (ldt_target u) 0) s1 else s1)\<lparr>lorieDataTargetHead := ts\<rparr>"
    have "cachedData s3 = Some d" "freed s3 (ldt_client t)"
      using a Cons.prems(1,3) lorie_more [OF a(1)] by (simp_all add: s3_def freed_def dix_simps WriteEventsToClient_lorie)
    from Cons.IH [OF this(1) mem this(2)] show ?thesis using r Cons.prems(1) by (simp add: s3_def)
  qed
qed simp

text \<open>The question: without data, the request is remembered and Android is asked.\<close>

lemma convert_waits:
  assumes "all_granted env" "xa_distinct s" "clip_owner s" "cachedData s = None"
    and "drawables s req = Some DRAWABLE_WINDOW" "convert_params_ok s (xaCLIPBOARD s) tgt pr"
    and "tgt \<in> {xaUTF8_STRING s, xaSTRING s, xaTEXT s}" "\<not> freed s c"
  shows "\<exists>s'. lorieProcConvertSelection env c 6 req (xaCLIPBOARD s) tgt pr tm s = Some (Success, s')
    \<and> outputs s' = outputs s \<and> toActivity s' = toActivity s @ [RequestClipboard]
    \<and> lorieDataTargetHead s' = \<lparr>ldt_client = c, ldt_selection = xaCLIPBOARD s, ldt_target = tgt, ldt_property = pr,
          ldt_requestor = req, ldt_time = tm\<rparr> # lorieDataTargetHead s
    \<and> CurrentSelections s' = CurrentSelections s \<and> drawables s' = drawables s \<and> userProps s' = userProps s
    \<and> clientGone s' = clientGone s \<and> xaCLIPBOARD s' = xaCLIPBOARD s \<and> xaUTF8_STRING s' = xaUTF8_STRING s
    \<and> xaSTRING s' = xaSTRING s \<and> xaTEXT s' = xaTEXT s \<and> xaTARGETS s' = xaTARGETS s \<and> xaTIMESTAMP s' = xaTIMESTAMP s
    \<and> clientRetained s' = clientRetained s"
proof -
  let ?sel = "xaCLIPBOARD s"
  let ?s1 = "set_errorValue c req s"
  let ?s2 = "set_errorValue c ?sel ?s1"
  let ?s3 = "set_errorValue c ?sel ?s2"
  obtain x where x: "find_selection (CurrentSelections s) ?sel = Some x" "s_client x = Some serverClient"
    "s_window x = root_window s" using assms(3) by (auto simp: clip_owner_def)
  have al: "alloc_ok env AllocDataTarget" using assms(1) by (simp add: all_granted_def granted_def)
  have dr: "drawables ?s1 req = Some DRAWABLE_WINDOW" "drawables ?s2 req = Some DRAWABLE_WINDOW"
    "drawables ?s3 req = Some DRAWABLE_WINDOW"
    using assms(5) by (simp_all add: dix_simps)
  have pok: "convert_params_ok ?s1 ?sel tgt pr" using assms(6) by (simp add: convert_params_ok_def dix_simps)
  have nT: "tgt \<noteq> xaTARGETS s" "tgt \<noteq> xaTIMESTAMP s" using assms(2,7) by (auto simp: xa_distinct_def)
  have fr: "\<not> freed ?s2 c" using assms(8) by (simp add: freed_def set_errorValue_lorie dix_simps)
  note l2 = all_granted_lookups(2) [OF assms(1) dr(1)] all_granted_lookups(2) [OF assms(1) dr(2)]
  have conv: "lorieConvertSelection env c ?sel tgt pr req tm None ?s2 =
     Some (Success, to_activity RequestClipboard ((set_errorValue c req ?s3)\<lparr>lorieDataTargetHead :=
        \<lparr>ldt_client = c, ldt_selection = ?sel, ldt_target = tgt, ldt_property = pr, ldt_requestor = req,
          ldt_time = tm\<rparr> # lorieDataTargetHead s\<rparr>))"
    unfolding lorieConvertSelection_def if_not_P [OF fr] l2 Let_def prod.case all_granted_lookups(1) [OF assms(1) dr(3)]
    using x nT assms(7) al by (auto simp: set_errorValue_lorie dix_simps)
  show ?thesis
    unfolding lorieProcConvertSelection_def all_granted_lookups(1) [OF assms(1,5)] l2 Let_def prod.case
    using x pok conv assms(4)
    by (simp add: REQUEST_SIZE_MATCH_def set_errorValue_lorie dix_simps to_activity_def)
qed

section \<open>Receiving\<close>

lemma drop_replicate_less: "k < n \<Longrightarrow> drop k (replicate n x) = x # replicate (n - Suc k) x"
  using Suc_diff_Suc [of k n] by (metis drop_replicate replicate_Suc)

lemma filtered_text:
  fixes bs :: bytes
  assumes "0 \<notin> set bs"
  shows "lorieConvertLF bs (replicate (length bs + 1) 0) (length bs) =
      (let f = filter (\<lambda>c. c \<noteq> 0x0d) bs in Some (f @ 0 # replicate (length bs - length f) 0))"
    "cstr (filter (\<lambda>c. c \<noteq> 0x0d) bs @ 0 # z) = filter (\<lambda>c. c \<noteq> 0x0d) bs"
proof -
  have "length (filter (\<lambda>c. c \<noteq> 0x0d) bs) < length bs + 1" by (simp add: le_imp_less_Suc)
  from drop_replicate_less [OF this] have d: "drop (length (filter (\<lambda>c. c \<noteq> 0x0d) bs)) (replicate (length bs + 1) (0::u8))
      = 0 # replicate (length bs - length (filter (\<lambda>c. c \<noteq> 0x0d) bs)) 0"
    by (simp del: replicate_Suc)
  show "lorieConvertLF bs (replicate (length bs + 1) 0) (length bs) =
      (let f = filter (\<lambda>c. c \<noteq> 0x0d) bs in Some (f @ 0 # replicate (length bs - length f) 0))"
    using convertLF_filter [of "length bs" bs "replicate (length bs + 1) 0"] d by (simp add: Let_def)
  show "cstr (filter (\<lambda>c. c \<noteq> 0x0d) bs @ 0 # z) = filter (\<lambda>c. c \<noteq> 0x0d) bs"
    using assms by (intro cstr_append_nul) auto
qed

lemma latin1_utf8_text:
  assumes "0 \<notin> set f" "length f \<le> n"
  shows "\<exists>buf. lorieLatin1ToUTF8 (replicate ((n + 1) * 2) 0) (f @ 0 # z) = Some buf \<and> cstr buf = utf8 (map ucast f)"
proof -
  let ?u = "utf8 (map ucast f :: u32 list)"
  let ?rest = "replicate ((n + 1) * 2) (0::u8)"
  have len: "length (utf8 (map ucast t)) \<le> 2 * length t" for t :: bytes
  proof (induction t)
    case (Cons c t)
    then show ?case by (cases "c < 128") (simp_all add: latin1_bytes)
  qed simp
  have "length ?u < (n + 1) * 2" using len [of f] assms(2) by simp
  then have k: "drop (length ?u) ?rest = 0 # replicate ((n + 1) * 2 - Suc (length ?u)) 0"
    by (rule drop_replicate_less)
  have nz: "0 \<notin> set ?u"
  proof (rule utf8_no_nul, intro ballI conjI)
    fix c assume "c \<in> set (map ucast f :: u32 list)"
    then obtain b :: u8 where b: "b \<in> set f" "c = ucast b" by auto
    have "b \<noteq> 0" using b(1) assms(1) by auto
    moreover have u: "unat (ucast b :: u32) = unat b"
      using unat_less_u8 [of b] by (simp add: unsigned_ucast_eq take_bit_nat_eq_self)
    ultimately show "c \<noteq> 0" using b(2) by (metis unat_0 unat_gt_0 less_irrefl)
    show "scalar c" using u b(2) unat_less_u8 [of b] by (simp add: scalar_def word_less_nat_alt word_le_nat_alt)
  qed
  have "2 * length f \<le> length ?rest" using assms(2) by simp
  from latin1_loop_utf8 [OF assms(1) this, of "[]" z "[]"]
  have "latin1_loop (f @ 0 # z) 0 ?rest 0 = Some (?u @ 0 # replicate ((n + 1) * 2 - Suc (length ?u)) 0)"
    unfolding k by simp
  then show ?thesis using cstr_append_nul [OF nz] unfolding lorieLatin1ToUTF8_def by blast
qed


section \<open>Properties\<close>

text \<open>C13: When the text of Android arrives and the structures of the clients that wait for it still exist,
  every waiting request is answered: each connected client gets exactly one \<open>SelectionNotify\<close> per
  request, in the order of the list, the list is empty afterwards, and the text is kept for later
  requests; when access is granted, the answers that name the property are exactly those to requests
  whose selection and window exist and whose target the server offers. But nothing removes the
  requests of a client that leaves: when the structure of one of them has been freed, the server
  uses the freed structure.\<close>
theorem clipboard_data_answers_all:
  assumes "bridge_env env" "android_text cs d" "props_ok s"
  shows "if \<exists>t\<in>set (lorieDataTargetHead s). freed s (ldt_client t)
    then lorieHandleClipboardData env d s = None
    else \<exists>s' oks. lorieHandleClipboardData env d s = Some s' \<and> length oks = length (lorieDataTargetHead s)
      \<and> client_events s' = client_events s @ concat (map2 (answer s) (lorieDataTargetHead s) oks)
      \<and> (all_granted env \<longrightarrow> oks = map (convertible s) (lorieDataTargetHead s))
      \<and> lorieDataTargetHead s' = [] \<and> cachedData s' = Some d"
proof -
  let ?s = "s\<lparr>cachedData := Some d\<rparr>"
  have a: "answer ?s = answer s" "client_events ?s = client_events s" "convertible ?s = convertible s" "freed ?s = freed s"
    by (simp_all add: fun_eq_iff answer_def live_def client_events_def convertible_def freed_def)
  have pc: "property_callbacks_frame env" using assms(1) by (simp add: bridge_env_def)
  have p: "props_ok ?s" using assms(3) by (simp add: props_ok_def)
  have "lorieHandleClipboardData env d s = None" if "t \<in> set (lorieDataTargetHead s)" "freed s (ldt_client t)" for t
    using handle_targets_freed [OF pc, of ?s d t "lorieDataTargetHead s"] that a(4) by (simp add: lorieHandleClipboardData_def)
  moreover from handle_targets_answers [OF assms(1,2) p, of "lorieDataTargetHead s"]
  have "\<exists>s' oks. lorieHandleClipboardData env d s = Some s' \<and> length oks = length (lorieDataTargetHead s)
      \<and> client_events s' = client_events s @ concat (map2 (answer s) (lorieDataTargetHead s) oks)
      \<and> (all_granted env \<longrightarrow> oks = map (convertible s) (lorieDataTargetHead s))
      \<and> lorieDataTargetHead s' = [] \<and> cachedData s' = Some d"
    if "\<forall>t\<in>set (lorieDataTargetHead s). \<not> freed s (ldt_client t)"
    using that unfolding lorieHandleClipboardData_def Let_def a by auto
  ultimately show ?thesis by auto
qed

text \<open>When Android announces new text, the cached text is dropped and the server becomes the owner of
  \<open>CLIPBOARD\<close> through its root window; the list of selections stays well-formed, the other
  selections keep their owners, and the only event is a \<open>SelectionClear\<close> to a client that owned it.\<close>
theorem clipboard_announce:
  assumes "\<forall>c a m. XaceSelection env c a m = Success" "alloc_ok env AllocSelection" "selections_ok s" "root_window s \<noteq> 0"
    and "s' = lorieHandleClipboardAnnounce (with_clipboard env) s"
  shows "cachedData s' = None \<and> clip_owner s' \<and> selections_ok s'
    \<and> (\<forall>b. b \<noteq> xaCLIPBOARD s \<longrightarrow> find_selection (CurrentSelections s') b = find_selection (CurrentSelections s) b)
    \<and> outputs s' = outputs s @ (case find_selection (CurrentSelections s) (xaCLIPBOARD s) of
         None \<Rightarrow> []
       | Some x \<Rightarrow> if live s (s_client x)
                  then [ToClient (the (s_client x))
                    (SelectionClear (milliseconds (currentTime s)) (s_window x) (xaCLIPBOARD s))] else [])"
proof -
  let ?s = "s\<lparr>cachedData := None\<rparr>"
  let ?a = "xaCLIPBOARD s"
  let ?s1 = "set_errorValue serverClient ?a ?s"
  let ?f = "assign_owner (currentTime s) (root_window s) (Some (root_window s)) (Some serverClient)"
  define s2 where "s2 = (case find_selection (CurrentSelections s) ?a of
                 None \<Rightarrow> ?s1\<lparr>CurrentSelections := new_selection ?a # CurrentSelections s\<rparr>
               | Some x \<Rightarrow> if s_client x \<noteq> None \<and> s_client x \<noteq> Some serverClient
                    then WriteEventsToClient (s_client x) (SelectionClear (milliseconds (currentTime s)) (s_window x) ?a) ?s1
                    else ?s1)"
  have s': "s' = s2\<lparr>CurrentSelections := update_selection ?a ?f (CurrentSelections s2)\<rparr>"
    using assms(5) lorieOwnSelection_eq [OF assms(1,2), of ?a ?s]
    by (cases "find_selection (CurrentSelections s) ?a")
      (simp_all add: lorieHandleClipboardAnnounce_def Let_def s2_def)
  have fr: "cachedData s2 = None" "root_window s2 = root_window s" "xaCLIPBOARD s2 = ?a" "currentTime s2 = currentTime s"
    by (auto simp: s2_def set_errorValue_lorie WriteEventsToClient_lorie dix_simps split: option.splits)
  have cs: "CurrentSelections s2 = (if find_selection (CurrentSelections s) ?a = None
      then new_selection ?a # CurrentSelections s else CurrentSelections s)"
    by (auto simp: s2_def dix_simps split: option.splits)
  have mem: "?a \<in> s_selection ` set (CurrentSelections s2)"
    using find_selection_None [of "CurrentSelections s" ?a] by (auto simp: cs new_selection_def)
  have ok2: "selections_ok s2"
    using assms(3) find_selection_None [of "CurrentSelections s" ?a]
    by (auto simp: selections_ok_def cs fr(4) new_selection_def owner_ok_def ts_val_def)
  have "selections_ok s'" unfolding s'
    by (rule selections_ok_update [OF ok2]) (use assms(4) fr(4) in \<open>simp_all add: assign_owner_def owner_ok_def\<close>)
  moreover have "clip_owner s'"
    using find_selection_added [OF mem] fr by (auto simp: clip_owner_def s' assign_owner_def)
  moreover have "cachedData s' = None" using fr by (simp add: s')
  moreover have "find_selection (CurrentSelections s') b = find_selection (CurrentSelections s) b" if "b \<noteq> ?a" for b
    using that by (simp add: s' find_update_other cs new_selection_def)
  moreover have "outputs s' = outputs s @ (case find_selection (CurrentSelections s) ?a of None \<Rightarrow> []
       | Some x \<Rightarrow> if live s (s_client x) then [ToClient (the (s_client x))
                    (SelectionClear (milliseconds (currentTime s)) (s_window x) ?a)] else [])"
    by (auto simp: s' s2_def WriteEventsToClient_live live_def dix_simps split: option.splits)
  ultimately show ?thesis by blast
qed


text \<open>C1: A client that asks for the clipboard as text while Android owns it and the text is not known yet
  gets no answer at first, Android is asked for the text, and when the text arrives the property
  of the requestor holds it (as UTF-8, or as Latin-1 with question marks) and the client is told.\<close>
theorem clipboard_request_served:
  assumes "all_granted env" "xa_distinct s" "clip_owner s" "cachedData s = None" "lorieDataTargetHead s = []" "props_ok s"
    and "drawables s req = Some DRAWABLE_WINDOW" "convert_params_ok s (xaCLIPBOARD s) tgt pr"
    and "tgt \<in> {xaUTF8_STRING s, xaSTRING s, xaTEXT s}" "android_text cs d" "live s (Some c)"
  shows "\<exists>s1 s2. lorieProcConvertSelection env c 6 req (xaCLIPBOARD s) tgt pr tm s = Some (Success, s1)
    \<and> client_events s1 = client_events s \<and> toActivity s1 = toActivity s @ [RequestClipboard]
    \<and> lorieHandleClipboardData env d s1 = Some s2
    \<and> client_events s2 = client_events s @ [ToClient c (SelectionNotify tm req (xaCLIPBOARD s) tgt pr)]
    \<and> find_property (userProps s2 req) (if pr \<noteq> 0 then pr else tgt)
        = Some \<lparr>p_propertyName = (if pr \<noteq> 0 then pr else tgt), p_type = type_of s tgt, p_format = 8,
                p_size = word_of_nat (length (text_of s tgt cs)), p_data = text_of s tgt cs\<rparr>"
proof -
  let ?sel = "xaCLIPBOARD s"
  have fr: "\<not> freed s c" using assms(11) by (simp add: freed_def live_def)
  obtain s1 where s1: "lorieProcConvertSelection env c 6 req ?sel tgt pr tm s = Some (Success, s1)"
    "outputs s1 = outputs s" "toActivity s1 = toActivity s @ [RequestClipboard]"
    "lorieDataTargetHead s1 = [\<lparr>ldt_client = c, ldt_selection = ?sel, ldt_target = tgt, ldt_property = pr,
          ldt_requestor = req, ldt_time = tm\<rparr>]"
    "CurrentSelections s1 = CurrentSelections s" "drawables s1 = drawables s" "userProps s1 = userProps s"
    "clientGone s1 = clientGone s" "xaCLIPBOARD s1 = ?sel" "xaUTF8_STRING s1 = xaUTF8_STRING s"
    "xaSTRING s1 = xaSTRING s" "xaTEXT s1 = xaTEXT s" "xaTARGETS s1 = xaTARGETS s" "xaTIMESTAMP s1 = xaTIMESTAMP s"
    "clientRetained s1 = clientRetained s"
    using convert_waits [OF assms(1-4,7-9) fr] assms(5) by auto
  let ?t = "s1\<lparr>cachedData := Some d\<rparr>"
  have pre: "props_ok ?t" "xa_distinct ?t" "find_selection (CurrentSelections ?t) ?sel \<noteq> None"
    "drawables ?t req = Some DRAWABLE_WINDOW" "tgt \<in> {xaUTF8_STRING ?t, xaSTRING ?t, xaTEXT ?t}"
    using assms(2,3,6,7,9) s1 by (auto simp: props_ok_def xa_distinct_def clip_owner_def)
  have fr1: "\<not> freed ?t c" using fr s1 by (simp add: freed_def)
  have tt: "text_of ?t tgt cs = text_of s tgt cs" "type_of ?t tgt = type_of s tgt"
    using s1 by (simp_all add: text_of_def type_of_def)
  obtain s' where s': "lorieConvertSelection env c ?sel tgt pr req tm (Some d) ?t
      = Some (Success, WriteEventsToClient (Some c) (SelectionNotify tm req ?sel tgt pr) s')" "same_clients ?t s'"
    "find_property (userProps s' req) (if pr \<noteq> 0 then pr else tgt)
        = Some \<lparr>p_propertyName = (if pr \<noteq> 0 then pr else tgt), p_type = type_of s tgt, p_format = 8,
                p_size = word_of_nat (length (text_of s tgt cs)), p_data = text_of s tgt cs\<rparr>"
    using convert_text [OF assms(1) pre(1,2) assms(10) pre(3-5) fr1, of pr tm] unfolding tt by blast
  let ?s2 = "(WriteEventsToClient (Some c) (SelectionNotify tm req ?sel tgt pr) s')\<lparr>lorieDataTargetHead := []\<rparr>"
  have hd: "lorieHandleClipboardData env d s1 = Some ?s2"
    using s'(1) s1(4) by (simp add: lorieHandleClipboardData_def Let_def)
  have "clientGone s' = clientGone s" "client_events s' = client_events s"
    using s'(2) s1 by (simp_all add: same_clients_def client_events_def)
  then have ce: "client_events ?s2 = client_events s @ [ToClient c (SelectionNotify tm req ?sel tgt pr)]"
    using assms(11) client_events_write [of "Some c" "SelectionNotify tm req ?sel tgt pr" s']
    by (simp add: client_events_def live_def)
  have "client_events s1 = client_events s" using s1(2) by (simp add: client_events_def)
  with s1 hd ce s'(3) show ?thesis
    by (intro exI [of _ s1] exI [of _ ?s2]) (simp add: dix_simps)
qed

text \<open>Text that a client puts into the property the server asked for reaches Android without its carriage
  returns: as it is when it is UTF-8, and converted from Latin-1 to UTF-8 when it is a \<open>STRING\<close>.\<close>
theorem clipboard_text_received:
  assumes "granted env" "xa_distinct s" "clipboardEnabled s" "find_property (userProps s (root_window s)) tgt = Some p"
    and "p_type p = tgt" "p_format p = 8" "p_size p = word_of_nat (length (p_data p))" "length (p_data p) < 2 ^ 31"
    and "tgt = xaUTF8_STRING s \<and> p_data p = utf8 cs \<and> (\<forall>c\<in>set cs. c \<noteq> 0 \<and> scalar c) \<and> slack \<noteq> []
         \<or> tgt = xaSTRING s \<and> 0 \<notin> set (p_data p) \<and> cs = map ucast (p_data p)"
  shows "\<exists>s'. lorieProcSendEvent env slack orig c 11 (SelectionNotify tm (root_window s) (xaCLIPBOARD s) tgt tgt) s
      = Some (orig c (SelectionNotify tm (root_window s) (xaCLIPBOARD s) tgt tgt) s')
    \<and> toActivity s' = toActivity s @ [SendClipboardData
         (if tgt = xaUTF8_STRING s then filter (\<lambda>b. b \<noteq> 0x0d) (utf8 cs)
          else utf8 (map ucast (filter (\<lambda>b. b \<noteq> 0x0d) (p_data p))))]"
proof -
  let ?bs = "p_data p"
  let ?f = "filter (\<lambda>b. b \<noteq> 0x0d) ?bs"
  let ?n = "length ?bs"
  let ?s1 = "set_errorValue serverClient tgt s"
  have n: "unat (p_size p) = ?n" using assms(7,8) by (simp add: unat_of_nat_u32)
  have lk: "dixLookupProperty env (root_window s) tgt serverClient DixReadAccess s = (Success, Some p, ?s1)"
    using assms(1,4) by (simp add: dixLookupProperty_eq granted_dest)
  have nT: "tgt \<noteq> xaTARGETS s" using assms(2,9) by (auto simp: xa_distinct_def)
  have nz: "0 \<notin> set ?bs" using assms(9) utf8_no_nul by auto
  note ft = filtered_text [OF nz]
  have lf: "lorieConvertLF ?bs (replicate (?n + 1) 0) ?n = Some (?f @ 0 # replicate (?n - length ?f) 0)"
    using ft(1) by (simp only: Let_def)
  have "\<exists>s'. lorieHandleSelection env slack tgt s = Some s' \<and> toActivity s' = toActivity s @ [SendClipboardData
         (if tgt = xaUTF8_STRING s then ?f else utf8 (map ucast ?f))]"
  proof (cases "tgt = xaUTF8_STRING s")
    case True
    then have ns: "tgt \<noteq> xaSTRING s" using assms(2) by (auto simp: xa_distinct_def)
    then have c: "?bs = utf8 cs" "\<forall>c\<in>set cs. c \<noteq> 0 \<and> scalar c" "slack \<noteq> []" using assms(9) by auto
    have "lorieCheckUTF8 (?bs @ slack) ?n = Some True"
      using check_utf8 [OF c(2), of "[]" slack] c by (simp add: lorieCheckUTF8_def)
    then show ?thesis
      unfolding lorieHandleSelection_def lk Let_def prod.case option.sel n lf
      using True ns nT assms(5,6) ft(2) by (simp add: set_errorValue_lorie to_activity_def)
  next
    case False
    then have ts: "tgt = xaSTRING s" using assms(9) by auto
    have "0 \<notin> set ?f" "length ?f \<le> ?n" using nz by auto
    then obtain buf where "lorieLatin1ToUTF8 (replicate ((?n + 1) * 2) 0) (?f @ 0 # replicate (?n - length ?f) 0) = Some buf"
      "cstr buf = utf8 (map ucast ?f)" using latin1_utf8_text by blast
    then show ?thesis
      unfolding lorieHandleSelection_def lk Let_def prod.case option.sel n lf
      using False ts nT assms(5,6) by (simp add: set_errorValue_lorie to_activity_def)
  qed
  moreover have "tgt = xaUTF8_STRING s \<Longrightarrow> ?bs = utf8 cs" using assms(2,9) by (auto simp: xa_distinct_def)
  ultimately show ?thesis
    using assms(3) by (auto simp: lorieProcSendEvent_def REQUEST_SIZE_MATCH_def)
qed

text \<open>When a client takes the \<open>CLIPBOARD\<close> selection while the synchronisation is on, the server asks it
  at once which targets it offers; nothing is asked when the synchronisation is off.\<close>
theorem clipboard_owner_asked:
  assumes "input_frame env" "\<forall>c a m. XaceSelection env c a m = Success" "w \<noteq> 0" "live s (Some c)"
    and "ProcSetSelectionOwner (with_clipboard env) c n w (xaCLIPBOARD s) tm s = (Success, s')"
    and "\<not> stale (with_clipboard env) (xaCLIPBOARD s) tm s"
  shows "outputs s' = outputs (cleared (with_clipboard env) c w (xaCLIPBOARD s) tm s) @
    (if clipboardEnabled s
     then [ToClient c (SelectionRequest (milliseconds (currentTime s')) w (root_window s) (xaCLIPBOARD s) (xaTARGETS s) (xaTARGETS s))]
     else [])"
proof -
  let ?env = "with_clipboard env"
  let ?a = "xaCLIPBOARD s"
  let ?t = "cleared ?env c w ?a tm s"
  have x: "xace_ok ?env" using assms(2) by (simp add: xace_ok_def)
  have inf: "input_frame ?env" using with_clipboard_frame(2) [OF assms(1)] .
  have s': "s' = set_owner ?env ?a (request_time ?env tm s) w (Some w) (Some c) c ?t"
    using inf x
  proof (cases rule: ProcSetSelectionOwner_cases [where c = c and n = n and w = w and a = ?a and tm = tm and s = s])
    case unchanged
    then show ?thesis using assms(5,6) by simp
  next
    case set
    then show ?thesis using assms(3,5) by simp
  qed
  have mem: "?a \<in> s_selection ` set (CurrentSelections ?t)"
    using cleared_frame(4) [OF inf, of c w ?a tm s] by (auto simp: new_selection_def)
  have more: "dix.more ?t = dix.more s"
    by (auto simp: cleared_def looked_up_def Let_def dix_simps inf split: option.splits)
  note m = lorie_more [OF more]
  have cl: "c \<noteq> serverClient" "\<not> clientGone ?t c"
    using assms(4) cleared_frame(2) [OF inf, of c w ?a tm s] by (auto simp: live_def)
  define t1 where "t1 = ?t\<lparr>CurrentSelections := update_selection ?a (assign_owner (request_time ?env tm s) w (Some w) (Some c)) (CurrentSelections ?t)\<rparr>"
  have f: "find_selection (CurrentSelections t1) ?a
     = Some (assign_owner (request_time ?env tm s) w (Some w) (Some c) (the (find_selection (CurrentSelections ?t) ?a)))"
    using find_selection_added [OF mem] by (simp add: t1_def)
  have o: "s_client (assign_owner t w pw own y) = own" "s_window (assign_owner t w pw own y) = w"
    "s_selection (assign_owner t w pw own y) = s_selection y" for t w pw own y
    by (simp_all add: assign_owner_def)
  have y: "s_selection (the (find_selection (CurrentSelections ?t) ?a)) = ?a"
    using find_selection_None [of "CurrentSelections ?t" ?a] mem find_selection_Some by fastforce
  have t1: "outputs t1 = outputs ?t" "clipboardEnabled t1 = clipboardEnabled s" "xaCLIPBOARD t1 = ?a"
    "xaTARGETS t1 = xaTARGETS s" "root_window t1 = root_window s" "clientGone t1 = clientGone ?t"
    by (simp_all add: t1_def m)
  have "s' = lorieSelectionCallback env (the (find_selection (CurrentSelections t1) ?a)) (Some c) SelectionSetOwner t1"
    unfolding s' set_owner_state Let_def t1_def [symmetric] by simp
  then show ?thesis
    using cl t1 assms(2) f
    by (simp add: lorieSelectionCallback_def lorieSelectionRequest_def dixLookupSelection_def Let_def o y
        WriteEventsToClient_live live_def dix_simps set_errorValue_lorie)
qed


text \<open>A server whose root window (1) owns the clipboard, for the witnesses.\<close>

definition small_lorie :: lorie where
  "small_lorie = \<lparr>atomTable = small_atoms, currentTime = \<lparr>months = 1, milliseconds = 5\<rparr>, clockReads = 0,
     drawables = (\<lambda>i. if i = 1 \<or> i = 7 then Some DRAWABLE_WINDOW else None), clientGone = (\<lambda>c. False),
     errorValue = (\<lambda>c. 0),
     CurrentSelections = [\<lparr>s_selection = 72, s_lastTimeChanged = \<lparr>months = 1, milliseconds = 2\<rparr>,
       s_window = 1, s_pWin = Some 1, s_client = Some serverClient\<rparr>],
     userProps = (\<lambda>w. if w = 1 then [\<lparr>p_propertyName = 31, p_type = 31, p_format = 8, p_size = 3,
       p_data = [0x61, 0x0d, 0x62]\<rparr>] else []), outputs = [],
     root_window = 1, xaTIMESTAMP = 70, xaTEXT = 71, xaCLIPBOARD = 72, xaTARGETS = 73, xaSTRING = 31,
     xaUTF8_STRING = 74, clipboardEnabled = True, cachedData = None, lorieDataTargetHead = [],
     procConvertSelection = LorieProc, procSendEvent = LorieProc, origProcConvertSelection = Some DixProc,
     origProcSendEvent = Some DixProc, toActivity = [], clientRetained = (\<lambda>_. False)\<rparr>"

lemma small_lorie_ok: "selections_ok small_lorie" "props_ok small_lorie" "xa_distinct small_lorie" "clip_owner small_lorie"
  by (auto simp: small_lorie_def selections_ok_def owner_ok_def ts_val_def props_ok_def prop_ok_def format_ok_def
      unit_def xa_distinct_def clip_owner_def)

lemma idle_bridge: "bridge_env idle_env" "all_granted idle_env"
  using idle_env_granted(2) idle_env_granted(1)
  by (simp_all add: bridge_env_def all_granted_def property_xace_ok_def idle_env_def)

lemma small_text: "android_text [0x41, 0xe9] [0x41, 0xc3, 0xa9, 0]"
  by (simp add: android_text_def scalar_def utf8_enc_def cont_byte_def)

definition waiting_lorie :: "client list \<Rightarrow> lorie" where
  "waiting_lorie cs = small_lorie\<lparr>clientGone := (\<lambda>c. c = 4 \<or> c = 5), clientRetained := (\<lambda>c. c = 4), lorieDataTargetHead :=
     map (\<lambda>c. \<lparr>ldt_client = c, ldt_selection = 72, ldt_target = 74, ldt_property = 60, ldt_requestor = 7, ldt_time = 9\<rparr>) cs\<rparr>"

text \<open>Client 3 is connected, client 4 has left and is retained, client 5 has been freed.\<close>

theorem clipboard_data_answers_all_witness:
  "(\<exists>s'. lorieHandleClipboardData idle_env [0x41, 0xc3, 0xa9, 0] (waiting_lorie [4, 3]) = Some s'
    \<and> lorieDataTargetHead s' = [] \<and> client_events s' = [ToClient 3 (SelectionNotify 9 7 72 74 60)])
   \<and> lorieHandleClipboardData idle_env [0x41, 0xc3, 0xa9, 0] (waiting_lorie [3, 5]) = None"
proof -
  have p: "props_ok (waiting_lorie cs)" for cs using small_lorie_ok(2) by (simp add: props_ok_def waiting_lorie_def)
  note c = clipboard_data_answers_all [OF idle_bridge(1) small_text p]
  have "lorieHandleClipboardData idle_env [0x41, 0xc3, 0xa9, 0] (waiting_lorie [3, 5]) = None"
    using c [of "[3, 5]"] by (simp add: freed_def waiting_lorie_def serverClient_def)
  moreover have "\<not> (\<exists>t\<in>set (lorieDataTargetHead (waiting_lorie [4, 3])). freed (waiting_lorie [4, 3]) (ldt_client t))"
    by (simp add: freed_def waiting_lorie_def)
  note c [of "[4, 3]", unfolded if_not_P [OF this]]
  then have "\<exists>s'. lorieHandleClipboardData idle_env [0x41, 0xc3, 0xa9, 0] (waiting_lorie [4, 3]) = Some s'
    \<and> lorieDataTargetHead s' = [] \<and> client_events s' = [ToClient 3 (SelectionNotify 9 7 72 74 60)]"
    using idle_bridge(2)
    by (auto simp: answer_def live_def waiting_lorie_def small_lorie_def client_events_def serverClient_def convertible_def)
  ultimately show ?thesis by blast
qed

theorem clipboard_announce_witness:
  "clip_owner (lorieHandleClipboardAnnounce (with_clipboard idle_env) small_lorie)"
  using clipboard_announce [of idle_env small_lorie, OF _ _ small_lorie_ok(1) _ refl]
  by (simp add: idle_env_def small_lorie_def)

theorem clipboard_request_served_witness:
  "\<exists>s1 s2. lorieProcConvertSelection idle_env 3 6 7 72 74 60 9 small_lorie = Some (Success, s1)
    \<and> lorieHandleClipboardData idle_env [0x41, 0xc3, 0xa9, 0] s1 = Some s2
    \<and> client_events s2 = [ToClient 3 (SelectionNotify 9 7 72 74 60)]"
  using clipboard_request_served [OF idle_bridge(2) small_lorie_ok(3,4) _ _ small_lorie_ok(2) _ _ _ small_text,
      of 7 74 60 3 9]
  by (simp add: small_lorie_def convert_params_ok_def ValidAtom_def small_atoms_def live_def serverClient_def
      client_events_def) blast

theorem clipboard_text_received_witness:
  "\<exists>s'. lorieProcSendEvent idle_env [] (\<lambda>c ev s. (Success, s)) 3 11 (SelectionNotify 9 1 72 31 31) small_lorie
     = Some (Success, s') \<and> toActivity s' = [SendClipboardData [0x61, 0x62]]"
  using clipboard_text_received [OF idle_env_granted(1) small_lorie_ok(3), of 31
      "\<lparr>p_propertyName = 31, p_type = 31, p_format = 8, p_size = 3, p_data = [0x61, 0x0d, 0x62]\<rparr>" "[0x61, 0x0d, 0x62]" "[]"
      "\<lambda>c ev s. (Success, s)" 3 9]
  by (simp add: small_lorie_def utf8_enc_def)

theorem clipboard_owner_asked_witness:
  "\<exists>s'. ProcSetSelectionOwner (with_clipboard idle_env) 3 4 7 72 0 small_lorie = (Success, s')
     \<and> outputs s' = [ToClient 3 (SelectionRequest 1000 7 1 72 73 73)]"
proof -
  let ?env = "with_clipboard idle_env"
  have s: "\<not> stale ?env 72 0 small_lorie"
    by (simp add: stale_def small_lorie_def with_clipboard_def idle_env_def UpdateCurrentTime_def read_clock_def
        ClientTimeToServerTime_def CompareTimeStamps_def Let_def ts_val_def)
  define r where "r = ProcSetSelectionOwner ?env 3 4 7 72 0 small_lorie"
  have r: "fst r = Success" "currentTime (snd r) = \<lparr>months = 1, milliseconds = 1000\<rparr>"
    by (simp_all add: r_def ProcSetSelectionOwner_def small_lorie_def with_clipboard_def idle_env_def
        UpdateCurrentTime_def read_clock_def ClientTimeToServerTime_def CompareTimeStamps_def Let_def
        REQUEST_SIZE_MATCH_def dixLookupWindow_def dixLookupDrawable_def lookupDrawableResource_def set_errorValue_def
        ValidAtom_def small_atoms_def dixLookupSelection_def WriteEventsToClient_def set_owner_def
        CallSelectionCallback_def CallCallbacks_def lorieSelectionCallback_def lorieSelectionRequest_def
        assign_owner_def emit_def serverClient_def)
  have c: "outputs (cleared ?env 3 7 72 0 small_lorie) = []"
    by (simp add: cleared_def looked_up_def small_lorie_def with_clipboard_def idle_env_def UpdateCurrentTime_def
        read_clock_def CompareTimeStamps_def Let_def set_errorValue_def WriteEventsToClient_def)
  have p: "ProcSetSelectionOwner ?env 3 4 7 (xaCLIPBOARD small_lorie) 0 small_lorie = (Success, snd r)"
    using r(1) by (simp add: r_def prod_eq_iff small_lorie_def)
  have l: "live small_lorie (Some 3)" by (simp add: live_def small_lorie_def serverClient_def)
  have x: "\<forall>c a m. XaceSelection idle_env c a m = Success" by (simp add: idle_env_def)
  have "xaCLIPBOARD small_lorie = 72" by (simp add: small_lorie_def)
  with clipboard_owner_asked [OF idle_env_frame x _ l p] s c r p show ?thesis
    by (auto simp: small_lorie_def)
qed

end
