(* ===== verification/Queues.thy ===== *)
theory Queues
  imports Prelude
begin

text \<open>
  The interface of the queues of the server: a representation with an invariant stands for the
  list of its elements, adding appends, taking removes the first. The ring of input events and
  the ring of GPU copy requests are both instances.
\<close>

section \<open>Positions in a ring\<close>

lemma mod_less_twice: "x < 2 * n \<Longrightarrow> x mod n = (if x < n then x else x - (n::nat))"
  by (simp add: le_mod_geq)

lemma ring_inj:
  assumes "i < n" "j < n" "(h + i) mod n = (h + j) mod (n::nat)"
  shows "i = j"
proof -
  have "int (h + i) mod int n = int (h + j) mod int n" using assms(3) by (metis zmod_int)
  then have "int n dvd int i - int j" by (simp add: mod_eq_dvd_iff)
  moreover have "\<bar>int i - int j\<bar> < int n" using assms(1,2) by linarith
  ultimately show ?thesis using dvd_imp_le_int [of "int i - int j" "int n"] by fastforce
qed

section \<open>First in, first out\<close>

fun take_out :: "('q \<Rightarrow> ('a \<times> 'q) option) \<Rightarrow> nat \<Rightarrow> 'q \<Rightarrow> ('a list \<times> 'q) option" where
  "take_out deq 0 q = Some ([], q)"
| "take_out deq (Suc n) q = do {
     (x, q1) \<leftarrow> deq q;
     (xs, q2) \<leftarrow> take_out deq n q1;
     Some (x # xs, q2) }"

locale fifo =
  fixes invar :: "'q \<Rightarrow> bool"
    and contents :: "'q \<Rightarrow> 'a list"
    and room :: "'a \<Rightarrow> 'q \<Rightarrow> bool"
    and enq :: "'a \<Rightarrow> 'q \<Rightarrow> 'q"
    and deq :: "'q \<Rightarrow> ('a \<times> 'q) option"
  assumes enq_invar: "\<lbrakk>invar q; room x q\<rbrakk> \<Longrightarrow> invar (enq x q)"
    and enq_contents: "\<lbrakk>invar q; room x q\<rbrakk> \<Longrightarrow> contents (enq x q) = contents q @ [x]"
    and deq_contents: "\<lbrakk>invar q; contents q = x # xs\<rbrakk> \<Longrightarrow> \<exists>q'. deq q = Some (x, q') \<and> invar q' \<and> contents q' = xs"
begin

lemma take_out_all:
  "invar q \<Longrightarrow> contents q = xs @ ys \<Longrightarrow> \<exists>q'. take_out deq (length xs) q = Some (xs, q') \<and> invar q' \<and> contents q' = ys"
proof (induction xs arbitrary: q)
  case (Cons x xs)
  then obtain q1 where "deq q = Some (x, q1)" "invar q1" "contents q1 = xs @ ys"
    using deq_contents [of q x "xs @ ys"] by auto
  with Cons.IH [of q1] show ?case by auto
qed auto

lemma enq_then_take_out:
  assumes "invar q" "room x q"
  shows "\<exists>q'. take_out deq (Suc (length (contents q))) (enq x q) = Some (contents q @ [x], q') \<and> contents q' = []"
  using take_out_all [OF enq_invar [OF assms], of "contents q @ [x]" "[]"] enq_contents [OF assms] by auto

end

end
