(* ===== verification/Event_Queue.thy ===== *)
theory Event_Queue
  imports Queues
begin

text \<open>
  The input event queue of the server (\<open>xserver/mi/mieq.c\<close>): a ring of event records between the
  input thread, which enqueues, and the main loop, which processes.

  \<open>head\<close> and \<open>tail\<close> are indices into the array \<open>events\<close>. The buffer an event record points to is
  its contents, or \<open>None\<close> when it has been freed; using a freed buffer makes the result of an
  operation \<open>None\<close>. The differences of indices the C code takes modulo \<open>2 ^ 64\<close> are not negative
  under the invariant and are natural numbers here; the decrement of the 32-bit \<open>oldtail\<close> is kept
  at its width. The code that events are handed to (handlers, device procedures, screen saver,
  power management) is the parameter \<open>run\<close>, a function on the whole state.
\<close>

section \<open>State\<close>

datatype event_type =
    ET_KeyPress | ET_KeyRelease | ET_ButtonPress | ET_ButtonRelease | ET_Motion
  | ET_TouchBegin | ET_TouchUpdate | ET_TouchEnd | ET_TouchOwnership
  | ET_Enter | ET_Leave | ET_FocusIn | ET_FocusOut | ET_ProximityIn | ET_ProximityOut
  | ET_DeviceChanged | ET_Hierarchy | ET_DGAEvent
  | ET_RawKeyPress | ET_RawKeyRelease | ET_RawButtonPress | ET_RawButtonRelease | ET_RawMotion
  | ET_RawTouchBegin | ET_RawTouchUpdate | ET_RawTouchEnd
  | ET_XQuartz | ET_BarrierHit | ET_BarrierLeave
  | ET_GesturePinchBegin | ET_GesturePinchUpdate | ET_GesturePinchEnd
  | ET_GestureSwipeBegin | ET_GestureSwipeUpdate | ET_GestureSwipeEnd

record InternalEvent =
  ev_type :: event_type
  ev_time :: u32
  ev_deviceid :: nat
  ev_button :: nat
  ev_pointer_emulated :: bool
  ev_root_x :: int
  ev_root_y :: int

record EventRec =
  er_events :: "InternalEvent option"
  er_pScreen :: "nat option"
  er_pDev :: "nat option"

record EventQueue =
  head :: nat
  tail :: nat
  lastEventTime :: u32
  lastMotion :: nat
  events :: "EventRec list"
  nevents :: nat
  dropped :: nat

definition QUEUE_INITIAL_SIZE :: nat where "QUEUE_INITIAL_SIZE = 512"

definition zero_event :: InternalEvent where
  "zero_event = \<lparr>ev_type = ET_KeyPress, ev_time = 0, ev_deviceid = 0, ev_button = 0, ev_pointer_emulated = False,
     ev_root_x = 0, ev_root_y = 0\<rparr>"

section \<open>The ring\<close>

definition mieqNumEnqueued :: "EventQueue \<Rightarrow> nat" where
  "mieqNumEnqueued q =
     (if nevents q \<noteq> 0 then
        let n = tail q + nevents q - head q in if n \<ge> nevents q then n - nevents q else n
      else 0)"

text \<open>
  \<open>mieqGrowQueue\<close>: \<open>calloc_ok\<close> says whether the new array is allocated, \<open>init_ok i\<close> whether
  \<open>InitEventList\<close> succeeds for the record \<open>i\<close>. When it fails, the records copied from the old
  array, whose buffers the old array still points to, are freed too.
\<close>

definition free_buffers :: "EventRec list \<Rightarrow> EventRec list" where
  "free_buffers es = map (\<lambda>r. r\<lparr>er_events := None\<rparr>) es"

definition fresh_records :: "nat \<Rightarrow> EventRec list" where
  "fresh_records n = replicate n \<lparr>er_events = Some zero_event, er_pScreen = None, er_pDev = None\<rparr>"

definition mieqGrowQueue :: "bool \<Rightarrow> (nat \<Rightarrow> bool) \<Rightarrow> nat \<Rightarrow> EventQueue \<Rightarrow> bool \<times> EventQueue" where
  "mieqGrowQueue calloc_ok init_ok new_nevents q =
     (if new_nevents \<le> nevents q then (False, q)
      else if \<not> calloc_ok then (False, q)
      else let n_enqueued = mieqNumEnqueued q;
               copied = drop (head q) (events q) @ take (head q) (events q)
           in if \<forall>i\<in>set [nevents q..<new_nevents]. init_ok i then
                (True, q\<lparr>tail := n_enqueued, head := 0, nevents := new_nevents,
                         events := copied @ fresh_records (new_nevents - nevents q)\<rparr>)
              else (False, q\<lparr>events := free_buffers (events q)\<rparr>))"

text \<open>\<open>mieqInit\<close> on a zeroed queue; \<open>None\<close> is the fatal error.\<close>

definition mieqInit :: "bool \<Rightarrow> (nat \<Rightarrow> bool) \<Rightarrow> u32 \<Rightarrow> EventQueue option" where
  "mieqInit calloc_ok init_ok now =
     (let (ok, q) = mieqGrowQueue calloc_ok init_ok QUEUE_INITIAL_SIZE
        \<lparr>head = 0, tail = 0, lastEventTime = now, lastMotion = 0, events = [], nevents = 0, dropped = 0\<rparr>
      in if ok then Some q else None)"

definition mieqFini :: "EventQueue \<Rightarrow> EventQueue" where
  "mieqFini q = q\<lparr>events := []\<rparr>"

text \<open>
  \<open>mieqEnqueue\<close> for a device (its id and the screen it enqueues for) or none. The result is the
  queue and the event of the caller, whose time the code corrects after it has copied it.
\<close>

definition fix_time :: "u32 \<Rightarrow> InternalEvent \<Rightarrow> InternalEvent" where
  "fix_time lastTime e =
     (if ev_time e < lastTime \<and> lastTime - ev_time e < 10000 then e\<lparr>ev_time := lastTime\<rparr> else e)"

definition store_event ::
  "nat \<Rightarrow> nat \<Rightarrow> (nat \<times> nat option) option \<Rightarrow> InternalEvent \<Rightarrow> EventQueue \<Rightarrow> (EventQueue \<times> InternalEvent) option" where
  "store_event isMotion oldtail pDev e q = do {
     slot \<leftarrow> rd (events q) oldtail;
     _ \<leftarrow> er_events slot;
     es \<leftarrow> wr (events q) oldtail \<lparr>er_events = Some e,
            er_pScreen = (case pDev of None \<Rightarrow> None | Some (i, scr) \<Rightarrow> scr), er_pDev = map_option fst pDev\<rparr>;
     Some (q\<lparr>events := es, lastEventTime := ev_time e, lastMotion := isMotion,
             tail := (oldtail + 1) mod nevents q\<rparr>,
           fix_time (lastEventTime q) e) }"

definition motion_of :: "(nat \<times> nat option) option \<Rightarrow> InternalEvent \<Rightarrow> nat option" where
  "motion_of pDev e = (if ev_type e = ET_Motion then map_option fst pDev else Some 0)"

definition mieqEnqueue ::
  "bool \<Rightarrow> (nat \<Rightarrow> bool) \<Rightarrow> (nat \<times> nat option) option \<Rightarrow> InternalEvent \<Rightarrow> EventQueue \<Rightarrow> (EventQueue \<times> InternalEvent) option"
where
  "mieqEnqueue calloc_ok init_ok pDev e q = do {
     isMotion \<leftarrow> motion_of pDev e;
     if isMotion \<noteq> 0 \<and> isMotion = lastMotion q \<and> tail q \<noteq> head q then
       store_event isMotion (unat ((word_of_nat (tail q) :: u32) - 1) mod nevents q) pDev e q
     else if mieqNumEnqueued q + 1 = nevents q then
       (case mieqGrowQueue calloc_ok init_ok (2 * nevents q) q of
          (True, q') \<Rightarrow> store_event isMotion (tail q') pDev e q'
        | (False, q') \<Rightarrow> Some (q'\<lparr>dropped := dropped q' + 1\<rparr>, e))
     else store_event isMotion (tail q) pDev e q }"

section \<open>Processing\<close>

datatype master_type = MASTER_ATTACHED | MASTER_POINTER | MASTER_KEYBOARD

record Device =
  d_enabled :: bool
  d_isMaster :: bool
  d_isFloating :: bool
  d_GetMaster :: "master_type \<Rightarrow> nat"
  d_button_map :: "(nat \<Rightarrow> nat) option"
  d_enqueueScreen :: "nat option"
  d_dequeueScreen :: "nat option"
  d_lastSlave :: "nat option"

datatype action =
    CallHandler nat InternalEvent "nat option"
  | ProcessInput InternalEvent nat
  | NewCurrentScreen nat nat int int
  | UpdateSprite nat
  | ResetScreenSaver
  | SetScreenSaverTimer
  | DPMSSetOn
  | CallDrained nat

record mi =
  miEventQueue :: EventQueue
  devices :: "nat \<Rightarrow> Device"
  handlers :: "event_type \<Rightarrow> bool"
  screenIsSaved :: bool
  DPMSOn :: bool
  miCallbacksWhenDrained :: "nat list"

definition mieqSwitchScreen :: "nat \<Rightarrow> nat \<Rightarrow> bool \<Rightarrow> mi \<Rightarrow> mi" where
  "mieqSwitchScreen dev screen set_dequeue s =
     s\<lparr>devices := (devices s)(dev := (let d = (devices s dev)\<lparr>d_enqueueScreen := Some screen\<rparr>
        in if set_dequeue then d\<lparr>d_dequeueScreen := Some screen\<rparr> else d))\<rparr>"

definition mieqSetHandler :: "event_type \<Rightarrow> bool \<Rightarrow> mi \<Rightarrow> mi" where
  "mieqSetHandler ty handler s = s\<lparr>handlers := (handlers s)(ty := handler)\<rparr>"

text \<open>The event types \<open>ChangeDeviceID\<close> knows; the others only give a message. The build has no DGA extension.\<close>

fun has_deviceid :: "event_type \<Rightarrow> bool" where
  "has_deviceid ET_DGAEvent = False"
| "has_deviceid ET_Enter = False"
| "has_deviceid ET_Leave = False"
| "has_deviceid ET_FocusIn = False"
| "has_deviceid ET_FocusOut = False"
| "has_deviceid ET_XQuartz = False"
| "has_deviceid _ = True"

definition ChangeDeviceID :: "nat \<Rightarrow> InternalEvent \<Rightarrow> InternalEvent" where
  "ChangeDeviceID dev e = (if has_deviceid (ev_type e) then e\<lparr>ev_deviceid := dev\<rparr> else e)"

definition FixUpEventForMaster :: "Device \<Rightarrow> InternalEvent \<Rightarrow> InternalEvent \<Rightarrow> InternalEvent" where
  "FixUpEventForMaster sdev original master =
     (if ev_type original = ET_ButtonPress \<or> ev_type original = ET_ButtonRelease then
        (case d_button_map sdev of
           None \<Rightarrow> master
         | Some m \<Rightarrow> master\<lparr>ev_button := m (ev_button original)\<rparr>)
      else master)"

definition master_for :: "event_type \<Rightarrow> master_type" where
  "master_for ty =
     (if ty \<in> {ET_KeyPress, ET_KeyRelease} then MASTER_KEYBOARD
      else if ty \<in> {ET_ButtonPress, ET_ButtonRelease, ET_Motion, ET_ProximityIn, ET_ProximityOut} then MASTER_POINTER
      else MASTER_ATTACHED)"

definition CopyGetMasterEvent :: "nat option \<Rightarrow> InternalEvent \<Rightarrow> mi \<Rightarrow> (nat \<times> InternalEvent) option" where
  "CopyGetMasterEvent sdev original s =
     (case sdev of
        None \<Rightarrow> None
      | Some i \<Rightarrow>
          let d = devices s i;
              mdev = d_GetMaster d (master_for (ev_type original))
          in if d_isMaster d \<or> d_isFloating d then None
             else Some (mdev, FixUpEventForMaster d original (ChangeDeviceID mdev original)))"

definition mieqMoveToNewScreen ::
  "(action \<Rightarrow> mi \<Rightarrow> mi) \<Rightarrow> nat option \<Rightarrow> nat option \<Rightarrow> InternalEvent \<Rightarrow> mi \<Rightarrow> mi" where
  "mieqMoveToNewScreen run dev screen e s =
     (case (dev, screen) of
        (Some i, Some scr) \<Rightarrow>
          if d_dequeueScreen (devices s i) \<noteq> Some scr then
            run (NewCurrentScreen i scr (ev_root_x e) (ev_root_y e))
              (s\<lparr>devices := (devices s)(i := (devices s i)\<lparr>d_dequeueScreen := Some scr\<rparr>)\<rparr>)
          else s
      | _ \<Rightarrow> s)"

definition changes_screen :: "InternalEvent \<Rightarrow> bool" where
  "changes_screen e \<longleftrightarrow>
     ev_type e \<in> {ET_Motion, ET_KeyPress, ET_KeyRelease, ET_ButtonPress, ET_ButtonRelease}
     \<or> ev_type e \<in> {ET_TouchBegin, ET_TouchUpdate, ET_TouchEnd} \<and> ev_pointer_emulated e"

text \<open>
  \<open>mieqProcessDeviceEvent\<close>; an event without a device and without a handler makes the code follow
  a null pointer, \<open>None\<close> here.
\<close>

definition mieqProcessDeviceEvent ::
  "(action \<Rightarrow> mi \<Rightarrow> mi) \<Rightarrow> nat option \<Rightarrow> InternalEvent \<Rightarrow> nat option \<Rightarrow> mi \<Rightarrow> mi option" where
  "mieqProcessDeviceEvent run dev e screen s =
     (if (case dev of Some i \<Rightarrow> \<not> d_enabled (devices s i) | None \<Rightarrow> False) then Some s else
      let handler = handlers s (ev_type e);
          s1 = (if changes_screen e \<and> \<not> handler then mieqMoveToNewScreen run dev screen e s else s);
          m = CopyGetMasterEvent dev e s1;
          s2 = (case m of
                  Some (mdev, _) \<Rightarrow> s1\<lparr>devices := (devices s1)(mdev := (devices s1 mdev)\<lparr>d_lastSlave := dev\<rparr>)\<rparr>
                | None \<Rightarrow> s1)
      in if handler then
           let screenNum = (case dev of
                  Some i \<Rightarrow> (case d_dequeueScreen (devices s2 i) of Some n \<Rightarrow> n
                            | None \<Rightarrow> (case screen of Some n \<Rightarrow> n | None \<Rightarrow> 0))
                | None \<Rightarrow> (case screen of Some n \<Rightarrow> n | None \<Rightarrow> 0));
               s3 = run (CallHandler screenNum e dev) s2
           in Some (case m of
                Some (mdev, me) \<Rightarrow> if \<not> d_isFloating (devices s3 (the dev))
                  then run (CallHandler screenNum me (Some mdev)) s3 else s3
              | None \<Rightarrow> s3)
         else do {
           i \<leftarrow> dev;
           let s3 = run (ProcessInput e i) s2;
           Some (case m of
             Some (mdev, me) \<Rightarrow> if \<not> d_isFloating (devices s3 i) then run (ProcessInput me mdev) s3 else s3
           | None \<Rightarrow> s3) })"

text \<open>One round of the loop of \<open>mieqProcessInputEvents\<close>, which takes the event at \<open>head\<close>.\<close>

definition mieqDequeue :: "EventQueue \<Rightarrow> (EventRec \<times> EventQueue) option" where
  "mieqDequeue q = do {
     r \<leftarrow> rd (events q) (head q);
     Some (r, q\<lparr>head := (head q + 1) mod nevents q\<rparr>) }"

definition wake_screen :: "(action \<Rightarrow> mi \<Rightarrow> mi) \<Rightarrow> mi \<Rightarrow> mi" where
  "wake_screen run s =
     (let s1 = (if screenIsSaved s then run ResetScreenSaver s
                else if \<not> DPMSOn s then run SetScreenSaverTimer s else s)
      in if \<not> DPMSOn s1 then run DPMSSetOn s1 else s1)"

definition process_one :: "(action \<Rightarrow> mi \<Rightarrow> mi) \<Rightarrow> mi \<Rightarrow> mi option" where
  "process_one run s = do {
     (r, q) \<leftarrow> mieqDequeue (miEventQueue s);
     e \<leftarrow> er_events r;
     let s1 = s\<lparr>miEventQueue := q\<rparr>;
     let has_master = (case er_pDev r of None \<Rightarrow> False
                       | Some i \<Rightarrow> d_isMaster (devices s1 i) \<or> \<not> d_isFloating (devices s1 i));
     let s2 = wake_screen run s1;
     s3 \<leftarrow> mieqProcessDeviceEvent run (er_pDev r) e (er_pScreen r) s2;
     Some (if has_master \<and> (ev_type e = ET_Motion
               \<or> ev_type e \<in> {ET_TouchBegin, ET_TouchUpdate} \<and> ev_pointer_emulated e)
           then run (UpdateSprite (the (er_pDev r))) s3 else s3) }"

text \<open>The loop; it runs as long as the queue is not empty, so \<open>fuel\<close> bounds the rounds.\<close>

fun process_loop :: "(action \<Rightarrow> mi \<Rightarrow> mi) \<Rightarrow> nat \<Rightarrow> mi \<Rightarrow> mi option" where
  "process_loop run fuel s =
     (if head (miEventQueue s) = tail (miEventQueue s) then Some s
      else case fuel of
        0 \<Rightarrow> None
      | Suc f \<Rightarrow> do { s' \<leftarrow> process_one run s; process_loop run f s' })"

declare process_loop.simps [simp del]

definition mieqProcessInputEvents :: "(action \<Rightarrow> mi \<Rightarrow> mi) \<Rightarrow> nat \<Rightarrow> mi \<Rightarrow> mi option" where
  "mieqProcessInputEvents run fuel s = do {
     s1 \<leftarrow> process_loop run fuel (s\<lparr>miEventQueue := (miEventQueue s)\<lparr>dropped := 0\<rparr>\<rparr>);
     Some (fold (\<lambda>cb. run (CallDrained cb)) (miCallbacksWhenDrained s1) s1) }"

definition mieqAddCallbackOnDrained :: "nat \<Rightarrow> mi \<Rightarrow> mi" where
  "mieqAddCallbackOnDrained cb s = s\<lparr>miCallbacksWhenDrained := cb # miCallbacksWhenDrained s\<rparr>"

definition mieqRemoveCallbackOnDrained :: "nat \<Rightarrow> mi \<Rightarrow> mi" where
  "mieqRemoveCallbackOnDrained cb s = s\<lparr>miCallbacksWhenDrained := remove1 cb (miCallbacksWhenDrained s)\<rparr>"

section \<open>The ring as a list\<close>

definition queue_ok :: "EventQueue \<Rightarrow> bool" where
  "queue_ok q \<longleftrightarrow> 0 < nevents q \<and> nevents q dvd 2 ^ 32 \<and> length (events q) = nevents q
     \<and> head q < nevents q \<and> tail q < nevents q \<and> (\<forall>r\<in>set (events q). er_events r \<noteq> None)"

definition pending :: "EventQueue \<Rightarrow> EventRec list" where
  "pending q = map (\<lambda>i. events q ! ((head q + i) mod nevents q)) [0..<mieqNumEnqueued q]"

lemma numEnqueued_less: "queue_ok q \<Longrightarrow> mieqNumEnqueued q < nevents q"
  by (auto simp: queue_ok_def mieqNumEnqueued_def Let_def)

lemma numEnqueued_tail: "queue_ok q \<Longrightarrow> (head q + mieqNumEnqueued q) mod nevents q = tail q"
  by (subst mod_less_twice) (auto simp: queue_ok_def mieqNumEnqueued_def Let_def)

lemma numEnqueued_unique:
  assumes "queue_ok q" "k < nevents q" "(head q + k) mod nevents q = tail q"
  shows "mieqNumEnqueued q = k"
proof -
  have "head q + k < 2 * nevents q" using assms(1,2) by (simp add: queue_ok_def)
  from mod_less_twice [OF this] assms show ?thesis
    by (auto simp: queue_ok_def mieqNumEnqueued_def Let_def split: if_splits)
qed

lemma numEnqueued_zero: "queue_ok q \<Longrightarrow> mieqNumEnqueued q = 0 \<longleftrightarrow> head q = tail q"
  by (auto simp: queue_ok_def mieqNumEnqueued_def Let_def)

lemma length_pending [simp]: "length (pending q) = mieqNumEnqueued q"
  by (simp add: pending_def)

lemma pending_nth: "i < mieqNumEnqueued q \<Longrightarrow> pending q ! i = events q ! ((head q + i) mod nevents q)"
  by (simp add: pending_def)

text \<open>The record an enqueued event becomes.\<close>

definition queued :: "(nat \<times> nat option) option \<Rightarrow> InternalEvent \<Rightarrow> EventRec" where
  "queued pDev e = \<lparr>er_events = Some e,
     er_pScreen = (case pDev of None \<Rightarrow> None | Some (i, scr) \<Rightarrow> scr), er_pDev = map_option fst pDev\<rparr>"

definition stored :: "nat \<Rightarrow> nat \<Rightarrow> (nat \<times> nat option) option \<Rightarrow> InternalEvent \<Rightarrow> EventQueue \<Rightarrow> EventQueue" where
  "stored isMotion k pDev e q = q\<lparr>events := (events q)[k := queued pDev e], lastEventTime := ev_time e,
     lastMotion := isMotion, tail := (k + 1) mod nevents q\<rparr>"

lemma stored_fields [simp]:
  "head (stored isMotion k pDev e q) = head q" "nevents (stored isMotion k pDev e q) = nevents q"
  "tail (stored isMotion k pDev e q) = (k + 1) mod nevents q" "dropped (stored isMotion k pDev e q) = dropped q"
  "events (stored isMotion k pDev e q) = (events q)[k := queued pDev e]"
  "lastEventTime (stored isMotion k pDev e q) = ev_time e" "lastMotion (stored isMotion k pDev e q) = isMotion"
  by (simp_all add: stored_def)

lemma store_event_eq:
  assumes "queue_ok q" "k < nevents q"
  shows "store_event isMotion k pDev e q = Some (stored isMotion k pDev e q, fix_time (lastEventTime q) e)"
proof -
  have "er_events (events q ! k) \<noteq> None" "k < length (events q)"
    using assms by (auto simp: queue_ok_def)
  then show ?thesis by (auto simp: store_event_def rd_def wr_def stored_def queued_def)
qed

lemma stored_ok:
  assumes "queue_ok q" "k < nevents q"
  shows "queue_ok (stored isMotion k pDev e q)"
  using assms set_update_subset_insert [of "events q" k "queued pDev e"]
  by (auto simp: queue_ok_def queued_def)

lemma stored_at_tail:
  assumes "queue_ok q" "mieqNumEnqueued q + 1 < nevents q"
  shows "pending (stored isMotion (tail q) pDev e q) = pending q @ [queued pDev e]"
proof -
  let ?n = "nevents q" and ?m = "mieqNumEnqueued q"
  let ?q = "stored isMotion (tail q) pDev e q"
  have q: "tail q < ?n" "length (events q) = ?n" using assms(1) by (simp_all add: queue_ok_def)
  have ok: "queue_ok ?q" by (rule stored_ok [OF assms(1) q(1)])
  have "(head q + (?m + 1)) mod ?n = ((head q + ?m) mod ?n + 1) mod ?n"
    by (metis add.assoc mod_add_left_eq)
  then have num: "mieqNumEnqueued ?q = ?m + 1"
    using numEnqueued_unique [OF ok, of "?m + 1"] assms(2) numEnqueued_tail [OF assms(1)] by simp
  show ?thesis
  proof (rule nth_equalityI)
    show "length (pending ?q) = length (pending q @ [queued pDev e])" by (simp add: num)
    fix i
    assume "i < length (pending ?q)"
    then have i: "i < ?m + 1" by (simp add: num)
    then have p: "pending ?q ! i = (events q)[tail q := queued pDev e] ! ((head q + i) mod ?n)"
      using pending_nth [of i ?q] by (simp add: num)
    show "pending ?q ! i = (pending q @ [queued pDev e]) ! i"
    proof (cases "i = ?m")
      case True
      then show ?thesis using p numEnqueued_tail [OF assms(1)] q by (simp add: nth_append)
    next
      case False
      then have "i < ?m" using i by simp
      moreover have "(head q + i) mod ?n \<noteq> tail q"
        using ring_inj [of i ?n ?m "head q"] False \<open>i < ?m\<close> assms(2) numEnqueued_tail [OF assms(1)] by auto
      ultimately show ?thesis using p by (simp add: nth_append pending_nth)
    qed
  qed
qed

lemma last_slot:
  assumes "queue_ok q" "head q \<noteq> tail q"
  shows "unat ((word_of_nat (tail q) :: u32) - 1) mod nevents q = (head q + (mieqNumEnqueued q - 1)) mod nevents q"
    (is "?l = ?r")
proof -
  let ?n = "nevents q" and ?m = "mieqNumEnqueued q"
  have q: "0 < ?n" "tail q < ?n" "?n dvd 2 ^ 32" using assms(1) by (simp_all add: queue_ok_def)
  have m: "0 < ?m" using assms numEnqueued_zero [OF assms(1)] by simp
  have "?n \<le> 2 ^ 32" using q(3) by (rule dvd_imp_le) simp
  then have t: "unat (word_of_nat (tail q) :: u32) = tail q" using q(2) by (intro unat_of_nat_u32) simp
  have l: "(?l + 1) mod ?n = tail q"
  proof (cases "tail q = 0")
    case True
    then have "unat ((word_of_nat (tail q) :: u32) - 1) = 2 ^ 32 - 1"
      by (simp add: unsigned_minus_1_eq_mask mask_eq_exp_minus_1)
    moreover have "(2 ^ 32 - 1 + 1) mod ?n = 0" using q(3) by simp
    ultimately show ?thesis using True by (metis mod_add_left_eq)
  next
    case False
    then have "unat ((word_of_nat (tail q) :: u32) - 1) = tail q - 1"
      using t unat_minus_one [of "word_of_nat (tail q) :: u32"] by (metis unat_0)
    then show ?thesis using False q(2) by simp
  qed
  have "(?r + 1) mod ?n = (head q + ?m) mod ?n" using m by (simp add: mod_Suc_eq)
  then have r: "(?r + 1) mod ?n = tail q" using numEnqueued_tail [OF assms(1)] by simp
  have "?l < ?n" "?r < ?n" using q(1) by simp_all
  then show ?thesis using ring_inj [of ?l ?n ?r 1] l r by (simp add: add.commute)
qed


lemma stored_merged:
  assumes "queue_ok q" "head q \<noteq> tail q"
    and k: "k = unat ((word_of_nat (tail q) :: u32) - 1) mod nevents q"
  shows "k < nevents q" "pending (stored isMotion k pDev e q) = butlast (pending q) @ [queued pDev e]"
proof -
  let ?n = "nevents q" and ?m = "mieqNumEnqueued q"
  let ?q = "stored isMotion k pDev e q"
  have q: "0 < ?n" "length (events q) = ?n" using assms(1) by (simp_all add: queue_ok_def)
  have kr: "k = (head q + (?m - 1)) mod ?n" using last_slot [OF assms(1,2)] k by simp
  have m: "0 < ?m" "?m < ?n" using assms numEnqueued_zero numEnqueued_less by auto
  show kn: "k < ?n" using q(1) k by simp
  have ok: "queue_ok ?q" by (rule stored_ok [OF assms(1) kn])
  have "(k + 1) mod ?n = (head q + ?m) mod ?n" using m(1) by (simp add: kr mod_Suc_eq)
  then have num: "mieqNumEnqueued ?q = ?m"
    using numEnqueued_unique [OF ok, of ?m] m(2) numEnqueued_tail [OF assms(1)] by simp
  show "pending ?q = butlast (pending q) @ [queued pDev e]"
  proof (rule nth_equalityI)
    show "length (pending ?q) = length (butlast (pending q) @ [queued pDev e])" using m(1) by (simp add: num)
    fix i
    assume "i < length (pending ?q)"
    then have i: "i < ?m" by (simp add: num)
    then have p: "pending ?q ! i = (events q)[k := queued pDev e] ! ((head q + i) mod ?n)"
      using pending_nth [of i ?q] by (simp add: num)
    show "pending ?q ! i = (butlast (pending q) @ [queued pDev e]) ! i"
    proof (cases "i = ?m - 1")
      case True
      then show ?thesis using p kr kn q(2) by (simp add: nth_append)
    next
      case False
      then have "i < ?m - 1" using i by simp
      moreover have "(head q + i) mod ?n \<noteq> k"
        using ring_inj [of i ?n "?m - 1" "head q"] False \<open>i < ?m - 1\<close> m(2) kr by linarith
      ultimately show ?thesis using p by (simp add: nth_append nth_butlast pending_nth)
    qed
  qed
qed

section \<open>Growing\<close>

lemma grow_success:
  assumes "queue_ok q" "nevents q < k" "k dvd 2 ^ 32" "\<forall>i. init_ok i"
  obtains q' where "mieqGrowQueue True init_ok k q = (True, q')" "queue_ok q'" "pending q' = pending q"
    "nevents q' = k" "tail q' = mieqNumEnqueued q" "head q' = 0" "lastMotion q' = lastMotion q"
    "lastEventTime q' = lastEventTime q" "dropped q' = dropped q"
proof -
  let ?n = "nevents q" and ?m = "mieqNumEnqueued q"
  have q: "0 < ?n" "length (events q) = ?n" "head q < ?n" "\<forall>r\<in>set (events q). er_events r \<noteq> None"
    using assms(1) by (simp_all add: queue_ok_def)
  let ?es = "rotate (head q) (events q) @ fresh_records (k - ?n)"
  define q' where "q' = q\<lparr>tail := ?m, head := 0, nevents := k, events := ?es\<rparr>"
  have f: "head q' = 0" "nevents q' = k" "events q' = ?es" "tail q' = ?m" by (simp_all add: q'_def)
  have g: "mieqGrowQueue True init_ok k q = (True, q')"
    using assms(2,4) q by (simp add: mieqGrowQueue_def q'_def Let_def rotate_drop_take)
  have m: "?m < ?n" by (rule numEnqueued_less [OF assms(1)])
  have ok: "queue_ok q'" using assms(2,3) q m
    by (auto simp: queue_ok_def q'_def fresh_records_def)
  have num: "mieqNumEnqueued q' = ?m"
    using numEnqueued_unique [OF ok, of ?m] m assms(2) f by simp
  have "pending q' = pending q"
  proof (rule nth_equalityI)
    show "length (pending q') = length (pending q)" by (simp add: num)
    fix i
    assume "i < length (pending q')"
    then have i: "i < ?m" by (simp add: num)
    then have "pending q' ! i = ?es ! i" using pending_nth [of i q'] m assms(2) by (simp add: num f)
    also have "\<dots> = pending q ! i"
      using i m q by (simp add: nth_append nth_rotate pending_nth)
    finally show "pending q' ! i = pending q ! i" .
  qed
  then show thesis using that [OF g ok] by (simp add: q'_def)
qed

section \<open>Enqueueing\<close>

text \<open>Motion events of one device that follow each other are merged.\<close>

definition merges :: "(nat \<times> nat option) option \<Rightarrow> InternalEvent \<Rightarrow> EventQueue \<Rightarrow> bool" where
  "merges pDev e q \<longleftrightarrow> ev_type e = ET_Motion \<and> map_option fst pDev = Some (lastMotion q) \<and> lastMotion q \<noteq> 0
     \<and> pending q \<noteq> []"

lemma pending_empty: "queue_ok q \<Longrightarrow> pending q = [] \<longleftrightarrow> head q = tail q"
  using numEnqueued_zero [of q] by (metis length_0_conv length_pending)

lemma mieqEnqueue_ok:
  assumes "queue_ok q" "2 * nevents q dvd 2 ^ 32" "\<forall>i. init_ok i" "ev_type e = ET_Motion \<longrightarrow> pDev \<noteq> None"
  shows "\<exists>q'. mieqEnqueue True init_ok pDev e q = Some (q', fix_time (lastEventTime q) e) \<and> queue_ok q'
    \<and> pending q' = (if merges pDev e q then butlast (pending q) else pending q) @ [queued pDev e]
    \<and> lastEventTime q' = ev_time e \<and> motion_of pDev e = Some (lastMotion q') \<and> head q' \<in> {0, head q} \<and> dropped q' = dropped q"
proof -
  have "motion_of pDev e \<noteq> None" using assms(4) by (auto simp: motion_of_def)
  then obtain mo where mo: "motion_of pDev e = Some mo" by blast
  have mg: "merges pDev e q \<longleftrightarrow> mo \<noteq> 0 \<and> mo = lastMotion q \<and> tail q \<noteq> head q"
    using mo pending_empty [OF assms(1)] by (auto simp: merges_def motion_of_def split: if_splits)
  show ?thesis
  proof (cases "merges pDev e q")
    case True
    let ?k = "unat ((word_of_nat (tail q) :: u32) - 1) mod nevents q"
    have ht: "head q \<noteq> tail q" using True mg by auto
    note sm = stored_merged [OF assms(1) ht refl]
    show ?thesis
      using True mg mo store_event_eq [OF assms(1) sm(1)] sm(2) stored_ok [OF assms(1) sm(1)]
      by (simp add: mieqEnqueue_def)
  next
    case False
    have tn: "tail q < nevents q" using assms(1) by (simp add: queue_ok_def)
    show ?thesis
    proof (cases "mieqNumEnqueued q + 1 = nevents q")
      case full: True
      have n: "nevents q < 2 * nevents q" using assms(1) by (simp add: queue_ok_def)
      obtain q1 where q1: "mieqGrowQueue True init_ok (2 * nevents q) q = (True, q1)" "queue_ok q1"
        "pending q1 = pending q" "nevents q1 = 2 * nevents q" "tail q1 = mieqNumEnqueued q" "head q1 = 0"
        "lastEventTime q1 = lastEventTime q" "dropped q1 = dropped q"
        using grow_success [OF assms(1) n assms(2,3)] by metis
      have "mieqNumEnqueued q1 = mieqNumEnqueued q" using q1(3) by (metis length_pending)
      then have r: "mieqNumEnqueued q1 + 1 < nevents q1" "tail q1 < nevents q1" using full q1(4,5) n by simp_all
      show ?thesis
        using False mg mo full q1 store_event_eq [OF q1(2) r(2)] stored_at_tail [OF q1(2) r(1)] stored_ok [OF q1(2) r(2)]
        by (auto simp: mieqEnqueue_def)
    next
      case room: False
      then have r: "mieqNumEnqueued q + 1 < nevents q" using numEnqueued_less [OF assms(1)] by simp
      show ?thesis
        using False mg mo room store_event_eq [OF assms(1) tn] stored_at_tail [OF assms(1) r] stored_ok [OF assms(1) tn]
        by (auto simp: mieqEnqueue_def)
    qed
  qed
qed


section \<open>Dequeueing\<close>

lemma dequeue_ok:
  assumes "queue_ok q" "pending q \<noteq> []"
  shows "\<exists>q'. mieqDequeue q = Some (hd (pending q), q') \<and> queue_ok q' \<and> pending q' = tl (pending q)
    \<and> tail q' = tail q \<and> nevents q' = nevents q"
proof -
  let ?n = "nevents q" and ?m = "mieqNumEnqueued q"
  define q' where "q' = q\<lparr>head := (head q + 1) mod ?n\<rparr>"
  have f: "head q' = Suc (head q) mod ?n" "nevents q' = ?n" "events q' = events q" "tail q' = tail q"
    by (simp_all add: q'_def)
  have q: "0 < ?n" "length (events q) = ?n" "head q < ?n" using assms(1) by (simp_all add: queue_ok_def)
  have "head q \<noteq> tail q" using assms pending_empty by blast
  then have m: "0 < ?m" "?m < ?n" using numEnqueued_zero [OF assms(1)] numEnqueued_less [OF assms(1)] by auto
  have ok: "queue_ok q'" using assms(1) f by (simp add: queue_ok_def)
  have h: "(Suc (head q) mod ?n + k) mod ?n = (head q + Suc k) mod ?n" for k
    by (simp add: mod_add_left_eq)
  have num: "mieqNumEnqueued q' = ?m - 1"
    using numEnqueued_unique [OF ok, of "?m - 1"] m numEnqueued_tail [OF assms(1)] h [of "?m - 1"] f by simp
  have hd: "hd (pending q) = events q ! head q"
    using pending_nth [of 0 q] m q(3) assms(2) by (simp add: hd_conv_nth)
  have "pending q' = tl (pending q)"
  proof (rule nth_equalityI)
    show "length (pending q') = length (tl (pending q))" by (simp add: num)
    fix i
    assume "i < length (pending q')"
    then have i: "i < ?m - 1" by (simp add: num)
    then have "pending q' ! i = events q ! ((head q + Suc i) mod ?n)"
      using pending_nth [of i q'] h [of i] by (simp add: num f)
    also have "\<dots> = tl (pending q) ! i" using i by (simp add: nth_tl pending_nth)
    finally show "pending q' ! i = tl (pending q) ! i" .
  qed
  moreover have "mieqDequeue q = Some (hd (pending q), q')"
    using hd q by (simp add: mieqDequeue_def rd_def q'_def)
  ultimately show ?thesis using ok f by blast
qed

lemma pending_buffers: "queue_ok q \<Longrightarrow> r \<in> set (pending q) \<Longrightarrow> er_events r \<noteq> None"
  by (auto simp: pending_def queue_ok_def)

section \<open>Processing\<close>

text \<open>
  The events a run of the main loop hands out, in order: the callbacks leave the queue, the
  device table and the handlers alone.
\<close>

definition quiet :: "(action \<Rightarrow> mi \<Rightarrow> mi) \<Rightarrow> bool" where
  "quiet run \<longleftrightarrow> (\<forall>a s. miEventQueue (run a s) = miEventQueue s)"

lemma quiet_run: "quiet run \<Longrightarrow> miEventQueue (run a s) = miEventQueue s"
  by (simp add: quiet_def)

lemma wake_screen_queue: "quiet run \<Longrightarrow> miEventQueue (wake_screen run s) = miEventQueue s"
  by (simp add: wake_screen_def Let_def quiet_run)

lemma mieqMoveToNewScreen_queue:
  "quiet run \<Longrightarrow> miEventQueue (mieqMoveToNewScreen run dev screen e s) = miEventQueue s"
  by (auto simp: mieqMoveToNewScreen_def quiet_run split: option.splits)

text \<open>An event without a device needs a handler.\<close>

definition deliverable :: "(event_type \<Rightarrow> bool) \<Rightarrow> EventRec \<Rightarrow> bool" where
  "deliverable hs r \<longleftrightarrow> er_pDev r \<noteq> None \<or> hs (ev_type (the (er_events r)))"

lemma mieqProcessDeviceEvent_queue:
  assumes "quiet run" "dev \<noteq> None \<or> handlers s (ev_type e)"
  shows "\<exists>s'. mieqProcessDeviceEvent run dev e screen s = Some s' \<and> miEventQueue s' = miEventQueue s"
proof -
  let ?s1 = "if changes_screen e \<and> \<not> handlers s (ev_type e) then mieqMoveToNewScreen run dev screen e s else s"
  have 1: "miEventQueue ?s1 = miEventQueue s" using mieqMoveToNewScreen_queue [OF assms(1)] by simp
  show ?thesis
    using assms(2) 1
    by (cases dev; cases "CopyGetMasterEvent dev e ?s1"; cases "handlers s (ev_type e)")
      (auto simp: mieqProcessDeviceEvent_def Let_def quiet_run [OF assms(1)] split: option.splits)
qed


text \<open>
  The reference for the loop: the pending records, taken as a list, are handed out one after the
  other.
\<close>

definition hand_out :: "(action \<Rightarrow> mi \<Rightarrow> mi) \<Rightarrow> EventRec \<Rightarrow> mi \<Rightarrow> mi option" where
  "hand_out run r s = do {
     e \<leftarrow> er_events r;
     let has_master = (case er_pDev r of None \<Rightarrow> False
                       | Some i \<Rightarrow> d_isMaster (devices s i) \<or> \<not> d_isFloating (devices s i));
     s3 \<leftarrow> mieqProcessDeviceEvent run (er_pDev r) e (er_pScreen r) (wake_screen run s);
     Some (if has_master \<and> (ev_type e = ET_Motion
               \<or> ev_type e \<in> {ET_TouchBegin, ET_TouchUpdate} \<and> ev_pointer_emulated e)
           then run (UpdateSprite (the (er_pDev r))) s3 else s3) }"

definition advance :: "mi \<Rightarrow> mi" where
  "advance s = s\<lparr>miEventQueue := (miEventQueue s)\<lparr>head := (head (miEventQueue s) + 1) mod nevents (miEventQueue s)\<rparr>\<rparr>"

fun hand_out_all :: "(action \<Rightarrow> mi \<Rightarrow> mi) \<Rightarrow> EventRec list \<Rightarrow> mi \<Rightarrow> mi option" where
  "hand_out_all run [] s = Some s"
| "hand_out_all run (r # rs) s = do { s' \<leftarrow> hand_out run r (advance s); hand_out_all run rs s' }"

lemma process_one_eq:
  assumes "queue_ok (miEventQueue s)" "pending (miEventQueue s) = r # rs"
  shows "process_one run s = hand_out run r (advance s)"
proof -
  have "rd (events (miEventQueue s)) (head (miEventQueue s)) = Some r"
    using dequeue_ok [OF assms(1)] assms(2) by (auto simp: mieqDequeue_def split: bind_splits)
  then show ?thesis
    by (cases "er_pDev r") (simp_all add: process_one_def mieqDequeue_def hand_out_def advance_def)
qed

definition handlers_kept :: "(action \<Rightarrow> mi \<Rightarrow> mi) \<Rightarrow> bool" where
  "handlers_kept run \<longleftrightarrow> (\<forall>a s. handlers (run a s) = handlers s)"

lemma mieqMoveToNewScreen_handlers:
  "handlers_kept run \<Longrightarrow> handlers (mieqMoveToNewScreen run dev screen e s) = handlers s"
  by (auto simp: mieqMoveToNewScreen_def handlers_kept_def split: option.splits)

lemma process_handlers:
  assumes "handlers_kept run" "mieqProcessDeviceEvent run dev e screen s = Some s'"
  shows "handlers s' = handlers s"
proof -
  let ?s1 = "if changes_screen e \<and> \<not> handlers s (ev_type e) then mieqMoveToNewScreen run dev screen e s else s"
  have k: "handlers (run a t) = handlers t" for a t using assms(1) by (simp add: handlers_kept_def)
  have 1: "handlers ?s1 = handlers s" using mieqMoveToNewScreen_handlers [OF assms(1)] by simp
  show ?thesis
    using assms(2) 1
    by (cases dev; cases "CopyGetMasterEvent dev e ?s1"; cases "handlers s (ev_type e)")
      (auto simp: mieqProcessDeviceEvent_def Let_def k split: option.splits if_splits)
qed

lemma hand_out_ok:
  assumes "quiet run" "handlers_kept run" "deliverable (handlers s) r" "er_events r \<noteq> None"
  shows "\<exists>s'. hand_out run r s = Some s' \<and> miEventQueue s' = miEventQueue s \<and> handlers s' = handlers s"
proof -
  obtain e where e: "er_events r = Some e" using assms(4) by blast
  have k: "handlers (run a t) = handlers t" for a t using assms(2) by (simp add: handlers_kept_def)
  have w: "handlers (wake_screen run s) = handlers s" by (simp add: wake_screen_def Let_def k)
  obtain s3 where s3: "mieqProcessDeviceEvent run (er_pDev r) e (er_pScreen r) (wake_screen run s) = Some s3"
    "miEventQueue s3 = miEventQueue (wake_screen run s)"
    using mieqProcessDeviceEvent_queue [OF assms(1), of "er_pDev r" "wake_screen run s" e "er_pScreen r"]
      assms(3) e w by (auto simp: deliverable_def)
  with process_handlers [OF assms(2) s3(1)] show ?thesis
    by (simp add: hand_out_def e w k quiet_run [OF assms(1)] wake_screen_queue [OF assms(1)])
qed

lemma advance_queue:
  assumes "queue_ok (miEventQueue s)" "pending (miEventQueue s) = r # rs"
  shows "queue_ok (miEventQueue (advance s))" "pending (miEventQueue (advance s)) = rs" "handlers (advance s) = handlers s"
  using dequeue_ok [OF assms(1)] assms(2) by (auto simp: advance_def mieqDequeue_def split: bind_splits)

lemma process_loop_list:
  assumes "quiet run" "handlers_kept run" "queue_ok (miEventQueue s)" "length (pending (miEventQueue s)) \<le> fuel"
    and "\<forall>r\<in>set (pending (miEventQueue s)). deliverable (handlers s) r"
  shows "\<exists>s'. process_loop run fuel s = Some s' \<and> hand_out_all run (pending (miEventQueue s)) s = Some s'
    \<and> queue_ok (miEventQueue s') \<and> pending (miEventQueue s') = []"
  using assms(3-5)
proof (induction "pending (miEventQueue s)" arbitrary: s fuel)
  case Nil
  then have "head (miEventQueue s) = tail (miEventQueue s)" using pending_empty by metis
  then show ?case using Nil by (subst process_loop.simps) simp
next
  case (Cons r rs)
  note p = Cons.hyps(2) [symmetric]
  have ne: "head (miEventQueue s) \<noteq> tail (miEventQueue s)" using p pending_empty [OF Cons.prems(1)] by auto
  obtain f where f: "fuel = Suc f" using Cons.prems(2) p by (cases fuel) auto
  note a = advance_queue [OF Cons.prems(1) p]
  have r: "r \<in> set (pending (miEventQueue s))" using p by simp
  obtain s1 where s1: "hand_out run r (advance s) = Some s1" "miEventQueue s1 = miEventQueue (advance s)"
    "handlers s1 = handlers (advance s)"
    using hand_out_ok [OF assms(1,2), of "advance s" r] Cons.prems(3) r pending_buffers [OF Cons.prems(1) r] a(3) by auto
  have rs: "rs = pending (miEventQueue s1)" using s1(2) a(2) by simp
  have len: "length (pending (miEventQueue s1)) \<le> f" using Cons.prems(2) f unfolding p rs [symmetric] by simp
  have ok: "queue_ok (miEventQueue s1)" using s1(2) a(1) by simp
  have del: "\<forall>x\<in>set (pending (miEventQueue s1)). deliverable (handlers s1) x"
    using Cons.prems(3) unfolding p rs [symmetric] s1(3) a(3) by simp
  obtain s' where "process_loop run f s1 = Some s'" "hand_out_all run rs s1 = Some s'"
    "queue_ok (miEventQueue s')" "pending (miEventQueue s') = []"
    using Cons.hyps(1) [OF rs ok len del] unfolding rs [symmetric] by blast
  moreover have "process_loop run fuel s = process_loop run f s1"
    using s1(1) process_one_eq [OF Cons.prems(1) p, of run] ne f by (subst process_loop.simps) simp
  moreover have "hand_out_all run (pending (miEventQueue s)) s = hand_out_all run rs s1" using s1(1) p by simp
  ultimately show ?case by simp
qed


section \<open>The interface of queues\<close>

text \<open>What a record was enqueued with: the device with its screen, and the event.\<close>

definition unqueue :: "EventRec \<Rightarrow> (nat \<times> nat option) option \<times> InternalEvent" where
  "unqueue r = (map_option (\<lambda>i. (i, er_pScreen r)) (er_pDev r), the (er_events r))"

lemma unqueue_queued: "unqueue (queued pDev e) = (pDev, e)"
  by (cases pDev) (auto simp: unqueue_def queued_def)

definition event_room :: "(nat \<times> nat option) option \<times> InternalEvent \<Rightarrow> EventQueue \<Rightarrow> bool" where
  "event_room x q \<longleftrightarrow> 2 * nevents q dvd 2 ^ 32 \<and> \<not> merges (fst x) (snd x) q
     \<and> (ev_type (snd x) = ET_Motion \<longrightarrow> fst x \<noteq> None)"

definition enqueue_event :: "(nat \<times> nat option) option \<times> InternalEvent \<Rightarrow> EventQueue \<Rightarrow> EventQueue" where
  "enqueue_event x q = fst (the (mieqEnqueue True (\<lambda>_. True) (fst x) (snd x) q))"

definition dequeue_event :: "EventQueue \<Rightarrow> (((nat \<times> nat option) option \<times> InternalEvent) \<times> EventQueue) option" where
  "dequeue_event q = map_option (\<lambda>(r, q'). (unqueue r, q')) (mieqDequeue q)"

definition pending_events :: "EventQueue \<Rightarrow> ((nat \<times> nat option) option \<times> InternalEvent) list" where
  "pending_events q = map unqueue (pending q)"

lemma enqueue_event_ok:
  assumes "queue_ok q" "event_room x q"
  shows "queue_ok (enqueue_event x q)" "pending_events (enqueue_event x q) = pending_events q @ [x]"
  using mieqEnqueue_ok [OF assms(1), of "\<lambda>_. True" "snd x" "fst x"] assms(2)
  by (auto simp: event_room_def enqueue_event_def pending_events_def unqueue_queued prod_eq_iff)

interpretation mq: fifo queue_ok pending_events event_room enqueue_event dequeue_event
proof
  fix q x xs
  assume q: "queue_ok q" "pending_events q = x # xs"
  then have "pending q \<noteq> []" by (auto simp: pending_events_def)
  from dequeue_ok [OF q(1) this] q(2)
  show "\<exists>q'. dequeue_event q = Some (x, q') \<and> queue_ok q' \<and> pending_events q' = xs"
    by (auto simp: dequeue_event_def pending_events_def map_tl [symmetric])
qed (simp_all add: enqueue_event_ok)

section \<open>The properties of the input event queue\<close>

lemma mieqInit_ok:
  assumes "mieqInit True (\<lambda>_. True) now = Some q"
  shows "queue_ok q" "pending q = []" "nevents q = 512" "lastMotion q = 0" "dropped q = 0" "lastEventTime q = now"
proof -
  define n where "n = (512 :: nat)"
  have q: "q = \<lparr>head = 0, tail = 0, lastEventTime = now, lastMotion = 0, events = fresh_records n, nevents = n, dropped = 0\<rparr>"
    using assms by (simp add: mieqInit_def mieqGrowQueue_def QUEUE_INITIAL_SIZE_def mieqNumEnqueued_def n_def)
  then show "queue_ok q" by (auto simp: queue_ok_def fresh_records_def n_def)
  show "pending q = []" "nevents q = 512" "lastMotion q = 0" "dropped q = 0" "lastEventTime q = now"
    using q by (simp_all add: pending_def mieqNumEnqueued_def n_def)
qed

lemma mieqInit_defined: "mieqInit True (\<lambda>_. True) now \<noteq> None"
  by (simp add: mieqInit_def mieqGrowQueue_def QUEUE_INITIAL_SIZE_def)

text \<open>A queue to run the witnesses on: four slots, one motion event of device 2 in the last slot.\<close>

definition sample_event :: "event_type \<Rightarrow> u32 \<Rightarrow> InternalEvent" where
  "sample_event ty t = zero_event\<lparr>ev_type := ty, ev_time := t, ev_deviceid := 2\<rparr>"

definition sample_queue :: EventQueue where
  "sample_queue = \<lparr>head = 3, tail = 0, lastEventTime = 50, lastMotion = 2,
     events = fresh_records 3 @ [queued (Some (2, Some 0)) (sample_event ET_Motion 50)], nevents = 4, dropped = 0\<rparr>"

lemma sample_queue_ok: "queue_ok sample_queue" "pending sample_queue = [queued (Some (2, Some 0)) (sample_event ET_Motion 50)]"
  by (auto simp: queue_ok_def sample_queue_def fresh_records_def queued_def pending_def mieqNumEnqueued_def nth_append)

text \<open>C3: \<open>mieqEnqueue\<close> refines appending to the list of pending events. With memory available, an
  event is appended behind the pending events, whether it wraps around in the ring or makes the
  ring grow, except that a motion event of the device whose motion event came last replaces it;
  no event is lost, and the invariant of the queue is kept. What the next event is compared with
  is set anew each time: the device after a motion event, no device (0) after any other event, so
  that an event of another kind or device between two motion events keeps them apart. The record
  keeps the time of the event even when it lies before the last one: the correction goes to the
  caller's event only.\<close>
theorem event_enqueued:
  assumes "queue_ok q" "2 * nevents q dvd 2 ^ 32" "\<forall>i. init_ok i" "ev_type e = ET_Motion \<longrightarrow> pDev \<noteq> None"
  shows "\<exists>q'. mieqEnqueue True init_ok pDev e q = Some (q', fix_time (lastEventTime q) e) \<and> queue_ok q'
    \<and> pending q' = (if merges pDev e q then butlast (pending q) else pending q) @ [queued pDev e]
    \<and> lastEventTime q' = ev_time e
    \<and> lastMotion q' = (if ev_type e = ET_Motion then fst (the pDev) else 0) \<and> dropped q' = dropped q"
proof -
  have "lastMotion q' = (if ev_type e = ET_Motion then fst (the pDev) else 0)" if "motion_of pDev e = Some (lastMotion q')" for q'
    using that by (auto simp: motion_of_def split: if_splits)
  then show ?thesis using mieqEnqueue_ok [OF assms] by blast
qed

theorem event_enqueued_witness:
  "\<exists>q'. mieqEnqueue True (\<lambda>_. True) (Some (2, Some 0)) (sample_event ET_Motion 40) sample_queue
      = Some (q', sample_event ET_Motion 50)
    \<and> pending q' = [queued (Some (2, Some 0)) (sample_event ET_Motion 40)] \<and> lastEventTime q' = 40 \<and> lastMotion q' = 2"
proof -
  have m: "merges (Some (2, Some 0)) (sample_event ET_Motion 40) sample_queue"
    using sample_queue_ok by (simp add: merges_def sample_event_def sample_queue_def)
  have f: "fix_time (lastEventTime sample_queue) (sample_event ET_Motion 40) = sample_event ET_Motion 50"
    by (simp add: fix_time_def sample_event_def sample_queue_def)
  have n: "2 * nevents sample_queue dvd 2 ^ 32" "ev_time (sample_event ET_Motion 40) = 40" "ev_type (sample_event ET_Motion 40) = ET_Motion"
    by (simp_all add: sample_queue_def sample_event_def)
  show ?thesis
    using event_enqueued [of sample_queue "\<lambda>_. True" "sample_event ET_Motion 40" "Some (2, Some 0)"]
      sample_queue_ok m f n by auto
qed

text \<open>Order is kept: events put into a well-formed queue that has the memory to grow and taken
  out again come out as the pending events followed by the new one, and leave an empty queue.\<close>
lemma events_first_in_first_out:
  assumes "queue_ok q" "2 * nevents q dvd 2 ^ 32" "\<not> merges pDev e q" "ev_type e = ET_Motion \<longrightarrow> pDev \<noteq> None"
  shows "\<exists>q'. take_out dequeue_event (Suc (mieqNumEnqueued q)) (fst (the (mieqEnqueue True (\<lambda>_. True) pDev e q)))
      = Some (pending_events q @ [(pDev, e)], q') \<and> head q' = tail q'"
proof -
  have "event_room (pDev, e) q" using assms(2-4) by (simp add: event_room_def)
  then have "\<exists>q'. take_out dequeue_event (length (pending_events q @ [(pDev, e)])) (enqueue_event (pDev, e) q)
      = Some (pending_events q @ [(pDev, e)], q') \<and> queue_ok q' \<and> pending_events q' = []"
    using mq.take_out_all [of "enqueue_event (pDev, e) q" "pending_events q @ [(pDev, e)]" "[]"]
      mq.enq_invar [OF assms(1)] mq.enq_contents [OF assms(1)] by simp
  then show ?thesis using pending_empty by (auto simp: enqueue_event_def pending_events_def)
qed

text \<open>C8: \<open>mieqProcessInputEvents\<close> terminates and hands out the pending events in order. When the
  code the events are handed to leaves the queue and the handler table alone and every event
  has a device or a handler, as many rounds of the loop as there are pending events empty the
  queue; the outcome is that of handing out the list of pending events one after the other,
  followed by the callbacks for the drained queue.\<close>
theorem input_events_processed:
  assumes "quiet run" "handlers_kept run" "queue_ok (miEventQueue s)" "mieqNumEnqueued (miEventQueue s) \<le> fuel"
    and "\<forall>r\<in>set (pending (miEventQueue s)). deliverable (handlers s) r"
  shows "\<exists>s'. hand_out_all run (pending (miEventQueue s)) (s\<lparr>miEventQueue := (miEventQueue s)\<lparr>dropped := 0\<rparr>\<rparr>) = Some s'
    \<and> mieqProcessInputEvents run fuel s = Some (fold (\<lambda>cb. run (CallDrained cb)) (miCallbacksWhenDrained s') s')
    \<and> queue_ok (miEventQueue s') \<and> head (miEventQueue s') = tail (miEventQueue s')"
proof -
  let ?s = "s\<lparr>miEventQueue := (miEventQueue s)\<lparr>dropped := 0\<rparr>\<rparr>"
  have num: "mieqNumEnqueued (q\<lparr>dropped := 0\<rparr>) = mieqNumEnqueued q" for q by (simp add: mieqNumEnqueued_def Let_def)
  have p: "pending (q\<lparr>dropped := 0\<rparr>) = pending q" for q by (simp add: pending_def num)
  have ok: "queue_ok (miEventQueue ?s)" using assms(3) by (simp add: queue_ok_def)
  obtain s' where s': "process_loop run fuel ?s = Some s'" "hand_out_all run (pending (miEventQueue ?s)) ?s = Some s'"
    "queue_ok (miEventQueue s')" "pending (miEventQueue s') = []"
    using process_loop_list [OF assms(1,2) ok, of fuel] assms(4,5) by (auto simp: p num)
  then show ?thesis using pending_empty [OF s'(3)] by (auto simp: mieqProcessInputEvents_def p)
qed

text \<open>A main loop that does nothing with the events, on one enabled floating device.\<close>

definition sample_mi :: mi where
  "sample_mi = \<lparr>miEventQueue = sample_queue,
     devices = (\<lambda>_. \<lparr>d_enabled = True, d_isMaster = False, d_isFloating = True, d_GetMaster = (\<lambda>_. 0),
       d_button_map = None, d_enqueueScreen = Some 0, d_dequeueScreen = Some 0, d_lastSlave = None\<rparr>),
     handlers = (\<lambda>_. False), screenIsSaved = False, DPMSOn = True, miCallbacksWhenDrained = []\<rparr>"

theorem input_events_processed_witness:
  "\<exists>s'. mieqProcessInputEvents (\<lambda>_ s. s) 1 sample_mi = Some s' \<and> head (miEventQueue s') = tail (miEventQueue s')"
proof -
  have n: "quiet (\<lambda>_ s. s)" "handlers_kept (\<lambda>_ s. s)" "miEventQueue sample_mi = sample_queue" "mieqNumEnqueued sample_queue = 1"
    "\<forall>r\<in>set (pending sample_queue). deliverable (handlers sample_mi) r"
    by (simp_all add: quiet_def handlers_kept_def sample_mi_def mieqNumEnqueued_def sample_queue_ok)
      (simp_all add: sample_queue_def deliverable_def queued_def)
  have "fold (\<lambda>cb s. s) xs s = s" for xs :: "nat list" and s :: mi by (induction xs) auto
  then show ?thesis
    using input_events_processed [of "\<lambda>_ s. s" sample_mi 1] n sample_queue_ok by auto
qed

text \<open>C14: When the full queue cannot grow, the event is dropped. If the array cannot be allocated,
  nothing but the counter of dropped events changes, so what was pending stays pending. If the
  array is allocated but the buffer of a new record is not, the clean-up also frees the buffers
  of the events that are still queued, and processing the next event uses a freed buffer.\<close>
theorem queue_growth_fails:
  assumes "queue_ok q" "mieqNumEnqueued q + 1 = nevents q" "\<not> merges pDev e q" "ev_type e = ET_Motion \<longrightarrow> pDev \<noteq> None"
  shows "mieqEnqueue False init_ok pDev e q = Some (q\<lparr>dropped := dropped q + 1\<rparr>, e)
    \<and> (\<not> init_ok (nevents q) \<longrightarrow>
        (\<exists>q'. mieqEnqueue True init_ok pDev e q = Some (q', e) \<and> head q' = head q \<and> tail q' = tail q
          \<and> dropped q' = dropped q + 1 \<and> (\<forall>run s. process_one run (s\<lparr>miEventQueue := q'\<rparr>) = None)))"
proof -
  have "motion_of pDev e \<noteq> None" using assms(4) by (auto simp: motion_of_def)
  then obtain mo where mo: "motion_of pDev e = Some mo" by blast
  have mg: "\<not> (mo \<noteq> 0 \<and> mo = lastMotion q \<and> tail q \<noteq> head q)"
    using mo pending_empty [OF assms(1)] assms(3) by (auto simp: merges_def motion_of_def split: if_splits)
  have n: "\<not> 2 * nevents q \<le> nevents q" "head q < length (events q)" using assms(1) by (auto simp: queue_ok_def)
  have d: "process_one run (s\<lparr>miEventQueue := q\<lparr>events := free_buffers (events q), dropped := k\<rparr>\<rparr>) = None" for run s k
    using n(2) by (simp add: process_one_def mieqDequeue_def free_buffers_def rd_def)
  have e: "mieqEnqueue ok init_ok pDev e q = (case mieqGrowQueue ok init_ok (2 * nevents q) q of
      (True, q') \<Rightarrow> store_event mo (tail q') pDev e q'
    | (False, q') \<Rightarrow> Some (q'\<lparr>dropped := dropped q' + 1\<rparr>, e))" for ok
    using mo mg assms(2) by (auto simp: mieqEnqueue_def)
  have "mieqGrowQueue True init_ok (2 * nevents q) q = (False, q\<lparr>events := free_buffers (events q)\<rparr>)" if "\<not> init_ok (nevents q)"
    using that n by (auto simp: mieqGrowQueue_def Let_def)
  then show ?thesis using n(1) d unfolding e by (auto simp: mieqGrowQueue_def)
qed

theorem queue_growth_fails_witness:
  "let q = \<lparr>head = 0, tail = 1, lastEventTime = 0, lastMotion = 0, events = fresh_records 2, nevents = 2, dropped = 0\<rparr>
   in mieqEnqueue False (\<lambda>_. False) None (sample_event ET_KeyPress 5) q = Some (q\<lparr>dropped := 1\<rparr>, sample_event ET_KeyPress 5)
    \<and> (\<exists>q'. mieqEnqueue True (\<lambda>_. False) None (sample_event ET_KeyPress 5) q = Some (q', sample_event ET_KeyPress 5)
          \<and> dropped q' = 1 \<and> process_one (\<lambda>_ s. s) (sample_mi\<lparr>miEventQueue := q'\<rparr>) = None)"
proof -
  define q where "q = \<lparr>head = 0, tail = 1, lastEventTime = 0, lastMotion = 0, events = fresh_records 2, nevents = 2, dropped = 0\<rparr>"
  have n: "queue_ok q" "mieqNumEnqueued q + 1 = nevents q" "\<not> merges None (sample_event ET_KeyPress 5) q"
    "ev_type (sample_event ET_KeyPress 5) = ET_Motion \<longrightarrow> (None :: (nat \<times> nat option) option) \<noteq> None" "dropped q = 0"
    by (auto simp: q_def queue_ok_def fresh_records_def mieqNumEnqueued_def merges_def sample_event_def)
  show ?thesis
    using queue_growth_fails [OF n(1-4), of "\<lambda>_. False"] n(5) unfolding q_def [symmetric] Let_def by auto
qed

end
