(* ===== verification/Work_Queue.thy ===== *)
theory Work_Queue
  imports Prelude
begin

text \<open>
  The work queue and the queue of sleeping clients of \<open>xserver/dix/dixutils.c\<close>.

  The work queue is a linked list with a pointer to the place where the next cell is linked
  (\<open>workQueueLast\<close>, a pointer to a pointer). The cells live in a store, an allocated address
  maps to its cell, and a place is either the variable \<open>workQueue\<close> or the \<open>next\<close> field of a
  cell. Following a place in a freed cell gives \<open>Inl Dangling\<close>. The functions in the queue are
  the parameter \<open>run\<close>, on the whole state, so that they may queue more work; \<open>malloc\<close> is the
  parameter that picks the address of a new cell.
\<close>

section \<open>Store and places\<close>

record WorkQueueRec =
  w_function :: nat
  w_client :: "nat option"
  w_closure :: nat
  w_next :: "nat option"

record SleepQueueRec =
  sl_client :: nat
  sl_function :: nat
  sl_closure :: nat

datatype place = Root | NextOf nat

datatype wq_error = Dangling | OutOfFuel

datatype attention = IgnoreClient nat | AttendClient nat

record wq =
  cells :: "nat \<rightharpoonup> WorkQueueRec"
  workQueue :: "nat option"
  workQueueLast :: place
  sleepQueue :: "SleepQueueRec list"
  attention :: "attention list"

fun load :: "'z wq_scheme \<Rightarrow> place \<Rightarrow> wq_error + nat option" where
  "load s Root = Inr (workQueue s)"
| "load s (NextOf a) = (case cells s a of None \<Rightarrow> Inl Dangling | Some c \<Rightarrow> Inr (w_next c))"

fun store :: "place \<Rightarrow> nat option \<Rightarrow> 'z wq_scheme \<Rightarrow> wq_error + 'z wq_scheme" where
  "store Root v s = Inr (s\<lparr>workQueue := v\<rparr>)"
| "store (NextOf a) v s = (case cells s a of
     None \<Rightarrow> Inl Dangling
   | Some c \<Rightarrow> Inr (s\<lparr>cells := (cells s)(a \<mapsto> c\<lparr>w_next := v\<rparr>)\<rparr>))"

section \<open>The work queue\<close>

text \<open>Unlinking and freeing the cell \<open>a\<close> that the place \<open>p\<close> points to.\<close>

definition unlink :: "place \<Rightarrow> nat \<Rightarrow> 'z wq_scheme \<Rightarrow> wq_error + 'z wq_scheme" where
  "unlink p a s = bind_r (load s (NextOf a)) (\<lambda>nx. bind_r (store p nx s) (\<lambda>s1.
     Inr (s1\<lparr>cells := (cells s1)(a := None)\<rparr>)))"

fun clear_loop :: "nat \<Rightarrow> 'z wq_scheme \<Rightarrow> wq_error + 'z wq_scheme" where
  "clear_loop fuel s = bind_r (load s Root) (\<lambda>v. case v of
     None \<Rightarrow> Inr (s\<lparr>workQueueLast := Root\<rparr>)
   | Some q \<Rightarrow> (case fuel of
       0 \<Rightarrow> Inl OutOfFuel
     | Suc f \<Rightarrow> bind_r (unlink Root q s) (clear_loop f)))"

declare clear_loop.simps [simp del]

definition ClearWorkQueue :: "nat \<Rightarrow> 'z wq_scheme \<Rightarrow> wq_error + 'z wq_scheme" where
  "ClearWorkQueue fuel s = clear_loop fuel s"

text \<open>
  The scan of the queue. \<open>run function client closure\<close> is the call; its answer says whether the
  cell goes. The \<open>next\<close> field is read after the call, as the comment in the code demands.
\<close>

fun process_work ::
  "(nat \<Rightarrow> nat option \<Rightarrow> nat \<Rightarrow> 'z wq_scheme \<Rightarrow> bool \<times> 'z wq_scheme) \<Rightarrow> nat \<Rightarrow> place \<Rightarrow> 'z wq_scheme \<Rightarrow> wq_error + 'z wq_scheme"
where
  "process_work run fuel p s = bind_r (load s p) (\<lambda>v. case v of
     None \<Rightarrow> Inr (s\<lparr>workQueueLast := p\<rparr>)
   | Some q \<Rightarrow> (case (fuel, cells s q) of
       (0, _) \<Rightarrow> Inl OutOfFuel
     | (_, None) \<Rightarrow> Inl Dangling
     | (Suc f, Some c) \<Rightarrow>
         (case run (w_function c) (w_client c) (w_closure c) s of
            (True, s1) \<Rightarrow> bind_r (unlink p q s1) (process_work run f p)
          | (False, s1) \<Rightarrow> process_work run f (NextOf q) s1)))"

declare process_work.simps [simp del]

definition ProcessWorkQueue ::
  "(nat \<Rightarrow> nat option \<Rightarrow> nat \<Rightarrow> 'z wq_scheme \<Rightarrow> bool \<times> 'z wq_scheme) \<Rightarrow> nat \<Rightarrow> 'z wq_scheme \<Rightarrow> wq_error + 'z wq_scheme"
where
  "ProcessWorkQueue run fuel s = process_work run fuel Root s"

text \<open>
  The scan for clients that are gone differs in its condition only: the function is called, and
  the cell removed, just for a client that is gone.
\<close>

definition zombie_run ::
  "(nat \<Rightarrow> bool) \<Rightarrow> (nat \<Rightarrow> nat option \<Rightarrow> nat \<Rightarrow> 'z wq_scheme \<Rightarrow> bool \<times> 'z wq_scheme)
   \<Rightarrow> nat \<Rightarrow> nat option \<Rightarrow> nat \<Rightarrow> 'z wq_scheme \<Rightarrow> bool \<times> 'z wq_scheme"
where
  "zombie_run clientGone run fn client closure s =
     (case client of
        Some c \<Rightarrow> if clientGone c then (True, snd (run fn client closure s)) else (False, s)
      | None \<Rightarrow> (False, s))"

definition ProcessWorkQueueZombies ::
  "(nat \<Rightarrow> bool) \<Rightarrow> (nat \<Rightarrow> nat option \<Rightarrow> nat \<Rightarrow> 'z wq_scheme \<Rightarrow> bool \<times> 'z wq_scheme) \<Rightarrow> nat
   \<Rightarrow> 'z wq_scheme \<Rightarrow> wq_error + 'z wq_scheme"
where
  "ProcessWorkQueueZombies clientGone run fuel s = process_work (zombie_run clientGone run) fuel Root s"

definition QueueWorkProc ::
  "((nat \<rightharpoonup> WorkQueueRec) \<Rightarrow> nat option) \<Rightarrow> nat \<Rightarrow> nat option \<Rightarrow> nat \<Rightarrow> 'z wq_scheme \<Rightarrow> wq_error + (bool \<times> 'z wq_scheme)"
where
  "QueueWorkProc malloc fn client closure s =
     (case malloc (cells s) of
        None \<Rightarrow> Inr (False, s)
      | Some q \<Rightarrow>
          let s1 = s\<lparr>cells := (cells s)(q \<mapsto> \<lparr>w_function = fn, w_client = client, w_closure = closure, w_next = None\<rparr>)\<rparr>
          in bind_r (store (workQueueLast s1) (Some q) s1) (\<lambda>s2. Inr (True, s2\<lparr>workQueueLast := NextOf q\<rparr>)))"

section \<open>Sleeping clients\<close>

definition ClientSleep :: "bool \<Rightarrow> nat \<Rightarrow> nat \<Rightarrow> nat \<Rightarrow> 'z wq_scheme \<Rightarrow> bool \<times> 'z wq_scheme" where
  "ClientSleep malloc_ok client fn closure s =
     (if \<not> malloc_ok then (False, s)
      else (True, s\<lparr>attention := attention s @ [IgnoreClient client],
                    sleepQueue := \<lparr>sl_client = client, sl_function = fn, sl_closure = closure\<rparr> # sleepQueue s\<rparr>))"

definition ClientSignal ::
  "((nat \<rightharpoonup> WorkQueueRec) \<Rightarrow> nat option) \<Rightarrow> nat \<Rightarrow> 'z wq_scheme \<Rightarrow> wq_error + (bool \<times> 'z wq_scheme)" where
  "ClientSignal malloc client s =
     (case find (\<lambda>q. sl_client q = client) (sleepQueue s) of
        Some q \<Rightarrow> QueueWorkProc malloc (sl_function q) (Some (sl_client q)) (sl_closure q) s
      | None \<Rightarrow> Inr (False, s))"

text \<open>\<open>CLIENT_SIGNAL_ANY\<close> is \<open>None\<close>. The loop runs over the sleepers, which queueing does not change.\<close>

definition any_or :: "nat option \<Rightarrow> nat \<Rightarrow> bool" where
  "any_or pat x \<longleftrightarrow> pat = None \<or> pat = Some x"

fun signal_loop ::
  "((nat \<rightharpoonup> WorkQueueRec) \<Rightarrow> nat option) \<Rightarrow> nat option \<Rightarrow> nat option \<Rightarrow> nat option \<Rightarrow> SleepQueueRec list
   \<Rightarrow> nat \<Rightarrow> 'z wq_scheme \<Rightarrow> wq_error + (nat \<times> 'z wq_scheme)"
where
  "signal_loop malloc client fn closure [] count s = Inr (count, s)"
| "signal_loop malloc client fn closure (q # qs) count s =
     (if \<not> any_or client (sl_client q) then signal_loop malloc client fn closure qs count s
      else if \<not> any_or fn (sl_function q) then signal_loop malloc client fn closure qs count s
      else if \<not> any_or closure (sl_closure q) then signal_loop malloc client fn closure qs count s
      else bind_r (QueueWorkProc malloc (sl_function q) (Some (sl_client q)) (sl_closure q) s) (\<lambda>(ok, s1).
             signal_loop malloc client fn closure qs (count + of_bool ok) s1))"

definition ClientSignalAll ::
  "((nat \<rightharpoonup> WorkQueueRec) \<Rightarrow> nat option) \<Rightarrow> nat option \<Rightarrow> nat option \<Rightarrow> nat option \<Rightarrow> 'z wq_scheme
   \<Rightarrow> wq_error + (nat \<times> 'z wq_scheme)"
where
  "ClientSignalAll malloc client fn closure s = signal_loop malloc client fn closure (sleepQueue s) 0 s"

fun wakeup_loop :: "nat \<Rightarrow> SleepQueueRec list \<Rightarrow> bool \<times> SleepQueueRec list" where
  "wakeup_loop client [] = (False, [])"
| "wakeup_loop client (q # qs) =
     (if sl_client q = client then (True, qs) else (let (b, r) = wakeup_loop client qs in (b, q # r)))"

definition ClientWakeup :: "nat \<Rightarrow> 'z wq_scheme \<Rightarrow> 'z wq_scheme" where
  "ClientWakeup client s =
     (let (found, qs) = wakeup_loop client (sleepQueue s)
      in if found then s\<lparr>sleepQueue := qs, attention := attention s @ [AttendClient client]\<rparr> else s)"

definition ClientIsAsleep :: "nat \<Rightarrow> 'z wq_scheme \<Rightarrow> bool" where
  "ClientIsAsleep client s \<longleftrightarrow> list_ex (\<lambda>q. sl_client q = client) (sleepQueue s)"

section \<open>The linked list\<close>

fun chain :: "(nat \<rightharpoonup> WorkQueueRec) \<Rightarrow> nat option \<Rightarrow> nat list \<Rightarrow> nat option \<Rightarrow> bool" where
  "chain h v [] w \<longleftrightarrow> v = w"
| "chain h v (a # as) w \<longleftrightarrow> v = Some a \<and> (case h a of None \<Rightarrow> False | Some c \<Rightarrow> chain h (w_next c) as w)"

definition end_place :: "nat list \<Rightarrow> place" where
  "end_place as = (if as = [] then Root else NextOf (last as))"

definition wq_shape :: "'z wq_scheme \<Rightarrow> nat list \<Rightarrow> bool" where
  "wq_shape s as \<longleftrightarrow> chain (cells s) (workQueue s) as None \<and> distinct as \<and> finite (dom (cells s))"

definition wq_ok :: "'z wq_scheme \<Rightarrow> nat list \<Rightarrow> bool" where
  "wq_ok s as \<longleftrightarrow> wq_shape s as \<and> workQueueLast s = end_place as"

definition content :: "(nat \<rightharpoonup> WorkQueueRec) \<Rightarrow> nat \<Rightarrow> (nat \<times> nat option \<times> nat) option" where
  "content h a = map_option (\<lambda>c. (w_function c, w_client c, w_closure c)) (h a)"

lemma chain_append: "chain h v (xs @ ys) w \<longleftrightarrow> (\<exists>u. chain h v xs u \<and> chain h u ys w)"
  by (induction xs arbitrary: v) (auto split: option.splits)

lemma chain_update: "a \<notin> set xs \<Longrightarrow> chain (h(a := x)) v xs w = chain h v xs w"
  by (induction xs arbitrary: v) (auto split: option.splits)

lemma chain_in_dom: "chain h v xs w \<Longrightarrow> a \<in> set xs \<Longrightarrow> h a \<noteq> None"
  by (induction xs arbitrary: v) (auto split: option.splits)

lemma load_at:
  assumes "wq_shape s (ds @ ts)"
  shows "load s (end_place ds) = Inr (case ts of [] \<Rightarrow> None | a # _ \<Rightarrow> Some a)"
proof (cases ds rule: rev_cases)
  case Nil
  then show ?thesis using assms by (cases ts) (auto simp: wq_shape_def end_place_def)
next
  case (snoc ds' d)
  then show ?thesis using assms
    by (cases ts) (auto simp: wq_shape_def end_place_def chain_append split: option.splits)
qed

lemma store_at:
  assumes "chain (cells s) (workQueue s) ds u" "distinct ds"
  shows "\<exists>h r. store (end_place ds) v s = Inr (s\<lparr>cells := h, workQueue := r\<rparr>) \<and> chain h r ds v
    \<and> (\<forall>a. a \<notin> set ds \<longrightarrow> h a = cells s a) \<and> dom h = dom (cells s) \<and> content h = content (cells s)"
proof (cases ds rule: rev_cases)
  case Nil
  then have "store (end_place ds) v s = Inr (s\<lparr>cells := cells s, workQueue := v\<rparr>)" by (simp add: end_place_def)
  then show ?thesis using Nil by (intro exI [of _ "cells s"] exI [of _ v]) simp
next
  case (snoc ds' d)
  then obtain c where c: "cells s d = Some c" "chain (cells s) (workQueue s) ds' (Some d)"
    using assms(1) by (auto simp: chain_append split: option.splits)
  let ?h = "(cells s)(d \<mapsto> c\<lparr>w_next := v\<rparr>)"
  have "d \<notin> set ds'" using assms(2) snoc by simp
  then have "chain ?h (workQueue s) ds v" using c snoc by (auto simp: chain_append chain_update)
  moreover have "store (end_place ds) v s = Inr (s\<lparr>cells := ?h, workQueue := workQueue s\<rparr>)"
    using c snoc by (simp add: end_place_def)
  moreover have "content ?h = content (cells s)" using c by (auto simp: content_def fun_eq_iff)
  moreover have "dom ?h = dom (cells s)" using c by auto
  ultimately show ?thesis using snoc by (intro exI [of _ ?h] exI [of _ "workQueue s"]) auto
qed

lemma unlink_at:
  assumes "wq_shape s (ds @ a # ts)"
  shows "\<exists>h r. unlink (end_place ds) a s = Inr (s\<lparr>cells := h, workQueue := r\<rparr>)
    \<and> wq_shape (s\<lparr>cells := h, workQueue := r\<rparr>) (ds @ ts) \<and> (\<forall>x\<in>set (ds @ ts). content h x = content (cells s) x)"
proof -
  obtain c where c: "cells s a = Some c" "chain (cells s) (workQueue s) ds (Some a)" "chain (cells s) (w_next c) ts None"
    using assms by (auto simp: wq_shape_def chain_append split: option.splits)
  have d: "distinct (ds @ a # ts)" "finite (dom (cells s))" using assms by (simp_all add: wq_shape_def)
  obtain h r where h: "store (end_place ds) (w_next c) s = Inr (s\<lparr>cells := h, workQueue := r\<rparr>)" "chain h r ds (w_next c)"
    "\<forall>x. x \<notin> set ds \<longrightarrow> h x = cells s x" "dom h = dom (cells s)" "content h = content (cells s)"
    using store_at [OF c(2), of "w_next c"] d(1) by auto
  have e: "chain h w ts None = chain (cells s) w ts None" for w
    using h(3) d(1) by (induction ts arbitrary: w) (auto split: option.splits)
  have "wq_shape (s\<lparr>cells := h(a := None), workQueue := r\<rparr>) (ds @ ts)"
    using h(2,4) c(3) d e by (auto simp: wq_shape_def chain_append chain_update)
  moreover have "content (h(a := None)) x = content (cells s) x" if "x \<in> set (ds @ ts)" for x
    using that d(1) fun_cong [OF h(5), of x] by (auto simp: content_def)
  ultimately show ?thesis using c(1) h(1)
    by (intro exI [of _ "h(a := None)"] exI [of _ r]) (auto simp: unlink_def)
qed

definition malloc_ok :: "((nat \<rightharpoonup> WorkQueueRec) \<Rightarrow> nat option) \<Rightarrow> bool" where
  "malloc_ok malloc \<longleftrightarrow> (\<forall>h. finite (dom h) \<longrightarrow> (\<exists>a. malloc h = Some a \<and> h a = None))"

lemma QueueWorkProc_ok:
  assumes "wq_ok s as" "malloc_ok malloc"
  shows "\<exists>h r q. QueueWorkProc malloc fn client closure s
      = Inr (True, s\<lparr>cells := h, workQueue := r, workQueueLast := NextOf q\<rparr>)
    \<and> wq_ok (s\<lparr>cells := h, workQueue := r, workQueueLast := NextOf q\<rparr>) (as @ [q])
    \<and> map (content h) (as @ [q]) = map (content (cells s)) as @ [Some (fn, client, closure)]"
proof -
  have s: "chain (cells s) (workQueue s) as None" "distinct as" "finite (dom (cells s))" "workQueueLast s = end_place as"
    using assms(1) by (simp_all add: wq_ok_def wq_shape_def)
  obtain q where q: "malloc (cells s) = Some q" "cells s q = None"
    using assms(2) s(3) by (auto simp: malloc_ok_def)
  have nq: "q \<notin> set as" using chain_in_dom [OF s(1)] q(2) by blast
  let ?c = "\<lparr>w_function = fn, w_client = client, w_closure = closure, w_next = None\<rparr>"
  let ?s = "s\<lparr>cells := (cells s)(q \<mapsto> ?c)\<rparr>"
  have "chain (cells ?s) (workQueue ?s) as None" using s(1) nq by (simp add: chain_update)
  from store_at [OF this s(2), of "Some q"]
  obtain h r where h: "store (end_place as) (Some q) ?s = Inr (?s\<lparr>cells := h, workQueue := r\<rparr>)" "chain h r as (Some q)"
    "\<forall>a. a \<notin> set as \<longrightarrow> h a = cells ?s a" "dom h = dom (cells ?s)" "content h = content (cells ?s)" by auto
  have "h q = Some ?c" using h(3) nq by simp
  then have "wq_ok (s\<lparr>cells := h, workQueue := r, workQueueLast := NextOf q\<rparr>) (as @ [q])"
    using h(2,4) s nq by (simp add: wq_ok_def wq_shape_def chain_append end_place_def)
  moreover have "map (content h) (as @ [q]) = map (content (cells s)) as @ [Some (fn, client, closure)]"
    using h(5) nq by (auto simp: content_def)
  moreover have "QueueWorkProc malloc fn client closure s
      = Inr (True, s\<lparr>cells := h, workQueue := r, workQueueLast := NextOf q\<rparr>)"
    using q(1) h(1) s(4) by (simp add: QueueWorkProc_def Let_def)
  ultimately show ?thesis by blast
qed


section \<open>The scan of the work queue as a scan of a list\<close>

text \<open>
  A function of the queue as seen from outside: from its arguments and the state of the rest of
  the server it gives its answer, the work it queues and the new state of the rest.
\<close>

type_synonym work = "nat \<times> nat option \<times> nat"

fun scan :: "(work \<Rightarrow> 'm \<Rightarrow> bool \<times> work list \<times> 'm) \<Rightarrow> nat \<Rightarrow> work list \<Rightarrow> work list \<Rightarrow> 'm \<Rightarrow> (work list \<times> 'm) option" where
  "scan f fuel kept [] m = Some (kept, m)"
| "scan f 0 kept (x # xs) m = None"
| "scan f (Suc n) kept (x # xs) m =
     (case f x m of (b, new, m') \<Rightarrow> scan f n (if b then kept else kept @ [x]) (xs @ new) m')"

fun queue_all :: "((nat \<rightharpoonup> WorkQueueRec) \<Rightarrow> nat option) \<Rightarrow> work list \<Rightarrow> 'z wq_scheme \<Rightarrow> 'z wq_scheme" where
  "queue_all malloc [] s = s"
| "queue_all malloc (x # xs) s =
     (case QueueWorkProc malloc (fst x) (fst (snd x)) (snd (snd x)) s of
        Inr r \<Rightarrow> queue_all malloc xs (snd r)
      | Inl e \<Rightarrow> s)"

definition calls ::
  "((nat \<rightharpoonup> WorkQueueRec) \<Rightarrow> nat option) \<Rightarrow> (work \<Rightarrow> 'z \<Rightarrow> bool \<times> work list \<times> 'z)
   \<Rightarrow> nat \<Rightarrow> nat option \<Rightarrow> nat \<Rightarrow> 'z wq_scheme \<Rightarrow> bool \<times> 'z wq_scheme"
where
  "calls malloc f fn client closure s =
     (case f (fn, client, closure) (wq.more s) of
        (b, new, m) \<Rightarrow> (b, queue_all malloc new (wq.more_update (\<lambda>_. m) s)))"

lemma queue_all_ok:
  assumes "wq_ok s as" "malloc_ok malloc"
  shows "\<exists>bs. wq_ok (queue_all malloc xs s) (as @ bs)
    \<and> map (content (cells (queue_all malloc xs s))) (as @ bs) = map (content (cells s)) as @ map Some xs
    \<and> wq.more (queue_all malloc xs s) = wq.more s"
  using assms(1)
proof (induction xs arbitrary: s as)
  case Nil
  then show ?case by (intro exI [of _ "[]"]) simp
next
  case (Cons x xs)
  obtain h r q where q: "QueueWorkProc malloc (fst x) (fst (snd x)) (snd (snd x)) s
      = Inr (True, s\<lparr>cells := h, workQueue := r, workQueueLast := NextOf q\<rparr>)"
    "wq_ok (s\<lparr>cells := h, workQueue := r, workQueueLast := NextOf q\<rparr>) (as @ [q])"
    "map (content h) (as @ [q]) = map (content (cells s)) as @ [Some (fst x, fst (snd x), snd (snd x))]"
    using QueueWorkProc_ok [OF Cons.prems assms(2)] by blast
  define s1 where "s1 = s\<lparr>cells := h, workQueue := r, workQueueLast := NextOf q\<rparr>"
  have s1: "cells s1 = h" "wq.more s1 = wq.more s" by (simp_all add: s1_def)
  obtain bs where bs: "wq_ok (queue_all malloc xs s1) ((as @ [q]) @ bs)"
    "map (content (cells (queue_all malloc xs s1))) ((as @ [q]) @ bs) = map (content (cells s1)) (as @ [q]) @ map Some xs"
    "wq.more (queue_all malloc xs s1) = wq.more s1"
    using Cons.IH [of s1 "as @ [q]"] q(2) unfolding s1_def [symmetric] by blast
  have "queue_all malloc (x # xs) s = queue_all malloc xs s1" using q(1) by (simp add: s1_def)
  then show ?case using bs q(3) s1 by (intro exI [of _ "q # bs"]) simp
qed

lemma process_work_scan:
  assumes "malloc_ok malloc" "wq_shape s (ds @ ts)" "ts \<noteq> [] \<longrightarrow> workQueueLast s = end_place (ds @ ts)"
    "map (content (cells s)) ds = map Some kept" "map (content (cells s)) ts = map Some xs"
    "wq.more s = m0" "scan f fuel kept xs m0 = Some (ys, m)"
  shows "\<exists>s' as. process_work (calls malloc f) fuel (end_place ds) s = Inr s' \<and> wq_ok s' as
    \<and> map (content (cells s')) as = map Some ys \<and> wq.more s' = m"
  using assms(2-)
proof (induction f fuel kept xs m0 arbitrary: s ds ts rule: scan.induct)
  case (1 f fuel kept m0)
  then have "ts = []" "wq_shape s ds" by auto
  then show ?case using 1 load_at [of s ds "[]"]
    by (subst process_work.simps) (auto simp: wq_ok_def wq_shape_def)
next
  case (2 f kept x xs m0)
  then show ?case by simp
next
  case (3 f n kept x xs m0)
  note prems = 3(2-)
  obtain a rest where ts: "ts = a # rest" "content (cells s) a = Some x" "map (content (cells s)) rest = map Some xs"
    using prems(4) by (cases ts) auto
  have len: "length ds = length kept" using prems(3) by (metis length_map)
  obtain b new m' where f: "f x m0 = (b, new, m')" by (cases "f x m0") auto
  obtain c where c: "cells s a = Some c" "x = (w_function c, w_client c, w_closure c)"
    using ts(2) by (auto simp: content_def)
  define s0 where "s0 = wq.more_update (\<lambda>_. m') s"
  define s1 where "s1 = queue_all malloc new s0"
  have s0: "cells s0 = cells s" "wq.more s0 = m'" by (simp_all add: s0_def)
  have "wq_ok s0 (ds @ ts)" using prems(1,2) ts by (simp add: wq_ok_def wq_shape_def s0_def)
  from queue_all_ok [OF this assms(1), of new]
  obtain bs where bs: "wq_ok s1 ((ds @ ts) @ bs)"
    "map (content (cells s1)) ((ds @ ts) @ bs) = map (content (cells s)) (ds @ ts) @ map Some new" "wq.more s1 = m'"
    by (auto simp: s1_def s0)
  have sc: "scan f n (if b then kept else kept @ [x]) (xs @ new) m' = Some (ys, m)"
    using prems(6) f by simp
  have sh: "wq_shape s1 (ds @ a # (rest @ bs))" "workQueueLast s1 = end_place (ds @ a # (rest @ bs))"
    using bs(1) ts by (simp_all add: wq_ok_def)
  have ct: "map (content (cells s1)) ds = map Some kept" "content (cells s1) a = Some x"
    "map (content (cells s1)) (rest @ bs) = map Some (xs @ new)"
    using bs(2) ts prems(3) len by (auto simp: append_eq_append_conv)
  have ld: "load s (end_place ds) = Inr (Some a)" using load_at [OF prems(1)] ts by simp
  have run: "calls malloc f (w_function c) (w_client c) (w_closure c) s = (b, s1)"
    using f c prems(5) by (simp add: calls_def s1_def s0_def)
  have step: "process_work (calls malloc f) (Suc n) (end_place ds) s =
      (if b then bind_r (unlink (end_place ds) a s1) (process_work (calls malloc f) n (end_place ds))
       else process_work (calls malloc f) n (NextOf a) s1)"
    using ld c run by (subst process_work.simps) simp
  show ?case
  proof (cases b)
    case True
    obtain h r where u: "unlink (end_place ds) a s1 = Inr (s1\<lparr>cells := h, workQueue := r\<rparr>)"
      "wq_shape (s1\<lparr>cells := h, workQueue := r\<rparr>) (ds @ (rest @ bs))"
      "\<forall>y\<in>set (ds @ (rest @ bs)). content h y = content (cells s1) y"
      using unlink_at [OF sh(1)] by blast
    define s2 where "s2 = s1\<lparr>cells := h, workQueue := r\<rparr>"
    have s2: "cells s2 = h" "wq.more s2 = wq.more s1" "workQueueLast s2 = workQueueLast s1" by (simp_all add: s2_def)
    have "map (content (cells s2)) ds = map Some kept" "map (content (cells s2)) (rest @ bs) = map Some (xs @ new)"
      using u(3) ct s2 by (auto cong: map_cong)
    moreover have "rest @ bs \<noteq> [] \<longrightarrow> workQueueLast s2 = end_place (ds @ (rest @ bs))"
      using sh(2) s2 by (auto simp: end_place_def)
    ultimately show ?thesis
      using 3(1) [OF f [symmetric] refl, of s2 ds "rest @ bs"] u(1,2) sc step True s2(2) bs(3)
      by (simp add: s2_def [symmetric])
  next
    case False
    have "end_place (ds @ [a]) = NextOf a" by (simp add: end_place_def)
    then show ?thesis
      using 3(1) [OF f [symmetric] refl, of s1 "ds @ [a]" "rest @ bs"] sh sc step False ct bs(3) by simp
  qed
qed


text \<open>
  The scan ends when the work that functions queue uses up a budget: \<open>budget\<close> bounds what may
  still be queued from a state of the rest of the server.
\<close>

definition budgeted :: "('m \<Rightarrow> nat) \<Rightarrow> (work \<Rightarrow> 'm \<Rightarrow> bool \<times> work list \<times> 'm) \<Rightarrow> bool" where
  "budgeted budget f \<longleftrightarrow> (\<forall>x m. length (fst (snd (f x m))) + budget (snd (snd (f x m))) \<le> budget m)"

lemma scan_total:
  assumes "budgeted budget f" "length xs + budget m \<le> fuel"
  shows "\<exists>r. scan f fuel kept xs m = Some r"
  using assms
proof (induction f fuel kept xs m rule: scan.induct)
  case (3 f n kept x xs m)
  obtain b new m' where f: "f x m = (b, new, m')" by (cases "f x m") auto
  have "length new + budget m' \<le> budget m" using 3(2) f unfolding budgeted_def by (metis fst_conv snd_conv)
  then have "length (xs @ new) + budget m' \<le> n" using 3(3) by simp
  from 3(1) [OF f [symmetric] refl 3(2) this] show ?case using f by simp
qed auto

definition work_of :: "'z wq_scheme \<Rightarrow> nat list \<Rightarrow> work list" where
  "work_of s as = map (\<lambda>a. the (content (cells s) a)) as"

lemma work_of_content: "wq_shape s as \<Longrightarrow> map (content (cells s)) as = map Some (work_of s as)"
  using chain_in_dom [of "cells s" "workQueue s" as None] by (auto simp: wq_shape_def work_of_def content_def)

lemma work_of_eq: "map (content (cells s)) as = map Some xs \<Longrightarrow> work_of s as = xs"
proof -
  assume "map (content (cells s)) as = map Some xs"
  then have "map the (map (content (cells s)) as) = map the (map Some xs)" by simp
  then show ?thesis by (simp add: work_of_def comp_def)
qed

definition signalled :: "nat option \<Rightarrow> nat option \<Rightarrow> nat option \<Rightarrow> SleepQueueRec \<Rightarrow> bool" where
  "signalled client fn closure q \<longleftrightarrow> any_or client (sl_client q) \<and> any_or fn (sl_function q) \<and> any_or closure (sl_closure q)"

lemma signal_loop_ok:
  assumes "malloc_ok malloc" "wq_ok s as"
  shows "\<exists>s' bs. signal_loop malloc client fn closure qs count s
      = Inr (count + length (filter (signalled client fn closure) qs), s')
    \<and> wq_ok s' (as @ bs) \<and> sleepQueue s' = sleepQueue s
    \<and> map (content (cells s')) (as @ bs) = map (content (cells s)) as
       @ map (\<lambda>q. Some (sl_function q, Some (sl_client q), sl_closure q))
           (filter (signalled client fn closure) qs)"
  using assms(2)
proof (induction qs arbitrary: s as count)
  case Nil
  then show ?case by (intro exI [of _ s] exI [of _ "[]"]) simp
next
  case (Cons q qs)
  show ?case
  proof (cases "signalled client fn closure q")
    case False
    then show ?thesis using False [unfolded signalled_def] Cons.IH [OF Cons.prems, of count] by auto
  next
    case True
    obtain h r a where a: "QueueWorkProc malloc (sl_function q) (Some (sl_client q)) (sl_closure q) s
        = Inr (True, s\<lparr>cells := h, workQueue := r, workQueueLast := NextOf a\<rparr>)"
      "wq_ok (s\<lparr>cells := h, workQueue := r, workQueueLast := NextOf a\<rparr>) (as @ [a])"
      "map (content h) (as @ [a]) = map (content (cells s)) as @ [Some (sl_function q, Some (sl_client q), sl_closure q)]"
      using QueueWorkProc_ok [OF Cons.prems assms(1)] by blast
    define s1 where "s1 = s\<lparr>cells := h, workQueue := r, workQueueLast := NextOf a\<rparr>"
    have s1: "cells s1 = h" "sleepQueue s1 = sleepQueue s" by (simp_all add: s1_def)
    obtain s' bs where "signal_loop malloc client fn closure qs (count + 1) s1
        = Inr (count + 1 + length (filter (signalled client fn closure) qs), s')"
      "wq_ok s' ((as @ [a]) @ bs)" "sleepQueue s' = sleepQueue s1"
      "map (content (cells s')) ((as @ [a]) @ bs) = map (content (cells s1)) (as @ [a])
       @ map (\<lambda>q. Some (sl_function q, Some (sl_client q), sl_closure q))
           (filter (signalled client fn closure) qs)"
      using Cons.IH [of s1 "as @ [a]" "count + 1"] a(2) unfolding s1_def [symmetric] by blast
    then show ?thesis using True True [unfolded signalled_def] a(1,3) s1
      by (intro exI [of _ s'] exI [of _ "a # bs"]) (simp add: s1_def [symmetric])
  qed
qed


section \<open>The properties of the work queue and of sleeping clients\<close>

text \<open>An allocator and a queue of one function that queues another one, to run the witnesses on.\<close>

definition first_free :: "(nat \<rightharpoonup> WorkQueueRec) \<Rightarrow> nat option" where
  "first_free h = Some (LEAST a. h a = None)"

lemma first_free_ok: "malloc_ok first_free"
proof -
  have "h (LEAST a. h a = None) = None" if "finite (dom h)" for h :: "nat \<rightharpoonup> WorkQueueRec"
  proof -
    have "\<exists>a. a \<notin> dom h" using that ex_new_if_finite [of "dom h"] by (simp add: infinite_UNIV_nat)
    then have "\<exists>a. h a = None" by (auto simp: domIff)
    then show ?thesis by (rule LeastI_ex)
  qed
  then show ?thesis by (simp add: malloc_ok_def first_free_def)
qed

definition sample_wq :: "nat wq_scheme" where
  "sample_wq = \<lparr>cells = [7 \<mapsto> \<lparr>w_function = 1, w_client = None, w_closure = 0, w_next = None\<rparr>], workQueue = Some 7,
     workQueueLast = NextOf 7, sleepQueue = [\<lparr>sl_client = 4, sl_function = 5, sl_closure = 6\<rparr>], attention = [IgnoreClient 4],
     \<dots> = 1\<rparr>"

definition sample_calls :: "work \<Rightarrow> nat \<Rightarrow> bool \<times> work list \<times> nat" where
  "sample_calls x m = (if 0 < m then (True, [(2, None, 0)], m - 1) else (False, [], m))"

lemma sample_wq_ok: "wq_ok sample_wq [7]" "work_of sample_wq [7] = [(1, None, 0)]" "wq.more sample_wq = 1"
  by (simp_all add: sample_wq_def wq_ok_def wq_shape_def end_place_def work_of_def content_def)

text \<open>C7: \<open>ProcessWorkQueue\<close> refines one scan of a list. Functions may queue more work while the
  queue is scanned: it is appended and reached by the same scan. The functions that answer true
  leave the queue, the others stay in order, no freed cell is touched, the scan ends, and
  afterwards the queue is a proper list again whose end \<open>workQueueLast\<close> points to.\<close>
theorem work_queue_scanned:
  fixes s :: "'z wq_scheme"
  assumes "malloc_ok malloc" "wq_ok s as" "budgeted budget f" "length as + budget (wq.more s) \<le> fuel"
  shows "\<exists>ys m s' as'. scan f fuel [] (work_of s as) (wq.more s) = Some (ys, m)
    \<and> ProcessWorkQueue (calls malloc f) fuel s = Inr s' \<and> wq_ok s' as' \<and> work_of s' as' = ys \<and> wq.more s' = m"
proof -
  have sh: "wq_shape s ([] @ as)" "as \<noteq> [] \<longrightarrow> workQueueLast s = end_place ([] @ as)"
    using assms(2) by (simp_all add: wq_ok_def)
  have "length (work_of s as) = length as" by (simp add: work_of_def)
  then obtain ys m where sc: "scan f fuel [] (work_of s as) (wq.more s) = Some (ys, m)"
    using scan_total [OF assms(3), of "work_of s as" "wq.more s" fuel "[]"] assms(4) by auto
  have "\<exists>s' as'. process_work (calls malloc f) fuel (end_place []) s = Inr s' \<and> wq_ok s' as'
    \<and> map (content (cells s')) as' = map Some ys \<and> wq.more s' = m"
    using sh work_of_content [of s as] sc by (intro process_work_scan [OF assms(1)]) auto
  then show ?thesis using sc work_of_eq by (fastforce simp: ProcessWorkQueue_def end_place_def)
qed

theorem work_queue_scanned_witness:
  "\<exists>s' as'. ProcessWorkQueue (calls first_free sample_calls) 2 sample_wq = Inr s' \<and> wq_ok s' as'
    \<and> work_of s' as' = [(2, None, 0)] \<and> wq.more s' = 0"
proof -
  have "budgeted (\<lambda>m. m) sample_calls" by (auto simp: budgeted_def sample_calls_def)
  moreover have "scan sample_calls 2 [] [(1, None, 0)] 1 = Some ([(2, None, 0)], 0)"
    by (simp add: numeral_2_eq_2 sample_calls_def)
  ultimately show ?thesis
    using work_queue_scanned [OF first_free_ok sample_wq_ok(1), of "\<lambda>m. m" sample_calls 2] sample_wq_ok by auto
qed

text \<open>\<open>ClientSignalAll\<close> queues the wake-up function of exactly the sleeping clients that match
  the given client, function and closure, in the order of the sleep queue behind the work that is
  already queued, returns their number, and leaves the clients asleep.\<close>
theorem sleepers_signalled:
  assumes "malloc_ok malloc" "wq_ok s as"
  shows "\<exists>s' as'. ClientSignalAll malloc client fn closure s
      = Inr (length (filter (signalled client fn closure) (sleepQueue s)), s')
    \<and> wq_ok s' as' \<and> sleepQueue s' = sleepQueue s
    \<and> work_of s' as' = work_of s as @ map (\<lambda>q. (sl_function q, Some (sl_client q), sl_closure q))
        (filter (signalled client fn closure) (sleepQueue s))"
proof -
  have "map (content (cells s)) as = map Some (work_of s as)"
    using assms(2) work_of_content by (auto simp: wq_ok_def)
  then show ?thesis
    using signal_loop_ok [OF assms, of client fn closure "sleepQueue s" 0]
    by (fastforce simp: ClientSignalAll_def comp_def intro!: work_of_eq)
qed

theorem sleepers_signalled_witness:
  "\<exists>s' as'. ClientSignalAll first_free (Some 4) None None sample_wq = Inr (1, s')
    \<and> wq_ok s' as' \<and> work_of s' as' = [(1, None, 0), (5, Some 4, 6)]"
  using sleepers_signalled [OF first_free_ok sample_wq_ok(1), of "Some 4" None None] sample_wq_ok(2)
  by (auto simp: sample_wq_def signalled_def any_or_def)

text \<open>The operations on the sleep queue as steps.\<close>

inductive sleep_step :: "((nat \<rightharpoonup> WorkQueueRec) \<Rightarrow> nat option) \<Rightarrow> 'z wq_scheme \<Rightarrow> 'z wq_scheme \<Rightarrow> bool"
  for malloc where
  sleep: "sleep_step malloc s (snd (ClientSleep ok c fn clo s))"
| wakeup: "sleep_step malloc s (ClientWakeup c s)"
| signal: "ClientSignal malloc c s = Inr (b, s') \<Longrightarrow> sleep_step malloc s s'"
| signal_all: "ClientSignalAll malloc pc pf pclo s = Inr (n, s') \<Longrightarrow> sleep_step malloc s s'"

definition attention_balanced :: "'z wq_scheme \<Rightarrow> bool" where
  "attention_balanced s \<longleftrightarrow> (\<forall>c. count_list (attention s) (IgnoreClient c)
     = count_list (attention s) (AttendClient c) + length (filter (\<lambda>q. sl_client q = c) (sleepQueue s)))"

lemma QueueWorkProc_frame:
  "QueueWorkProc malloc fn cl clo s = Inr (b, s') \<Longrightarrow> sleepQueue s' = sleepQueue s \<and> attention s' = attention s"
  by (cases "workQueueLast s")
    (auto simp: QueueWorkProc_def Let_def bind_r_def split: option.splits sum.splits if_splits)

lemma signal_loop_frame:
  "signal_loop malloc pc pf pclo qs n s = Inr (k, s') \<Longrightarrow> sleepQueue s' = sleepQueue s \<and> attention s' = attention s"
  by (induction qs arbitrary: n s)
    (auto simp: bind_r_def dest!: QueueWorkProc_frame split: if_splits sum.splits)

lemma wakeup_loop_spec:
  "wakeup_loop c qs = (b, r) \<Longrightarrow> b = (\<exists>q\<in>set qs. sl_client q = c)
    \<and> length (filter (\<lambda>q. sl_client q = d) qs) = length (filter (\<lambda>q. sl_client q = d) r) + of_bool (b \<and> d = c)"
  by (induction qs arbitrary: b r) (auto split: if_splits prod.splits)

lemma sleep_step_balanced: "sleep_step malloc s s' \<Longrightarrow> attention_balanced s \<Longrightarrow> attention_balanced s'"
proof (induction rule: sleep_step.induct)
  case (wakeup s c)
  obtain b r where r: "wakeup_loop c (sleepQueue s) = (b, r)" by fastforce
  from wakeup wakeup_loop_spec [OF r] show ?case by (auto simp: ClientWakeup_def r attention_balanced_def)
next
  case (signal c s b s')
  then show ?case by (auto simp: ClientSignal_def attention_balanced_def dest: QueueWorkProc_frame split: option.splits)
next
  case (signal_all pc pf pclo s n s')
  then show ?case by (auto simp: ClientSignalAll_def attention_balanced_def dest: signal_loop_frame)
qed (auto simp: ClientSleep_def attention_balanced_def)

text \<open>Through every sequence of sleeping, signalling and waking, a client has been ignored once
  more than attended again for each of its entries in the sleep queue; so a client is asleep
  exactly when it has been ignored more often than attended.\<close>
theorem sleep_attention_balanced:
  assumes "(sleep_step malloc)\<^sup>*\<^sup>* s s'" "attention s = []" "sleepQueue s = []"
  shows "attention_balanced s' \<and> (ClientIsAsleep c s' \<longleftrightarrow>
    count_list (attention s') (AttendClient c) < count_list (attention s') (IgnoreClient c))"
proof -
  have "attention_balanced s'"
    using assms(1)
  proof (induction rule: rtranclp_induct)
    case base
    then show ?case using assms(2,3) by (simp add: attention_balanced_def)
  qed (rule sleep_step_balanced)
  then show ?thesis
    by (auto simp: attention_balanced_def ClientIsAsleep_def list_ex_iff filter_empty_conv)
qed

theorem sleep_attention_balanced_witness:
  "let s0 = sample_wq\<lparr>attention := [], sleepQueue := []\<rparr>; s1 = snd (ClientSleep True 4 5 6 s0) in
   ClientIsAsleep 4 s1 \<and> \<not> ClientIsAsleep 4 (ClientWakeup 4 s1)"
proof -
  let ?s0 = "sample_wq\<lparr>attention := [], sleepQueue := []\<rparr>"
  let ?s1 = "snd (ClientSleep True 4 5 6 ?s0)"
  have 1: "sleep_step first_free ?s0 ?s1" "sleep_step first_free ?s1 (ClientWakeup 4 ?s1)"
    by (rule sleep_step.sleep, rule sleep_step.wakeup)
  then have "(sleep_step first_free)\<^sup>*\<^sup>* ?s0 ?s1" "(sleep_step first_free)\<^sup>*\<^sup>* ?s0 (ClientWakeup 4 ?s1)" by auto
  from this [THEN sleep_attention_balanced, of 4] show ?thesis
    by (simp add: Let_def ClientSleep_def ClientWakeup_def)
qed

end
