(* ===== verification/Dix_Utils.thy ===== *)
theory Dix_Utils
  imports Prelude "HOL-Library.Sublist"
begin

text \<open>
  The remaining utilities of \<open>xserver/dix/dixutils.c\<close>: case-insensitive comparison of ISO Latin-1
  names, save sets, the block and wakeup handlers of the main loop, and the callback lists.

  Code that is called back is the parameter \<open>run\<close>, a function on the whole state, so that a handler
  may register and remove handlers. Accesses outside an array give \<open>None\<close>.
\<close>

section \<open>Comparing ISO Latin-1 names\<close>

definition ISOLatin1ToLower :: "u8 \<Rightarrow> u8" where
  "ISOLatin1ToLower c =
     (if 0x41 \<le> c \<and> c \<le> 0x5a then c + (0x61 - 0x41)
      else if 0xc0 \<le> c \<and> c \<le> 0xd6 then c + (0xe0 - 0xc0)
      else if 0xd8 \<le> c \<and> c \<le> 0xde then c + (0xf8 - 0xd8)
      else c)"

text \<open>The pointers are indices \<open>i\<close>, \<open>j\<close> into the objects they point into; a negative length never counts down to 0.\<close>

function compare_loop :: "bytes \<Rightarrow> nat \<Rightarrow> int \<Rightarrow> bytes \<Rightarrow> nat \<Rightarrow> int \<Rightarrow> int option" where
  "compare_loop s1 i n1 s2 j n2 =
     (case (if n1 \<noteq> 0 then rd s1 i else Some 0) of
        None \<Rightarrow> None
      | Some c1 \<Rightarrow>
          (case (if n2 \<noteq> 0 then rd s2 j else Some 0) of
             None \<Rightarrow> None
           | Some c2 \<Rightarrow>
               if c1 = 0 then Some (uint c1 - uint c2)
               else if c1 \<noteq> c2 \<and> ISOLatin1ToLower c1 \<noteq> ISOLatin1ToLower c2
               then Some (uint (ISOLatin1ToLower c1) - uint (ISOLatin1ToLower c2))
               else compare_loop s1 (i + of_bool (n1 \<noteq> 0)) (n1 - 1) s2 (j + of_bool (n2 \<noteq> 0)) (n2 - 1)))"
  by pat_completeness auto
termination
  by (relation "measure (\<lambda>(s1, i, n1, s2, j, n2). length s1 - i)") (auto simp: rd_def split: if_splits)

declare compare_loop.simps [simp del]

definition CompareISOLatin1Lowered :: "bytes \<Rightarrow> int \<Rightarrow> bytes \<Rightarrow> int \<Rightarrow> int option" where
  "CompareISOLatin1Lowered s1 s1len s2 s2len = compare_loop s1 0 s1len s2 0 s2len"

section \<open>Closing a gap in an array\<close>

text \<open>The loop \<open>for (; j < n - 1; j++) a[j] = a[j + 1]\<close>, which the save sets and the handlers share.\<close>

function shift_down :: "nat \<Rightarrow> nat \<Rightarrow> 'a list \<Rightarrow> 'a list option" where
  "shift_down j n xs =
     (if j + 1 < n then do { x \<leftarrow> rd xs (j + 1); ys \<leftarrow> wr xs j x; shift_down (j + 1) n ys } else Some xs)"
  by pat_completeness auto
termination
  by (relation "measure (\<lambda>(j, n, xs). n - j)") auto

declare shift_down.simps [simp del]

section \<open>Save sets\<close>

record SaveSetElt =
  ss_window :: nat
  ss_toRoot :: bool
  ss_map :: bool

record SaveSet =
  saveSet :: "SaveSetElt list"
  numSaved :: nat

datatype set_mode = SetModeInsert | SetModeDelete

text \<open>The search gives the index of the window, or the number of elements when it is not there.\<close>

fun find_saved :: "nat \<Rightarrow> nat \<Rightarrow> SaveSetElt list \<Rightarrow> nat option" where
  "find_saved pWin 0 xs = Some 0"
| "find_saved pWin (Suc n) [] = None"
| "find_saved pWin (Suc n) (x # xs) = (if ss_window x = pWin then Some 0 else map_option Suc (find_saved pWin n xs))"

text \<open>The result says whether the request succeeded; otherwise it is \<open>BadAlloc\<close>.\<close>

definition AlterSaveSetForClient ::
  "bool \<Rightarrow> nat \<Rightarrow> set_mode \<Rightarrow> bool \<Rightarrow> bool \<Rightarrow> SaveSet \<Rightarrow> (bool \<times> SaveSet) option" where
  "AlterSaveSetForClient realloc_ok pWin mode toRoot mp c = do {
     let n = numSaved c;
     j \<leftarrow> find_saved pWin n (saveSet c);
     case mode of
       SetModeInsert \<Rightarrow>
         if j < n then Some (True, c)
         else if \<not> realloc_ok then Some (False, c)
         else Some (True, c\<lparr>saveSet := take n (saveSet c) @ [\<lparr>ss_window = pWin, ss_toRoot = toRoot, ss_map = mp\<rparr>], numSaved := n + 1\<rparr>)
     | SetModeDelete \<Rightarrow>
         if j < n then do {
           xs \<leftarrow> shift_down j n (saveSet c);
           Some (True, c\<lparr>saveSet := (if n - 1 = 0 then [] else if realloc_ok then take (n - 1) xs else xs),
                         numSaved := n - 1\<rparr>) }
         else Some (True, c) }"

text \<open>The clients are the list of their save sets, \<open>None\<close> for a free slot; \<open>realloc_ok i\<close> is for client \<open>i\<close>.\<close>

definition DeleteWindowFromAnySaveSet :: "(nat \<Rightarrow> bool) \<Rightarrow> nat \<Rightarrow> SaveSet option list \<Rightarrow> SaveSet option list option" where
  "DeleteWindowFromAnySaveSet realloc_ok pWin clients =
     those (map (\<lambda>i. case clients ! i of
         None \<Rightarrow> Some None
       | Some c \<Rightarrow> if numSaved c \<noteq> 0
           then map_option (\<lambda>r. Some (snd r)) (AlterSaveSetForClient (realloc_ok i) pWin SetModeDelete False True c)
           else Some (Some c)) [0..<length clients])"

section \<open>Block and wakeup handlers\<close>

record BlockHandlerRec =
  b_BlockHandler :: nat
  b_WakeupHandler :: nat
  b_blockData :: nat
  b_deleted :: bool

record loop =
  handlers :: "BlockHandlerRec list"
  numHandlers :: nat
  sizeHandlers :: nat
  inHandler :: nat
  handlerDeleted :: bool
  numScreens :: nat
  numGPUScreens :: nat

datatype call =
    CallBlock nat nat | CallWakeup nat nat
  | ScreenBlock nat | GPUScreenBlock nat | ScreenWakeup nat | GPUScreenWakeup nat

text \<open>The first loop of \<open>BlockHandler\<close>; it reads \<open>numHandlers\<close> in every round, \<open>fuel\<close> bounds the rounds.\<close>

fun block_calls :: "(call \<Rightarrow> 'z loop_scheme \<Rightarrow> 'z loop_scheme) \<Rightarrow> nat \<Rightarrow> nat \<Rightarrow> 'z loop_scheme \<Rightarrow> 'z loop_scheme option" where
  "block_calls run fuel i s =
     (if i < numHandlers s then
        (case fuel of
           0 \<Rightarrow> None
         | Suc f \<Rightarrow> do {
             h \<leftarrow> rd (handlers s) i;
             block_calls run f (i + 1)
               (if \<not> b_deleted h then run (CallBlock (b_BlockHandler h) (b_blockData h)) s else s) })
      else Some s)"

declare block_calls.simps [simp del]

function purge_handlers :: "nat \<Rightarrow> nat \<Rightarrow> BlockHandlerRec list \<Rightarrow> (nat \<times> BlockHandlerRec list) option" where
  "purge_handlers i n hs =
     (if i < n then do {
        h \<leftarrow> rd hs i;
        if b_deleted h then do { hs' \<leftarrow> shift_down i n hs; purge_handlers i (n - 1) hs' }
        else purge_handlers (i + 1) n hs }
      else Some (n, hs))"
  by pat_completeness auto
termination
  by (relation "measure (\<lambda>(i, n, hs). n - i)") auto

declare purge_handlers.simps [simp del]

definition finish_handlers :: "'z loop_scheme \<Rightarrow> 'z loop_scheme option" where
  "finish_handlers s = do {
     s1 \<leftarrow> (if handlerDeleted s then do {
              (n, hs) \<leftarrow> purge_handlers 0 (numHandlers s) (handlers s);
              Some (s\<lparr>numHandlers := n, handlers := hs, handlerDeleted := False\<rparr>) }
            else Some s);
     Some (s1\<lparr>inHandler := inHandler s1 - 1\<rparr>) }"

definition BlockHandler :: "(call \<Rightarrow> 'z loop_scheme \<Rightarrow> 'z loop_scheme) \<Rightarrow> nat \<Rightarrow> 'z loop_scheme \<Rightarrow> 'z loop_scheme option" where
  "BlockHandler run fuel s = do {
     s1 \<leftarrow> block_calls run fuel 0 (s\<lparr>inHandler := inHandler s + 1\<rparr>);
     let s2 = fold (\<lambda>i. run (GPUScreenBlock i)) [0..<numGPUScreens s1] s1;
     let s3 = fold (\<lambda>i. run (ScreenBlock i)) [0..<numScreens s2] s2;
     finish_handlers s3 }"

primrec wakeup_calls :: "(call \<Rightarrow> 'z loop_scheme \<Rightarrow> 'z loop_scheme) \<Rightarrow> nat \<Rightarrow> 'z loop_scheme \<Rightarrow> 'z loop_scheme option" where
  "wakeup_calls run 0 s = Some s"
| "wakeup_calls run (Suc i) s = do {
     h \<leftarrow> rd (handlers s) i;
     wakeup_calls run i
       (if \<not> b_deleted h then run (CallWakeup (b_WakeupHandler h) (b_blockData h)) s else s) }"

definition WakeupHandler :: "(call \<Rightarrow> 'z loop_scheme \<Rightarrow> 'z loop_scheme) \<Rightarrow> 'z loop_scheme \<Rightarrow> 'z loop_scheme option" where
  "WakeupHandler run s =
     (let s1 = s\<lparr>inHandler := inHandler s + 1\<rparr>;
          s2 = fold (\<lambda>i. run (ScreenWakeup i)) [0..<numScreens s1] s1;
          s3 = fold (\<lambda>i. run (GPUScreenWakeup i)) [0..<numGPUScreens s2] s2
      in do { s4 \<leftarrow> wakeup_calls run (numHandlers s3) s3; finish_handlers s4 })"

definition RegisterBlockAndWakeupHandlers :: "bool \<Rightarrow> nat \<Rightarrow> nat \<Rightarrow> nat \<Rightarrow> 'z loop_scheme \<Rightarrow> bool \<times> 'z loop_scheme" where
  "RegisterBlockAndWakeupHandlers realloc_ok block wakeup data s =
     (let h = \<lparr>b_BlockHandler = block, b_WakeupHandler = wakeup, b_blockData = data, b_deleted = False\<rparr> in
      if numHandlers s \<ge> sizeHandlers s then
        if \<not> realloc_ok then (False, s)
        else (True, s\<lparr>handlers := take (numHandlers s) (handlers s) @ [h], sizeHandlers := numHandlers s + 1,
                      numHandlers := numHandlers s + 1\<rparr>)
      else (True, s\<lparr>handlers := (handlers s)[numHandlers s := h], numHandlers := numHandlers s + 1\<rparr>))"

definition is_handler :: "nat \<Rightarrow> nat \<Rightarrow> nat \<Rightarrow> BlockHandlerRec \<Rightarrow> bool" where
  "is_handler block wakeup data h \<longleftrightarrow>
     b_BlockHandler h = block \<and> b_WakeupHandler h = wakeup \<and> b_blockData h = data"

text \<open>The search: \<open>Some None\<close> when no handler matches.\<close>

fun find_handler :: "nat \<Rightarrow> nat \<Rightarrow> nat \<Rightarrow> nat \<Rightarrow> BlockHandlerRec list \<Rightarrow> nat option option" where
  "find_handler block wakeup data 0 hs = Some None"
| "find_handler block wakeup data (Suc n) [] = None"
| "find_handler block wakeup data (Suc n) (h # hs) =
     (if is_handler block wakeup data h then Some (Some 0)
      else map_option (map_option Suc) (find_handler block wakeup data n hs))"

definition RemoveBlockAndWakeupHandlers :: "nat \<Rightarrow> nat \<Rightarrow> nat \<Rightarrow> 'z loop_scheme \<Rightarrow> 'z loop_scheme option" where
  "RemoveBlockAndWakeupHandlers block wakeup data s = do {
     r \<leftarrow> find_handler block wakeup data (numHandlers s) (handlers s);
     case r of
       None \<Rightarrow> Some s
     | Some i \<Rightarrow>
         if inHandler s \<noteq> 0 then
           Some (s\<lparr>handlerDeleted := True, handlers := (handlers s)[i := (handlers s ! i)\<lparr>b_deleted := True\<rparr>]\<rparr>)
         else do {
           hs \<leftarrow> shift_down i (numHandlers s) (handlers s);
           Some (s\<lparr>handlers := hs, numHandlers := numHandlers s - 1\<rparr>) } }"

definition InitBlockAndWakeupHandlers :: "'z loop_scheme \<Rightarrow> 'z loop_scheme" where
  "InitBlockAndWakeupHandlers s = s\<lparr>handlers := [], numHandlers := 0, sizeHandlers := 0\<rparr>"

section \<open>Arrays\<close>

lemma shift_down_spec:
  "j < n \<Longrightarrow> n \<le> length xs \<Longrightarrow>
   \<exists>ys. shift_down j n xs = Some ys \<and> length ys = length xs \<and> take (n - 1) ys = take j xs @ drop (Suc j) (take n xs)"
proof (induction j n xs rule: shift_down.induct)
  case (1 j n xs)
  show ?case
  proof (cases "j + 1 < n")
    case True
    let ?xs = "xs[j := xs ! (j + 1)]"
    have "rd xs (j + 1) = Some (xs ! (j + 1))" "wr xs j (xs ! (j + 1)) = Some ?xs"
      using 1(2,3) True by (simp_all add: rd_def wr_def)
    with 1(1) [OF True this] 1(3) True obtain ys where ys: "shift_down (j + 1) n ?xs = Some ys" "length ys = length xs"
      "take (n - 1) ys = take (j + 1) ?xs @ drop (Suc (j + 1)) (take n ?xs)"
      by auto
    have "take (j + 1) ?xs = take j xs @ [xs ! (j + 1)]"
      using 1(2,3) by (simp add: take_Suc_conv_app_nth)
    moreover have "drop (Suc (j + 1)) (take n ?xs) = drop (Suc (j + 1)) (take n xs)"
      by (simp add: take_update_swap drop_update_cancel)
    moreover have "drop (Suc j) (take n xs) = xs ! (j + 1) # drop (Suc (j + 1)) (take n xs)"
      using Cons_nth_drop_Suc [of "Suc j" "take n xs"] True 1(3) by simp
    moreover have "shift_down j n xs = shift_down (j + 1) n ?xs"
      using 1(2,3) True by (subst shift_down.simps) (simp add: rd_def wr_def)
    ultimately show ?thesis using ys by simp
  next
    case False
    then have n: "n = Suc j" using 1(2) by simp
    then show ?thesis using False 1(3) by (subst shift_down.simps) simp
  qed
qed

section \<open>Save sets\<close>

definition saved :: "SaveSet \<Rightarrow> SaveSetElt list" where
  "saved c = take (numSaved c) (saveSet c)"

definition saveset_ok :: "SaveSet \<Rightarrow> bool" where
  "saveset_ok c \<longleftrightarrow> numSaved c \<le> length (saveSet c) \<and> distinct (map ss_window (saved c))"

lemma find_saved_spec:
  "n \<le> length xs \<Longrightarrow> \<exists>j. find_saved w n xs = Some j \<and> j \<le> n \<and> (\<forall>k<j. ss_window (xs ! k) \<noteq> w) \<and> (j < n \<longrightarrow> ss_window (xs ! j) = w)"
proof (induction w n xs rule: find_saved.induct)
  case (3 w n x xs)
  show ?case
  proof (cases "ss_window x = w")
    case False
    with 3 obtain j where j: "find_saved w n xs = Some j" "j \<le> n" "\<forall>k<j. ss_window (xs ! k) \<noteq> w" "j < n \<longrightarrow> ss_window (xs ! j) = w"
      by auto
    have "\<forall>k<Suc j. ss_window ((x # xs) ! k) \<noteq> w" using j(3) False by (auto simp: less_Suc_eq_0_disj)
    then show ?thesis using j False by simp
  qed simp
qed auto

lemma saved_member:
  assumes "numSaved c \<le> length (saveSet c)"
  shows "w \<in> ss_window ` set (saved c) \<longleftrightarrow> (\<exists>k<numSaved c. ss_window (saveSet c ! k) = w)"
proof -
  have "set (saved c) = {saveSet c ! k |k. k < numSaved c}" using assms by (simp add: saved_def nth_image [symmetric]) auto
  then show ?thesis by auto
qed

lemma save_set_insert:
  assumes "saveset_ok c"
  shows "\<exists>ok c'. AlterSaveSetForClient r w SetModeInsert toRoot mp c = Some (ok, c') \<and> saveset_ok c'
    \<and> saved c' = (if w \<in> ss_window ` set (saved c) \<or> \<not> r then saved c else saved c @ [\<lparr>ss_window = w, ss_toRoot = toRoot, ss_map = mp\<rparr>])
    \<and> ok = (w \<in> ss_window ` set (saved c) \<or> r)"
proof -
  have n: "numSaved c \<le> length (saveSet c)" using assms by (simp add: saveset_ok_def)
  obtain j where j: "find_saved w (numSaved c) (saveSet c) = Some j" "j \<le> numSaved c"
    "\<forall>k<j. ss_window (saveSet c ! k) \<noteq> w" "j < numSaved c \<longrightarrow> ss_window (saveSet c ! j) = w"
    using find_saved_spec [OF n] by blast
  have "w \<in> ss_window ` set (saved c) \<longleftrightarrow> j < numSaved c"
    using j(2-4) unfolding saved_member [OF n] by (metis le_neq_implies_less)
  moreover have "w \<notin> ss_window ` set (saved c) \<Longrightarrow> distinct (map ss_window (saved c @ [\<lparr>ss_window = w, ss_toRoot = toRoot, ss_map = mp\<rparr>]))"
    using assms by (auto simp: saveset_ok_def)
  ultimately show ?thesis using assms j(1) n
    by (cases "j < numSaved c") (auto simp: AlterSaveSetForClient_def saveset_ok_def saved_def Let_def min_absorb2)
qed

lemma save_set_delete:
  assumes "saveset_ok c"
  shows "\<exists>c'. AlterSaveSetForClient r w SetModeDelete toRoot mp c = Some (True, c') \<and> saveset_ok c'
    \<and> saved c' = filter (\<lambda>x. ss_window x \<noteq> w) (saved c)"
proof -
  have n: "numSaved c \<le> length (saveSet c)" and d: "distinct (map ss_window (saved c))"
    using assms by (simp_all add: saveset_ok_def)
  obtain j where j: "find_saved w (numSaved c) (saveSet c) = Some j" "j \<le> numSaved c"
    "\<forall>k<j. ss_window (saveSet c ! k) \<noteq> w" "j < numSaved c \<longrightarrow> ss_window (saveSet c ! j) = w"
    using find_saved_spec [OF n] by blast
  show ?thesis
  proof (cases "j < numSaved c")
    case False
    then have "\<forall>x\<in>set (saved c). ss_window x \<noteq> w" using j(2,3) saved_member [OF n, of w] by (metis imageI le_neq_implies_less)
    then show ?thesis using False j assms by (simp add: AlterSaveSetForClient_def filter_id_conv)
  next
    case True
    obtain ys where ys: "shift_down j (numSaved c) (saveSet c) = Some ys" "length ys = length (saveSet c)"
      "take (numSaved c - 1) ys = take j (saveSet c) @ drop (Suc j) (saved c)"
      using shift_down_spec [OF True n] by (auto simp: saved_def)
    have s: "saved c = take j (saveSet c) @ saveSet c ! j # drop (Suc j) (saved c)"
      using id_take_nth_drop [of j "saved c"] True n by (simp add: saved_def)
    then have "distinct (map ss_window (take j (saveSet c) @ saveSet c ! j # drop (Suc j) (saved c)))" using d by metis
    then have f: "filter (\<lambda>x. ss_window x \<noteq> w) (take j (saveSet c) @ saveSet c ! j # drop (Suc j) (saved c))
        = take j (saveSet c) @ drop (Suc j) (saved c)"
      using j(4) True by (auto simp: image_iff intro!: arg_cong2 [where f = "(@)"] filter_True)
    let ?ss = "if numSaved c - 1 = 0 then [] else if r then take (numSaved c - 1) ys else ys"
    define c' where "c' = c\<lparr>saveSet := ?ss, numSaved := numSaved c - 1\<rparr>"
    have e: "AlterSaveSetForClient r w SetModeDelete toRoot mp c = Some (True, c')"
      using True j ys by (simp add: AlterSaveSetForClient_def c'_def)
    have sv: "saved c' = take j (saveSet c) @ drop (Suc j) (saved c)"
    proof -
      have "take (numSaved c - 1) ?ss = take (numSaved c - 1) ys" by simp
      then show ?thesis using ys(3) by (simp only: saved_def c'_def) simp
    qed
    then have fl: "saved c' = filter (\<lambda>x. ss_window x \<noteq> w) (saved c)" using f s by metis
    moreover have "numSaved c' \<le> length (saveSet c')" using n ys(2) by (auto simp: c'_def)
    moreover have "distinct (map ss_window (saved c'))" unfolding fl by (rule distinct_map_filter [OF d])
    ultimately show ?thesis using e by (auto simp: saveset_ok_def)
  qed
qed


section \<open>Handlers\<close>

definition active :: "'z loop_scheme \<Rightarrow> BlockHandlerRec list" where
  "active s = take (numHandlers s) (handlers s)"

definition loop_ok :: "'z loop_scheme \<Rightarrow> bool" where
  "loop_ok s \<longleftrightarrow> numHandlers s \<le> length (handlers s) \<and> length (handlers s) = sizeHandlers s
     \<and> (\<not> handlerDeleted s \<longrightarrow> (\<forall>h\<in>set (active s). \<not> b_deleted h))"

definition handler_key :: "BlockHandlerRec \<Rightarrow> nat \<times> nat \<times> nat" where
  "handler_key h = (b_BlockHandler h, b_WakeupHandler h, b_blockData h)"

lemma purge_handlers_spec:
  "i \<le> n \<Longrightarrow> n \<le> length hs \<Longrightarrow>
   \<exists>n' hs'. purge_handlers i n hs = Some (n', hs') \<and> length hs' = length hs \<and> n' \<le> n
     \<and> take n' hs' = take i hs @ filter (\<lambda>h. \<not> b_deleted h) (drop i (take n hs))"
proof (induction i n hs rule: purge_handlers.induct)
  case (1 i n hs)
  show ?case
  proof (cases "i < n")
    case True
    have rd: "rd hs i = Some (hs ! i)" using True 1(4) by (simp add: rd_def)
    have d: "drop i (take n hs) = hs ! i # drop (Suc i) (take n hs)"
      using Cons_nth_drop_Suc [of i "take n hs"] True 1(4) by simp
    show ?thesis
    proof (cases "b_deleted (hs ! i)")
      case del: True
      obtain ys where ys: "shift_down i n hs = Some ys" "length ys = length hs"
        "take (n - 1) ys = take i hs @ drop (Suc i) (take n hs)"
        using shift_down_spec [OF True 1(4)] by blast
      have "take i (take (n - 1) ys) = take i (take i hs @ drop (Suc i) (take n hs))"
        "drop i (take (n - 1) ys) = drop i (take i hs @ drop (Suc i) (take n hs))" using ys(3) by simp_all
      then have yi: "take i ys = take i hs" "drop i (take (n - 1) ys) = drop (Suc i) (take n hs)"
        using True 1(4) by (simp_all add: min_absorb1)
      obtain n' hs' where r: "purge_handlers i (n - 1) ys = Some (n', hs')" "length hs' = length ys" "n' \<le> n - 1"
        "take n' hs' = take i ys @ filter (\<lambda>h. \<not> b_deleted h) (drop i (take (n - 1) ys))"
        using 1(1) [OF True rd del ys(1)] True 1(4) ys(2) by fastforce
      have "purge_handlers i n hs = Some (n', hs')" using True rd del ys(1) r(1) by (subst purge_handlers.simps) simp
      then show ?thesis using r ys(2) yi d del by auto
    next
      case nd: False
      obtain n' hs' where r: "purge_handlers (i + 1) n hs = Some (n', hs')" "length hs' = length hs" "n' \<le> n"
        "take n' hs' = take (i + 1) hs @ filter (\<lambda>h. \<not> b_deleted h) (drop (i + 1) (take n hs))"
        using 1(2) [OF True rd nd] True 1(4) by auto
      have "purge_handlers i n hs = Some (n', hs')" using True rd nd r(1) by (subst purge_handlers.simps) simp
      then show ?thesis using r d nd True 1(4) by (auto simp: take_Suc_conv_app_nth)
    qed
  next
    case False
    then show ?thesis using 1(3) by (subst purge_handlers.simps) simp
  qed
qed

lemma find_handler_spec:
  "n \<le> length hs \<Longrightarrow> \<exists>r. find_handler b w d n hs = Some r \<and>
    (case r of None \<Rightarrow> \<forall>k<n. \<not> is_handler b w d (hs ! k)
     | Some i \<Rightarrow> i < n \<and> is_handler b w d (hs ! i) \<and> (\<forall>k<i. \<not> is_handler b w d (hs ! k)))"
proof (induction b w d n hs rule: find_handler.induct)
  case (3 b w d n h hs)
  show ?case
  proof (cases "is_handler b w d h")
    case False
    with 3 obtain r where r: "find_handler b w d n hs = Some r"
      "case r of None \<Rightarrow> \<forall>k<n. \<not> is_handler b w d (hs ! k)
       | Some i \<Rightarrow> i < n \<and> is_handler b w d (hs ! i) \<and> (\<forall>k<i. \<not> is_handler b w d (hs ! k))"
      by auto
    then have "find_handler b w d (Suc n) (h # hs) = Some (map_option Suc r)" using False by simp
    moreover have "case map_option Suc r of None \<Rightarrow> \<forall>k<Suc n. \<not> is_handler b w d ((h # hs) ! k)
       | Some i \<Rightarrow> i < Suc n \<and> is_handler b w d ((h # hs) ! i) \<and> (\<forall>k<i. \<not> is_handler b w d ((h # hs) ! k))"
      using r(2) False by (cases r) (auto simp: less_Suc_eq_0_disj)
    ultimately show ?thesis by blast
  qed simp
qed auto


text \<open>
  What the handlers do to the table while they run: they remove handlers. \<open>del c m\<close> are the keys of
  the handlers the call \<open>c\<close> removes and \<open>eff c m\<close> is what it does to the rest \<open>m\<close> of the server, from
  which both may be computed.
\<close>

definition remove_key :: "nat \<times> nat \<times> nat \<Rightarrow> 'z loop_scheme \<Rightarrow> 'z loop_scheme" where
  "remove_key k s = (case k of (b, w, d) \<Rightarrow> the (RemoveBlockAndWakeupHandlers b w d s))"

definition removes ::
  "(call \<Rightarrow> 'z \<Rightarrow> (nat \<times> nat \<times> nat) list) \<Rightarrow> (call \<Rightarrow> 'z \<Rightarrow> 'z) \<Rightarrow> (call \<Rightarrow> 'z loop_scheme \<Rightarrow> 'z loop_scheme) \<Rightarrow> bool"
where
  "removes del eff run \<longleftrightarrow> (\<forall>c s. loop_ok s \<and> inHandler s \<noteq> 0 \<longrightarrow>
     run c s = loop.more_update (eff c) (fold remove_key (del c (loop.more s)) s))"

text \<open>
  The reference: a pass over the handlers in the order given, with the set of the keys removed so
  far. A handler whose key has been removed is not called.
\<close>

definition one_call ::
  "(call \<Rightarrow> 'z \<Rightarrow> (nat \<times> nat \<times> nat) list) \<Rightarrow> (call \<Rightarrow> 'z \<Rightarrow> 'z) \<Rightarrow> call \<Rightarrow> (nat \<times> nat \<times> nat) set \<times> 'z
   \<Rightarrow> (nat \<times> nat \<times> nat) set \<times> 'z"
where
  "one_call del eff c x = (fst x \<union> set (del c (snd x)), eff c (snd x))"

definition live_calls ::
  "(call \<Rightarrow> 'z \<Rightarrow> (nat \<times> nat \<times> nat) list) \<Rightarrow> (call \<Rightarrow> 'z \<Rightarrow> 'z) \<Rightarrow> (BlockHandlerRec \<Rightarrow> call) \<Rightarrow> BlockHandlerRec list
   \<Rightarrow> (nat \<times> nat \<times> nat) set \<times> 'z \<Rightarrow> (nat \<times> nat \<times> nat) set \<times> 'z"
where
  "live_calls del eff mk hs x =
     fold (\<lambda>h x. if handler_key h \<in> fst x then x else one_call del eff (mk h) x) hs x"

definition screen_calls ::
  "(call \<Rightarrow> 'z \<Rightarrow> (nat \<times> nat \<times> nat) list) \<Rightarrow> (call \<Rightarrow> 'z \<Rightarrow> 'z) \<Rightarrow> (nat \<Rightarrow> call) \<Rightarrow> nat
   \<Rightarrow> (nat \<times> nat \<times> nat) set \<times> 'z \<Rightarrow> (nat \<times> nat \<times> nat) set \<times> 'z"
where
  "screen_calls del eff mk n x = fold (\<lambda>i. one_call del eff (mk i)) [0..<n] x"

definition block_pass where
  "block_pass del eff s =
     screen_calls del eff ScreenBlock (numScreens s) (screen_calls del eff GPUScreenBlock (numGPUScreens s)
       (live_calls del eff (\<lambda>h. CallBlock (b_BlockHandler h) (b_blockData h)) (active s) ({}, loop.more s)))"

definition wakeup_pass where
  "wakeup_pass del eff s =
     live_calls del eff (\<lambda>h. CallWakeup (b_WakeupHandler h) (b_blockData h)) (rev (active s))
       (screen_calls del eff GPUScreenWakeup (numGPUScreens s)
         (screen_calls del eff ScreenWakeup (numScreens s) ({}, loop.more s)))"

text \<open>The table while handlers run: nothing is moved, the handlers removed so far are marked.\<close>

definition marked :: "(nat \<times> nat \<times> nat) set \<Rightarrow> BlockHandlerRec \<Rightarrow> BlockHandlerRec" where
  "marked K h = (if handler_key h \<in> K then h\<lparr>b_deleted := True\<rparr> else h)"

definition running :: "'z loop_scheme \<Rightarrow> (nat \<times> nat \<times> nat) set \<times> 'z \<Rightarrow> 'z loop_scheme \<Rightarrow> bool" where
  "running s x t \<longleftrightarrow> loop_ok t \<and> numHandlers t = numHandlers s \<and> inHandler t = inHandler s \<and> inHandler t \<noteq> 0
     \<and> numScreens t = numScreens s \<and> numGPUScreens t = numGPUScreens s
     \<and> active t = map (marked (fst x)) (active s) \<and> loop.more t = snd x"

definition table_ok :: "'z loop_scheme \<Rightarrow> bool" where
  "table_ok s \<longleftrightarrow> loop_ok s \<and> (\<forall>h\<in>set (active s). \<not> b_deleted h) \<and> distinct (map handler_key (active s))"

lemma marked_key [simp]: "handler_key (marked K h) = handler_key h"
  by (simp add: marked_def handler_key_def)

lemma marked_empty [simp]: "marked {} = (\<lambda>h. h)"
  by (simp add: marked_def fun_eq_iff)

lemma marked_deleted: "\<not> b_deleted h \<Longrightarrow> b_deleted (marked K h) \<longleftrightarrow> handler_key h \<in> K"
  by (simp add: marked_def)

lemma marked_insert: "handler_key h = k \<Longrightarrow> marked (insert k K) h = (marked K h)\<lparr>b_deleted := True\<rparr>"
  by (simp add: marked_def)

lemma marked_other: "handler_key h \<noteq> k \<Longrightarrow> marked (insert k K) h = marked K h"
  by (simp add: marked_def)

lemma is_handler_key: "is_handler b w d h \<longleftrightarrow> handler_key h = (b, w, d)"
  by (auto simp: is_handler_def handler_key_def)

text \<open>Removing a handler from within a handler marks it.\<close>

lemma remove_key_running:
  assumes "running s x t" "table_ok s"
  shows "running s (insert k (fst x), snd x) (remove_key k t)"
proof -
  obtain b w d where k: "k = (b, w, d)" by (cases k)
  note r = assms(1) [unfolded running_def]
  have n: "numHandlers t \<le> length (handlers t)" using r by (simp add: loop_ok_def)
  have nth: "handlers t ! i = marked (fst x) (active s ! i)" "handler_key (handlers t ! i) = handler_key (active s ! i)"
    if "i < numHandlers t" for i
  proof -
    have "active t ! i = handlers t ! i" using that by (simp add: active_def)
    moreover have "length (active t) = length (active s)" using r by simp
    then have "i < length (active s)" using that n by (simp add: active_def)
    ultimately show "handlers t ! i = marked (fst x) (active s ! i)" using r by simp
    then show "handler_key (handlers t ! i) = handler_key (active s ! i)" by simp
  qed
  have len: "length (active s) = numHandlers t" using r n by (metis active_def length_map length_take min_absorb2)
  obtain f where f: "find_handler b w d (numHandlers t) (handlers t) = Some f"
    "case f of None \<Rightarrow> \<forall>i<numHandlers t. \<not> is_handler b w d (handlers t ! i)
     | Some i \<Rightarrow> i < numHandlers t \<and> is_handler b w d (handlers t ! i) \<and> (\<forall>j<i. \<not> is_handler b w d (handlers t ! j))"
    using find_handler_spec [OF n] by blast
  show ?thesis
  proof (cases f)
    case None
    then have "handler_key h \<noteq> k" if "h \<in> set (active s)" for h
      using f(2) that nth(2) len unfolding k by (auto simp: in_set_conv_nth is_handler_key)
    then have "map (marked (insert k (fst x))) (active s) = map (marked (fst x)) (active s)" by (simp add: marked_other)
    moreover have "remove_key k t = t" using f(1) None by (simp add: k remove_key_def RemoveBlockAndWakeupHandlers_def)
    ultimately show ?thesis using r by (simp add: running_def)
  next
    case (Some i)
    let ?h = "(handlers t ! i)\<lparr>b_deleted := True\<rparr>"
    let ?t = "t\<lparr>handlerDeleted := True, handlers := (handlers t)[i := ?h]\<rparr>"
    have i: "i < numHandlers t" "handler_key (active s ! i) = k"
      using f(2) Some nth(2) unfolding k by (auto simp: is_handler_key)
    have other: "handler_key (active s ! j) \<noteq> k" if "j < length (active s)" "j \<noteq> i" for j
      using that i len assms(2) by (auto simp: table_ok_def distinct_conv_nth)
    have "remove_key k t = ?t" using f(1) Some r by (simp add: k remove_key_def RemoveBlockAndWakeupHandlers_def)
    moreover have "active ?t = (active t)[i := ?h]" by (simp add: active_def take_update_swap)
    moreover have "(map (marked (fst x)) (active s))[i := ?h] = map (marked (insert k (fst x))) (active s)"
    proof (rule nth_equalityI)
      fix j
      assume "j < length ((map (marked (fst x)) (active s))[i := ?h])"
      then have j: "j < length (active s)" by simp
      show "(map (marked (fst x)) (active s))[i := ?h] ! j = map (marked (insert k (fst x))) (active s) ! j"
        using i(2) nth(1) [OF i(1)] other [OF j] j i(1) len
        by (cases "j = i") (simp_all add: marked_insert marked_other)
    qed simp
    ultimately show ?thesis using r by (simp add: running_def loop_ok_def)
  qed
qed

lemma remove_keys_running:
  "running s x t \<Longrightarrow> table_ok s \<Longrightarrow> running s (fst x \<union> set ks, snd x) (fold remove_key ks t)"
proof (induction ks arbitrary: x t)
  case (Cons k ks)
  from Cons.IH [OF remove_key_running [OF Cons.prems] Cons.prems(2)] show ?case by simp
qed simp

lemma run_running:
  assumes "removes del eff run" "table_ok s" "running s x t"
  shows "running s (one_call del eff c x) (run c t)"
proof -
  have "run c t = loop.more_update (eff c) (fold remove_key (del c (snd x)) t)"
    using assms(1,3) by (simp add: removes_def running_def)
  moreover have "active (loop.more_update f u) = active u" for f :: "'a \<Rightarrow> 'a" and u by (simp add: active_def)
  ultimately show ?thesis
    using remove_keys_running [OF assms(3,2), of "del c (snd x)"]
    by (simp add: running_def one_call_def loop_ok_def)
qed

lemma screens_running:
  assumes "removes del eff run" "table_ok s"
  shows "running s x t \<Longrightarrow> running s (screen_calls del eff mk n x) (fold (\<lambda>i. run (mk i)) [0..<n] t)"
  by (induction n arbitrary: x t) (simp_all add: screen_calls_def run_running [OF assms])

text \<open>One handler of the table: it is called unless it has been removed.\<close>

lemma handler_running:
  assumes "removes del eff run" "table_ok s" "running s x t" "i < numHandlers s"
  shows "\<exists>h. rd (handlers t) i = Some h
    \<and> b_BlockHandler h = b_BlockHandler (active s ! i) \<and> b_WakeupHandler h = b_WakeupHandler (active s ! i)
    \<and> b_blockData h = b_blockData (active s ! i) \<and> (b_deleted h \<longleftrightarrow> handler_key (active s ! i) \<in> fst x)
    \<and> running s (if handler_key (active s ! i) \<in> fst x then x else one_call del eff c x)
        (if \<not> b_deleted h then run c t else t)"
proof -
  note r = assms(3) [unfolded running_def]
  have n: "numHandlers t \<le> length (handlers t)" "i < numHandlers t" using r assms(4) by (simp_all add: loop_ok_def)
  have len: "i < length (active s)" using r n by (metis active_def length_map length_take min_absorb2)
  have "handlers t ! i = active t ! i" using n by (simp add: active_def)
  also have "\<dots> = marked (fst x) (active s ! i)" using r len by simp
  finally have h: "handlers t ! i = marked (fst x) (active s ! i)" .
  have "\<not> b_deleted (active s ! i)" using assms(2) len by (simp add: table_ok_def)
  then have "b_deleted (handlers t ! i) \<longleftrightarrow> handler_key (active s ! i) \<in> fst x" unfolding h by (rule marked_deleted)
  then show ?thesis
    using n h run_running [OF assms(1-3), of c] assms(3) by (simp add: rd_def marked_def)
qed

lemma live_calls_Cons:
  "live_calls del eff mk (h # hs) x =
     live_calls del eff mk hs (if handler_key h \<in> fst x then x else one_call del eff (mk h) x)"
  by (simp add: live_calls_def)

lemma block_calls_running:
  assumes "removes del eff run" "table_ok s" "running s x t" "numHandlers s - i \<le> fuel" "i \<le> numHandlers s"
  shows "\<exists>u. block_calls run fuel i t = Some u
    \<and> running s (live_calls del eff (\<lambda>h. CallBlock (b_BlockHandler h) (b_blockData h)) (drop i (active s)) x) u"
  using assms(3-5)
proof (induction fuel arbitrary: i x t)
  case 0
  have "length (active s) \<le> numHandlers s" by (simp add: active_def)
  then show ?case using 0 by (subst block_calls.simps) (simp add: running_def live_calls_def)
next
  case (Suc f)
  have n: "numHandlers t = numHandlers s" using Suc.prems(1) by (simp add: running_def)
  show ?case
  proof (cases "i < numHandlers s")
    case True
    let ?c = "CallBlock (b_BlockHandler (active s ! i)) (b_blockData (active s ! i))"
    obtain h where h: "rd (handlers t) i = Some h" "b_BlockHandler h = b_BlockHandler (active s ! i)"
      "b_blockData h = b_blockData (active s ! i)" "b_deleted h \<longleftrightarrow> handler_key (active s ! i) \<in> fst x"
      "running s (if handler_key (active s ! i) \<in> fst x then x else one_call del eff ?c x) (if \<not> b_deleted h then run ?c t else t)"
      using handler_running [OF assms(1,2) Suc.prems(1) True] by blast
    have "length (active s) = numHandlers s"
      using assms(2) by (auto simp: table_ok_def loop_ok_def active_def)
    then have "drop i (active s) = active s ! i # drop (i + 1) (active s)" using True by (simp add: Cons_nth_drop_Suc)
    then show ?thesis
      using Suc.IH [OF h(5), of "i + 1"] Suc.prems(2) True h(1-4) n
      by (subst block_calls.simps) (cases "handler_key (active s ! i) \<in> fst x"; simp add: live_calls_Cons)
  next
    case False
    have "length (active s) \<le> numHandlers s" by (simp add: active_def)
    then show ?thesis using False Suc.prems(1) n by (subst block_calls.simps) (simp add: live_calls_def)
  qed
qed

lemma wakeup_calls_running:
  assumes "removes del eff run" "table_ok s" "running s x t" "i \<le> numHandlers s"
  shows "\<exists>u. wakeup_calls run i t = Some u
    \<and> running s (live_calls del eff (\<lambda>h. CallWakeup (b_WakeupHandler h) (b_blockData h)) (rev (take i (active s))) x) u"
  using assms(3,4)
proof (induction i arbitrary: x t)
  case 0
  then show ?case by (simp add: live_calls_def)
next
  case (Suc i)
  then have i: "i < numHandlers s" by simp
  let ?c = "CallWakeup (b_WakeupHandler (active s ! i)) (b_blockData (active s ! i))"
  obtain h where h: "rd (handlers t) i = Some h" "b_WakeupHandler h = b_WakeupHandler (active s ! i)"
    "b_blockData h = b_blockData (active s ! i)" "b_deleted h \<longleftrightarrow> handler_key (active s ! i) \<in> fst x"
    "running s (if handler_key (active s ! i) \<in> fst x then x else one_call del eff ?c x) (if \<not> b_deleted h then run ?c t else t)"
    using handler_running [OF assms(1,2) Suc.prems(1) i] by blast
  have "length (active s) = numHandlers s"
    using assms(2) by (auto simp: table_ok_def loop_ok_def active_def)
  then have "rev (take (Suc i) (active s)) = active s ! i # rev (take i (active s))"
    using i by (simp add: take_Suc_conv_app_nth)
  then show ?case using Suc.IH [OF h(5)] i h(1-4)
    by (cases "handler_key (active s ! i) \<in> fst x"; simp add: live_calls_Cons)
qed

lemma finish_running:
  assumes "running (s\<lparr>inHandler := inHandler s + 1\<rparr>) x t" "table_ok s"
  shows "\<exists>u. finish_handlers t = Some u \<and> table_ok u \<and> \<not> handlerDeleted u \<and> inHandler u = inHandler s
    \<and> active u = filter (\<lambda>h. handler_key h \<notin> fst x) (active s) \<and> loop.more u = snd x"
proof -
  have a: "active (s\<lparr>inHandler := inHandler s + 1\<rparr>) = active s" by (simp add: active_def)
  note r = assms(1) [unfolded running_def a]
  have n: "numHandlers t \<le> length (handlers t)" "length (handlers t) = sizeHandlers t" using r by (simp_all add: loop_ok_def)
  have nd: "\<forall>h\<in>set (active s). \<not> b_deleted h" "distinct (map handler_key (active s))" using assms(2) by (simp_all add: table_ok_def)
  have live: "filter (\<lambda>h. \<not> b_deleted h) (active t) = filter (\<lambda>h. handler_key h \<notin> fst x) (active s)" (is "_ = ?live")
  proof -
    have "filter (\<lambda>h. \<not> b_deleted h) (active t) = map (marked (fst x)) (filter (\<lambda>h. handler_key h \<notin> fst x) (active s))"
      using r nd(1) by (simp add: filter_map marked_deleted cong: filter_cong)
    also have "\<dots> = ?live" by (rule map_idI) (simp add: marked_def)
    finally show ?thesis .
  qed
  have ok: "\<forall>h\<in>set ?live. \<not> b_deleted h" "distinct (map handler_key ?live)"
    using nd by (auto intro: distinct_map_filter)
  show ?thesis
  proof (cases "handlerDeleted t")
    case True
    obtain k hs where p: "purge_handlers 0 (numHandlers t) (handlers t) = Some (k, hs)" "length hs = length (handlers t)"
      "k \<le> numHandlers t" "take k hs = filter (\<lambda>h. \<not> b_deleted h) (active t)"
      using purge_handlers_spec [of 0 "numHandlers t" "handlers t"] n(1) by (auto simp: active_def)
    define u where "u = t\<lparr>numHandlers := k, handlers := hs, handlerDeleted := False, inHandler := inHandler s\<rparr>"
    have act: "active u = ?live" using p(4) live by (simp add: u_def active_def)
    moreover have "finish_handlers t = Some u" using True p(1) r by (simp add: finish_handlers_def u_def)
    moreover have "table_ok u" unfolding table_ok_def loop_ok_def act using p n ok by (simp add: u_def)
    moreover have "\<not> handlerDeleted u" "inHandler u = inHandler s" "loop.more u = snd x" using r by (simp_all add: u_def)
    ultimately show ?thesis by blast
  next
    case False
    define u where "u = t\<lparr>inHandler := inHandler s\<rparr>"
    have "filter (\<lambda>h. \<not> b_deleted h) (active t) = active t"
      using False r by (auto simp: filter_id_conv loop_ok_def)
    then have act: "active u = ?live" using live by (simp add: u_def active_def)
    moreover have "finish_handlers t = Some u" using False r by (simp add: finish_handlers_def u_def)
    moreover have "table_ok u" unfolding table_ok_def loop_ok_def act using n ok False by (simp add: u_def)
    moreover have "\<not> handlerDeleted u" "inHandler u = inHandler s" "loop.more u = snd x" using False r by (simp_all add: u_def)
    ultimately show ?thesis by blast
  qed
qed

section \<open>Names\<close>

text \<open>The bytes a comparison may look at, up to a terminator or the given length, if they can be read.\<close>

definition name_of :: "bytes \<Rightarrow> int \<Rightarrow> bytes" where
  "name_of s n = cstr (if n < 0 then s else take (nat n) s)"

definition readable :: "bytes \<Rightarrow> int \<Rightarrow> bool" where
  "readable s n \<longleftrightarrow> 0 \<in> set s \<or> 0 \<le> n \<and> nat n \<le> length s"

lemma lower_0: "ISOLatin1ToLower c = 0 \<longleftrightarrow> c = 0"
proof -
  have "c + 0x20 = 0 \<Longrightarrow> c = 0xe0" by (simp add: add_eq_0_iff2)
  then show ?thesis by (auto simp: ISOLatin1ToLower_def)
qed

lemma name_of_step:
  assumes "readable s n" "i \<le> length s0" "s = drop i s0"
  obtains (at_end) "name_of s n = []" "(if n \<noteq> 0 then rd s0 i else Some 0) = Some 0"
    | (char) c t where "name_of s n = c # t" "c \<noteq> 0" "n \<noteq> 0" "rd s0 i = Some c" "Suc i \<le> length s0"
        "readable (drop (Suc i) s0) (n - 1)" "name_of (drop (Suc i) s0) (n - 1) = t"
proof (cases "n = 0")
  case True
  then show thesis using at_end by (simp add: name_of_def cstr_def)
next
  case False
  then obtain c r where s: "s = c # r" using assms(1) by (cases s) (auto simp: readable_def)
  then have i: "rd s0 i = Some c" "Suc i \<le> length s0" "drop (Suc i) s0 = r"
  proof -
    have "i < length s0" using s assms(3) by (cases "i < length s0") auto
    then show "rd s0 i = Some c" "Suc i \<le> length s0" "drop (Suc i) s0 = r"
      using Cons_nth_drop_Suc [of i s0] s assms(3) by (auto simp: rd_def)
  qed
  show thesis
  proof (cases "c = 0")
    case True
    then show thesis using at_end i False s by (auto simp: name_of_def cstr_def take_Cons' )
  next
    case nz: False
    have "name_of s n = c # name_of r (n - 1)"
      using False nz s by (auto simp: name_of_def cstr_def take_Cons' nat_diff_distrib)
    moreover have "readable r (n - 1)" using assms(1) nz False s by (auto simp: readable_def)
    ultimately show thesis using char nz False i by blast
  qed
qed

lemma compare_loop_ok:
  assumes "i \<le> length s1" "j \<le> length s2" "readable (drop i s1) n1" "readable (drop j s2) n2"
  shows "\<exists>r. compare_loop s1 i n1 s2 j n2 = Some r \<and>
    (r = 0 \<longleftrightarrow> map ISOLatin1ToLower (name_of (drop i s1) n1) = map ISOLatin1ToLower (name_of (drop j s2) n2))"
  using assms
proof (induction s1 i n1 s2 j n2 rule: compare_loop.induct)
  case (1 s1 i n1 s2 j n2)
  have z: "uint (c :: u8) = 0 \<longleftrightarrow> c = 0" for c by (simp add: unsigned_eq_0_iff)
  show ?case
  proof (rule name_of_step [OF 1(4) 1(2) refl])
    assume a: "name_of (drop i s1) n1 = []" "(if n1 \<noteq> 0 then rd s1 i else Some 0) = Some 0"
    show ?thesis
      by (rule name_of_step [OF 1(5) 1(3) refl]; subst compare_loop.simps) (use a in \<open>auto simp: z\<close>)
  next
    fix c t
    assume a: "name_of (drop i s1) n1 = c # t" "c \<noteq> 0" "n1 \<noteq> 0" "rd s1 i = Some c" "Suc i \<le> length s1"
      "readable (drop (Suc i) s1) (n1 - 1)" "name_of (drop (Suc i) s1) (n1 - 1) = t"
    show ?thesis
    proof (rule name_of_step [OF 1(5) 1(3) refl])
      assume b: "name_of (drop j s2) n2 = []" "(if n2 \<noteq> 0 then rd s2 j else Some 0) = Some 0"
      have l: "ISOLatin1ToLower 0 = 0" by (simp add: ISOLatin1ToLower_def)
      show ?thesis using a b by (subst compare_loop.simps) (auto simp: z lower_0 l)
    next
      fix d u
      assume b: "name_of (drop j s2) n2 = d # u" "d \<noteq> 0" "n2 \<noteq> 0" "rd s2 j = Some d" "Suc j \<le> length s2"
        "readable (drop (Suc j) s2) (n2 - 1)" "name_of (drop (Suc j) s2) (n2 - 1) = u"
      show ?thesis
      proof (cases "ISOLatin1ToLower c = ISOLatin1ToLower d")
        case False
        moreover have "uint (ISOLatin1ToLower c) - uint (ISOLatin1ToLower d) \<noteq> 0"
          using False by (simp add: word_uint_eq_iff)
        moreover have "c \<noteq> d" using False by auto
        ultimately show ?thesis using a b by (subst compare_loop.simps) simp
      next
        case True
        have "compare_loop s1 i n1 s2 j n2 = compare_loop s1 (Suc i) (n1 - 1) s2 (Suc j) (n2 - 1)"
          using a b True by (subst compare_loop.simps) simp
        then show ?thesis using 1(1) [of c d] a b True by simp
      qed
    qed
  qed
qed

section \<open>The properties of the utilities\<close>

text \<open>C15: \<open>CompareISOLatin1Lowered\<close> is equivalent to comparing the names after lowering every
  character: for names that end with a terminator or with their length, it reads nothing behind
  them, returns, and returns 0 exactly when the lowered names are equal.\<close>
theorem latin1_names_compared:
  assumes "readable s1 n1" "readable s2 n2"
  shows "\<exists>r. CompareISOLatin1Lowered s1 n1 s2 n2 = Some r \<and>
    (r = 0 \<longleftrightarrow> map ISOLatin1ToLower (name_of s1 n1) = map ISOLatin1ToLower (name_of s2 n2))"
  using compare_loop_ok [of 0 s1 0 s2 n1 n2] assms by (simp add: CompareISOLatin1Lowered_def)

theorem latin1_names_compared_witness:
  "CompareISOLatin1Lowered [0x41, 0xc4] 2 [0x61, 0xe4, 0] (-1) = Some 0"
  using latin1_names_compared [of "[0x41, 0xc4]" 2 "[0x61, 0xe4, 0]" "-1"]
  by (auto simp: readable_def name_of_def cstr_def ISOLatin1ToLower_def)

text \<open>C10: Handlers may remove handlers, themselves included, while \<open>BlockHandler\<close> or
  \<open>WakeupHandler\<close> runs through the table. Both return, and what they do is the pass of the reference:
  the handlers are called in their order (backwards for the wakeup handlers, the screens after or
  before them), each one unless it has been removed before its turn. Afterwards the table holds
  exactly the handlers that no call removed, in their former order. No two handlers of the table
  are the same function with the same data.\<close>
theorem handlers_run_and_purged:
  assumes "table_ok s" "removes del eff run" "numHandlers s \<le> fuel"
    "(r, x) \<in> {(BlockHandler run fuel s, block_pass del eff s), (WakeupHandler run s, wakeup_pass del eff s)}"
  shows "\<exists>s'. r = Some s' \<and> table_ok s' \<and> \<not> handlerDeleted s' \<and> inHandler s' = inHandler s
    \<and> active s' = filter (\<lambda>h. handler_key h \<notin> fst x) (active s) \<and> loop.more s' = snd x"
proof -
  let ?s = "s\<lparr>inHandler := inHandler s + 1\<rparr>"
  have a: "active (s\<lparr>inHandler := k\<rparr>) = active s" for k by (simp add: active_def)
  have ok: "table_ok ?s" using assms(1) by (simp add: table_ok_def loop_ok_def a)
  then have start: "running ?s ({}, loop.more s) ?s" by (simp add: running_def table_ok_def)
  note scr = screens_running [OF assms(2) ok]
  obtain t where t: "block_calls run fuel 0 ?s = Some t"
    "running ?s (live_calls del eff (\<lambda>h. CallBlock (b_BlockHandler h) (b_blockData h)) (active s) ({}, loop.more s)) t"
    using block_calls_running [OF assms(2) ok start, of 0 fuel] assms(3) a by auto
  let ?t = "fold (\<lambda>i. run (GPUScreenBlock i)) [0..<numGPUScreens s] t"
  have n: "numGPUScreens t = numGPUScreens s" "numScreens ?t = numScreens s"
    using t(2) scr [OF t(2), of GPUScreenBlock "numGPUScreens s"] by (simp_all add: running_def)
  have b: "running ?s (block_pass del eff s) (fold (\<lambda>i. run (ScreenBlock i)) [0..<numScreens s] ?t)"
    unfolding block_pass_def by (intro scr t(2))
  let ?w1 = "fold (\<lambda>i. run (ScreenWakeup i)) [0..<numScreens s] ?s"
  let ?w = "fold (\<lambda>i. run (GPUScreenWakeup i)) [0..<numGPUScreens s] ?w1"
  note w1 = scr [OF start, of ScreenWakeup "numScreens s"]
  note w = scr [OF w1, of GPUScreenWakeup "numGPUScreens s"]
  have wn: "numGPUScreens ?w1 = numGPUScreens s" "numHandlers ?w = numHandlers s"
    using w1 w by (simp_all add: running_def)
  obtain u where u: "wakeup_calls run (numHandlers s) ?w = Some u" "running ?s (wakeup_pass del eff s) u"
    using wakeup_calls_running [OF assms(2) ok w, of "numHandlers s"] by (auto simp: wakeup_pass_def a) (simp add: active_def)
  have "BlockHandler run fuel s = finish_handlers (fold (\<lambda>i. run (ScreenBlock i)) [0..<numScreens s] ?t)"
    using t(1) n by (simp add: BlockHandler_def Let_def)
  moreover have "WakeupHandler run s = finish_handlers u"
    using u(1) wn by (simp add: WakeupHandler_def Let_def)
  ultimately show ?thesis
    using finish_running [OF b assms(1)] finish_running [OF u(2) assms(1)] assms(4) by auto
qed

text \<open>Two handlers of which the first removes the second.\<close>

definition sample_loop :: loop where
  "sample_loop = \<lparr>handlers = [\<lparr>b_BlockHandler = 1, b_WakeupHandler = 1, b_blockData = 0, b_deleted = False\<rparr>,
       \<lparr>b_BlockHandler = 2, b_WakeupHandler = 2, b_blockData = 0, b_deleted = False\<rparr>],
     numHandlers = 2, sizeHandlers = 2, inHandler = 0, handlerDeleted = False, numScreens = 1, numGPUScreens = 0\<rparr>"

definition sample_del :: "call \<Rightarrow> unit \<Rightarrow> (nat \<times> nat \<times> nat) list" where
  "sample_del c m = (if c = CallBlock 1 0 then [(2, 2, 0)] else [])"

definition sample_run :: "call \<Rightarrow> loop \<Rightarrow> loop" where
  "sample_run c s = fold remove_key (sample_del c ()) s"

theorem handlers_run_and_purged_witness:
  "\<exists>s'. BlockHandler sample_run 2 sample_loop = Some s' \<and> \<not> handlerDeleted s' \<and> active s' = [handlers sample_loop ! 0]"
proof -
  have "table_ok sample_loop" "numHandlers sample_loop \<le> 2"
    by (simp_all add: sample_loop_def table_ok_def loop_ok_def active_def numeral_2_eq_2 handler_key_def)
  moreover have "removes sample_del (\<lambda>c m. m) sample_run" by (simp add: removes_def sample_run_def)
  ultimately show ?thesis
    using handlers_run_and_purged [of sample_loop sample_del "\<lambda>c m. m" sample_run 2
        "BlockHandler sample_run 2 sample_loop" "block_pass sample_del (\<lambda>c m. m) sample_loop"]
    by (auto simp: block_pass_def live_calls_def screen_calls_def one_call_def sample_del_def sample_loop_def active_def
        handler_key_def numeral_2_eq_2)
qed

end
