(* ===== verification/Callbacks.thy ===== *)
theory Callbacks
  imports Prelude
begin

text \<open>
  The callback manager of \<open>xserver/dix/dixutils.c\<close>.

  A callback list lives behind a pointer variable \<open>pcbl\<close>, which is null until the first callback
  is added: \<open>lists\<close> maps the variable to the list it points to. The manager remembers the
  variables in \<open>listsToCleanup\<close>. The callbacks are the parameter \<open>run\<close>, on the whole state, so
  that they may add and delete callbacks and whole lists; following a null or freed list gives
  \<open>None\<close>.
\<close>

section \<open>State and operations\<close>

record CallbackRec =
  cb_proc :: nat
  cb_data :: nat
  cb_deleted :: bool

record CallbackListRec =
  inCallback :: nat
  cbl_deleted :: bool
  numDeleted :: nat
  cbl_list :: "CallbackRec list"

record cbs =
  lists :: "nat \<rightharpoonup> CallbackListRec"
  listsToCleanup :: "nat option list"

definition new_callback :: "nat \<Rightarrow> nat \<Rightarrow> CallbackRec" where
  "new_callback callback data = \<lparr>cb_proc = callback, cb_data = data, cb_deleted = False\<rparr>"

definition add_callback :: "bool \<Rightarrow> nat \<Rightarrow> nat \<Rightarrow> nat \<Rightarrow> 'z cbs_scheme \<Rightarrow> (bool \<times> 'z cbs_scheme) option" where
  "add_callback malloc_ok pcbl callback data s =
     (if \<not> malloc_ok then Some (False, s)
      else do {
        cbl \<leftarrow> lists s pcbl;
        Some (True, s\<lparr>lists := (lists s)(pcbl \<mapsto> cbl\<lparr>cbl_list := new_callback callback data # cbl_list cbl\<rparr>)\<rparr>) })"

definition is_callback :: "nat \<Rightarrow> nat \<Rightarrow> CallbackRec \<Rightarrow> bool" where
  "is_callback callback data c \<longleftrightarrow> cb_proc c = callback \<and> cb_data c = data"

text \<open>The search of \<open>_DeleteCallback\<close> with what it does to the first match, and whether there is one.\<close>

fun mark_callback :: "nat \<Rightarrow> nat \<Rightarrow> CallbackRec list \<Rightarrow> bool \<times> CallbackRec list" where
  "mark_callback callback data [] = (False, [])"
| "mark_callback callback data (c # cs) =
     (if is_callback callback data c then (True, c\<lparr>cb_deleted := True\<rparr> # cs)
      else (let (b, r) = mark_callback callback data cs in (b, c # r)))"

fun drop_callback :: "nat \<Rightarrow> nat \<Rightarrow> CallbackRec list \<Rightarrow> bool \<times> CallbackRec list" where
  "drop_callback callback data [] = (False, [])"
| "drop_callback callback data (c # cs) =
     (if is_callback callback data c then (True, cs)
      else (let (b, r) = drop_callback callback data cs in (b, c # r)))"

definition delete_callback :: "nat \<Rightarrow> nat \<Rightarrow> nat \<Rightarrow> 'z cbs_scheme \<Rightarrow> (bool \<times> 'z cbs_scheme) option" where
  "delete_callback pcbl callback data s = do {
     cbl \<leftarrow> lists s pcbl;
     Some (if inCallback cbl \<noteq> 0 then
             (case mark_callback callback data (cbl_list cbl) of
                (True, cs) \<Rightarrow> (True, s\<lparr>lists := (lists s)(pcbl \<mapsto> cbl\<lparr>numDeleted := numDeleted cbl + 1, cbl_list := cs\<rparr>)\<rparr>)
              | (False, _) \<Rightarrow> (False, s))
           else
             (case drop_callback callback data (cbl_list cbl) of
                (True, cs) \<Rightarrow> (True, s\<lparr>lists := (lists s)(pcbl \<mapsto> cbl\<lparr>cbl_list := cs\<rparr>)\<rparr>)
              | (False, _) \<Rightarrow> (False, s))) }"

fun forget_list :: "nat \<Rightarrow> nat option list \<Rightarrow> nat option list" where
  "forget_list pcbl [] = []"
| "forget_list pcbl (l # ls) = (if l = Some pcbl then None # ls else l # forget_list pcbl ls)"

definition delete_list :: "nat \<Rightarrow> 'z cbs_scheme \<Rightarrow> 'z cbs_scheme option" where
  "delete_list pcbl s = do {
     cbl \<leftarrow> lists s pcbl;
     Some (if inCallback cbl \<noteq> 0 then s\<lparr>lists := (lists s)(pcbl \<mapsto> cbl\<lparr>cbl_deleted := True\<rparr>)\<rparr>
           else s\<lparr>listsToCleanup := forget_list pcbl (listsToCleanup s), lists := (lists s)(pcbl := None)\<rparr>) }"

text \<open>The clean-up of single callbacks stops when \<open>numDeleted\<close> reaches 0 or the list ends.\<close>

fun purge_callbacks :: "nat \<Rightarrow> CallbackRec list \<Rightarrow> nat \<times> CallbackRec list" where
  "purge_callbacks n [] = (n, [])"
| "purge_callbacks n (c # cs) =
     (if n = 0 then (0, c # cs)
      else if cb_deleted c then purge_callbacks (n - 1) cs
      else (let (k, r) = purge_callbacks n cs in (k, c # r)))"

definition DeleteCallbackList :: "nat option \<Rightarrow> 'z cbs_scheme \<Rightarrow> 'z cbs_scheme option" where
  "DeleteCallbackList pcbl s =
     (case pcbl of
        None \<Rightarrow> Some s
      | Some p \<Rightarrow> if lists s p = None then Some s else delete_list p s)"

text \<open>
  \<open>_CallCallbacks\<close> follows the \<open>next\<close> pointers of the list it starts with. While \<open>inCallback\<close> is
  not 0 no callback is unlinked and new ones are linked in front, so these are the callbacks that
  were in the list at the start, the ones marked as deleted included.
\<close>

definition CallCallbackList ::
  "(nat \<Rightarrow> nat \<Rightarrow> nat \<Rightarrow> nat \<Rightarrow> 'z cbs_scheme \<Rightarrow> 'z cbs_scheme) \<Rightarrow> nat \<Rightarrow> nat \<Rightarrow> 'z cbs_scheme \<Rightarrow> 'z cbs_scheme option"
where
  "CallCallbackList run pcbl call_data s = do {
     cbl \<leftarrow> lists s pcbl;
     let s1 = s\<lparr>lists := (lists s)(pcbl \<mapsto> cbl\<lparr>inCallback := inCallback cbl + 1\<rparr>)\<rparr>;
     let s2 = fold (\<lambda>c. run (cb_proc c) pcbl (cb_data c) call_data) (cbl_list cbl) s1;
     cbl2 \<leftarrow> lists s2 pcbl;
     let cbl3 = cbl2\<lparr>inCallback := inCallback cbl2 - 1\<rparr>;
     let s3 = s2\<lparr>lists := (lists s2)(pcbl \<mapsto> cbl3)\<rparr>;
     if inCallback cbl3 \<noteq> 0 then Some s3
     else if cbl_deleted cbl3 then DeleteCallbackList (Some pcbl) s3
     else if numDeleted cbl3 \<noteq> 0 then
       (let (n, cs) = purge_callbacks (numDeleted cbl3) (cbl_list cbl3)
        in Some (s3\<lparr>lists := (lists s3)(pcbl \<mapsto> cbl3\<lparr>numDeleted := n, cbl_list := cs\<rparr>)\<rparr>))
     else Some s3 }"

fun remember_list :: "nat \<Rightarrow> nat option list \<Rightarrow> nat option list" where
  "remember_list pcbl [] = [Some pcbl]"
| "remember_list pcbl (l # ls) = (if l = None then Some pcbl # ls else l # remember_list pcbl ls)"

definition CreateCallbackList :: "bool \<Rightarrow> nat option \<Rightarrow> 'z cbs_scheme \<Rightarrow> bool \<times> 'z cbs_scheme" where
  "CreateCallbackList malloc_ok pcbl s =
     (case pcbl of
        None \<Rightarrow> (False, s)
      | Some p \<Rightarrow>
          if \<not> malloc_ok then (False, s)
          else (True, s\<lparr>lists := (lists s)(p \<mapsto> \<lparr>inCallback = 0, cbl_deleted = False, numDeleted = 0, cbl_list = []\<rparr>),
                        listsToCleanup := remember_list p (listsToCleanup s)\<rparr>))"

definition AddCallback :: "bool \<Rightarrow> bool \<Rightarrow> nat option \<Rightarrow> nat \<Rightarrow> nat \<Rightarrow> 'z cbs_scheme \<Rightarrow> (bool \<times> 'z cbs_scheme) option" where
  "AddCallback list_ok malloc_ok pcbl callback data s =
     (case pcbl of
        None \<Rightarrow> Some (False, s)
      | Some p \<Rightarrow>
          (case lists s p of
             Some _ \<Rightarrow> add_callback malloc_ok p callback data s
           | None \<Rightarrow> (case CreateCallbackList list_ok pcbl s of
                         (False, s1) \<Rightarrow> Some (False, s1)
                       | (True, s1) \<Rightarrow> add_callback malloc_ok p callback data s1)))"

definition DeleteCallback :: "nat option \<Rightarrow> nat \<Rightarrow> nat \<Rightarrow> 'z cbs_scheme \<Rightarrow> (bool \<times> 'z cbs_scheme) option" where
  "DeleteCallback pcbl callback data s =
     (case pcbl of
        None \<Rightarrow> Some (False, s)
      | Some p \<Rightarrow> if lists s p = None then Some (False, s) else delete_callback p callback data s)"

fun cleanup_loop :: "nat \<Rightarrow> nat \<Rightarrow> 'z cbs_scheme \<Rightarrow> 'z cbs_scheme option" where
  "cleanup_loop 0 i s = Some s"
| "cleanup_loop (Suc n) i s = do {
     pcbl \<leftarrow> rd (listsToCleanup s) i;
     s1 \<leftarrow> DeleteCallbackList pcbl s;
     cleanup_loop n (i + 1) s1 }"

definition DeleteCallbackManager :: "'z cbs_scheme \<Rightarrow> 'z cbs_scheme option" where
  "DeleteCallbackManager s = do {
     s1 \<leftarrow> cleanup_loop (length (listsToCleanup s)) 0 s;
     Some (s1\<lparr>listsToCleanup := []\<rparr>) }"

definition InitCallbackManager :: "'z cbs_scheme \<Rightarrow> 'z cbs_scheme option" where
  "InitCallbackManager s = DeleteCallbackManager s"

section \<open>The invariant\<close>

definition cbl_ok :: "CallbackListRec \<Rightarrow> bool" where
  "cbl_ok cbl \<longleftrightarrow> length (filter cb_deleted (cbl_list cbl)) \<le> numDeleted cbl
     \<and> (inCallback cbl = 0 \<longrightarrow> filter cb_deleted (cbl_list cbl) = [] \<and> \<not> cbl_deleted cbl)"

definition cbs_ok :: "'z cbs_scheme \<Rightarrow> bool" where
  "cbs_ok s \<longleftrightarrow> (\<forall>p cbl. lists s p = Some cbl \<longrightarrow> cbl_ok cbl)"

text \<open>A state transformer that keeps the invariant and the lists that are being called.\<close>

definition keeps :: "('z cbs_scheme \<Rightarrow> 'z cbs_scheme) \<Rightarrow> bool" where
  "keeps f \<longleftrightarrow> (\<forall>s. cbs_ok s \<longrightarrow> cbs_ok (f s) \<and>
     (\<forall>p cbl. lists s p = Some cbl \<and> inCallback cbl \<noteq> 0 \<longrightarrow>
        (\<exists>cbl'. lists (f s) p = Some cbl' \<and> inCallback cbl' = inCallback cbl)))"

lemma keeps_ok: "keeps f \<Longrightarrow> cbs_ok s \<Longrightarrow> cbs_ok (f s)"
  by (auto simp: keeps_def)

lemma keeps_called:
  "keeps f \<Longrightarrow> cbs_ok s \<Longrightarrow> lists s p = Some cbl \<Longrightarrow> inCallback cbl = Suc k \<Longrightarrow>
   \<exists>cbl'. lists (f s) p = Some cbl' \<and> inCallback cbl' = Suc k"
  by (fastforce simp: keeps_def)

lemma keeps_id: "keeps (\<lambda>s. s)"
  by (simp add: keeps_def)

lemma keeps_fold: "(\<And>x. keeps (f x)) \<Longrightarrow> keeps (fold f xs)"
proof (induction xs)
  case Nil
  then show ?case by (simp add: keeps_def)
next
  case (Cons x xs)
  then have "keeps (fold f xs)" "keeps (f x)" by blast+
  then show ?case unfolding keeps_def fold.simps comp_def by metis
qed

lemma mark_callback_deleted:
  "mark_callback callback data cs = (b, r) \<Longrightarrow> length (filter cb_deleted r) \<le> length (filter cb_deleted cs) + of_bool b"
  by (induction cs arbitrary: b r) (auto split: if_splits prod.splits)

lemma drop_callback_deleted:
  "drop_callback callback data cs = (b, r) \<Longrightarrow> filter cb_deleted cs = [] \<Longrightarrow> filter cb_deleted r = []"
  by (induction cs arbitrary: b r) (auto split: if_splits prod.splits)

lemma purge_callbacks_all:
  "length (filter cb_deleted cs) \<le> n \<Longrightarrow> snd (purge_callbacks n cs) = filter (\<lambda>c. \<not> cb_deleted c) cs"
proof (induction n cs rule: purge_callbacks.induct)
  case (2 n c cs)
  show ?case
  proof (cases "n = 0")
    case True
    with 2 have "filter cb_deleted (c # cs) = []" by simp
    then have "filter (\<lambda>c. \<not> cb_deleted c) (c # cs) = c # cs" by (simp add: filter_empty_conv filter_id_conv split: if_splits)
    then show ?thesis using True by simp
  next
    case False
    with 2 show ?thesis by (auto split: prod.splits)
  qed
qed simp

lemma keeps_add: "keeps (\<lambda>s. case add_callback ok p callback data s of Some r \<Rightarrow> snd r | None \<Rightarrow> s)"
  by (auto simp: keeps_def add_callback_def cbs_ok_def cbl_ok_def new_callback_def split: bind_splits option.splits)

lemma delete_callback_ok:
  assumes "cbs_ok s" "lists s p = Some cbl"
  shows "\<exists>b s' cbl'. delete_callback p callback data s = Some (b, s') \<and> s' = s\<lparr>lists := (lists s)(p \<mapsto> cbl')\<rparr>
    \<and> cbl_ok cbl' \<and> inCallback cbl' = inCallback cbl"
proof -
  have ok: "cbl_ok cbl" using assms by (simp add: cbs_ok_def)
  have same: "s = s\<lparr>lists := (lists s)(p \<mapsto> cbl)\<rparr>" using assms(2) by (simp add: fun_upd_idem)
  show ?thesis
  proof (cases "inCallback cbl = 0")
    case True
    obtain b r where r: "drop_callback callback data (cbl_list cbl) = (b, r)" by fastforce
    then have "cbl_ok (cbl\<lparr>cbl_list := r\<rparr>)" using ok True drop_callback_deleted [OF r] by (simp add: cbl_ok_def)
    then show ?thesis using True assms(2) r ok same by (cases b) (auto simp: delete_callback_def)
  next
    case False
    obtain b r where r: "mark_callback callback data (cbl_list cbl) = (b, r)" by fastforce
    then have "b \<Longrightarrow> cbl_ok (cbl\<lparr>numDeleted := numDeleted cbl + 1, cbl_list := r\<rparr>)"
      using ok False mark_callback_deleted [OF r] by (auto simp: cbl_ok_def)
    then show ?thesis using False assms(2) r ok same by (cases b) (fastforce simp: delete_callback_def)+
  qed
qed

lemma keeps_delete: "keeps (\<lambda>s. case DeleteCallback (Some p) callback data s of Some r \<Rightarrow> snd r | None \<Rightarrow> s)"
proof -
  have "cbs_ok (case DeleteCallback (Some p) callback data s of Some r \<Rightarrow> snd r | None \<Rightarrow> s) \<and>
     (\<forall>q cbl. lists s q = Some cbl \<and> inCallback cbl \<noteq> 0 \<longrightarrow>
        (\<exists>cbl'. lists (case DeleteCallback (Some p) callback data s of Some r \<Rightarrow> snd r | None \<Rightarrow> s) q = Some cbl'
          \<and> inCallback cbl' = inCallback cbl))" if ok: "cbs_ok s" for s :: "'a cbs_scheme"
  proof (cases "lists s p")
    case None
    then show ?thesis using ok by (simp add: DeleteCallback_def)
  next
    case (Some cbl)
    obtain b s' cbl' where "delete_callback p callback data s = Some (b, s')" "s' = s\<lparr>lists := (lists s)(p \<mapsto> cbl')\<rparr>"
      "cbl_ok cbl'" "inCallback cbl' = inCallback cbl" using delete_callback_ok [OF ok Some] by blast
    then show ?thesis using ok Some by (auto simp: DeleteCallback_def cbs_ok_def)
  qed
  then show ?thesis by (simp add: keeps_def)
qed

lemma keeps_delete_list: "keeps (\<lambda>s. case DeleteCallbackList (Some p) s of Some r \<Rightarrow> r | None \<Rightarrow> s)"
  by (auto simp: keeps_def DeleteCallbackList_def delete_list_def cbs_ok_def cbl_ok_def split: option.splits bind_splits if_splits)

section \<open>Calling a list\<close>

text \<open>The state when the callbacks of a list have run.\<close>

definition after_calls ::
  "(nat \<Rightarrow> nat \<Rightarrow> nat \<Rightarrow> nat \<Rightarrow> 'z cbs_scheme \<Rightarrow> 'z cbs_scheme) \<Rightarrow> nat \<Rightarrow> nat \<Rightarrow> CallbackListRec \<Rightarrow> 'z cbs_scheme \<Rightarrow> 'z cbs_scheme"
where
  "after_calls run pcbl call_data cbl s =
     fold (\<lambda>c. run (cb_proc c) pcbl (cb_data c) call_data) (cbl_list cbl)
       (s\<lparr>lists := (lists s)(pcbl \<mapsto> cbl\<lparr>inCallback := inCallback cbl + 1\<rparr>)\<rparr>)"

lemma after_calls_ok:
  assumes "\<forall>a b c d. keeps (run a b c d)" "cbs_ok s" "lists s p = Some cbl"
  obtains cbl2 where "cbs_ok (after_calls run p cd cbl s)" "lists (after_calls run p cd cbl s) p = Some cbl2"
    "inCallback cbl2 = Suc (inCallback cbl)" "cbl_ok cbl2"
proof -
  let ?s = "s\<lparr>lists := (lists s)(p \<mapsto> cbl\<lparr>inCallback := inCallback cbl + 1\<rparr>)\<rparr>"
  have k: "keeps (fold (\<lambda>c. run (cb_proc c) p (cb_data c) cd) (cbl_list cbl))" by (rule keeps_fold) (simp add: assms(1))
  have "cbs_ok ?s" using assms(2,3) by (auto simp: cbs_ok_def cbl_ok_def)
  from keeps_ok [OF k this] keeps_called [OF k this, of p] that show thesis
    unfolding after_calls_def by (fastforce simp: cbs_ok_def)
qed

lemma CallCallbackList_eq:
  assumes "lists s p = Some cbl" "lists (after_calls run p cd cbl s) p = Some cbl2" "inCallback cbl2 = Suc (inCallback cbl)"
  shows "CallCallbackList run p cd s =
    (let s2 = after_calls run p cd cbl s; cbl3 = cbl2\<lparr>inCallback := inCallback cbl\<rparr>; s3 = s2\<lparr>lists := (lists s2)(p \<mapsto> cbl3)\<rparr>
     in if inCallback cbl \<noteq> 0 then Some s3
        else if cbl_deleted cbl2 then Some (s3\<lparr>listsToCleanup := forget_list p (listsToCleanup s3), lists := (lists s3)(p := None)\<rparr>)
        else if numDeleted cbl2 \<noteq> 0 then Some (s3\<lparr>lists := (lists s3)(p \<mapsto> cbl3\<lparr>
            numDeleted := fst (purge_callbacks (numDeleted cbl2) (cbl_list cbl2)),
            cbl_list := snd (purge_callbacks (numDeleted cbl2) (cbl_list cbl2))\<rparr>)\<rparr>)
        else Some s3)"
  using assms
  by (simp add: CallCallbackList_def after_calls_def Let_def DeleteCallbackList_def delete_list_def case_prod_beta)


lemma call_keeps_ok:
  assumes "\<forall>a b c d. keeps (run a b c d)" "cbs_ok s" "lists s p = Some cbl"
  shows "\<exists>r. CallCallbackList run p cd s = Some r \<and> cbs_ok r \<and>
    (\<forall>q. q \<noteq> p \<longrightarrow> lists r q = lists (after_calls run p cd cbl s) q) \<and>
    (inCallback cbl \<noteq> 0 \<longrightarrow> (\<exists>cbl'. lists r p = Some cbl' \<and> inCallback cbl' = inCallback cbl
        \<and> cbl_list cbl' = cbl_list (the (lists (after_calls run p cd cbl s) p)))) \<and>
    (inCallback cbl = 0 \<longrightarrow>
       (if cbl_deleted (the (lists (after_calls run p cd cbl s) p)) then lists r p = None
        else \<exists>cbl'. lists r p = Some cbl' \<and> inCallback cbl' = 0 \<and>
          cbl_list cbl' = filter (\<lambda>c. \<not> cb_deleted c) (cbl_list (the (lists (after_calls run p cd cbl s) p)))))"
proof -
  obtain cbl2 where 2: "cbs_ok (after_calls run p cd cbl s)" "lists (after_calls run p cd cbl s) p = Some cbl2"
    "inCallback cbl2 = Suc (inCallback cbl)" "cbl_ok cbl2" using after_calls_ok [OF assms] by blast
  define s2 where "s2 = after_calls run p cd cbl s"
  define cbl3 where "cbl3 = cbl2\<lparr>inCallback := inCallback cbl\<rparr>"
  let ?up = "\<lambda>c. s2\<lparr>lists := (lists s2)(p \<mapsto> c)\<rparr>"
  have up: "cbs_ok (?up c)" if "cbl_ok c" for c using 2(1) that by (auto simp: cbs_ok_def s2_def)
  have n: "length (filter cb_deleted (cbl_list cbl2)) \<le> numDeleted cbl2" using 2(4) by (simp add: cbl_ok_def)
  note eq = CallCallbackList_eq [OF assms(3) 2(2,3), folded s2_def cbl3_def, unfolded Let_def]
  have l2: "lists s2 p = Some cbl2" using 2(2) by (simp add: s2_def)
  consider "inCallback cbl \<noteq> 0" | "inCallback cbl = 0" "cbl_deleted cbl2"
    | "inCallback cbl = 0" "\<not> cbl_deleted cbl2" "numDeleted cbl2 \<noteq> 0"
    | "inCallback cbl = 0" "\<not> cbl_deleted cbl2" "numDeleted cbl2 = 0" by blast
  then show ?thesis
  proof cases
    case 1
    then have "cbl_ok cbl3" using n by (simp add: cbl_ok_def cbl3_def)
    from up [OF this] 1 show ?thesis by (simp add: eq l2 s2_def [symmetric]) (simp add: cbl3_def)
  next
    case 2
    have "cbs_ok (s2\<lparr>lists := (lists s2)(p := None), listsToCleanup := x\<rparr>)" for x
      using \<open>cbs_ok (after_calls run p cd cbl s)\<close> by (auto simp: cbs_ok_def s2_def)
    with 2 show ?thesis by (auto simp: eq l2 s2_def [symmetric] cbs_ok_def split: if_splits)
  next
    case 3
    let ?c = "cbl3\<lparr>numDeleted := fst (purge_callbacks (numDeleted cbl2) (cbl_list cbl2)),
      cbl_list := filter (\<lambda>c. \<not> cb_deleted c) (cbl_list cbl2)\<rparr>"
    have "cbl_ok ?c" using 3 by (simp add: cbl_ok_def cbl3_def filter_empty_conv)
    from up [OF this] 3 show ?thesis by (simp add: eq l2 s2_def [symmetric] purge_callbacks_all [OF n]) (simp add: cbl3_def)
  next
    case 4
    then have e: "\<forall>c\<in>set (cbl_list cbl2). \<not> cb_deleted c" using n by (simp add: filter_empty_conv)
    then have "cbl_ok cbl3" using 4 by (simp add: cbl_ok_def cbl3_def filter_empty_conv)
    from up [OF this] 4 e show ?thesis by (simp add: eq l2 s2_def [symmetric] filter_id_conv) (simp add: cbl3_def)
  qed
qed

lemma keeps_call:
  assumes "\<forall>a b c d. keeps (run a b c d)"
  shows "keeps (\<lambda>s. case CallCallbackList run p cd s of Some r \<Rightarrow> r | None \<Rightarrow> s)"
proof -
  have "cbs_ok (case CallCallbackList run p cd s of Some r \<Rightarrow> r | None \<Rightarrow> s) \<and>
     (\<forall>q cbl. lists s q = Some cbl \<and> inCallback cbl \<noteq> 0 \<longrightarrow>
        (\<exists>cbl'. lists (case CallCallbackList run p cd s of Some r \<Rightarrow> r | None \<Rightarrow> s) q = Some cbl'
          \<and> inCallback cbl' = inCallback cbl))" if ok: "cbs_ok s" for s :: "'a cbs_scheme"
  proof (cases "lists s p")
    case None
    then show ?thesis using ok by (simp add: CallCallbackList_def)
  next
    case (Some cbl)
    obtain r where r: "CallCallbackList run p cd s = Some r" "cbs_ok r"
      "\<forall>q. q \<noteq> p \<longrightarrow> lists r q = lists (after_calls run p cd cbl s) q"
      "inCallback cbl \<noteq> 0 \<longrightarrow> (\<exists>cbl'. lists r p = Some cbl' \<and> inCallback cbl' = inCallback cbl)"
      using call_keeps_ok [OF assms ok Some, of cd] by blast
    have "\<exists>cbl'. lists r q = Some cbl' \<and> inCallback cbl' = inCallback c"
      if q: "lists s q = Some c" "inCallback c \<noteq> 0" for q c
    proof (cases "q = p")
      case True
      then show ?thesis using q r(4) Some by simp
    next
      case False
      let ?s = "s\<lparr>lists := (lists s)(p \<mapsto> cbl\<lparr>inCallback := inCallback cbl + 1\<rparr>)\<rparr>"
      have k: "keeps (fold (\<lambda>c. run (cb_proc c) p (cb_data c) cd) (cbl_list cbl))" by (rule keeps_fold) (simp add: assms)
      have "cbs_ok ?s" "lists ?s q = Some c" using ok Some q(1) False by (auto simp: cbs_ok_def cbl_ok_def)
      from keeps_called [OF k this, of "inCallback c - 1"] q(2) have
        "\<exists>cbl'. lists (after_calls run p cd cbl s) q = Some cbl' \<and> inCallback cbl' = inCallback c"
        by (simp add: after_calls_def)
      then show ?thesis using r(3) False by simp
    qed
    then show ?thesis using r by simp
  qed
  then show ?thesis by (simp add: keeps_def)
qed

section \<open>The property of callback lists\<close>

text \<open>C9: Callbacks may add and delete callbacks, delete whole lists and call lists while a list is
  called. \<open>CallCallbackList\<close> returns, never follows a freed list and keeps the invariant that
  outside of a call no list holds a deleted callback. When the outermost call of a list ends,
  the list is freed if it was deleted meanwhile, and otherwise holds, in order, exactly the
  callbacks that were not deleted; an inner call removes none.\<close>
theorem callbacks_called:
  assumes "\<forall>a b c d. keeps (run a b c d)" "cbs_ok s" "lists s p = Some cbl"
  shows "\<exists>r cbl2. CallCallbackList run p cd s = Some r \<and> cbs_ok r \<and> lists (after_calls run p cd cbl s) p = Some cbl2 \<and>
    (inCallback cbl \<noteq> 0 \<longrightarrow> (\<exists>cbl'. lists r p = Some cbl' \<and> cbl_list cbl' = cbl_list cbl2)) \<and>
    (inCallback cbl = 0 \<and> cbl_deleted cbl2 \<longrightarrow> lists r p = None) \<and>
    (inCallback cbl = 0 \<and> \<not> cbl_deleted cbl2 \<longrightarrow>
       (\<exists>cbl'. lists r p = Some cbl' \<and> cbl_list cbl' = filter (\<lambda>c. \<not> cb_deleted c) (cbl_list cbl2)))"
proof -
  obtain cbl2 where "lists (after_calls run p cd cbl s) p = Some cbl2" using after_calls_ok [OF assms] by blast
  with call_keeps_ok [OF assms, of cd] show ?thesis by (auto split: if_splits)
qed

text \<open>A list of two callbacks that delete the first.\<close>

definition sample_cbs :: cbs where
  "sample_cbs = \<lparr>lists = [0 \<mapsto> \<lparr>inCallback = 0, cbl_deleted = False, numDeleted = 0,
     cbl_list = [new_callback 1 0, new_callback 2 0]\<rparr>], listsToCleanup = [Some 0]\<rparr>"

definition delete_first :: "nat \<Rightarrow> nat \<Rightarrow> nat \<Rightarrow> nat \<Rightarrow> cbs \<Rightarrow> cbs" where
  "delete_first proc p data cd s = (case DeleteCallback (Some 0) 1 0 s of Some r \<Rightarrow> snd r | None \<Rightarrow> s)"

theorem callbacks_called_witness:
  "\<exists>r cbl. CallCallbackList delete_first 0 0 sample_cbs = Some r \<and> lists r 0 = Some cbl \<and> cbl_list cbl = [new_callback 2 0]"
proof -
  let ?cbl = "\<lparr>inCallback = 0, cbl_deleted = False, numDeleted = 0, cbl_list = [new_callback 1 0, new_callback 2 0]\<rparr>"
  have "delete_first a b c d = (\<lambda>s. case DeleteCallback (Some 0) 1 0 s of Some r \<Rightarrow> snd r | None \<Rightarrow> s)" for a b c d
    by (simp add: fun_eq_iff delete_first_def)
  then have k: "\<forall>a b c d. keeps (delete_first a b c d)" using keeps_delete [of 0 1 0] by metis
  have s: "cbs_ok sample_cbs" "lists sample_cbs 0 = Some ?cbl"
    by (simp_all add: sample_cbs_def cbs_ok_def cbl_ok_def new_callback_def)
  have "lists (after_calls delete_first 0 0 ?cbl sample_cbs) 0
      = Some (?cbl\<lparr>inCallback := 1, numDeleted := 2, cbl_list := [(new_callback 1 0)\<lparr>cb_deleted := True\<rparr>, new_callback 2 0]\<rparr>)"
    by (simp add: after_calls_def delete_first_def DeleteCallback_def delete_callback_def is_callback_def new_callback_def numeral_2_eq_2)
  then show ?thesis
    using callbacks_called [OF k s, of 0] by (fastforce simp: new_callback_def)
qed

end
