(* ===== verification/Buffers.thy ===== *)
theory Buffers
  imports Prelude "HOL-Library.Multiset"
begin

text \<open>
  The shareable pixel buffers of the server (\<open>lorie/buffer.c\<close> and the inline functions of
  \<open>lorie/buffer.h\<close>).

  The state is the store of buffers, the lists they are linked in, the contents of their memory
  and \<open>held\<close>, the multiset of the operating system resources the process holds: descriptors, mapped
  regions, heap blocks and references to hardware buffers. Giving back a resource that is not
  held (a double free) makes an operation \<open>None\<close>, and so does the overflow of a signed product.
  What the operating system answers is the record \<open>os\<close>, a parameter of the operations. Calls of
  EGL and GL are left out; \<open>size_t\<close> has 64 bits.
\<close>

section \<open>State\<close>

definition LORIEBUFFER_REGULAR :: int where "LORIEBUFFER_REGULAR = 1"
definition LORIEBUFFER_FD :: int where "LORIEBUFFER_FD = 2"
definition LORIEBUFFER_AHARDWAREBUFFER :: int where "LORIEBUFFER_AHARDWAREBUFFER = 3"
definition FORMAT_B8G8R8A8 :: int where "FORMAT_B8G8R8A8 = 5"
definition FORMAT_R8G8B8X8 :: int where "FORMAT_R8G8B8X8 = 2"

lemmas buffer_consts = LORIEBUFFER_REGULAR_def LORIEBUFFER_FD_def LORIEBUFFER_AHARDWAREBUFFER_def
  FORMAT_B8G8R8A8_def FORMAT_R8G8B8X8_def

definition ENODEV :: int where "ENODEV = 19"
definition EEXIST :: int where "EEXIST = 17"
definition ENOENT :: int where "ENOENT = 2"

record LorieBuffer_Desc =
  d_width :: int
  d_height :: int
  d_stride :: int
  d_format :: int
  d_type :: int
  d_id :: u64
  d_buffer :: "nat option"
  d_data :: "nat option"

record LorieBuffer =
  refcount :: u16
  desc :: LorieBuffer_Desc
  locked :: bool
  lockedData :: "nat option"
  fd :: int
  size :: u64
  offset :: int
  image :: "nat option"
  gpuCopyPending :: int

datatype resource = Fd int | Region nat | Block nat | Ahb nat

record lb =
  buffers :: "nat \<rightharpoonup> LorieBuffer"
  held :: "resource multiset"
  mem :: "nat \<Rightarrow> u32 list"
  blists :: "nat \<Rightarrow> nat list"
  next_id :: u64

record os =
  api26 :: bool
  os_ASharedMemory_create :: int
  os_memfd_create :: int
  os_open_ashmem :: int
  os_set_name :: int
  os_set_size :: int
  os_dup :: int
  os_mmap :: "nat option"
  os_calloc_data :: "nat option"
  os_calloc_buffer :: "nat option"
  os_AHardwareBuffer_allocate :: "nat option"
  os_AHardwareBuffer_describe :: "nat \<Rightarrow> int \<times> int \<times> int \<times> int"
  os_AHardwareBuffer_lock :: "nat \<Rightarrow> int \<times> nat option"
  os_AHardwareBuffer_unlock :: "nat \<Rightarrow> int"
  os_recv_fd :: int
  os_recv_ahb :: "nat option"
  page_size :: u64

definition hold :: "resource \<Rightarrow> 'z lb_scheme \<Rightarrow> 'z lb_scheme" where
  "hold r s = s\<lparr>held := add_mset r (held s)\<rparr>"

definition give_back :: "resource \<Rightarrow> 'z lb_scheme \<Rightarrow> 'z lb_scheme option" where
  "give_back r s = (if r \<in># held s then Some (s\<lparr>held := held s - {#r#}\<rparr>) else None)"

definition mul32 :: "int \<Rightarrow> int \<Rightarrow> int option" where
  "mul32 a b = (if - (2 ^ 31) \<le> a * b \<and> a * b < 2 ^ 31 then Some (a * b) else None)"

section \<open>Shared memory regions\<close>

definition alignToPage :: "os \<Rightarrow> u64 \<Rightarrow> u64" where
  "alignToPage o1 sz = (sz + page_size o1 - 1) AND NOT (page_size o1 - 1)"

definition LorieBuffer_createRegion :: "os \<Rightarrow> 'z lb_scheme \<Rightarrow> (int \<times> 'z lb_scheme) option" where
  "LorieBuffer_createRegion o1 s =
     (let f = (if api26 o1 then os_ASharedMemory_create o1 else -1) in
      if 0 \<le> f then Some (f, hold (Fd f) s)
      else if 0 \<le> os_memfd_create o1 then Some (os_memfd_create o1, hold (Fd (os_memfd_create o1)) s)
      else if os_open_ashmem o1 < 0 then Some (os_open_ashmem o1, s)
      else
        let f = os_open_ashmem o1; s1 = hold (Fd f) s in
        if os_set_name o1 < 0 then do { s2 \<leftarrow> give_back (Fd f) s1; Some (os_set_name o1, s2) }
        else if os_set_size o1 < 0 then do { s2 \<leftarrow> give_back (Fd f) s1; Some (os_set_size o1, s2) }
        else Some (f, s1))"

section \<open>Allocation\<close>

definition dup_fd :: "os \<Rightarrow> int \<Rightarrow> 'z lb_scheme \<Rightarrow> int \<times> 'z lb_scheme" where
  "dup_fd o1 f s =
     (if f < 0 then (-1, s)
      else if 0 \<le> os_dup o1 then (os_dup o1, hold (Fd (os_dup o1)) s)
      else (os_dup o1, s))"

definition acceptable :: "int \<Rightarrow> int \<Rightarrow> int \<Rightarrow> bool" where
  "acceptable width height format \<longleftrightarrow>
     (format = FORMAT_B8G8R8A8 \<or> format = FORMAT_R8G8B8X8) \<and> 0 < width \<and> 0 < height"

text \<open>The switch that gives back what a buffer of the type owns, in \<open>allocate\<close> and in \<open>__LorieBuffer_free\<close>.\<close>

definition free_resources :: "os \<Rightarrow> LorieBuffer \<Rightarrow> 'z lb_scheme \<Rightarrow> 'z lb_scheme option" where
  "free_resources o1 b s =
     (if d_type (desc b) = LORIEBUFFER_REGULAR then
        (case d_data (desc b) of None \<Rightarrow> Some s | Some d \<Rightarrow> give_back (Block d) s)
      else if d_type (desc b) = LORIEBUFFER_FD then do {
        d \<leftarrow> d_data (desc b);
        s1 \<leftarrow> give_back (Region d) s;
        give_back (Fd (fd b)) s1 }
      else if d_type (desc b) = LORIEBUFFER_AHARDWAREBUFFER \<and> api26 o1 then do {
        h \<leftarrow> d_buffer (desc b);
        give_back (Ahb h) s }
      else Some s)"

definition finish_allocate :: "os \<Rightarrow> LorieBuffer \<Rightarrow> 'z lb_scheme \<Rightarrow> (nat option \<times> 'z lb_scheme) option" where
  "finish_allocate o1 b s =
     (case os_calloc_buffer o1 of
        Some a \<Rightarrow> Some (Some a, s\<lparr>buffers := (buffers s)(a \<mapsto> b)\<rparr>)
      | None \<Rightarrow> do { s1 \<leftarrow> free_resources o1 b s; Some (None, s1) })"

definition new_buffer :: "int \<Rightarrow> int \<Rightarrow> int \<Rightarrow> int \<Rightarrow> int \<Rightarrow> nat option \<Rightarrow> int \<Rightarrow> u64 \<Rightarrow> int \<Rightarrow> u64 \<Rightarrow> LorieBuffer" where
  "new_buffer width stride height format ty buf f sz off i =
     \<lparr>refcount = 1,
      desc = \<lparr>d_width = width, d_height = height, d_stride = stride, d_format = format mod 256, d_type = ty,
              d_id = i, d_buffer = buf, d_data = None\<rparr>,
      locked = False, lockedData = None, fd = f, size = sz, offset = off, image = None, gpuCopyPending = 0\<rparr>"

text \<open>The switch of \<open>allocate\<close>: the memory of the buffer by its type.\<close>

definition allocate_memory :: "os \<Rightarrow> LorieBuffer \<Rightarrow> 'z lb_scheme \<Rightarrow> (nat option \<times> 'z lb_scheme) option" where
  "allocate_memory o1 b s =
     (let d = desc b in
      if d_type d = LORIEBUFFER_REGULAR then do {
        n \<leftarrow> mul32 (d_stride d) (d_height d);
        case os_calloc_data o1 of
          None \<Rightarrow> Some (None, s)
        | Some p \<Rightarrow> finish_allocate o1 (b\<lparr>desc := d\<lparr>d_data := Some p\<rparr>\<rparr>)
            ((hold (Block p) s)\<lparr>mem := (mem s)(p := replicate (nat n) 0)\<rparr>) }
      else if d_type d = LORIEBUFFER_FD then
        (if fd b < 0 then Some (None, s)
         else case os_mmap o1 of
           None \<Rightarrow> do { s1 \<leftarrow> give_back (Fd (fd b)) s; Some (None, s1) }
         | Some p \<Rightarrow> finish_allocate o1 (b\<lparr>desc := d\<lparr>d_data := Some p\<rparr>\<rparr>) (hold (Region p) s))
      else if d_type d = LORIEBUFFER_AHARDWAREBUFFER then
        (case d_buffer d of
           None \<Rightarrow> Some (None, s)
         | Some h \<Rightarrow>
             let (w, ht, st, fmt) = (if api26 o1 then os_AHardwareBuffer_describe o1 h else (0, 0, 0, 0))
             in finish_allocate o1 (b\<lparr>desc := d\<lparr>d_width := w, d_height := ht, d_stride := st, d_format := fmt mod 256\<rparr>\<rparr>) s)
      else Some (None, s))"

definition allocate ::
  "os \<Rightarrow> int \<Rightarrow> int \<Rightarrow> int \<Rightarrow> int \<Rightarrow> int \<Rightarrow> nat option \<Rightarrow> int \<Rightarrow> u64 \<Rightarrow> int \<Rightarrow> bool \<Rightarrow> 'z lb_scheme
   \<Rightarrow> (nat option \<times> 'z lb_scheme) option"
where
  "allocate o1 width stride height format ty buf f sz off takeFd s =
     (let (bfd, s1) = (if takeFd then (f, s) else dup_fd o1 f s);
          s2 = s1\<lparr>next_id := next_id s1 + 1\<rparr>
      in if ty \<noteq> LORIEBUFFER_AHARDWAREBUFFER \<and> \<not> acceptable width height format then Some (None, s2)
         else allocate_memory o1 (new_buffer width stride height format ty buf bfd sz off (next_id s1)) s2)"

definition LorieBuffer_allocate :: "os \<Rightarrow> int \<Rightarrow> int \<Rightarrow> int \<Rightarrow> int \<Rightarrow> 'z lb_scheme \<Rightarrow> (nat option \<times> 'z lb_scheme) option" where
  "LorieBuffer_allocate o1 width height format ty s =
     (if ty = LORIEBUFFER_FD then do {
        n \<leftarrow> mul32 width height;
        let sz = alignToPage o1 (word_of_int n * 4);
        (f, s1) \<leftarrow> LorieBuffer_createRegion o1 s;
        if f < 0 then Some (None, s1)
        else allocate o1 width width height format ty None f sz 0 True s1 }
      else if ty = LORIEBUFFER_AHARDWAREBUFFER then
        (case (if api26 o1 then os_AHardwareBuffer_allocate o1 else None) of
           None \<Rightarrow> allocate o1 width width height format ty None (-1) 0 0 True s
         | Some h \<Rightarrow> allocate o1 width width height format ty (Some h) (-1) 0 0 True (hold (Ahb h) s))
      else allocate o1 width width height format ty None (-1) 0 0 True s)"

definition LorieBuffer_wrapFileDescriptor ::
  "os \<Rightarrow> int \<Rightarrow> int \<Rightarrow> int \<Rightarrow> int \<Rightarrow> int \<Rightarrow> int \<Rightarrow> 'z lb_scheme \<Rightarrow> (nat option \<times> 'z lb_scheme) option" where
  "LorieBuffer_wrapFileDescriptor o1 width stride height format f off s = do {
     n \<leftarrow> mul32 stride height;
     allocate o1 width stride height format LORIEBUFFER_FD None f (word_of_int n * 4) off False s }"

definition LorieBuffer_wrapAHardwareBuffer :: "os \<Rightarrow> nat option \<Rightarrow> 'z lb_scheme \<Rightarrow> (nat option \<times> 'z lb_scheme) option" where
  "LorieBuffer_wrapAHardwareBuffer o1 h s = allocate o1 0 0 0 0 LORIEBUFFER_AHARDWAREBUFFER h (-1) 0 0 False s"

section \<open>Conversion\<close>

text \<open>\<open>blt src dst src_stride dst_stride width height\<close> is \<open>pixman_blt\<close>: the destination afterwards.\<close>

type_synonym blt = "u32 list \<Rightarrow> u32 list \<Rightarrow> int \<Rightarrow> int \<Rightarrow> int \<Rightarrow> int \<Rightarrow> u32 list"

definition blit :: "blt \<Rightarrow> LorieBuffer \<Rightarrow> nat \<Rightarrow> int \<Rightarrow> 'z lb_scheme \<Rightarrow> 'z lb_scheme option" where
  "blit blt b p dst_stride s = do {
     src \<leftarrow> d_data (desc b);
     Some (s\<lparr>mem := (mem s)(p := blt (mem s src) (mem s p) (d_stride (desc b)) dst_stride (d_width (desc b)) (d_height (desc b)))\<rparr>) }"

definition LorieBuffer_convert :: "blt \<Rightarrow> os \<Rightarrow> nat option \<Rightarrow> int \<Rightarrow> int \<Rightarrow> 'z lb_scheme \<Rightarrow> 'z lb_scheme option" where
  "LorieBuffer_convert blt o1 buffer ty format s =
     (case buffer of
        None \<Rightarrow> Some s
      | Some a \<Rightarrow> do {
          b \<leftarrow> buffers s a;
          if d_type (desc b) \<noteq> LORIEBUFFER_REGULAR
             \<or> ty \<noteq> LORIEBUFFER_FD \<and> ty \<noteq> LORIEBUFFER_AHARDWAREBUFFER
             \<or> format \<noteq> FORMAT_R8G8B8X8 \<and> format \<noteq> FORMAT_B8G8R8A8 then Some s
          else if ty = LORIEBUFFER_FD then do {
            n \<leftarrow> mul32 (d_stride (desc b)) (d_height (desc b));
            let sz = alignToPage o1 (word_of_int n * 4);
            (f, s1) \<leftarrow> LorieBuffer_createRegion o1 s;
            if f < 0 then Some s1
            else case os_mmap o1 of
              None \<Rightarrow> give_back (Fd f) s1
            | Some p \<Rightarrow> do {
                s2 \<leftarrow> blit blt b p (d_stride (desc b)) (hold (Region p) s1);
                s3 \<leftarrow> (case d_data (desc b) of None \<Rightarrow> Some s2 | Some q \<Rightarrow> give_back (Block q) s2);
                Some (s3\<lparr>buffers := (buffers s3)(a \<mapsto> b\<lparr>
                  desc := (desc b)\<lparr>d_type := ty, d_format := format, d_data := Some p\<rparr>,
                  fd := f, size := sz, offset := 0, lockedData := None, locked := False\<rparr>)\<rparr>) } }
          else (case (if api26 o1 then os_AHardwareBuffer_allocate o1 else None) of
              None \<Rightarrow> Some s
            | Some h \<Rightarrow> do {
                let s1 = hold (Ahb h) s;
                let (w, ht, st, fmt) = os_AHardwareBuffer_describe o1 h;
                s2 \<leftarrow> (case os_AHardwareBuffer_lock o1 h of
                         (ret, Some p) \<Rightarrow> if ret = 0 then blit blt b p st s1 else Some s1
                       | (ret, None) \<Rightarrow> if ret = 0 then None else Some s1);
                s3 \<leftarrow> (case d_data (desc b) of None \<Rightarrow> Some s2 | Some q \<Rightarrow> give_back (Block q) s2);
                Some (s3\<lparr>buffers := (buffers s3)(a \<mapsto> b\<lparr>
                  desc := (desc b)\<lparr>d_type := ty, d_format := format, d_stride := st, d_buffer := Some h, d_data := None\<rparr>,
                  lockedData := None, locked := False\<rparr>)\<rparr>) }) })"

section \<open>References, locks and lists\<close>

definition unlink_all :: "nat \<Rightarrow> 'z lb_scheme \<Rightarrow> 'z lb_scheme" where
  "unlink_all a s = s\<lparr>blists := (\<lambda>l. removeAll a (blists s l))\<rparr>"

definition LorieBuffer_free :: "os \<Rightarrow> nat option \<Rightarrow> 'z lb_scheme \<Rightarrow> 'z lb_scheme option" where
  "LorieBuffer_free o1 buffer s =
     (case buffer of
        None \<Rightarrow> Some s
      | Some a \<Rightarrow> do {
          b \<leftarrow> buffers s a;
          s1 \<leftarrow> free_resources o1 b (unlink_all a s);
          Some (s1\<lparr>buffers := (buffers s1)(a := None)\<rparr>) })"

definition LorieBuffer_acquire :: "nat option \<Rightarrow> 'z lb_scheme \<Rightarrow> 'z lb_scheme option" where
  "LorieBuffer_acquire buffer s =
     (case buffer of
        None \<Rightarrow> Some s
      | Some a \<Rightarrow> do { b \<leftarrow> buffers s a; Some (s\<lparr>buffers := (buffers s)(a \<mapsto> b\<lparr>refcount := refcount b + 1\<rparr>)\<rparr>) })"

definition LorieBuffer_release :: "os \<Rightarrow> nat option \<Rightarrow> 'z lb_scheme \<Rightarrow> 'z lb_scheme option" where
  "LorieBuffer_release o1 buffer s =
     (case buffer of
        None \<Rightarrow> Some s
      | Some a \<Rightarrow> do {
          b \<leftarrow> buffers s a;
          let s1 = s\<lparr>buffers := (buffers s)(a \<mapsto> b\<lparr>refcount := refcount b - 1\<rparr>)\<rparr>;
          if refcount b = 1 then LorieBuffer_free o1 buffer s1 else Some s1 })"

definition no_desc :: LorieBuffer_Desc where
  "no_desc = \<lparr>d_width = 0, d_height = 0, d_stride = 0, d_format = 0, d_type = 0, d_id = 0, d_buffer = None, d_data = None\<rparr>"

definition LorieBuffer_description :: "nat option \<Rightarrow> 'z lb_scheme \<Rightarrow> LorieBuffer_Desc option" where
  "LorieBuffer_description buffer s =
     (case buffer of None \<Rightarrow> Some no_desc | Some a \<Rightarrow> map_option desc (buffers s a))"

definition LorieBuffer_isRgba :: "nat option \<Rightarrow> 'z lb_scheme \<Rightarrow> bool option" where
  "LorieBuffer_isRgba buffer s = map_option (\<lambda>d. d_format d \<noteq> FORMAT_B8G8R8A8) (LorieBuffer_description buffer s)"

text \<open>The results of locking are the error code, the pointer handed out and the state.\<close>

definition LorieBuffer_lock :: "os \<Rightarrow> nat option \<Rightarrow> 'z lb_scheme \<Rightarrow> (int \<times> nat option \<times> 'z lb_scheme) option" where
  "LorieBuffer_lock o1 buffer s =
     (case buffer of
        None \<Rightarrow> Some (ENODEV, None, s)
      | Some a \<Rightarrow> do {
          b \<leftarrow> buffers s a;
          if locked b then Some (EEXIST, lockedData b, s)
          else do {
            (ret, p) \<leftarrow>
              (if d_type (desc b) = LORIEBUFFER_REGULAR \<or> d_type (desc b) = LORIEBUFFER_FD then Some (0, d_data (desc b))
               else if d_type (desc b) = LORIEBUFFER_AHARDWAREBUFFER \<and> api26 o1 then do {
                 h \<leftarrow> d_buffer (desc b);
                 Some (case os_AHardwareBuffer_lock o1 h of (ret, p) \<Rightarrow> (ret, if ret = 0 then p else lockedData b)) }
               else Some (0, lockedData b));
            Some (ret, p, s\<lparr>buffers := (buffers s)(a \<mapsto> b\<lparr>lockedData := p, locked := True\<rparr>)\<rparr>) } })"

definition LorieBuffer_unlock :: "os \<Rightarrow> nat option \<Rightarrow> 'z lb_scheme \<Rightarrow> (int \<times> 'z lb_scheme) option" where
  "LorieBuffer_unlock o1 buffer s =
     (case buffer of
        None \<Rightarrow> Some (ENODEV, s)
      | Some a \<Rightarrow> do {
          b \<leftarrow> buffers s a;
          if \<not> locked b then Some (ENOENT, s)
          else do {
            ret \<leftarrow> (if d_type (desc b) = LORIEBUFFER_AHARDWAREBUFFER \<and> api26 o1
                    then map_option (os_AHardwareBuffer_unlock o1) (d_buffer (desc b)) else Some 0);
            Some (ret, s\<lparr>buffers := (buffers s)(a \<mapsto> b\<lparr>lockedData := None, locked := False\<rparr>)\<rparr>) } })"

definition LorieBuffer_gpuCopyPendingInc :: "nat option \<Rightarrow> 'z lb_scheme \<Rightarrow> 'z lb_scheme option" where
  "LorieBuffer_gpuCopyPendingInc buffer s =
     (case buffer of
        None \<Rightarrow> Some s
      | Some a \<Rightarrow> do { b \<leftarrow> buffers s a; Some (s\<lparr>buffers := (buffers s)(a \<mapsto> b\<lparr>gpuCopyPending := gpuCopyPending b + 1\<rparr>)\<rparr>) })"

definition LorieBuffer_gpuCopyPendingDec :: "nat option \<Rightarrow> 'z lb_scheme \<Rightarrow> 'z lb_scheme option" where
  "LorieBuffer_gpuCopyPendingDec buffer s =
     (case buffer of
        None \<Rightarrow> Some s
      | Some a \<Rightarrow> do { b \<leftarrow> buffers s a; Some (s\<lparr>buffers := (buffers s)(a \<mapsto> b\<lparr>gpuCopyPending := gpuCopyPending b - 1\<rparr>)\<rparr>) })"

definition LorieBuffer_hasGpuCopyPending :: "nat option \<Rightarrow> 'z lb_scheme \<Rightarrow> bool option" where
  "LorieBuffer_hasGpuCopyPending buffer s =
     (case buffer of None \<Rightarrow> Some False | Some a \<Rightarrow> map_option (\<lambda>b. gpuCopyPending b \<noteq> 0) (buffers s a))"

definition LorieBuffer_addToList :: "nat option \<Rightarrow> nat option \<Rightarrow> 'z lb_scheme \<Rightarrow> 'z lb_scheme" where
  "LorieBuffer_addToList buffer list s =
     (case (buffer, list) of
        (Some a, Some l) \<Rightarrow> let s1 = unlink_all a s in s1\<lparr>blists := (blists s1)(l := a # blists s1 l)\<rparr>
      | _ \<Rightarrow> s)"

definition LorieBuffer_removeFromList :: "nat option \<Rightarrow> 'z lb_scheme \<Rightarrow> 'z lb_scheme" where
  "LorieBuffer_removeFromList buffer s = (case buffer of None \<Rightarrow> s | Some a \<Rightarrow> unlink_all a s)"

definition LorieBufferList_first :: "nat \<Rightarrow> 'z lb_scheme \<Rightarrow> nat option" where
  "LorieBufferList_first l s = (case blists s l of [] \<Rightarrow> None | a # _ \<Rightarrow> Some a)"

fun find_id :: "u64 \<Rightarrow> (nat \<rightharpoonup> LorieBuffer) \<Rightarrow> nat list \<Rightarrow> nat option option" where
  "find_id i bs [] = Some None"
| "find_id i bs (a # as) =
     (case bs a of None \<Rightarrow> None | Some b \<Rightarrow> if d_id (desc b) = i then Some (Some a) else find_id i bs as)"

definition LorieBufferList_findById :: "nat \<Rightarrow> u64 \<Rightarrow> 'z lb_scheme \<Rightarrow> nat option option" where
  "LorieBufferList_findById l i s = find_id i (buffers s) (blists s l)"

section \<open>Handing a buffer to another process\<close>

datatype message = Struct LorieBuffer | Descriptor int | Handle nat

definition LorieBuffer_sendHandleToUnixSocket :: "os \<Rightarrow> nat option \<Rightarrow> int \<Rightarrow> 'z lb_scheme \<Rightarrow> message list option" where
  "LorieBuffer_sendHandleToUnixSocket o1 buffer socketFd s =
     (if socketFd < 0 \<or> buffer = None then Some []
      else do {
        b \<leftarrow> buffers s (the buffer);
        if d_type (desc b) = LORIEBUFFER_FD then Some [Struct b, Descriptor (fd b)]
        else if d_type (desc b) = LORIEBUFFER_AHARDWAREBUFFER \<and> api26 o1 then do {
          h \<leftarrow> d_buffer (desc b);
          Some [Struct b, Handle h] }
        else Some [Struct b] })"

text \<open>
  Receiving: \<open>received\<close> is the structure the socket delivers, \<open>None\<close> when reading fails; \<open>wanted\<close>
  says whether the caller gave a place for the buffer. The result is the buffer stored there.
\<close>

definition reset_buffer :: LorieBuffer where
  "reset_buffer = \<lparr>refcount = 1, desc = no_desc, locked = False, lockedData = None, fd = -1, size = 0, offset = 0,
     image = None, gpuCopyPending = 0\<rparr>"

definition finish_receive :: "os \<Rightarrow> bool \<Rightarrow> LorieBuffer \<Rightarrow> 'z lb_scheme \<Rightarrow> (nat option \<times> 'z lb_scheme) option" where
  "finish_receive o1 wanted b s =
     (case (if wanted then os_calloc_buffer o1 else None) of
        Some a \<Rightarrow> Some (Some a, s\<lparr>buffers := (buffers s)(a \<mapsto> b)\<rparr>)
      | None \<Rightarrow> do {
          s1 \<leftarrow> (if 0 \<le> fd b then give_back (Fd (fd b)) s else Some s);
          s2 \<leftarrow> (case d_buffer (desc b) of
                   Some h \<Rightarrow> if api26 o1 then give_back (Ahb h) s1 else Some s1
                 | None \<Rightarrow> Some s1);
          Some (None, s2) })"

definition LorieBuffer_recvHandleFromUnixSocket ::
  "os \<Rightarrow> int \<Rightarrow> LorieBuffer option \<Rightarrow> bool \<Rightarrow> 'z lb_scheme \<Rightarrow> (nat option \<times> 'z lb_scheme) option" where
  "LorieBuffer_recvHandleFromUnixSocket o1 socketFd received wanted s =
     (if socketFd < 0 then Some (None, s)
      else
        let b = (case received of Some x \<Rightarrow> x | None \<Rightarrow> reset_buffer)\<lparr>image := None\<rparr> in
        if d_type (desc b) = LORIEBUFFER_FD then
          (if os_recv_fd o1 = -1 then Some (None, s)
           else
             let b1 = b\<lparr>fd := os_recv_fd o1\<rparr>; s1 = hold (Fd (os_recv_fd o1)) s in
             case os_mmap o1 of
               None \<Rightarrow> do { s2 \<leftarrow> give_back (Fd (fd b1)) s1; Some (None, s2) }
             | Some p \<Rightarrow> finish_receive o1 wanted (b1\<lparr>desc := (desc b1)\<lparr>d_data := Some p\<rparr>\<rparr>) (hold (Region p) s1))
        else if d_type (desc b) = LORIEBUFFER_AHARDWAREBUFFER \<and> api26 o1 then
          (case os_recv_ahb o1 of
             None \<Rightarrow> finish_receive o1 wanted b s
           | Some h \<Rightarrow> finish_receive o1 wanted (b\<lparr>desc := (desc b)\<lparr>d_buffer := Some h\<rparr>\<rparr>) (hold (Ahb h) s))
        else finish_receive o1 wanted b s)"

section \<open>Ownership\<close>

definition owned :: "LorieBuffer \<Rightarrow> resource multiset" where
  "owned b =
     (if d_type (desc b) = LORIEBUFFER_REGULAR then {#Block (the (d_data (desc b)))#}
      else if d_type (desc b) = LORIEBUFFER_FD then {#Region (the (d_data (desc b))), Fd (fd b)#}
      else {#Ahb (the (d_buffer (desc b)))#})"

definition typed :: "bool \<Rightarrow> LorieBuffer \<Rightarrow> bool" where
  "typed api b \<longleftrightarrow>
     d_type (desc b) \<in> {LORIEBUFFER_REGULAR, LORIEBUFFER_FD} \<and> d_data (desc b) \<noteq> None
     \<or> d_type (desc b) = LORIEBUFFER_AHARDWAREBUFFER \<and> d_buffer (desc b) \<noteq> None \<and> api"

definition all_owned :: "(nat \<rightharpoonup> LorieBuffer) \<Rightarrow> resource multiset" where
  "all_owned m = (\<Sum>a\<in>dom m. owned (the (m a)))"

definition lb_ok :: "bool \<Rightarrow> resource multiset \<Rightarrow> 'z lb_scheme \<Rightarrow> bool" where
  "lb_ok api ext s \<longleftrightarrow> finite (dom (buffers s)) \<and> held s = ext + all_owned (buffers s)
     \<and> (\<forall>a b. buffers s a = Some b \<longrightarrow> typed api b \<and> refcount b \<noteq> 0)"

lemma all_owned_update:
  assumes "finite (dom m)"
  shows "all_owned (m(a \<mapsto> b)) = owned b + all_owned (m(a := None))"
proof -
  have "all_owned (m(a \<mapsto> b)) = owned b + (\<Sum>x\<in>dom m - {a}. owned (the ((m(a \<mapsto> b)) x)))"
    using assms by (simp add: all_owned_def sum.insert_remove)
  also have "(\<Sum>x\<in>dom m - {a}. owned (the ((m(a \<mapsto> b)) x))) = all_owned (m(a := None))"
    unfolding all_owned_def by (rule sum.cong) auto
  finally show ?thesis .
qed

lemma all_owned_split:
  assumes "finite (dom m)" "m a = Some b"
  shows "all_owned m = owned b + all_owned (m(a := None))"
  using all_owned_update [OF assms(1), of a b] assms(2) by (simp add: fun_upd_idem)

lemma all_owned_new: "finite (dom m) \<Longrightarrow> m a = None \<Longrightarrow> all_owned (m(a \<mapsto> b)) = owned b + all_owned m"
  using all_owned_update [of m a b] by (simp add: fun_upd_idem)

lemma lb_ok_store:
  assumes "finite (dom (buffers s))" "\<forall>x y. buffers s x = Some y \<longrightarrow> typed api y \<and> refcount y \<noteq> 0"
    "held s = ext + owned b + all_owned ((buffers s)(a := None))" "typed api b" "refcount b \<noteq> 0"
  shows "lb_ok api ext (s\<lparr>buffers := (buffers s)(a \<mapsto> b)\<rparr>)"
  using assms by (auto simp: lb_ok_def all_owned_update union_assoc)

lemma lb_ok_update:
  assumes "lb_ok api ext s" "buffers s a = Some b" "owned b' = owned b" "typed api b'" "refcount b' \<noteq> 0"
  shows "lb_ok api ext (s\<lparr>buffers := (buffers s)(a \<mapsto> b')\<rparr>)"
  using assms all_owned_split [of "buffers s" a b] by (intro lb_ok_store) (auto simp: lb_ok_def union_assoc)

lemma lb_ok_buffer:
  assumes "lb_ok api ext s" "buffers s a = Some b"
  shows "typed api b" "refcount b \<noteq> 0"
  using assms by (auto simp: lb_ok_def)

lemma free_resources_ok:
  assumes "typed (api26 o1) b" "held s = owned b + r"
  shows "free_resources o1 b s = Some (s\<lparr>held := r\<rparr>)"
  using assms
  by (auto simp: typed_def free_resources_def owned_def give_back_def buffer_consts split: option.splits)

lemma free_ok:
  assumes "finite (dom (buffers s))" "buffers s a = Some b" "typed (api26 o1) b"
    "held s = ext + owned b + all_owned ((buffers s)(a := None))"
    "\<forall>x y. x \<noteq> a \<longrightarrow> buffers s x = Some y \<longrightarrow> typed (api26 o1) y \<and> refcount y \<noteq> 0"
  shows "\<exists>s'. LorieBuffer_free o1 (Some a) s = Some s' \<and> lb_ok (api26 o1) ext s'
    \<and> buffers s' = (buffers s)(a := None) \<and> held s' = ext + all_owned ((buffers s)(a := None))"
proof -
  let ?r = "ext + all_owned ((buffers s)(a := None))"
  have "held (unlink_all a s) = owned b + ?r" using assms(4) by (simp add: unlink_all_def ac_simps)
  from free_resources_ok [OF assms(3) this] show ?thesis using assms
    by (auto simp: LorieBuffer_free_def unlink_all_def lb_ok_def)
qed

section \<open>Every operation keeps the ownership\<close>

lemma acquire_ok:
  assumes "lb_ok api ext s" "buffers s a = Some b" "refcount b \<noteq> -1"
  shows "\<exists>s'. LorieBuffer_acquire (Some a) s = Some s' \<and> lb_ok api ext s'"
proof -
  have "refcount b + 1 \<noteq> 0" using assms(3) by (simp add: add_eq_0_iff2)
  then show ?thesis using lb_ok_buffer [OF assms(1,2)] assms
    by (auto simp: LorieBuffer_acquire_def owned_def typed_def intro!: lb_ok_update)
qed

lemma release_ok:
  assumes "lb_ok (api26 o1) ext s" "buffers s a = Some b"
  shows "\<exists>s'. LorieBuffer_release o1 (Some a) s = Some s' \<and> lb_ok (api26 o1) ext s'
    \<and> (refcount b = 1 \<longrightarrow> buffers s' = (buffers s)(a := None) \<and> held s = owned b + held s')
    \<and> (refcount b \<noteq> 1 \<longrightarrow> s' = s\<lparr>buffers := (buffers s)(a \<mapsto> b\<lparr>refcount := refcount b - 1\<rparr>)\<rparr>)"
proof (cases "refcount b = 1")
  case False
  then show ?thesis using lb_ok_buffer [OF assms] assms
    by (auto simp: LorieBuffer_release_def owned_def typed_def intro!: lb_ok_update)
next
  case True
  let ?b = "b\<lparr>refcount := refcount b - 1\<rparr>"
  define s1 where "s1 = s\<lparr>buffers := (buffers s)(a \<mapsto> ?b)\<rparr>"
  have s1: "buffers s1 = (buffers s)(a \<mapsto> ?b)" "held s1 = held s" by (simp_all add: s1_def)
  have o: "owned ?b = owned b" "typed (api26 o1) ?b" using lb_ok_buffer [OF assms] by (auto simp: owned_def typed_def)
  have h: "held s = ext + owned b + all_owned ((buffers s)(a := None))" and fin: "finite (dom (buffers s))"
    using assms all_owned_split [of "buffers s" a b] by (auto simp: lb_ok_def union_assoc)
  have "\<exists>s'. LorieBuffer_free o1 (Some a) s1 = Some s' \<and> lb_ok (api26 o1) ext s'
    \<and> buffers s' = (buffers s1)(a := None) \<and> held s' = ext + all_owned ((buffers s1)(a := None))"
    using assms s1 o h fin by (intro free_ok [of s1 a ?b]) (auto simp: lb_ok_def)
  moreover have "LorieBuffer_release o1 (Some a) s = LorieBuffer_free o1 (Some a) s1"
    using True assms(2) by (simp add: LorieBuffer_release_def s1_def)
  ultimately show ?thesis using True h s1 by (auto simp: ac_simps)
qed

lemma lock_ok:
  assumes "lb_ok api ext s" "buffers s a = Some b" "api26 o1 = api"
  shows "\<exists>ret p s'. LorieBuffer_lock o1 (Some a) s = Some (ret, p, s') \<and> lb_ok api ext s'"
proof -
  have u: "lb_ok api ext (s\<lparr>buffers := (buffers s)(a \<mapsto> b\<lparr>lockedData := p, locked := True\<rparr>)\<rparr>)" for p
    using assms lb_ok_buffer [OF assms(1,2)] by (intro lb_ok_update) (auto simp: owned_def typed_def)
  show ?thesis using lb_ok_buffer [OF assms(1,2)] assms u
    by (auto simp: LorieBuffer_lock_def typed_def buffer_consts split: prod.splits)
qed

lemma unlock_ok:
  assumes "lb_ok api ext s" "buffers s a = Some b" "api26 o1 = api"
  shows "\<exists>ret s'. LorieBuffer_unlock o1 (Some a) s = Some (ret, s') \<and> lb_ok api ext s'"
proof -
  have u: "lb_ok api ext (s\<lparr>buffers := (buffers s)(a \<mapsto> b\<lparr>lockedData := None, locked := False\<rparr>)\<rparr>)"
    using assms lb_ok_buffer [OF assms(1,2)] by (intro lb_ok_update) (auto simp: owned_def typed_def)
  show ?thesis using lb_ok_buffer [OF assms(1,2)] assms u
    by (auto simp: LorieBuffer_unlock_def typed_def buffer_consts)
qed

lemma pending_ok:
  assumes "lb_ok api ext s" "buffers s a = Some b"
  shows "\<exists>s'. LorieBuffer_gpuCopyPendingInc (Some a) s = Some s' \<and> lb_ok api ext s'"
    "\<exists>s'. LorieBuffer_gpuCopyPendingDec (Some a) s = Some s' \<and> lb_ok api ext s'"
  using assms lb_ok_buffer [OF assms]
  by (auto simp: LorieBuffer_gpuCopyPendingInc_def LorieBuffer_gpuCopyPendingDec_def owned_def typed_def intro!: lb_ok_update)

lemma lists_ok:
  assumes "lb_ok api ext s"
  shows "lb_ok api ext (LorieBuffer_addToList x l s)" "lb_ok api ext (LorieBuffer_removeFromList x s)"
  using assms by (auto simp: LorieBuffer_addToList_def LorieBuffer_removeFromList_def unlink_all_def lb_ok_def Let_def split: option.splits)


lemma hold_fields [simp]:
  "buffers (hold r s) = buffers s" "held (hold r s) = add_mset r (held s)" "mem (hold r s) = mem s" "next_id (hold r s) = next_id s"
  by (simp_all add: hold_def)

lemma give_back_hold: "held s = add_mset r m \<Longrightarrow> give_back r s = Some (s\<lparr>held := m\<rparr>)"
  by (simp add: give_back_def)

definition fresh_buffer :: "os \<Rightarrow> 'z lb_scheme \<Rightarrow> bool" where
  "fresh_buffer o1 s \<longleftrightarrow> (\<forall>a. os_calloc_buffer o1 = Some a \<longrightarrow> buffers s a = None)"

lemma lb_ok_fields:
  assumes "lb_ok api ext s" "buffers t = buffers s" "held t = held s"
  shows "lb_ok api ext t"
  using assms by (simp add: lb_ok_def)

lemma finish_allocate_ok:
  assumes "lb_ok (api26 o1) ext s" "fresh_buffer o1 s" "typed (api26 o1) b" "refcount b \<noteq> 0"
    "buffers t = buffers s" "held t = owned b + held s"
  shows "\<exists>r t'. finish_allocate o1 b t = Some (r, t') \<and> lb_ok (api26 o1) ext t'"
proof (cases "os_calloc_buffer o1")
  case None
  then show ?thesis using assms free_resources_ok [OF assms(3,6)]
    by (auto simp: finish_allocate_def intro!: lb_ok_fields [OF assms(1)])
next
  case (Some a)
  then have n: "buffers s a = None" using assms(2) by (simp add: fresh_buffer_def)
  then have "(buffers s)(a := None) = buffers s" by (simp add: fun_upd_idem)
  then have "lb_ok (api26 o1) ext (t\<lparr>buffers := (buffers t)(a \<mapsto> b)\<rparr>)"
    using assms by (intro lb_ok_store) (auto simp: lb_ok_def ac_simps)
  then show ?thesis using Some by (simp add: finish_allocate_def)
qed

text \<open>What a new buffer owns before its memory is allocated.\<close>

definition brought :: "LorieBuffer \<Rightarrow> resource multiset" where
  "brought b =
     (if d_type (desc b) = LORIEBUFFER_FD \<and> 0 \<le> fd b then {#Fd (fd b)#}
      else if d_type (desc b) = LORIEBUFFER_AHARDWAREBUFFER \<and> d_buffer (desc b) \<noteq> None then {#Ahb (the (d_buffer (desc b)))#}
      else {#})"

lemma allocate_memory_ok:
  assumes "lb_ok (api26 o1) ext s" "fresh_buffer o1 s" "mul32 (d_stride (desc b)) (d_height (desc b)) \<noteq> None"
    "refcount b \<noteq> 0" "buffers t = buffers s" "api26 o1 \<or> d_buffer (desc b) = None" "held t = brought b + held s"
  shows "\<exists>r t'. allocate_memory o1 b t = Some (r, t') \<and> lb_ok (api26 o1) ext t'"
proof -
  note fin = finish_allocate_ok [OF assms(1,2)]
  consider (reg) "d_type (desc b) = LORIEBUFFER_REGULAR" | (fd) "d_type (desc b) = LORIEBUFFER_FD"
    | (ahb) "d_type (desc b) = LORIEBUFFER_AHARDWAREBUFFER"
    | (other) "d_type (desc b) \<notin> {LORIEBUFFER_REGULAR, LORIEBUFFER_FD, LORIEBUFFER_AHARDWAREBUFFER}" by auto
  then show ?thesis
  proof cases
    case reg
    then have h: "held t = held s" using assms(7) by (simp add: brought_def buffer_consts)
    obtain n where n: "mul32 (d_stride (desc b)) (d_height (desc b)) = Some n" using assms(3) by blast
    show ?thesis
    proof (cases "os_calloc_data o1")
      case None
      then show ?thesis using reg n h assms(5) lb_ok_fields [OF assms(1)] by (simp add: allocate_memory_def Let_def)
    next
      case (Some p)
      then show ?thesis using reg n h assms(4,5)
        by (simp add: allocate_memory_def Let_def)
          (rule fin, auto simp: typed_def owned_def buffer_consts)
    qed
  next
    case fd
    then have ty: "d_type (desc b) \<noteq> LORIEBUFFER_REGULAR" "d_type (desc b) \<noteq> LORIEBUFFER_AHARDWAREBUFFER"
      by (simp_all add: buffer_consts)
    show ?thesis
    proof (cases "fd b < 0")
      case True
      then show ?thesis using fd ty assms(5,7) lb_ok_fields [OF assms(1), of t] by (simp add: allocate_memory_def Let_def brought_def)
    next
      case False
      then have h: "held t = add_mset (Fd (fd b)) (held s)" using assms(7) fd by (simp add: brought_def)
      show ?thesis
      proof (cases "os_mmap o1")
        case None
        then show ?thesis using fd ty False assms(5) give_back_hold [OF h]
          by (simp add: allocate_memory_def Let_def) (rule lb_ok_fields [OF assms(1)], simp_all)
      next
        case (Some p)
        then show ?thesis using fd ty False h assms(4,5)
          by (simp add: allocate_memory_def Let_def)
            (rule fin, auto simp: typed_def owned_def buffer_consts)
      qed
    qed
  next
    case ahb
    then have ty: "d_type (desc b) \<noteq> LORIEBUFFER_REGULAR" "d_type (desc b) \<noteq> LORIEBUFFER_FD" by (simp_all add: buffer_consts)
    show ?thesis
    proof (cases "d_buffer (desc b)")
      case None
      then show ?thesis using ahb ty assms(5,7) lb_ok_fields [OF assms(1), of t] by (simp add: allocate_memory_def Let_def brought_def)
    next
      case (Some h)
      then have h: "api26 o1" "held t = add_mset (Ahb h) (held s)" using assms(6,7) ahb ty by (simp_all add: brought_def)
      obtain w ht st fmt where d: "os_AHardwareBuffer_describe o1 h = (w, ht, st, fmt)" by (metis prod.exhaust)
      let ?b = "b\<lparr>desc := (desc b)\<lparr>d_width := w, d_height := ht, d_stride := st, d_format := fmt mod 256\<rparr>\<rparr>"
      have "\<exists>r t'. finish_allocate o1 ?b t = Some (r, t') \<and> lb_ok (api26 o1) ext t'"
        using Some ahb ty assms(4,5) h by (intro fin) (auto simp: typed_def owned_def)
      then show ?thesis using Some ahb ty h(1) d by (simp add: allocate_memory_def Let_def)
    qed
  next
    case other
    then show ?thesis using assms(5,7) lb_ok_fields [OF assms(1), of t] by (simp add: allocate_memory_def Let_def brought_def)
  qed
qed

lemma createRegion_ok:
  "\<exists>f t. LorieBuffer_createRegion o1 s = Some (f, t) \<and> buffers t = buffers s \<and> mem t = mem s
     \<and> held t = (if 0 \<le> f then add_mset (Fd f) (held s) else held s)"
  by (auto simp: LorieBuffer_createRegion_def Let_def hold_def give_back_def)

lemma acceptable_allocate_ok:
  assumes "lb_ok (api26 o1) ext s" "fresh_buffer o1 s" "mul32 width height \<noteq> None"
    "ty = LORIEBUFFER_AHARDWAREBUFFER \<or> acceptable width height format"
  shows "\<exists>r t. LorieBuffer_allocate o1 width height format ty s = Some (r, t) \<and> lb_ok (api26 o1) ext t"
proof -
  have alloc: "\<exists>r t'. allocate o1 width width height format ty buf f sz 0 True t = Some (r, t') \<and> lb_ok (api26 o1) ext t'"
    if "buffers t = buffers s" "api26 o1 \<or> buf = None"
      "held t = brought (new_buffer width width height format ty buf f sz 0 (next_id t)) + held s" for buf f sz t
  proof -
    let ?b = "new_buffer width width height format ty buf f sz 0 (next_id t)"
    have "\<exists>r t'. allocate_memory o1 ?b (t\<lparr>next_id := next_id t + 1\<rparr>) = Some (r, t') \<and> lb_ok (api26 o1) ext t'"
      using assms(3) that by (intro allocate_memory_ok [OF assms(1,2)]) (simp_all add: new_buffer_def)
    then show ?thesis using assms(4) by (auto simp: allocate_def)
  qed
  obtain n where n: "mul32 width height = Some n" using assms(3) by blast
  obtain f t where f: "LorieBuffer_createRegion o1 s = Some (f, t)" "buffers t = buffers s"
    "held t = (if 0 \<le> f then add_mset (Fd f) (held s) else held s)" using createRegion_ok by blast
  have c: "LORIEBUFFER_AHARDWAREBUFFER \<noteq> LORIEBUFFER_FD" by (simp add: buffer_consts)
  consider "ty = LORIEBUFFER_FD" | "ty = LORIEBUFFER_AHARDWAREBUFFER" | "ty \<noteq> LORIEBUFFER_FD" "ty \<noteq> LORIEBUFFER_AHARDWAREBUFFER"
    by blast
  then show ?thesis
  proof cases
    case 1
    then show ?thesis
      using alloc [of t None f] f n lb_ok_fields [OF assms(1), of t]
      by (cases "f < 0") (auto simp: LorieBuffer_allocate_def brought_def new_buffer_def)
  next
    case 2
    then show ?thesis using c alloc [of s None "-1" 0] alloc [of "hold (Ahb _) s" "Some _" "-1" 0]
      by (auto simp: LorieBuffer_allocate_def brought_def new_buffer_def split: option.splits)
  next
    case 3
    then show ?thesis using alloc [of s None "-1" 0]
      by (auto simp: LorieBuffer_allocate_def brought_def new_buffer_def)
  qed
qed


lemma acceptable_wrap_ok:
  assumes "lb_ok (api26 o1) ext s" "fresh_buffer o1 s" "mul32 stride height \<noteq> None" "acceptable width height format"
  shows "\<exists>r t. LorieBuffer_wrapFileDescriptor o1 width stride height format f off s = Some (r, t) \<and> lb_ok (api26 o1) ext t"
proof -
  obtain n where n: "mul32 stride height = Some n" using assms(3) by blast
  obtain bfd t where t: "dup_fd o1 f s = (bfd, t)" by fastforce
  then have f: "buffers t = buffers s" "held t = (if 0 \<le> bfd then add_mset (Fd bfd) (held s) else held s)"
    by (auto simp: dup_fd_def split: if_splits)
  let ?b = "new_buffer width stride height format LORIEBUFFER_FD None bfd (word_of_int n * 4) off (next_id t)"
  have "\<exists>r t'. allocate_memory o1 ?b (t\<lparr>next_id := next_id t + 1\<rparr>) = Some (r, t') \<and> lb_ok (api26 o1) ext t'"
    using assms(3) f by (intro allocate_memory_ok [OF assms(1,2)]) (simp_all add: new_buffer_def brought_def buffer_consts)
  then show ?thesis using assms(4) n t by (auto simp: LorieBuffer_wrapFileDescriptor_def allocate_def)
qed

lemma wrapAHardwareBuffer_ok:
  assumes "lb_ok (api26 o1) (ext + (case h of None \<Rightarrow> {#} | Some x \<Rightarrow> {#Ahb x#})) s" "fresh_buffer o1 s" "api26 o1 \<or> h = None"
  shows "\<exists>r t. LorieBuffer_wrapAHardwareBuffer o1 h s = Some (r, t) \<and> lb_ok (api26 o1) ext t"
proof -
  let ?b = "new_buffer 0 0 0 0 LORIEBUFFER_AHARDWAREBUFFER h (-1) 0 0 (next_id s)"
  let ?s = "s\<lparr>held := ext + all_owned (buffers s)\<rparr>"
  have "lb_ok (api26 o1) ext ?s" "fresh_buffer o1 ?s" using assms(1,2) by (auto simp: lb_ok_def fresh_buffer_def)
  moreover have "held s = brought ?b + held ?s"
    using assms(1) by (cases h) (auto simp: lb_ok_def brought_def new_buffer_def buffer_consts)
  ultimately have "\<exists>r t'. allocate_memory o1 ?b (s\<lparr>next_id := next_id s + 1\<rparr>) = Some (r, t') \<and> lb_ok (api26 o1) ext t'"
    using assms(3) by (intro allocate_memory_ok [of o1 ext ?s]) (simp_all add: new_buffer_def mul32_def)
  then show ?thesis by (auto simp: LorieBuffer_wrapAHardwareBuffer_def allocate_def dup_fd_def)
qed

text \<open>What the calls leak that fail late, and the structures that arrive with their handle.\<close>

definition leak_alloc :: "os \<Rightarrow> int \<Rightarrow> int \<Rightarrow> int \<Rightarrow> int \<Rightarrow> 'z lb_scheme \<Rightarrow> resource multiset" where
  "leak_alloc o1 w h fmt ty s =
     (case LorieBuffer_createRegion o1 s of
        Some (f, _) \<Rightarrow> if ty = LORIEBUFFER_FD \<and> \<not> acceptable w h fmt \<and> 0 \<le> f then {#Fd f#} else {#}
      | None \<Rightarrow> {#})"

definition leak_wrap :: "os \<Rightarrow> int \<Rightarrow> int \<Rightarrow> int \<Rightarrow> int \<Rightarrow> resource multiset" where
  "leak_wrap o1 w h fmt f = (if \<not> acceptable w h fmt \<and> 0 \<le> f \<and> 0 \<le> os_dup o1 then {#Fd (os_dup o1)#} else {#})"

definition leak_recv :: "os \<Rightarrow> LorieBuffer \<Rightarrow> bool \<Rightarrow> resource multiset" where
  "leak_recv o1 b wanted =
     (case os_mmap o1 of
        Some p \<Rightarrow> if d_type (desc b) = LORIEBUFFER_FD \<and> os_recv_fd o1 \<noteq> -1 \<and> \<not> (wanted \<and> os_calloc_buffer o1 \<noteq> None)
                  then {#Region p#} else {#}
      | None \<Rightarrow> {#})"

definition delivered :: "os \<Rightarrow> LorieBuffer \<Rightarrow> bool" where
  "delivered o1 b \<longleftrightarrow> refcount b \<noteq> 0 \<and>
     (d_type (desc b) = LORIEBUFFER_FD \<and> -1 \<le> os_recv_fd o1 \<and> d_buffer (desc b) = None
      \<or> d_type (desc b) = LORIEBUFFER_AHARDWAREBUFFER \<and> api26 o1 \<and> os_recv_ahb o1 \<noteq> None \<and> fd b < 0)"

lemma lb_ok_ext:
  assumes "lb_ok api ext s" "buffers t = buffers s" "held t = held s + m" "ext' = ext + m"
  shows "lb_ok api ext' t"
  using assms by (auto simp: lb_ok_def ac_simps)

lemma LorieBuffer_allocate_ok:
  assumes "lb_ok (api26 o1) ext s" "fresh_buffer o1 s" "mul32 width height \<noteq> None"
  shows "\<exists>r t. LorieBuffer_allocate o1 width height format ty s = Some (r, t)
    \<and> lb_ok (api26 o1) (ext + leak_alloc o1 width height format ty s) t"
proof -
  obtain f t where f: "LorieBuffer_createRegion o1 s = Some (f, t)" "buffers t = buffers s"
    "held t = (if 0 \<le> f then add_mset (Fd f) (held s) else held s)" using createRegion_ok by blast
  show ?thesis
  proof (cases "ty = LORIEBUFFER_AHARDWAREBUFFER \<or> acceptable width height format")
    case True
    then have "leak_alloc o1 width height format ty s = {#}" using f(1) by (auto simp: leak_alloc_def buffer_consts)
    then show ?thesis using acceptable_allocate_ok [OF assms True] by simp
  next
    case False
    show ?thesis
    proof (cases "ty = LORIEBUFFER_FD \<and> 0 \<le> f")
      case True
      then have "lb_ok (api26 o1) (ext + {#Fd f#}) (t\<lparr>next_id := next_id t + 1\<rparr>)"
        using f lb_ok_ext [OF assms(1), of "t\<lparr>next_id := next_id t + 1\<rparr>" "{#Fd f#}"] by simp
      then show ?thesis using True False f assms(3)
        by (auto simp: LorieBuffer_allocate_def allocate_def leak_alloc_def buffer_consts)
    next
      case other: False
      then have "lb_ok (api26 o1) ext t" if "ty = LORIEBUFFER_FD"
        using that f by (intro lb_ok_fields [OF assms(1)]) auto
      moreover have "lb_ok (api26 o1) ext (s\<lparr>next_id := next_id s + 1\<rparr>)" by (rule lb_ok_fields [OF assms(1)]) simp_all
      ultimately show ?thesis using other False f assms(3)
        by (auto simp: LorieBuffer_allocate_def allocate_def leak_alloc_def)
    qed
  qed
qed

lemma wrapFileDescriptor_ok:
  assumes "lb_ok (api26 o1) ext s" "fresh_buffer o1 s" "mul32 stride height \<noteq> None"
  shows "\<exists>r t. LorieBuffer_wrapFileDescriptor o1 width stride height format f off s = Some (r, t)
    \<and> lb_ok (api26 o1) (ext + leak_wrap o1 width height format f) t"
proof (cases "acceptable width height format")
  case True
  then show ?thesis using acceptable_wrap_ok [OF assms True] by (simp add: leak_wrap_def)
next
  case False
  obtain bfd t where t: "dup_fd o1 f s = (bfd, t)" by fastforce
  then have "lb_ok (api26 o1) (ext + leak_wrap o1 width height format f) (t\<lparr>next_id := next_id t + 1\<rparr>)"
    using False by (intro lb_ok_ext [OF assms(1), of _ "leak_wrap o1 width height format f"])
      (auto simp: dup_fd_def leak_wrap_def split: if_splits)
  then show ?thesis using False assms(3) t
    by (auto simp: LorieBuffer_wrapFileDescriptor_def allocate_def buffer_consts)
qed

lemma finish_receive_ok:
  assumes "lb_ok (api26 o1) ext s" "fresh_buffer o1 s" "typed (api26 o1) b" "refcount b \<noteq> 0"
    "buffers t = buffers s" "held t = owned b + held s"
    "d_type (desc b) = LORIEBUFFER_FD \<and> 0 \<le> fd b \<and> d_buffer (desc b) = None
      \<or> d_type (desc b) = LORIEBUFFER_AHARDWAREBUFFER \<and> fd b < 0"
  shows "\<exists>r t'. finish_receive o1 wanted b t = Some (r, t')
    \<and> lb_ok (api26 o1) (ext + (if wanted \<and> os_calloc_buffer o1 \<noteq> None \<or> d_type (desc b) \<noteq> LORIEBUFFER_FD then {#}
        else {#Region (the (d_data (desc b)))#})) t'"
proof (cases "wanted \<and> os_calloc_buffer o1 \<noteq> None")
  case True
  then obtain a where a: "os_calloc_buffer o1 = Some a" by blast
  then have n: "buffers s a = None" using assms(2) by (simp add: fresh_buffer_def)
  then have "(buffers s)(a := None) = buffers s" by (simp add: fun_upd_idem)
  then have "lb_ok (api26 o1) ext (t\<lparr>buffers := (buffers t)(a \<mapsto> b)\<rparr>)"
    using assms(1,3,4,5,6) by (intro lb_ok_store) (auto simp: lb_ok_def ac_simps)
  then show ?thesis using a True by (simp add: finish_receive_def)
next
  case none: False
  then have n: "(if wanted then os_calloc_buffer o1 else None) = None" by auto
  show ?thesis
  proof (cases "d_type (desc b) = LORIEBUFFER_FD")
    case True
    then have h: "held t = add_mset (Fd (fd b)) (add_mset (Region (the (d_data (desc b)))) (held s))"
      using assms(6) by (simp add: owned_def buffer_consts add_mset_commute)
    have "lb_ok (api26 o1) (ext + {#Region (the (d_data (desc b)))#}) (t\<lparr>held := add_mset (Region (the (d_data (desc b)))) (held s)\<rparr>)"
      by (rule lb_ok_ext [OF assms(1), of _ "{#Region (the (d_data (desc b)))#}"]) (simp_all add: assms(5))
    then show ?thesis using n none True assms(7) give_back_hold [OF h]
      by (auto simp: finish_receive_def buffer_consts)
  next
    case False
    then have ty: "d_type (desc b) = LORIEBUFFER_AHARDWAREBUFFER" "fd b < 0" using assms(7) by auto
    then obtain x where x: "d_buffer (desc b) = Some x" "api26 o1" using assms(3) by (auto simp: typed_def buffer_consts)
    then have h: "held t = add_mset (Ahb x) (held s)" using assms(6) ty by (simp add: owned_def buffer_consts)
    have "lb_ok (api26 o1) ext (t\<lparr>held := held s\<rparr>)" by (rule lb_ok_fields [OF assms(1)]) (simp_all add: assms(5))
    then show ?thesis using n False ty x give_back_hold [OF h] by (auto simp: finish_receive_def)
  qed
qed

lemma recvHandle_ok:
  assumes "lb_ok (api26 o1) ext s" "fresh_buffer o1 s" "delivered o1 b"
  shows "\<exists>r t. LorieBuffer_recvHandleFromUnixSocket o1 sock (Some b) wanted s = Some (r, t)
    \<and> lb_ok (api26 o1) (ext + (if sock < 0 then {#} else leak_recv o1 b wanted)) t"
proof -
  note fin = finish_receive_ok [OF assms(1,2)]
  consider (closed) "sock < 0" | (fd) "0 \<le> sock" "d_type (desc b) = LORIEBUFFER_FD"
    | (ahb) "0 \<le> sock" "d_type (desc b) = LORIEBUFFER_AHARDWAREBUFFER" using assms(3) by (force simp: delivered_def)
  then show ?thesis
  proof cases
    case closed
    then show ?thesis using assms(1) by (simp add: LorieBuffer_recvHandleFromUnixSocket_def)
  next
    case ahb
    then obtain x where x: "os_recv_ahb o1 = Some x" "api26 o1" "fd b < 0" "refcount b \<noteq> 0"
      using assms(3) by (auto simp: delivered_def buffer_consts)
    let ?b = "b\<lparr>image := None, desc := (desc b)\<lparr>d_buffer := Some x\<rparr>\<rparr>"
    have "\<exists>r t'. finish_receive o1 wanted ?b (hold (Ahb x) s) = Some (r, t')
      \<and> lb_ok (api26 o1) (ext + (if wanted \<and> os_calloc_buffer o1 \<noteq> None \<or> d_type (desc ?b) \<noteq> LORIEBUFFER_FD then {#}
        else {#Region (the (d_data (desc ?b)))#})) t'"
      using ahb x by (intro fin) (simp_all add: typed_def owned_def buffer_consts)
    then show ?thesis using ahb x
      by (auto simp: LorieBuffer_recvHandleFromUnixSocket_def leak_recv_def buffer_consts split: option.splits)
  next
    case fd
    then have r: "-1 \<le> os_recv_fd o1" "d_buffer (desc b) = None" "refcount b \<noteq> 0"
      using assms(3) by (auto simp: delivered_def buffer_consts)
    consider (nofd) "os_recv_fd o1 = -1" | (nomap) "0 \<le> os_recv_fd o1" "os_mmap o1 = None"
      | (map) p where "0 \<le> os_recv_fd o1" "os_mmap o1 = Some p" using r(1) by fastforce
    then show ?thesis
    proof cases
      case nofd
      then show ?thesis using fd assms(1)
        by (simp add: LorieBuffer_recvHandleFromUnixSocket_def leak_recv_def Let_def split: option.splits)
    next
      case nomap
      have "give_back (Fd (os_recv_fd o1)) (hold (Fd (os_recv_fd o1)) s) = Some s"
        by (simp add: give_back_def hold_def)
      then show ?thesis using nomap fd assms(1)
        by (simp add: LorieBuffer_recvHandleFromUnixSocket_def leak_recv_def Let_def)
    next
      case map
      let ?b = "b\<lparr>image := None, fd := os_recv_fd o1, desc := (desc b)\<lparr>d_data := Some p\<rparr>\<rparr>"
      let ?t = "hold (Region p) (hold (Fd (os_recv_fd o1)) s)"
      have "\<exists>r t'. finish_receive o1 wanted ?b ?t = Some (r, t')
        \<and> lb_ok (api26 o1) (ext + (if wanted \<and> os_calloc_buffer o1 \<noteq> None \<or> d_type (desc ?b) \<noteq> LORIEBUFFER_FD then {#}
          else {#Region (the (d_data (desc ?b)))#})) t'"
        using fd r map by (intro fin) (simp_all add: typed_def owned_def buffer_consts)
      then show ?thesis using fd map
        by (auto simp: LorieBuffer_recvHandleFromUnixSocket_def leak_recv_def Let_def)
    qed
  qed
qed

lemma blit_ok: "d_data (desc b) \<noteq> None \<Longrightarrow> \<exists>m. blit blt b p st s = Some (s\<lparr>mem := m\<rparr>)"
  by (auto simp: blit_def)

lemma convert_store_ok:
  assumes "lb_ok api ext s" "buffers s a = Some b" "d_type (desc b) = LORIEBUFFER_REGULAR" "d_data (desc b) = Some q"
    "buffers t = buffers s" "held t = owned b' + held s" "typed api b'" "refcount b' = refcount b"
  shows "\<exists>t'. give_back (Block q) t = Some t' \<and> lb_ok api ext (t'\<lparr>buffers := (buffers t')(a \<mapsto> b')\<rparr>)"
proof -
  have fin: "finite (dom (buffers s))" using assms(1) by (simp add: lb_ok_def)
  have "held s = ext + owned b + all_owned ((buffers s)(a := None))"
    using assms(1) all_owned_split [OF fin assms(2)] by (simp add: lb_ok_def union_assoc)
  moreover have "owned b = {#Block q#}" using assms(3,4) by (simp add: owned_def)
  ultimately have h: "held t = add_mset (Block q) (ext + owned b' + all_owned ((buffers s)(a := None)))"
    using assms(6) by simp
  have "lb_ok api ext ((t\<lparr>held := ext + owned b' + all_owned ((buffers s)(a := None))\<rparr>)
      \<lparr>buffers := (buffers (t\<lparr>held := ext + owned b' + all_owned ((buffers s)(a := None))\<rparr>))(a \<mapsto> b')\<rparr>)"
    using assms(1,5,7,8) lb_ok_buffer [OF assms(1,2)] by (intro lb_ok_store) (auto simp: lb_ok_def)
  then show ?thesis using give_back_hold [OF h] by simp
qed

lemma convert_ok:
  assumes "lb_ok (api26 o1) ext s" "buffers s a = Some b" "mul32 (d_stride (desc b)) (d_height (desc b)) \<noteq> None"
    "\<forall>h. fst (os_AHardwareBuffer_lock o1 h) = 0 \<longrightarrow> snd (os_AHardwareBuffer_lock o1 h) \<noteq> None"
  shows "\<exists>t. LorieBuffer_convert blt o1 (Some a) ty format s = Some t \<and> lb_ok (api26 o1) ext t"
proof (cases "d_type (desc b) \<noteq> LORIEBUFFER_REGULAR
             \<or> ty \<noteq> LORIEBUFFER_FD \<and> ty \<noteq> LORIEBUFFER_AHARDWAREBUFFER
             \<or> format \<noteq> FORMAT_R8G8B8X8 \<and> format \<noteq> FORMAT_B8G8R8A8")
  case True
  then show ?thesis using assms(1,2) by (simp add: LorieBuffer_convert_def)
next
  case False
  then have reg: "d_type (desc b) = LORIEBUFFER_REGULAR" by simp
  then obtain q where q: "d_data (desc b) = Some q" using lb_ok_buffer(1) [OF assms(1,2)] by (auto simp: typed_def buffer_consts)
  note store = convert_store_ok [OF assms(1,2) reg q]
  show ?thesis
  proof (cases "ty = LORIEBUFFER_FD")
    case fd: True
    obtain n where n: "mul32 (d_stride (desc b)) (d_height (desc b)) = Some n" using assms(3) by blast
    obtain f t where f: "LorieBuffer_createRegion o1 s = Some (f, t)" "buffers t = buffers s"
      "held t = (if 0 \<le> f then add_mset (Fd f) (held s) else held s)" using createRegion_ok by blast
    show ?thesis
    proof (cases "f < 0 \<or> os_mmap o1 = None")
      case True
      then show ?thesis using False fd n f assms(2) lb_ok_fields [OF assms(1), of t]
          give_back_hold [of t "Fd f" "held s"] lb_ok_fields [OF assms(1), of "t\<lparr>held := held s\<rparr>"]
        by (auto simp: LorieBuffer_convert_def)
    next
      case ok: False
      then obtain p where p: "os_mmap o1 = Some p" by blast
      let ?b = "b\<lparr>desc := (desc b)\<lparr>d_type := ty, d_format := format, d_data := Some p\<rparr>,
                  fd := f, size := alignToPage o1 (word_of_int n * 4), offset := 0, lockedData := None, locked := False\<rparr>"
      obtain m where m: "blit blt b p (d_stride (desc b)) (hold (Region p) t) = Some ((hold (Region p) t)\<lparr>mem := m\<rparr>)"
        using blit_ok q by blast
      have "\<exists>t'. give_back (Block q) ((hold (Region p) t)\<lparr>mem := m\<rparr>) = Some t'
          \<and> lb_ok (api26 o1) ext (t'\<lparr>buffers := (buffers t')(a \<mapsto> ?b)\<rparr>)"
        using f(2,3) ok fd by (intro store) (auto simp: owned_def typed_def buffer_consts)
      then show ?thesis using False fd n f(1) ok p m q assms(2) by (auto simp: LorieBuffer_convert_def)
    qed
  next
    case ahb: False
    show ?thesis
    proof (cases "if api26 o1 then os_AHardwareBuffer_allocate o1 else None")
      case None
      then show ?thesis using False ahb assms(1,2) by (simp add: LorieBuffer_convert_def)
    next
      case (Some h)
      then have api: "api26 o1" "os_AHardwareBuffer_allocate o1 = Some h" by (auto split: if_splits)
      obtain w ht st fmt where d: "os_AHardwareBuffer_describe o1 h = (w, ht, st, fmt)" by (metis prod.exhaust)
      obtain ret p where l: "os_AHardwareBuffer_lock o1 h = (ret, p)" by fastforce
      let ?b = "b\<lparr>desc := (desc b)\<lparr>d_type := ty, d_format := format, d_stride := st, d_buffer := Some h, d_data := None\<rparr>,
                  lockedData := None, locked := False\<rparr>"
      obtain m where m: "(case (ret, p) of (ret, Some p) \<Rightarrow> if ret = 0 then blit blt b p st (hold (Ahb h) s) else Some (hold (Ahb h) s)
          | (ret, None) \<Rightarrow> if ret = 0 then None else Some (hold (Ahb h) s)) = Some ((hold (Ahb h) s)\<lparr>mem := m\<rparr>)"
      proof (cases "ret = 0")
        case True
        then obtain p' where "p = Some p'" using assms(4) l by (metis fst_conv not_None_eq snd_conv)
        then show ?thesis using True that blit_ok [of b blt p' st "hold (Ahb h) s"] q by auto
      next
        case False
        then show ?thesis using that [of "mem (hold (Ahb h) s)"] by (cases p) simp_all
      qed
      have ty: "ty = LORIEBUFFER_AHARDWAREBUFFER" using False ahb by blast
      have "\<exists>t'. give_back (Block q) ((hold (Ahb h) s)\<lparr>mem := m\<rparr>) = Some t'
          \<and> lb_ok (api26 o1) ext (t'\<lparr>buffers := (buffers t')(a \<mapsto> ?b)\<rparr>)"
        using api ty by (intro store) (auto simp: owned_def typed_def buffer_consts)
      then show ?thesis using False ahb api d l m q assms(2) by (auto simp: LorieBuffer_convert_def)
    qed
  qed
qed


text \<open>
  The operations as steps on a ledger: what the rest of the process holds, what has been leaked so
  far, and the state. The result is \<open>None\<close> when the operation uses or gives back something it does
  not have. A step assumes what callers and the operating system guarantee: a product of
  dimensions that fits, new objects at free addresses, fewer than \<open>2 ^ 16 - 1\<close> references, and, for a
  received structure, that it comes with the handle of its type. Three calls leak: a refused
  allocation of shared memory and a refused duplicate (\<open>buffer.c:134\<close>), and a received mapping for
  which no buffer is made (\<open>buffer.c:426\<close>).
\<close>

type_synonym 'z ledger = "resource multiset \<times> resource multiset \<times> 'z lb_scheme"

inductive buffer_step :: "blt \<Rightarrow> bool \<Rightarrow> 'z ledger \<Rightarrow> 'z ledger option \<Rightarrow> bool" for blt api where
  alloc: "\<lbrakk>api26 o1 = api; fresh_buffer o1 s; mul32 w h \<noteq> None\<rbrakk> \<Longrightarrow>
     buffer_step blt api (ext, lk, s)
       (map_option (\<lambda>(r, t). (ext, lk + leak_alloc o1 w h fmt ty s, t)) (LorieBuffer_allocate o1 w h fmt ty s))"
| wrap: "\<lbrakk>api26 o1 = api; fresh_buffer o1 s; mul32 st h \<noteq> None\<rbrakk> \<Longrightarrow>
     buffer_step blt api (ext, lk, s)
       (map_option (\<lambda>(r, t). (ext, lk + leak_wrap o1 w h fmt f, t)) (LorieBuffer_wrapFileDescriptor o1 w st h fmt f off s))"
| wrap_ahb: "\<lbrakk>api26 o1 = api; fresh_buffer o1 s; api\<rbrakk> \<Longrightarrow>
     buffer_step blt api (add_mset (Ahb x) ext, lk, s)
       (map_option (\<lambda>(r, t). (ext, lk, t)) (LorieBuffer_wrapAHardwareBuffer o1 (Some x) s))"
| recv: "\<lbrakk>api26 o1 = api; fresh_buffer o1 s; delivered o1 b\<rbrakk> \<Longrightarrow>
     buffer_step blt api (ext, lk, s)
       (map_option (\<lambda>(r, t). (ext, lk + (if sock < 0 then {#} else leak_recv o1 b wanted), t))
         (LorieBuffer_recvHandleFromUnixSocket o1 sock (Some b) wanted s))"
| convert: "\<lbrakk>api26 o1 = api; buffers s a = Some b; mul32 (d_stride (desc b)) (d_height (desc b)) \<noteq> None;
     \<forall>h. fst (os_AHardwareBuffer_lock o1 h) = 0 \<longrightarrow> snd (os_AHardwareBuffer_lock o1 h) \<noteq> None\<rbrakk> \<Longrightarrow>
     buffer_step blt api (ext, lk, s) (map_option (\<lambda>t. (ext, lk, t)) (LorieBuffer_convert blt o1 (Some a) ty fmt s))"
| acquire: "\<lbrakk>buffers s a = Some b; refcount b \<noteq> -1\<rbrakk> \<Longrightarrow>
     buffer_step blt api (ext, lk, s) (map_option (\<lambda>t. (ext, lk, t)) (LorieBuffer_acquire (Some a) s))"
| release: "\<lbrakk>api26 o1 = api; buffers s a = Some b\<rbrakk> \<Longrightarrow>
     buffer_step blt api (ext, lk, s) (map_option (\<lambda>t. (ext, lk, t)) (LorieBuffer_release o1 (Some a) s))"
| lock: "\<lbrakk>api26 o1 = api; buffers s a = Some b\<rbrakk> \<Longrightarrow>
     buffer_step blt api (ext, lk, s) (map_option (\<lambda>(ret, p, t). (ext, lk, t)) (LorieBuffer_lock o1 (Some a) s))"
| unlock: "\<lbrakk>api26 o1 = api; buffers s a = Some b\<rbrakk> \<Longrightarrow>
     buffer_step blt api (ext, lk, s) (map_option (\<lambda>(ret, t). (ext, lk, t)) (LorieBuffer_unlock o1 (Some a) s))"
| inc: "buffers s a = Some b \<Longrightarrow>
     buffer_step blt api (ext, lk, s) (map_option (\<lambda>t. (ext, lk, t)) (LorieBuffer_gpuCopyPendingInc (Some a) s))"
| dec: "buffers s a = Some b \<Longrightarrow>
     buffer_step blt api (ext, lk, s) (map_option (\<lambda>t. (ext, lk, t)) (LorieBuffer_gpuCopyPendingDec (Some a) s))"
| add: "buffer_step blt api (ext, lk, s) (Some (ext, lk, LorieBuffer_addToList x l s))"
| remove: "buffer_step blt api (ext, lk, s) (Some (ext, lk, LorieBuffer_removeFromList x s))"
| elsewhere: "buffer_step blt api (ext, lk, s) (Some (add_mset r ext, lk, hold r s))"
| elsewhere_ends: "buffer_step blt api (add_mset r ext, lk, s) (map_option (\<lambda>t. (ext, lk, t)) (give_back r s))"

definition ledger_ok :: "bool \<Rightarrow> 'z ledger \<Rightarrow> bool" where
  "ledger_ok api L = (case L of (ext, lk, s) \<Rightarrow> lb_ok api (ext + lk) s)"

lemma buffer_step_ok: "buffer_step blt api L L' \<Longrightarrow> ledger_ok api L \<Longrightarrow> \<exists>L1. L' = Some L1 \<and> ledger_ok api L1"
proof (induction rule: buffer_step.induct)
  case (alloc o1 s w h ext lk fmt ty)
  then show ?case using LorieBuffer_allocate_ok [of o1 "ext + lk" s w h fmt ty]
    by (auto simp: ledger_ok_def add.assoc)
next
  case (wrap o1 s st h ext lk w fmt f off)
  then show ?case using wrapFileDescriptor_ok [of o1 "ext + lk" s st h w fmt f off]
    by (auto simp: ledger_ok_def add.assoc)
next
  case (wrap_ahb o1 s x ext lk)
  then show ?case using wrapAHardwareBuffer_ok [of o1 "ext + lk" "Some x" s] by (auto simp: ledger_ok_def)
next
  case (recv o1 s b ext lk sock wanted)
  then show ?case using recvHandle_ok [of o1 "ext + lk" s b sock wanted] by (auto simp: ledger_ok_def add.assoc)
next
  case (convert o1 s a b ext lk ty fmt)
  then show ?case using convert_ok [of o1 "ext + lk" s a b blt ty fmt] by (auto simp: ledger_ok_def)
next
  case (acquire s a b ext lk)
  then show ?case using acquire_ok [of api "ext + lk" s a b] by (auto simp: ledger_ok_def)
next
  case (release o1 s a b ext lk)
  then show ?case using release_ok [of o1 "ext + lk" s a b] by (auto simp: ledger_ok_def)
next
  case (lock o1 s a b ext lk)
  then show ?case using lock_ok [of api "ext + lk" s a b o1] by (auto simp: ledger_ok_def)
next
  case (unlock o1 s a b ext lk)
  then show ?case using unlock_ok [of api "ext + lk" s a b o1] by (auto simp: ledger_ok_def)
next
  case (inc s a b ext lk)
  then show ?case using pending_ok(1) [of api "ext + lk" s a b] by (auto simp: ledger_ok_def)
next
  case (dec s a b ext lk)
  then show ?case using pending_ok(2) [of api "ext + lk" s a b] by (auto simp: ledger_ok_def)
next
  case (elsewhere ext lk s r)
  then show ?case using lb_ok_ext [of api "ext + lk" s "hold r s" "{#r#}" "add_mset r ext + lk"] by (simp add: ledger_ok_def)
next
  case (elsewhere_ends r ext lk s)
  then have "held s = add_mset r (ext + lk + all_owned (buffers s))" by (simp add: ledger_ok_def lb_ok_def)
  from give_back_hold [OF this] show ?case using elsewhere_ends by (simp add: ledger_ok_def lb_ok_def)
qed (simp_all add: ledger_ok_def lists_ok)

primrec times :: "nat \<Rightarrow> ('s \<Rightarrow> 's option) \<Rightarrow> 's \<Rightarrow> 's option" where
  "times 0 f s = Some s"
| "times (Suc n) f s = do { s1 \<leftarrow> f s; times n f s1 }"

definition with_refs :: "nat \<Rightarrow> LorieBuffer \<Rightarrow> u16 \<Rightarrow> 'z lb_scheme \<Rightarrow> 'z lb_scheme" where
  "with_refs a b k s = s\<lparr>buffers := (buffers s)(a \<mapsto> b\<lparr>refcount := k\<rparr>)\<rparr>"

lemma acquire_times:
  "times n (LorieBuffer_acquire (Some a)) (with_refs a b k s) = Some (with_refs a b (k + word_of_nat n) s)"
  by (induction n arbitrary: k) (simp_all add: LorieBuffer_acquire_def with_refs_def add.assoc)

lemma release_times:
  "n < unat k \<Longrightarrow> times n (LorieBuffer_release o1 (Some a)) (with_refs a b k s) = Some (with_refs a b (k - word_of_nat n) s)"
proof (induction n arbitrary: k)
  case (Suc n)
  have "k \<noteq> 1" using Suc.prems by auto
  then have "LorieBuffer_release o1 (Some a) (with_refs a b k s) = Some (with_refs a b (k - 1) s)"
    by (simp add: LorieBuffer_release_def with_refs_def)
  moreover have "n < unat (k - 1)" using Suc.prems by (cases "k = 0") (auto simp: unat_minus_one)
  ultimately show ?case using Suc.IH [of "k - 1"] by (simp add: diff_diff_eq)
qed simp

section \<open>The properties of the buffers\<close>

definition sample_os :: os where
  "sample_os = \<lparr>api26 = True, os_ASharedMemory_create = 9, os_memfd_create = -1, os_open_ashmem = -1, os_set_name = 0,
     os_set_size = 0, os_dup = 11, os_mmap = Some 100, os_calloc_data = Some 200, os_calloc_buffer = Some 1,
     os_AHardwareBuffer_allocate = Some 5, os_AHardwareBuffer_describe = (\<lambda>_. (4, 3, 4, 5)),
     os_AHardwareBuffer_lock = (\<lambda>_. (0, Some 300)), os_AHardwareBuffer_unlock = (\<lambda>_. 0), os_recv_fd = 12,
     os_recv_ahb = Some 6, page_size = 4096\<rparr>"

definition no_buffers :: lb where
  "no_buffers = \<lparr>buffers = Map.empty, held = {#}, mem = (\<lambda>_. []), blists = (\<lambda>_. []), next_id = 0\<rparr>"

lemma no_buffers_ok: "lb_ok api {#} no_buffers" "fresh_buffer sample_os no_buffers"
  by (simp_all add: no_buffers_def lb_ok_def all_owned_def fresh_buffer_def)


lemma sample_allocated:
  obtains t where "LorieBuffer_allocate sample_os 4 3 5 LORIEBUFFER_FD no_buffers = Some (Some 1, t)"
    "held t = {#Region 100, Fd 9#}" "buffers t = [1 \<mapsto> (new_buffer 4 4 3 5 LORIEBUFFER_FD None 9 (alignToPage sample_os 48) 0 0)
      \<lparr>desc := (desc (new_buffer 4 4 3 5 LORIEBUFFER_FD None 9 0 0 0))\<lparr>d_data := Some 100\<rparr>\<rparr>]"
  by (simp add: LorieBuffer_allocate_def mul32_def LorieBuffer_createRegion_def sample_os_def allocate_def
      acceptable_def allocate_memory_def new_buffer_def finish_allocate_def buffer_consts no_buffers_def hold_def)


text \<open>A buffer lives as long as someone holds a reference: after any number of acquires, fewer
  than \<open>2 ^ 16 - 1\<close>, the same number of releases leaves the buffer and all resources as they were,
  and the release after that frees the buffer and gives back exactly what it owned.\<close>
theorem last_release_frees:
  assumes "lb_ok (api26 o1) ext s" "buffers s a = Some b" "refcount b = 1" "n < 2 ^ 16 - 1"
  shows "\<exists>s1 s2. times n (LorieBuffer_acquire (Some a)) s = Some s1 \<and> times n (LorieBuffer_release o1 (Some a)) s1 = Some s
    \<and> LorieBuffer_release o1 (Some a) s = Some s2 \<and> buffers s2 = (buffers s)(a := None) \<and> held s = owned b + held s2"
proof -
  have s: "s = with_refs a b 1 s" using assms(2,3) by (simp add: with_refs_def fun_upd_idem)
  have "unat (1 + word_of_nat n :: u16) = Suc n"
    using assms(4) by (simp add: unat_word_ariths unsigned_of_nat take_bit_nat_eq_self)
  then have n: "n < unat (1 + word_of_nat n :: u16)" by simp
  have "times n (LorieBuffer_acquire (Some a)) s = Some (with_refs a b (1 + word_of_nat n) s)"
    by (subst s) (rule acquire_times)
  moreover have "times n (LorieBuffer_release o1 (Some a)) (with_refs a b (1 + word_of_nat n) s) = Some s"
    using release_times [OF n, of o1 a b s] s by simp
  ultimately show ?thesis using release_ok [OF assms(1,2)] assms(3) by blast
qed

theorem last_release_frees_witness:
  "\<exists>(s :: lb) s1 s2. buffers s 1 \<noteq> None \<and> times 2 (LorieBuffer_acquire (Some 1)) s = Some s1
    \<and> times 2 (LorieBuffer_release sample_os (Some 1)) s1 = Some s
    \<and> LorieBuffer_release sample_os (Some 1) s = Some s2 \<and> buffers s2 1 = None \<and> held s2 = {#}"
proof -
  obtain t where t: "LorieBuffer_allocate sample_os 4 3 5 LORIEBUFFER_FD no_buffers = Some (Some 1, t)"
    "held t = {#Region 100, Fd 9#}" "buffers t = [1 \<mapsto> (new_buffer 4 4 3 5 LORIEBUFFER_FD None 9 (alignToPage sample_os 48) 0 0)
      \<lparr>desc := (desc (new_buffer 4 4 3 5 LORIEBUFFER_FD None 9 0 0 0))\<lparr>d_data := Some 100\<rparr>\<rparr>]" using sample_allocated .
  then obtain b where b: "buffers t 1 = Some b" "refcount b = 1" "owned b = {#Region 100, Fd 9#}" "dom (buffers t) = {1}" "typed True b"
    by (auto simp: new_buffer_def owned_def typed_def buffer_consts)
  then have "lb_ok (api26 sample_os) {#} t" using t by (auto simp: lb_ok_def all_owned_def sample_os_def owned_def typed_def new_buffer_def buffer_consts)
  from last_release_frees [OF this b(1,2), of 2]
  obtain s1 s2 where "times 2 (LorieBuffer_acquire (Some 1)) t = Some s1"
    "times 2 (LorieBuffer_release sample_os (Some 1)) s1 = Some t" "LorieBuffer_release sample_os (Some 1) t = Some s2"
    "buffers s2 = (buffers t)(1 := None)" "held t = owned b + held s2" by auto
  then show ?thesis using t(2) b by (intro exI [of _ t] exI [of _ s1] exI [of _ s2]) simp
qed

text \<open>A shared memory buffer with a format or dimensions the code refuses is refused only after
  its region has been created: the allocation fails, no buffer exists, and the descriptor of the
  region stays open for good.\<close>
theorem refused_allocation_leaks:
  assumes "\<not> acceptable width height format" "mul32 width height \<noteq> None"
    "LorieBuffer_createRegion o1 s = Some (f, s1)" "0 \<le> f"
  shows "\<exists>s'. LorieBuffer_allocate o1 width height format LORIEBUFFER_FD s = Some (None, s')
    \<and> buffers s' = buffers s \<and> held s' = add_mset (Fd f) (held s)"
  using assms createRegion_ok [of o1 s]
  by (auto simp: LorieBuffer_allocate_def allocate_def buffer_consts)

theorem refused_allocation_leaks_witness:
  "\<exists>s'. LorieBuffer_allocate sample_os 4 3 1 LORIEBUFFER_FD no_buffers = Some (None, s')
    \<and> buffers s' = Map.empty \<and> held s' = {#Fd 9#}"
proof -
  have "\<not> acceptable 4 3 1" "mul32 4 3 \<noteq> None"
    "LorieBuffer_createRegion sample_os no_buffers = Some (9, hold (Fd 9) no_buffers)"
    by (simp_all add: acceptable_def mul32_def LorieBuffer_createRegion_def sample_os_def buffer_consts)
  from refused_allocation_leaks [OF this] show ?thesis by (simp add: no_buffers_def)
qed

end
