(* ===== verification/Presentation.thy ===== *)
theory Presentation
  imports Queues Buffers
begin

text \<open>
  Pixmaps and presentation (\<open>lorie/InitOutput.c\<close>): the driver data of pixmaps on top of the buffers,
  CPU access to them, the queue of copies handed to the renderer's GPU, and the vblank queue.

  The state extends the state of the buffers. A pixmap is a number; \<open>None\<close> is the null pointer.
  Calls that leave the component are recorded (\<open>calls\<close>). Following a null pointer, giving back a
  resource twice and the fatal error of the server make an operation \<open>None\<close>. The renderer's side of
  the queue is the reading loop of \<open>lorie/renderer.cpp\<close>.
\<close>

section \<open>The queue of GPU copies\<close>

definition LORIE_GPU_COPY_MAX_RECTS :: nat where "LORIE_GPU_COPY_MAX_RECTS = 16"
definition LORIE_GPU_COPY_QUEUE_CAPACITY :: nat where "LORIE_GPU_COPY_QUEUE_CAPACITY = 8"

record LorieGpuCopyEntry =
  g_serial :: u64
  g_srcBufferId :: u64
  g_dstBufferId :: u64
  g_xOff :: int
  g_yOff :: int
  g_numRects :: nat
  g_rects :: "(int \<times> int \<times> int \<times> int) list"

record GpuCopyQueue =
  writeIndex :: u32
  readIndex :: u32
  completedSerial :: u64
  entries :: "LorieGpuCopyEntry list"

definition gpu_queue_full :: "GpuCopyQueue \<Rightarrow> bool" where
  "gpu_queue_full q \<longleftrightarrow> unat (writeIndex q - readIndex q) \<ge> LORIE_GPU_COPY_QUEUE_CAPACITY"

definition gpu_publish :: "LorieGpuCopyEntry \<Rightarrow> GpuCopyQueue \<Rightarrow> GpuCopyQueue" where
  "gpu_publish e q =
     q\<lparr>entries := (entries q)[unat (writeIndex q) mod LORIE_GPU_COPY_QUEUE_CAPACITY := e], writeIndex := writeIndex q + 1\<rparr>"

definition gpu_take :: "GpuCopyQueue \<Rightarrow> (LorieGpuCopyEntry \<times> GpuCopyQueue) option" where
  "gpu_take q =
     (if readIndex q = writeIndex q then None
      else do {
        e \<leftarrow> rd (entries q) (unat (readIndex q) mod LORIE_GPU_COPY_QUEUE_CAPACITY);
        Some (e, q\<lparr>readIndex := readIndex q + 1\<rparr>) })"

section \<open>State\<close>

record LoriePixmapPriv =
  p_buffer :: "nat option"
  p_flipped :: bool
  p_wasLocked :: bool
  p_imported :: bool
  p_locked :: "nat option"
  p_mem :: "nat option"

datatype ext_call =
    RegisterBuffer nat | UnregisterBuffer nat | SetPitch nat int
  | SignalRenderer | PresentNotify u64 u64 u64 | ResetDamage

record scr = lb +
  privs :: "nat \<rightharpoonup> LoriePixmapPriv"
  drawable_size :: "nat \<Rightarrow> int \<times> int"
  screenPixmap :: "nat option"
  root_size :: "int \<times> int"
  legacyDrawing :: bool
  gpuPresentDisabled :: bool
  connectionAlive :: bool
  surfaceAvailable :: bool
  gpuCopyQueue :: GpuCopyQueue
  gpuCopySerialCounter :: u64
  rootGpuCopyPending :: u64
  gpuCopyAttempts :: u64
  gpuCopyOffloads :: u64
  vblank_queue :: "(u64 \<times> u64) list"
  current_msc :: u64
  lockDepth :: nat
  calls :: "ext_call list"

definition ext :: "ext_call \<Rightarrow> 'z scr_scheme \<Rightarrow> 'z scr_scheme" where
  "ext c s = s\<lparr>calls := calls s @ [c]\<rparr>"

definition set_priv :: "nat \<Rightarrow> LoriePixmapPriv \<Rightarrow> 'z scr_scheme \<Rightarrow> 'z scr_scheme" where
  "set_priv p x s = s\<lparr>privs := (privs s)(p \<mapsto> x)\<rparr>"

section \<open>Making a pixmap visible to the GPU\<close>

definition lorieEnsureGpuSampleable ::
  "blt \<Rightarrow> os \<Rightarrow> nat option \<Rightarrow> int \<Rightarrow> 'z scr_scheme \<Rightarrow> (nat option \<times> 'z scr_scheme) option" where
  "lorieEnsureGpuSampleable blt o1 pixmap ty s =
     (case pixmap of
        None \<Rightarrow> Some (None, s)
      | Some p \<Rightarrow>
          (case privs s p of
             None \<Rightarrow> Some (None, s)
           | Some v \<Rightarrow>
               if p_buffer v = None \<or> p_mem v \<noteq> None then Some (None, s)
               else do {
                 let a = the (p_buffer v);
                 b \<leftarrow> buffers s a;
                 s1 \<leftarrow> (if d_type (desc b) = LORIEBUFFER_REGULAR then do {
                          s1 \<leftarrow> LorieBuffer_convert blt o1 (Some a) ty FORMAT_R8G8B8X8 s;
                          b1 \<leftarrow> buffers s1 a;
                          if d_type (desc b1) \<noteq> LORIEBUFFER_REGULAR then do {
                            (ret, out, s2) \<leftarrow> LorieBuffer_lock o1 (Some a) (ext (SetPitch p (d_stride (desc b1) * 4)) s1);
                            Some (set_priv p (v\<lparr>p_locked := out\<rparr>) s2) }
                          else Some s1 }
                        else Some s);
                 b2 \<leftarrow> buffers s1 a;
                 Some (if d_type (desc b2) = ty then Some a else None, s1) }))"

section \<open>Copies on the GPU\<close>

definition relock :: "os \<Rightarrow> nat \<Rightarrow> 'z scr_scheme \<Rightarrow> 'z scr_scheme option" where
  "relock o1 p s = do {
     v \<leftarrow> privs s p;
     if p_locked v \<noteq> None then do {
       (r, s1) \<leftarrow> LorieBuffer_unlock o1 (p_buffer v) s;
       (status, out, s2) \<leftarrow> LorieBuffer_lock o1 (p_buffer v) s1;
       if status \<noteq> 0 then None else Some (set_priv p (v\<lparr>p_locked := out\<rparr>) s2) }
     else Some s }"

text \<open>The part of \<open>lorieTryScheduleGpuCopy\<close> after its checks: taking the references and publishing the entry.\<close>

definition schedule_copy ::
  "nat \<Rightarrow> nat \<Rightarrow> bool \<Rightarrow> (int \<times> int \<times> int \<times> int) list \<Rightarrow> int \<Rightarrow> int \<Rightarrow> 'z scr_scheme \<Rightarrow> (u64 \<times> nat option \<times> 'z scr_scheme) option" where
  "schedule_copy src dst dstIsRoot rects x_off y_off s0 = do {
     sb \<leftarrow> buffers s0 src;
     db \<leftarrow> buffers s0 dst;
     s1 \<leftarrow> LorieBuffer_acquire (Some src) (ext (RegisterBuffer src) s0);
     s2 \<leftarrow> LorieBuffer_gpuCopyPendingInc (Some src) s1;
     s3 \<leftarrow> (if \<not> dstIsRoot then do {
              t \<leftarrow> LorieBuffer_acquire (Some dst) (ext (RegisterBuffer dst) s2);
              LorieBuffer_gpuCopyPendingInc (Some dst) t }
            else Some (s2\<lparr>rootGpuCopyPending := rootGpuCopyPending s2 + 1\<rparr>));
     let serial = gpuCopySerialCounter s3 + 1;
     let e = \<lparr>g_serial = serial, g_srcBufferId = d_id (desc sb), g_dstBufferId = d_id (desc db), g_xOff = x_off,
              g_yOff = y_off, g_numRects = length rects, g_rects = rects\<rparr>;
     let s4 = ext SignalRenderer (s3\<lparr>gpuCopySerialCounter := serial, gpuCopyQueue := gpu_publish e (gpuCopyQueue s3)\<rparr>);
     Some (serial, if dstIsRoot then None else Some dst,
       s4\<lparr>gpuCopyAttempts := gpuCopyAttempts s4 + 1, gpuCopyOffloads := gpuCopyOffloads s4 + 1\<rparr>) }"

text \<open>The result is \<open>None\<close> inside when the caller must copy on the CPU. \<open>o1\<close> and \<open>o2\<close> answer the conversions of the two pixmaps.\<close>

definition lorieTryScheduleGpuCopy ::
  "blt \<Rightarrow> os \<Rightarrow> os \<Rightarrow> nat option \<Rightarrow> nat option \<Rightarrow> (int \<times> int \<times> int \<times> int) list option \<Rightarrow> int \<Rightarrow> int \<Rightarrow> 'z scr_scheme
   \<Rightarrow> ((u64 \<times> nat option) option \<times> 'z scr_scheme) option"
where
  "lorieTryScheduleGpuCopy blt o1 o2 pixmap dst update x_off y_off s =
     (let refuse = (\<lambda>t. Some (None, t\<lparr>gpuCopyAttempts := gpuCopyAttempts t + 1\<rparr>)) in
      if gpuPresentDisabled s \<or> legacyDrawing s then refuse s
      else if \<not> connectionAlive s \<or> \<not> surfaceAvailable s then refuse s
      else do {
        (src, s1) \<leftarrow> lorieEnsureGpuSampleable blt o1 pixmap LORIEBUFFER_AHARDWAREBUFFER s;
        case src of
          None \<Rightarrow> refuse s1
        | Some a \<Rightarrow> do {
            (d, s2) \<leftarrow> lorieEnsureGpuSampleable blt o2 dst LORIEBUFFER_AHARDWAREBUFFER s1;
            case d of
              None \<Rightarrow> refuse s2
            | Some c \<Rightarrow> do {
                s3 \<leftarrow> relock o1 (the pixmap) s2;
                let rects = (case update of Some bs \<Rightarrow> bs
                             | None \<Rightarrow> [(0, 0, fst (drawable_size s3 (the pixmap)), snd (drawable_size s3 (the pixmap)))]);
                if length rects = 0 \<or> length rects > LORIE_GPU_COPY_MAX_RECTS then refuse s3
                else if gpu_queue_full (gpuCopyQueue s3) then refuse s3
                else do {
                  (serial, out, s4) \<leftarrow> schedule_copy a c (dst = screenPixmap s3) rects x_off y_off s3;
                  Some (Some (serial, out), s4) } } } })"

definition lorieGpuCopyIsDone :: "u64 \<Rightarrow> 'z scr_scheme \<Rightarrow> bool" where
  "lorieGpuCopyIsDone serial s \<longleftrightarrow> completedSerial (gpuCopyQueue s) \<ge> serial"

definition priv_buffer :: "nat option \<Rightarrow> 'z scr_scheme \<Rightarrow> nat option" where
  "priv_buffer pixmap s = (case pixmap of None \<Rightarrow> None | Some p \<Rightarrow> (case privs s p of None \<Rightarrow> None | Some v \<Rightarrow> p_buffer v))"

definition lorieGpuCopyAck :: "os \<Rightarrow> nat option \<Rightarrow> nat option \<Rightarrow> 'z scr_scheme \<Rightarrow> 'z scr_scheme option" where
  "lorieGpuCopyAck o1 pixmap dst_buffer s = do {
     let src = priv_buffer pixmap s;
     s1 \<leftarrow> LorieBuffer_gpuCopyPendingDec src s;
     s2 \<leftarrow> (case dst_buffer of
              Some c \<Rightarrow> LorieBuffer_gpuCopyPendingDec (Some c) s1
            | None \<Rightarrow> Some (s1\<lparr>rootGpuCopyPending := rootGpuCopyPending s1 - 1\<rparr>));
     s3 \<leftarrow> LorieBuffer_release o1 src s2;
     LorieBuffer_release o1 dst_buffer s3 }"

section \<open>Flips and vblanks\<close>

text \<open>\<open>force\<close> says whether the environment variable \<open>LINUX_X11_FORCE_FLIP\<close> is \<open>1\<close>.\<close>

definition loriePresentFlip :: "blt \<Rightarrow> os \<Rightarrow> bool \<Rightarrow> nat \<Rightarrow> 'z scr_scheme \<Rightarrow> (bool \<times> 'z scr_scheme) option" where
  "loriePresentFlip blt o1 force p s =
     (case privs s p of
        None \<Rightarrow> Some (False, s)
      | Some v \<Rightarrow>
          if p_buffer v = None \<or> p_mem v \<noteq> None \<or> fst (root_size s) \<noteq> fst (drawable_size s p)
             \<or> fst (root_size s) \<noteq> snd (drawable_size s p) then Some (False, s)
          else do {
            let a = the (p_buffer v);
            b \<leftarrow> buffers s a;
            if d_type (desc b) = LORIEBUFFER_FD \<and> p_imported v \<and> \<not> force then Some (False, s)
            else do {
              (r, s1) \<leftarrow> lorieEnsureGpuSampleable blt o1 (Some p)
                (if legacyDrawing s then LORIEBUFFER_FD else LORIEBUFFER_AHARDWAREBUFFER) s;
              b1 \<leftarrow> buffers s1 a;
              if d_type (desc b1) \<noteq> LORIEBUFFER_FD \<and> d_type (desc b1) \<noteq> LORIEBUFFER_AHARDWAREBUFFER then Some (False, s1)
              else Some (True, ext (RegisterBuffer a) s1) } })"

definition loriePresentAfterFlip :: "u64 \<Rightarrow> u64 \<Rightarrow> u64 \<Rightarrow> 'z scr_scheme \<Rightarrow> 'z scr_scheme" where
  "loriePresentAfterFlip event_id ust target_msc s =
     (let s1 = (ext ResetDamage s)\<lparr>current_msc := min (current_msc s + 1) target_msc\<rparr>
      in ext (PresentNotify event_id ust (current_msc s1)) s1)"

definition loriePresentUnflip :: "u64 \<Rightarrow> 'z scr_scheme \<Rightarrow> 'z scr_scheme" where
  "loriePresentUnflip event_id s = ext (PresentNotify event_id 0 0) s"

text \<open>The result is the number the C function returns, \<open>BadAlloc\<close> (11) or \<open>Success\<close> (0).\<close>

definition loriePresentQueueVblank :: "bool \<Rightarrow> u64 \<Rightarrow> u64 \<Rightarrow> 'z scr_scheme \<Rightarrow> int \<times> 'z scr_scheme" where
  "loriePresentQueueVblank calloc_ok event_id msc s =
     (if \<not> calloc_ok then (11, s) else (0, s\<lparr>vblank_queue := (event_id, msc) # vblank_queue s\<rparr>))"

fun abort_first :: "u64 \<Rightarrow> (u64 \<times> u64) list \<Rightarrow> (u64 \<times> u64) list" where
  "abort_first i [] = []"
| "abort_first i (v # vs) = (if fst v = i then vs else v # abort_first i vs)"

definition loriePresentAbortVblank :: "u64 \<Rightarrow> 'z scr_scheme \<Rightarrow> 'z scr_scheme" where
  "loriePresentAbortVblank i s = s\<lparr>vblank_queue := abort_first i (vblank_queue s)\<rparr>"

text \<open>\<open>now\<close> is the clock; the notifications are recorded and do not change the queue.\<close>

fun perform_loop :: "u64 \<Rightarrow> (u64 \<times> u64) list \<Rightarrow> 'z scr_scheme \<Rightarrow> 'z scr_scheme" where
  "perform_loop now [] s = s"
| "perform_loop now (v # vs) s =
     perform_loop now vs
       (if snd v \<le> current_msc s then
          (ext (PresentNotify (fst v) now (current_msc s)) s)\<lparr>vblank_queue := remove1 v (vblank_queue s)\<rparr>
        else s)"

definition loriePerformVblanks :: "u64 \<Rightarrow> 'z scr_scheme \<Rightarrow> 'z scr_scheme" where
  "loriePerformVblanks now s = perform_loop now (vblank_queue s) s"

section \<open>Pixmaps\<close>

definition empty_priv :: LoriePixmapPriv where
  "empty_priv = \<lparr>p_buffer = None, p_flipped = False, p_wasLocked = False, p_imported = False, p_locked = None, p_mem = None\<rparr>"

text \<open>
  The result is the driver data and the pitch. \<open>lorieBacked\<close> is the usage hint for the screen pixmap.
\<close>

definition lorieCreatePixmap ::
  "os \<Rightarrow> bool \<Rightarrow> int \<Rightarrow> int \<Rightarrow> bool \<Rightarrow> 'z scr_scheme \<Rightarrow> (LoriePixmapPriv option \<times> int \<times> 'z scr_scheme) option" where
  "lorieCreatePixmap o1 calloc_ok width height lorieBacked s =
     (if \<not> calloc_ok then Some (None, 0, s)
      else if width = 0 \<or> height = 0 then Some (Some empty_priv, 0, s)
      else do {
        (b, s1) \<leftarrow> LorieBuffer_allocate o1 width height FORMAT_R8G8B8X8
          (if \<not> lorieBacked then LORIEBUFFER_REGULAR
           else if legacyDrawing s then LORIEBUFFER_FD else LORIEBUFFER_AHARDWAREBUFFER) s;
        d \<leftarrow> LorieBuffer_description b s1;
        (ret, out, s2) \<leftarrow> LorieBuffer_lock o1 b s1;
        Some (if b = None then None else Some (empty_priv\<lparr>p_buffer := b, p_locked := out\<rparr>), d_stride d * 4, s2) })"

definition lorieExaDestroyPixmap :: "os \<Rightarrow> LoriePixmapPriv \<Rightarrow> 'z scr_scheme \<Rightarrow> 'z scr_scheme option" where
  "lorieExaDestroyPixmap o1 v s =
     (case p_buffer v of
        None \<Rightarrow> Some s
      | Some a \<Rightarrow> do {
          s1 \<leftarrow> (if p_locked v \<noteq> None then map_option snd (LorieBuffer_unlock o1 (Some a) s) else Some s);
          LorieBuffer_release o1 (Some a) (ext (UnregisterBuffer a) s1) })"

definition lorieModifyPixmapHeader :: "nat \<Rightarrow> nat option \<Rightarrow> 'z scr_scheme \<Rightarrow> bool \<times> 'z scr_scheme" where
  "lorieModifyPixmapHeader p data s =
     (case (privs s p, data) of
        (Some v, Some d) \<Rightarrow> (False, set_priv p (v\<lparr>p_mem := Some d\<rparr>) s)
      | _ \<Rightarrow> (False, s))"

section \<open>CPU access\<close>

definition lorieNeedsGpuLock :: "nat \<Rightarrow> LoriePixmapPriv \<Rightarrow> bool \<Rightarrow> 'z scr_scheme \<Rightarrow> bool option" where
  "lorieNeedsGpuLock p v isDest s =
     (if screenPixmap s = Some p then Some (isDest \<or> rootGpuCopyPending s \<noteq> 0 \<and> \<not> legacyDrawing s)
      else if legacyDrawing s \<or> p_buffer v = None then Some False
      else do {
        d \<leftarrow> LorieBuffer_description (p_buffer v) s;
        if d_type d = LORIEBUFFER_AHARDWAREBUFFER then LorieBuffer_hasGpuCopyPending (p_buffer v) s else Some False })"

text \<open>The pointer to the pixels is the second result. Unlocking a mutex that is not locked is \<open>None\<close>.\<close>

definition loriePrepareAccess :: "os \<Rightarrow> nat \<Rightarrow> bool \<Rightarrow> 'z scr_scheme \<Rightarrow> (bool \<times> nat option \<times> 'z scr_scheme) option" where
  "loriePrepareAccess o1 p isDest s = do {
     v \<leftarrow> privs s p;
     need \<leftarrow> lorieNeedsGpuLock p v isDest s;
     let s1 = (if need then s\<lparr>lockDepth := lockDepth s + 1\<rparr> else s);
     if p_locked v = None \<and> p_mem v = None then do {
       (err, out, s2) \<leftarrow> LorieBuffer_lock o1 (p_buffer v) s1;
       let s3 = set_priv p (v\<lparr>p_locked := out\<rparr>) s2;
       Some (if err \<noteq> 0 then (False, None, s3)
             else (True, out, set_priv p (v\<lparr>p_locked := out, p_wasLocked := False\<rparr>) s2)) }
     else Some (True, if p_locked v \<noteq> None then p_locked v else p_mem v, set_priv p (v\<lparr>p_wasLocked := True\<rparr>) s1) }"

definition lorieFinishAccess :: "os \<Rightarrow> nat \<Rightarrow> bool \<Rightarrow> 'z scr_scheme \<Rightarrow> 'z scr_scheme option" where
  "lorieFinishAccess o1 p isDest s = do {
     v \<leftarrow> privs s p;
     need \<leftarrow> lorieNeedsGpuLock p v isDest s;
     s1 \<leftarrow> (if need then (if lockDepth s = 0 then None else Some (s\<lparr>lockDepth := lockDepth s - 1\<rparr>)) else Some s);
     if \<not> p_wasLocked v then do {
       (r, s2) \<leftarrow> LorieBuffer_unlock o1 (p_buffer v) s1;
       Some (set_priv p (v\<lparr>p_locked := None, p_wasLocked := False\<rparr>) s2) }
     else Some s1 }"

definition lorieSetWindowPixmap :: "os \<Rightarrow> bool \<Rightarrow> nat option \<Rightarrow> nat option \<Rightarrow> 'z scr_scheme \<Rightarrow> 'z scr_scheme option" where
  "lorieSetWindowPixmap o1 isRoot oldPixmap newPixmap s =
     (if \<not> isRoot then Some s
      else do {
        s1 \<leftarrow> (case oldPixmap of
                 Some p \<Rightarrow> (case privs s p of
                   Some v \<Rightarrow> if p_buffer v \<noteq> None \<and> p_locked v \<noteq> None then do {
                       (r, t) \<leftarrow> LorieBuffer_unlock o1 (p_buffer v) s;
                       Some (set_priv p (v\<lparr>p_locked := None, p_wasLocked := False\<rparr>) t) }
                     else Some s
                 | None \<Rightarrow> Some s)
               | None \<Rightarrow> Some s);
        (case newPixmap of
           Some p \<Rightarrow> (case privs s1 p of
             Some v \<Rightarrow> if p_buffer v \<noteq> None \<and> p_locked v = None then do {
                 (r, out, t) \<leftarrow> LorieBuffer_lock o1 (p_buffer v) s1;
                 Some (set_priv p (v\<lparr>p_locked := out, p_wasLocked := False\<rparr>) t) }
               else Some s1
           | None \<Rightarrow> Some s1)
         | None \<Rightarrow> Some s1) })"

section \<open>The ring of copies as a queue\<close>

definition gq_len :: "GpuCopyQueue \<Rightarrow> nat" where
  "gq_len q = unat (writeIndex q - readIndex q)"

definition gq_ok :: "GpuCopyQueue \<Rightarrow> bool" where
  "gq_ok q \<longleftrightarrow> length (entries q) = 8 \<and> gq_len q \<le> 8"

definition gq_contents :: "GpuCopyQueue \<Rightarrow> LorieGpuCopyEntry list" where
  "gq_contents q = map (\<lambda>i. entries q ! ((unat (readIndex q) + i) mod 8)) [0..<gq_len q]"

lemma unat_mod8: "unat (a + word_of_nat n :: u32) mod 8 = (unat a + n) mod 8"
proof -
  have "unat (a + word_of_nat n :: u32) = (unat a + n) mod 2 ^ 32"
    by (simp add: unat_word_ariths unsigned_of_nat take_bit_eq_mod mod_add_right_eq)
  then show ?thesis by (simp add: mod_mod_cancel)
qed

lemma write_slot: "unat (writeIndex q) mod 8 = (unat (readIndex q) + gq_len q) mod 8"
  using unat_mod8 [of "readIndex q" "gq_len q"] by (simp add: gq_len_def)

lemma gq_publish_ok:
  assumes "gq_ok q" "\<not> gpu_queue_full q"
  shows "gq_ok (gpu_publish e q)" "gq_contents (gpu_publish e q) = gq_contents q @ [e]"
proof -
  have q: "length (entries q) = 8" "gq_len q < 8"
    using assms by (simp_all add: gq_ok_def gpu_queue_full_def LORIE_GPU_COPY_QUEUE_CAPACITY_def gq_len_def)
  have w: "writeIndex (gpu_publish e q) - readIndex (gpu_publish e q) = (writeIndex q - readIndex q) + 1"
    by (simp add: gpu_publish_def)
  have "unat ((writeIndex q - readIndex q) + 1) = gq_len q + 1"
    using q(2) by (simp add: gq_len_def unat_word_ariths)
  then have n: "gq_len (gpu_publish e q) = gq_len q + 1" unfolding gq_len_def [of "gpu_publish e q"] w .
  show "gq_ok (gpu_publish e q)" using q n by (simp add: gq_ok_def gpu_publish_def)
  let ?k = "(unat (readIndex q) + gq_len q) mod 8"
  have e: "entries (gpu_publish e q) = (entries q)[?k := e]" "readIndex (gpu_publish e q) = readIndex q"
    by (simp_all add: gpu_publish_def LORIE_GPU_COPY_QUEUE_CAPACITY_def write_slot)
  have "?k \<noteq> (unat (readIndex q) + i) mod 8" if "i < gq_len q" for i
    using ring_inj [of i 8 "gq_len q" "unat (readIndex q)"] that q(2) by auto
  then have "(entries q)[?k := e] ! ((unat (readIndex q) + i) mod 8) = entries q ! ((unat (readIndex q) + i) mod 8)"
    if "i < gq_len q" for i using that by simp
  then show "gq_contents (gpu_publish e q) = gq_contents q @ [e]"
    using q by (simp add: gq_contents_def n e)
qed

lemma gq_take_ok:
  assumes "gq_ok q" "gq_contents q = x # xs"
  shows "\<exists>q'. gpu_take q = Some (x, q') \<and> gq_ok q' \<and> gq_contents q' = xs"
proof -
  have q: "length (entries q) = 8" "gq_len q \<le> 8" using assms(1) by (simp_all add: gq_ok_def)
  have n: "0 < gq_len q" using assms(2) by (cases "gq_len q") (simp_all add: gq_contents_def)
  then have ne: "readIndex q \<noteq> writeIndex q" by (auto simp: gq_len_def)
  let ?q = "q\<lparr>readIndex := readIndex q + 1\<rparr>"
  have w: "writeIndex ?q - readIndex ?q = (writeIndex q - readIndex q) - 1" by simp
  have "writeIndex q - readIndex q \<noteq> 0" using ne by auto
  then have l: "gq_len ?q = gq_len q - 1" unfolding gq_len_def w by (rule unat_minus_one)
  have r: "unat (readIndex q + 1) mod 8 = (unat (readIndex q) + 1) mod 8"
    using unat_mod8 [of "readIndex q" 1] by simp
  have s: "(unat (readIndex q + 1) + i) mod 8 = (unat (readIndex q) + Suc i) mod 8" for i
    using r by (metis add.assoc add.commute mod_add_left_eq plus_1_eq_Suc)
  have "[0..<gq_len q] = 0 # map Suc [0..<gq_len q - 1]"
    using n by (metis Suc_diff_1 map_Suc_upt upt_conv_Cons)
  then have "gq_contents q = entries q ! (unat (readIndex q) mod 8) # gq_contents ?q"
    by (simp add: gq_contents_def l s)
  then have "x = entries q ! (unat (readIndex q) mod 8)" "gq_contents ?q = xs" using assms(2) by auto
  moreover have "gpu_take q = Some (entries q ! (unat (readIndex q) mod 8), ?q)"
    using ne q by (simp add: gpu_take_def LORIE_GPU_COPY_QUEUE_CAPACITY_def rd_def)
  moreover have "gq_ok ?q" using q l by (simp add: gq_ok_def)
  ultimately show ?thesis by blast
qed

interpretation gq: fifo gq_ok gq_contents "\<lambda>e q. \<not> gpu_queue_full q" gpu_publish gpu_take
  by unfold_locales (simp_all add: gq_publish_ok gq_take_ok)

section \<open>References of a copy\<close>

lemma incr_buffer:
  assumes "buffers s a = Some b"
  shows "\<exists>s1 s2. LorieBuffer_acquire (Some a) s = Some s1 \<and> LorieBuffer_gpuCopyPendingInc (Some a) s1 = Some s2
    \<and> s2 = s\<lparr>buffers := (buffers s)(a \<mapsto> b\<lparr>refcount := refcount b + 1, gpuCopyPending := gpuCopyPending b + 1\<rparr>)\<rparr>"
  using assms by (simp add: LorieBuffer_acquire_def LorieBuffer_gpuCopyPendingInc_def)

lemma release_keeps:
  assumes "buffers s a = Some b" "refcount b \<noteq> 1"
  shows "LorieBuffer_release o1 (Some a) s = Some (s\<lparr>buffers := (buffers s)(a \<mapsto> b\<lparr>refcount := refcount b - 1\<rparr>)\<rparr>)"
  using assms by (simp add: LorieBuffer_release_def)

lemma pendingDec_eq:
  assumes "buffers s a = Some b"
  shows "LorieBuffer_gpuCopyPendingDec (Some a) s = Some (s\<lparr>buffers := (buffers s)(a \<mapsto> b\<lparr>gpuCopyPending := gpuCopyPending b - 1\<rparr>)\<rparr>)"
  using assms by (simp add: LorieBuffer_gpuCopyPendingDec_def)


text \<open>The entry a scheduled copy publishes.\<close>

definition copy_entry :: "nat \<Rightarrow> nat \<Rightarrow> (int \<times> int \<times> int \<times> int) list \<Rightarrow> int \<Rightarrow> int \<Rightarrow> 'z scr_scheme \<Rightarrow> LorieGpuCopyEntry" where
  "copy_entry src dst rects x_off y_off s =
     \<lparr>g_serial = gpuCopySerialCounter s + 1, g_srcBufferId = d_id (desc (the (buffers s src))),
      g_dstBufferId = d_id (desc (the (buffers s dst))), g_xOff = x_off, g_yOff = y_off,
      g_numRects = length rects, g_rects = rects\<rparr>"

definition referenced :: "nat \<Rightarrow> (nat \<rightharpoonup> LorieBuffer) \<Rightarrow> (nat \<rightharpoonup> LorieBuffer)" where
  "referenced a m = (case m a of None \<Rightarrow> m
     | Some b \<Rightarrow> m(a \<mapsto> b\<lparr>refcount := refcount b + 1, gpuCopyPending := gpuCopyPending b + 1\<rparr>))"

lemma schedule_copy_eq:
  assumes "buffers s src \<noteq> None" "buffers s dst \<noteq> None"
  shows "\<exists>s'. schedule_copy src dst root rects x_off y_off s
      = Some (gpuCopySerialCounter s + 1, if root then None else Some dst, s')
    \<and> buffers s' = (if root then referenced src (buffers s) else referenced dst (referenced src (buffers s)))
    \<and> gpuCopyQueue s' = gpu_publish (copy_entry src dst rects x_off y_off s) (gpuCopyQueue s)
    \<and> rootGpuCopyPending s' = rootGpuCopyPending s + of_bool root \<and> privs s' = privs s \<and> held s' = held s"
  using assms
  by (auto simp: schedule_copy_def copy_entry_def referenced_def LorieBuffer_acquire_def LorieBuffer_gpuCopyPendingInc_def
      ext_def Let_def)


lemma buffer_restored:
  "b\<lparr>refcount := refcount b, gpuCopyPending := gpuCopyPending b\<rparr> = (b :: LorieBuffer)"
  by (cases b) simp

lemma ack_restores:
  assumes "m src = Some sb" "m dst = Some db" "refcount sb \<notin> {0, -1}" "refcount db \<notin> {0, -1}"
    "buffers s' = (if root then referenced src m else referenced dst (referenced src m))"
    "priv_buffer pixmap s' = Some src"
  shows "\<exists>s''. lorieGpuCopyAck o1 pixmap (if root then None else Some dst) s' = Some s'' \<and> buffers s'' = m
    \<and> held s'' = held s' \<and> gpuCopyQueue s'' = gpuCopyQueue s'
    \<and> rootGpuCopyPending s'' = rootGpuCopyPending s' - of_bool root"
proof -
  have two: "x = -1" if "x + 2 = 1" for x :: u16
  proof -
    have "x = (x + 2) - 2" by simp
    also have "\<dots> = -1" unfolding that by simp
    finally show ?thesis .
  qed
  have r: "refcount sb + 1 \<noteq> 1" "refcount db + 1 \<noteq> 1" "refcount sb + 2 \<noteq> 1" "refcount db + 2 \<noteq> 1"
    using assms(3,4) two by auto
  have idem: "m(src \<mapsto> sb) = m" "m(dst \<mapsto> db) = m" "m(src \<mapsto> sb, dst \<mapsto> db) = m"
    using assms(1,2) by (auto simp: fun_eq_iff)
  show ?thesis
  proof (cases root)
    case True
    then have b: "buffers s' = m(src \<mapsto> sb\<lparr>refcount := refcount sb + 1, gpuCopyPending := gpuCopyPending sb + 1\<rparr>)"
      using assms(1,5) by (simp add: referenced_def)
    show ?thesis using True assms(6) b r idem
      by (simp add: lorieGpuCopyAck_def pendingDec_eq release_keeps LorieBuffer_release_def buffer_restored)
  next
    case False
    show ?thesis
    proof (cases "src = dst")
      case True
      then have b: "buffers s' = m(dst \<mapsto> db\<lparr>refcount := refcount db + 2, gpuCopyPending := gpuCopyPending db + 2\<rparr>)" "sb = db"
        using False assms(1,2,5) by (simp_all add: referenced_def add.assoc)
      show ?thesis using False True assms(6) b r idem
        by (simp add: lorieGpuCopyAck_def pendingDec_eq release_keeps buffer_restored)
    next
      case ne: False
      then have b: "buffers s' = m(src \<mapsto> sb\<lparr>refcount := refcount sb + 1, gpuCopyPending := gpuCopyPending sb + 1\<rparr>,
          dst \<mapsto> db\<lparr>refcount := refcount db + 1, gpuCopyPending := gpuCopyPending db + 1\<rparr>)"
        using False assms(1,2,5) by (simp add: referenced_def)
      show ?thesis using False ne assms(6) b r idem
        by (simp add: lorieGpuCopyAck_def pendingDec_eq release_keeps buffer_restored fun_upd_twist)
    qed
  qed
qed


text \<open>A pixmap the GPU can use without a conversion: backed by a hardware buffer, locked for the CPU or not.\<close>

definition gpu_ready :: "nat \<Rightarrow> nat \<Rightarrow> 'z scr_scheme \<Rightarrow> bool" where
  "gpu_ready p a s \<longleftrightarrow> (case privs s p of None \<Rightarrow> False
     | Some v \<Rightarrow> p_buffer v = Some a \<and> p_mem v = None)
   \<and> (case buffers s a of None \<Rightarrow> False
     | Some b \<Rightarrow> d_type (desc b) = LORIEBUFFER_AHARDWAREBUFFER \<and> d_buffer (desc b) \<noteq> None \<and> refcount b \<notin> {0, -1})"

text \<open>What the system answers when the buffer of a pixmap is locked, and the pixmap and its buffer afterwards.\<close>

definition lock_answer :: "os \<Rightarrow> nat \<Rightarrow> 'z scr_scheme \<Rightarrow> int \<times> nat option" where
  "lock_answer o1 a s = os_AHardwareBuffer_lock o1 (the (d_buffer (desc (the (buffers s a)))))"

definition mapped :: "nat \<Rightarrow> 'z scr_scheme \<Rightarrow> bool" where
  "mapped p s \<longleftrightarrow> p_locked (the (privs s p)) \<noteq> None"

definition privs_relocked :: "os \<Rightarrow> nat \<Rightarrow> nat \<Rightarrow> 'z scr_scheme \<Rightarrow> (nat \<rightharpoonup> LoriePixmapPriv)" where
  "privs_relocked o1 p a s =
     (if mapped p s then (privs s)(p \<mapsto> (the (privs s p))\<lparr>p_locked := snd (lock_answer o1 a s)\<rparr>) else privs s)"

definition buffers_relocked :: "os \<Rightarrow> nat \<Rightarrow> nat \<Rightarrow> 'z scr_scheme \<Rightarrow> (nat \<rightharpoonup> LorieBuffer)" where
  "buffers_relocked o1 p a s =
     (if mapped p s then (buffers s)(a \<mapsto> (the (buffers s a))\<lparr>lockedData := snd (lock_answer o1 a s), locked := True\<rparr>)
      else buffers s)"

lemma gpu_ready_sampleable:
  "gpu_ready p a s \<Longrightarrow> lorieEnsureGpuSampleable blt o1 (Some p) LORIEBUFFER_AHARDWAREBUFFER s = Some (Some a, s)"
  by (auto simp: gpu_ready_def lorieEnsureGpuSampleable_def buffer_consts split: option.splits)

lemma gpu_ready_relock:
  assumes "gpu_ready p a s" "api26 o1" "mapped p s \<Longrightarrow> fst (lock_answer o1 a s) = 0"
  shows "relock o1 p s = Some (s\<lparr>buffers := buffers_relocked o1 p a s, privs := privs_relocked o1 p a s\<rparr>)"
proof -
  obtain v b h where v: "privs s p = Some v" "p_buffer v = Some a" and
    b: "buffers s a = Some b" "d_type (desc b) = LORIEBUFFER_AHARDWAREBUFFER" "d_buffer (desc b) = Some h"
    using assms(1) by (auto simp: gpu_ready_def split: option.splits)
  show ?thesis
  proof (cases "p_locked v")
    case None
    then show ?thesis using v by (simp add: relock_def mapped_def privs_relocked_def buffers_relocked_def)
  next
    case (Some x)
    then obtain q where "os_AHardwareBuffer_lock o1 h = (0, q)"
      using assms(3) v b by (cases "os_AHardwareBuffer_lock o1 h") (simp add: mapped_def lock_answer_def)
    then show ?thesis using Some v b assms(2)
      by (cases "locked b") (simp_all add: relock_def mapped_def privs_relocked_def buffers_relocked_def lock_answer_def
          LorieBuffer_unlock_def LorieBuffer_lock_def set_priv_def buffer_consts)
  qed
qed

lemma relocked_buffer:
  assumes "buffers s c = Some b"
  obtains b' where "buffers_relocked o1 p a s c = Some b'" "refcount b' = refcount b" "desc b' = desc b"
proof (cases "mapped p s \<and> c = a")
  case True
  then show thesis using that assms by (simp add: buffers_relocked_def)
next
  case False
  then show thesis using that assms by (auto simp: buffers_relocked_def)
qed

lemma gpu_ready_buffer:
  assumes "gpu_ready p a s"
  obtains b where "buffers s a = Some b" "refcount b \<notin> {0, -1}" "priv_buffer (Some p) s = Some a"
  using assms by (auto simp: gpu_ready_def priv_buffer_def split: option.splits)

section \<open>The properties of presentation\<close>

text \<open>
  The vblanks that are due are notified and leave the queue, the others stay in order.
\<close>

lemma perform_loop_spec:
  "distinct (us @ vs) \<Longrightarrow> vblank_queue s = filter (\<lambda>v. \<not> snd v \<le> current_msc s) us @ vs \<Longrightarrow>
   vblank_queue (perform_loop now vs s) = filter (\<lambda>v. \<not> snd v \<le> current_msc s) (us @ vs)
   \<and> calls (perform_loop now vs s) = calls s @ map (\<lambda>v. PresentNotify (fst v) now (current_msc s)) (filter (\<lambda>v. snd v \<le> current_msc s) vs)
   \<and> current_msc (perform_loop now vs s) = current_msc s"
proof (induction vs arbitrary: us s)
  case (Cons v vs)
  let ?s = "if snd v \<le> current_msc s then
      (ext (PresentNotify (fst v) now (current_msc s)) s)\<lparr>vblank_queue := remove1 v (vblank_queue s)\<rparr> else s"
  have m: "current_msc ?s = current_msc s" by (simp add: ext_def)
  have "vblank_queue ?s = filter (\<lambda>v. \<not> snd v \<le> current_msc ?s) (us @ [v]) @ vs"
    using Cons.prems by (auto simp: m remove1_append ext_def)
  moreover have "distinct ((us @ [v]) @ vs)" using Cons.prems(1) by simp
  ultimately show ?case using Cons.IH [of "us @ [v]" ?s] by (auto simp: m ext_def)
qed simp

lemma vblanks_performed:
  assumes "distinct (vblank_queue s)"
  shows "vblank_queue (loriePerformVblanks now s) = filter (\<lambda>v. \<not> snd v \<le> current_msc s) (vblank_queue s)"
    "calls (loriePerformVblanks now s) = calls s @ map (\<lambda>v. PresentNotify (fst v) now (current_msc s))
       (filter (\<lambda>v. snd v \<le> current_msc s) (vblank_queue s))"
  using perform_loop_spec [of "[]" "vblank_queue s" s now] assms by (simp_all add: loriePerformVblanks_def)

text \<open>
  The lock of the renderer is taken and given back by two evaluations of the same condition. When
  a copy to the screen is scheduled between the two, \<open>lorieFinishAccess\<close> unlocks a mutex that
  \<open>loriePrepareAccess\<close> did not lock.
\<close>

lemma finish_access_unbalanced:
  assumes "screenPixmap s = Some p" "privs s p = Some v" "p_locked v = Some x" "rootGpuCopyPending s = 0"
    "lockDepth s = 0" "\<not> legacyDrawing s" "n \<noteq> 0"
  shows "\<exists>s1. loriePrepareAccess o1 p False s = Some (True, Some x, s1) \<and> lockDepth s1 = 0
    \<and> lorieFinishAccess o1 p False (s1\<lparr>rootGpuCopyPending := n\<rparr>) = None"
  using assms by (auto simp: loriePrepareAccess_def lorieFinishAccess_def lorieNeedsGpuLock_def set_priv_def)

text \<open>C16: A Present copy between two pixmaps in hardware buffers, mapped for the CPU as the driver keeps
  them or not, is handed to the renderer: with room in the queue and when the system can map the
  source again, \<open>lorieTryScheduleGpuCopy\<close> returns the next serial and appends one entry, which the
  renderer takes out behind the entries before it, across the wrap-around of the 32-bit indices. A
  source that was mapped is unmapped and mapped again, and the pixmap gets the new address; no
  other pixmap changes. The references and pending counts the copy takes are exactly those the
  acknowledgement gives back, so that no buffer is freed or kept too long.\<close>
theorem gpu_copy_handed_over:
  fixes s :: "'z scr_scheme"
  assumes "gpu_ready p src s" "gpu_ready d dst s" "api26 o1" "mapped p s \<longrightarrow> fst (lock_answer o1 src s) = 0"
    "\<not> gpuPresentDisabled s" "\<not> legacyDrawing s" "connectionAlive s"
    "surfaceAvailable s" "0 < length rects" "length rects \<le> 16" "gq_ok (gpuCopyQueue s)" "\<not> gpu_queue_full (gpuCopyQueue s)"
  shows "\<exists>out s' q. lorieTryScheduleGpuCopy blt o1 o2 (Some p) (Some d) (Some rects) x y s
        = Some (Some (gpuCopySerialCounter s + 1, out), s')
    \<and> take_out gpu_take (Suc (length (gq_contents (gpuCopyQueue s)))) (gpuCopyQueue s')
        = Some (gq_contents (gpuCopyQueue s) @ [copy_entry src dst rects x y s], q)
    \<and> privs s' = privs_relocked o1 p src s
    \<and> (\<exists>s''. lorieGpuCopyAck o3 (Some p) out s' = Some s'' \<and> buffers s'' = buffers_relocked o1 p src s \<and> held s'' = held s
        \<and> rootGpuCopyPending s'' = rootGpuCopyPending s)"
proof -
  obtain sb0 where sb0: "buffers s src = Some sb0" "refcount sb0 \<notin> {0, -1}" "priv_buffer (Some p) s = Some src"
    using gpu_ready_buffer [OF assms(1)] .
  obtain db0 where db0: "buffers s dst = Some db0" "refcount db0 \<notin> {0, -1}" using gpu_ready_buffer [OF assms(2)] .
  let ?t = "s\<lparr>buffers := buffers_relocked o1 p src s, privs := privs_relocked o1 p src s\<rparr>"
  obtain sb where sb: "buffers ?t src = Some sb" "refcount sb = refcount sb0" "desc sb = desc sb0"
    by (rule relocked_buffer [OF sb0(1), of o1 p src]) simp
  obtain db where db: "buffers ?t dst = Some db" "refcount db = refcount db0" "desc db = desc db0"
    by (rule relocked_buffer [OF db0(1), of o1 p src]) simp
  note rc = sb0(2) [folded sb(2)] db0(2) [folded db(2)]
  let ?root = "Some d = screenPixmap s"
  have e: "copy_entry src dst rects x y ?t = copy_entry src dst rects x y s"
    using sb sb0 db db0 by (simp add: copy_entry_def)
  obtain s' where s': "schedule_copy src dst ?root rects x y ?t
      = Some (gpuCopySerialCounter s + 1, if ?root then None else Some dst, s')"
    "buffers s' = (if ?root then referenced src (buffers ?t) else referenced dst (referenced src (buffers ?t)))"
    "gpuCopyQueue s' = gpu_publish (copy_entry src dst rects x y s) (gpuCopyQueue s)"
    "rootGpuCopyPending s' = rootGpuCopyPending s + of_bool ?root" "privs s' = privs ?t" "held s' = held s"
    using schedule_copy_eq [of ?t src dst ?root rects x y] sb(1) db(1) unfolding e by auto
  have "priv_buffer (Some p) ?t = Some src"
    using sb0(3) by (auto simp: priv_buffer_def privs_relocked_def split: option.splits)
  then have pb: "priv_buffer (Some p) s' = Some src" using s'(5) by (simp add: priv_buffer_def)
  note ack = ack_restores [OF sb(1) db(1) rc s'(2) pb, of o3]
  have sched: "lorieTryScheduleGpuCopy blt o1 o2 (Some p) (Some d) (Some rects) x y s
      = Some (Some (gpuCopySerialCounter s + 1, if ?root then None else Some dst), s')"
    using assms(5-10,12) s'(1) gpu_ready_sampleable [OF assms(1)] gpu_ready_sampleable [OF assms(2)]
      gpu_ready_relock [OF assms(1,3)] assms(4)
    by (simp add: lorieTryScheduleGpuCopy_def LORIE_GPU_COPY_MAX_RECTS_def)
  show ?thesis
    using sched ack gq.enq_then_take_out [OF assms(11,12), of "copy_entry src dst rects x y s"] s'(3-6)
    by (fastforce simp: of_bool_def)
qed

text \<open>A screen with two pixmaps as \<open>lorieCreatePixmap\<close> makes them, in hardware buffers that stay mapped,
  and a queue just before its indices wrap around.\<close>

definition bare_scr :: scr where
  "bare_scr = \<lparr>buffers = Map.empty, held = {#}, mem = (\<lambda>_. []), blists = (\<lambda>_. []), next_id = 11, privs = Map.empty,
     drawable_size = (\<lambda>_. (4, 3)), screenPixmap = Some 32, root_size = (8, 6), legacyDrawing = False,
     gpuPresentDisabled = False, connectionAlive = True, surfaceAvailable = True,
     gpuCopyQueue = \<lparr>writeIndex = -1, readIndex = -1, completedSerial = 40,
       entries = replicate 8 \<lparr>g_serial = 0, g_srcBufferId = 0, g_dstBufferId = 0, g_xOff = 0, g_yOff = 0, g_numRects = 0, g_rects = []\<rparr>\<rparr>,
     gpuCopySerialCounter = 40, rootGpuCopyPending = 0, gpuCopyAttempts = 0, gpuCopyOffloads = 0, vblank_queue = [],
     current_msc = 7, lockDepth = 0, calls = []\<rparr>"

definition sample_buffer :: "nat \<Rightarrow> u64 \<Rightarrow> LorieBuffer" where
  "sample_buffer h i = (new_buffer 4 4 3 5 LORIEBUFFER_AHARDWAREBUFFER (Some h) (-1) 0 0 i)\<lparr>lockedData := Some 300, locked := True\<rparr>"

definition sample_scr :: scr where
  "sample_scr = bare_scr\<lparr>buffers := [1 \<mapsto> sample_buffer 5 11, 2 \<mapsto> sample_buffer 6 12],
     held := {#Ahb 6, Ahb 5#}, next_id := 13,
     privs := [31 \<mapsto> empty_priv\<lparr>p_buffer := Some 1, p_locked := Some 300\<rparr>,
       32 \<mapsto> empty_priv\<lparr>p_buffer := Some 2, p_locked := Some 300\<rparr>]\<rparr>"

lemma sample_scr_created:
  "\<exists>v1 s1 v2 s2. lorieCreatePixmap sample_os True 4 3 True bare_scr = Some (Some v1, 16, s1)
    \<and> lorieCreatePixmap (sample_os\<lparr>os_calloc_buffer := Some 2, os_AHardwareBuffer_allocate := Some 6\<rparr>) True 4 3 True
        (set_priv 31 v1 s1) = Some (Some v2, 16, s2)
    \<and> set_priv 32 v2 s2 = sample_scr"
  by (simp add: lorieCreatePixmap_def bare_scr_def sample_os_def LorieBuffer_allocate_def buffer_consts allocate_def
      allocate_memory_def finish_allocate_def new_buffer_def LorieBuffer_description_def LorieBuffer_lock_def hold_def
      set_priv_def sample_scr_def sample_buffer_def)

theorem gpu_copy_handed_over_witness:
  "\<exists>out s' q. lorieTryScheduleGpuCopy (\<lambda>src dst ss ds w h. src) (sample_os\<lparr>os_AHardwareBuffer_lock := \<lambda>_. (0, Some 301)\<rparr>) sample_os
        (Some 31) (Some 32) (Some [(0, 0, 2, 2)]) 1 1 sample_scr
      = Some (Some (41, out), s')
    \<and> take_out gpu_take 1 (gpuCopyQueue s') = Some ([copy_entry 1 2 [(0, 0, 2, 2)] 1 1 sample_scr], q)
    \<and> privs s' 31 = Some (empty_priv\<lparr>p_buffer := Some 1, p_locked := Some 301\<rparr>)
    \<and> (\<exists>s''. lorieGpuCopyAck sample_os (Some 31) out s' = Some s''
        \<and> buffers s'' = (buffers sample_scr)(1 \<mapsto> (sample_buffer 5 11)\<lparr>lockedData := Some 301\<rparr>))"
proof -
  let ?o = "sample_os\<lparr>os_AHardwareBuffer_lock := \<lambda>_. (0, Some 301)\<rparr>"
  have f: "api26 ?o" "gpu_ready 31 1 sample_scr" "gpu_ready 32 2 sample_scr" "\<not> gpuPresentDisabled sample_scr" "\<not> legacyDrawing sample_scr"
    "connectionAlive sample_scr" "surfaceAvailable sample_scr" "gpuCopySerialCounter sample_scr = 40"
    "mapped 31 sample_scr \<longrightarrow> fst (lock_answer ?o 1 sample_scr) = 0"
    by (simp_all add: sample_scr_def bare_scr_def gpu_ready_def empty_priv_def new_buffer_def sample_buffer_def
        sample_os_def lock_answer_def)
  have r: "privs_relocked ?o 31 1 sample_scr 31 = Some (empty_priv\<lparr>p_buffer := Some 1, p_locked := Some 301\<rparr>)"
    "buffers_relocked ?o 31 1 sample_scr = (buffers sample_scr)(1 \<mapsto> (sample_buffer 5 11)\<lparr>lockedData := Some 301\<rparr>)"
    by (simp_all add: privs_relocked_def buffers_relocked_def mapped_def lock_answer_def sample_scr_def sample_buffer_def new_buffer_def)
  have "gq_len (gpuCopyQueue sample_scr) = 0" "length (entries (gpuCopyQueue sample_scr)) = 8"
    by (simp_all add: gq_len_def sample_scr_def bare_scr_def)
  then have q: "gq_ok (gpuCopyQueue sample_scr)" "\<not> gpu_queue_full (gpuCopyQueue sample_scr)" "gq_contents (gpuCopyQueue sample_scr) = []"
    by (simp_all add: gq_ok_def gpu_queue_full_def gq_len_def gq_contents_def LORIE_GPU_COPY_QUEUE_CAPACITY_def)
  have l: "0 < length [(0 :: int, 0 :: int, 2 :: int, 2 :: int)]" "length [(0 :: int, 0 :: int, 2 :: int, 2 :: int)] \<le> 16" by simp_all
  show ?thesis
    using gpu_copy_handed_over [OF f(2,3,1,9,4-7) l q(1,2), of "\<lambda>src dst ss ds w h. src" sample_os 1 1 sample_os]
    unfolding r(2) q(3) f(8) using r(1) by (auto intro: exI)
qed

end
