(* ===== verification/Screen_Setup.thy ===== *)
theory Screen_Setup
  imports Prelude
begin

text \<open>
  The cursor, the test image and the command line of the server (\<open>lorie/InitOutput.c\<close>).

  The cursor image is the array of \<open>512 * 512\<close> pixels that is shared with the renderer; writing or
  reading outside an array gives \<open>None\<close>, and so does the fatal error on a wrong command line.
\<close>

section \<open>Cursor\<close>

record CursorBits =
  c_width :: nat
  c_height :: nat
  c_xhot :: nat
  c_yhot :: nat
  c_argb :: "u32 list option"
  c_source :: bytes
  c_mask :: bytes

record Cursor =
  c_bits :: CursorBits
  foreRed :: u16
  foreGreen :: u16
  foreBlue :: u16
  backRed :: u16
  backGreen :: u16
  backBlue :: u16

record cursor_state =
  cur_x :: int
  cur_y :: int
  cur_xhot :: nat
  cur_yhot :: nat
  cur_width :: nat
  cur_height :: nat
  cur_bits :: "u32 list"
  cur_visible :: bool
  cur_moved :: bool
  cur_updated :: bool

definition BitmapBytePad :: "nat \<Rightarrow> nat" where
  "BitmapBytePad w = (w + 31) div 32 * 4"

text \<open>A pixel from BGRA to RGBA.\<close>

definition swap_pixel :: "u32 \<Rightarrow> u32" where
  "swap_pixel p = (p AND 0xFF000000) OR drop_bit 16 (p AND 0x00FF0000) OR (p AND 0x0000FF00) OR push_bit 16 (p AND 0x000000FF)"

fun argb_loop :: "u32 list \<Rightarrow> nat \<Rightarrow> nat \<Rightarrow> u32 list \<Rightarrow> u32 list option" where
  "argb_loop argb i 0 data = Some data"
| "argb_loop argb i (Suc n) data = do {
     p \<leftarrow> rd argb i;
     data' \<leftarrow> wr data i (swap_pixel p);
     argb_loop argb (i + 1) n data' }"

definition cursor_colour :: "u16 \<Rightarrow> u16 \<Rightarrow> u16 \<Rightarrow> u32" where
  "cursor_colour red green blue =
     push_bit 8 (ucast blue AND 0xff00) OR (ucast green AND 0xff00) OR drop_bit 8 (ucast red)"

definition mono_pixel :: "Cursor \<Rightarrow> u8 \<Rightarrow> u8 \<Rightarrow> nat \<Rightarrow> u32" where
  "mono_pixel cur src msk x =
     (let d = (if bit src (x mod 8) then cursor_colour (foreRed cur) (foreGreen cur) (foreBlue cur)
               else cursor_colour (backRed cur) (backGreen cur) (backBlue cur))
      in if bit msk (x mod 8) then d OR 0xff000000 else 0)"

text \<open>The two nested loops run over the coordinates in the order \<open>cs\<close>; \<open>p\<close> is the place of the next pixel.\<close>

fun mono_loop :: "Cursor \<Rightarrow> (nat \<times> nat) list \<Rightarrow> nat \<Rightarrow> u32 list \<Rightarrow> u32 list option" where
  "mono_loop cur [] p data = Some data"
| "mono_loop cur ((y, x) # cs) p data = do {
     let i = y * BitmapBytePad (c_width (c_bits cur)) + x div 8;
     src \<leftarrow> rd (c_source (c_bits cur)) i;
     msk \<leftarrow> rd (c_mask (c_bits cur)) i;
     data' \<leftarrow> wr data p (mono_pixel cur src msk x);
     mono_loop cur cs (p + 1) data' }"

definition lorieConvertCursor :: "Cursor \<Rightarrow> u32 list \<Rightarrow> u32 list option" where
  "lorieConvertCursor cur data =
     (let w = c_width (c_bits cur); h = c_height (c_bits cur) in
      case c_argb (c_bits cur) of
        Some argb \<Rightarrow> argb_loop argb 0 (w * h) data
      | None \<Rightarrow> mono_loop cur (List.product [0..<h] [0..<w]) 0 data)"

definition lorieSetCursorVisible :: "bool \<Rightarrow> cursor_state \<Rightarrow> cursor_state" where
  "lorieSetCursorVisible visible s = s\<lparr>cur_visible := visible, cur_moved := True\<rparr>"

text \<open>\<open>fromMouse\<close> is \<open>lorieCursorFromMouse\<close>: no device, or a device of the core pointer.\<close>

definition lorieCursorFromMouse :: "(nat \<Rightarrow> nat) \<Rightarrow> nat \<Rightarrow> nat option \<Rightarrow> bool" where
  "lorieCursorFromMouse GetMaster pointer pDev = (case pDev of None \<Rightarrow> True | Some d \<Rightarrow> GetMaster d = pointer)"

definition lorieMoveCursor :: "bool \<Rightarrow> int \<Rightarrow> int \<Rightarrow> cursor_state \<Rightarrow> cursor_state" where
  "lorieMoveCursor fromMouse x y s = (if \<not> fromMouse then s else s\<lparr>cur_x := x, cur_y := y, cur_moved := True\<rparr>)"

definition lorieSetCursor :: "Cursor \<Rightarrow> bool \<Rightarrow> Cursor option \<Rightarrow> int \<Rightarrow> int \<Rightarrow> cursor_state \<Rightarrow> cursor_state option" where
  "lorieSetCursor rootCursor fromMouse pCurs x0 y0 s =
     (if \<not> fromMouse then Some s
      else do {
        s1 \<leftarrow> (case pCurs of
                 None \<Rightarrow> Some (s\<lparr>cur_xhot := 0, cur_yhot := 0, cur_width := 0, cur_height := 0\<rparr>)
               | Some cur \<Rightarrow> do {
                   let bits = c_bits cur;
                   let shown = (if c_width bits \<ge> 512 \<or> c_height bits \<ge> 512 then rootCursor else cur);
                   data \<leftarrow> lorieConvertCursor shown (cur_bits s);
                   Some (s\<lparr>cur_xhot := c_xhot bits, cur_yhot := c_yhot bits, cur_width := c_width bits,
                           cur_height := c_height bits, cur_bits := data\<rparr>) });
        Some (lorieMoveCursor True x0 y0 (s1\<lparr>cur_updated := True\<rparr>)) })"

section \<open>The test image\<close>

text \<open>The pixels of a square in the order of the loops.\<close>

fun draw_loop :: "nat \<Rightarrow> nat \<Rightarrow> u32 \<Rightarrow> nat \<Rightarrow> (nat \<times> nat) list \<Rightarrow> u32 list \<Rightarrow> u32 list option" where
  "draw_loop x y colour stride [] pixels = Some pixels"
| "draw_loop x y colour stride ((i, j) # cs) pixels = do {
     pixels' \<leftarrow> wr pixels ((j + y) * stride + x + i) colour;
     draw_loop x y colour stride cs pixels' }"

definition drawSquare :: "nat \<Rightarrow> nat \<Rightarrow> nat \<Rightarrow> u32 \<Rightarrow> nat \<Rightarrow> u32 list \<Rightarrow> u32 list option" where
  "drawSquare x y l colour stride pixels = draw_loop x y colour stride (List.product [0..<l] [0..<l]) pixels"

definition drawSquares :: "nat \<Rightarrow> nat \<Rightarrow> nat \<Rightarrow> u32 list \<Rightarrow> u32 list option" where
  "drawSquares width height stride pixels = do {
     let l = min width height div 4;
     let x = (width - l) div 2;
     let y = (height - l) div 2;
     p1 \<leftarrow> drawSquare (x - l div 3) (y - l div 3) l 0x00FF0000 stride pixels;
     p2 \<leftarrow> drawSquare x y l 0x0000FF00 stride p1;
     drawSquare (x + l div 3) (y + l div 3) l 0x000000FF stride p2 }"

section \<open>Command line\<close>

record options =
  xstartup :: "string option"
  xstartupArgv :: "string list option"
  opt_legacyDrawing :: bool
  opt_dri3 :: bool
  opt_sysvshm :: bool
  NoListenAll :: bool
  opt_gpuPresentDisabled :: bool

text \<open>The number of arguments consumed, 0 for an argument that is not one of the server's.\<close>

definition ddxProcessArgument :: "string list \<Rightarrow> nat \<Rightarrow> options \<Rightarrow> (nat \<times> options) option" where
  "ddxProcessArgument argv i o1 = do {
     a \<leftarrow> rd argv i;
     if a = ''-xstartup'' then
       (if i + 1 \<ge> length argv \<or> xstartupArgv o1 \<noteq> None then None
        else Some (2, o1\<lparr>xstartup := Some (argv ! (i + 1))\<rparr>))
     else if a = ''--'' then
       (if i + 1 \<ge> length argv \<or> xstartup o1 \<noteq> None then None
        else Some (length argv - i, o1\<lparr>xstartupArgv := Some (drop (i + 1) argv)\<rparr>))
     else if a = ''-legacy-drawing'' then Some (1, o1\<lparr>opt_legacyDrawing := True\<rparr>)
     else if a = ''-force-bgra'' then Some (1, o1)
     else if a = ''-disable-dri3'' then Some (1, o1\<lparr>opt_dri3 := False\<rparr>)
     else if a = ''-force-sysvshm'' then Some (1, o1\<lparr>opt_sysvshm := True\<rparr>)
     else if a = ''-check-drawing'' then Some (1, o1\<lparr>NoListenAll := True\<rparr>)
     else if a = ''-disable-gpu-present'' then Some (1, o1\<lparr>opt_gpuPresentDisabled := True\<rparr>)
     else Some (0, o1) }"

section \<open>Cursor images\<close>

lemma argb_loop_ok:
  "i + n \<le> length argb \<Longrightarrow> i + n \<le> length data \<Longrightarrow>
   \<exists>d. argb_loop argb i n data = Some d \<and> length d = length data
     \<and> (\<forall>k<length data. d ! k = (if i \<le> k \<and> k < i + n then swap_pixel (argb ! k) else data ! k))"
proof (induction n arbitrary: i data)
  case (Suc n)
  let ?d = "data[i := swap_pixel (argb ! i)]"
  have "rd argb i = Some (argb ! i)" "wr data i (swap_pixel (argb ! i)) = Some ?d"
    using Suc.prems by (simp_all add: rd_def wr_def)
  then have e: "argb_loop argb i (Suc n) data = argb_loop argb (Suc i) n ?d" by simp
  have "\<exists>d. argb_loop argb (Suc i) n ?d = Some d \<and> length d = length ?d
     \<and> (\<forall>k<length ?d. d ! k = (if Suc i \<le> k \<and> k < Suc i + n then swap_pixel (argb ! k) else ?d ! k))"
    using Suc.prems by (intro Suc.IH) simp_all
  then obtain d where d: "argb_loop argb (Suc i) n ?d = Some d" "length d = length data"
    "\<forall>k<length data. d ! k = (if Suc i \<le> k \<and> k < Suc i + n then swap_pixel (argb ! k) else ?d ! k)" by auto
  have "d ! k = (if i \<le> k \<and> k < i + Suc n then swap_pixel (argb ! k) else data ! k)" if "k < length data" for k
    using d(3) that Suc.prems by (cases "k = i") auto
  then show ?case using d(1,2) unfolding e by simp
qed auto

definition mono_at :: "Cursor \<Rightarrow> nat \<times> nat \<Rightarrow> u32" where
  "mono_at cur c = (let i = fst c * BitmapBytePad (c_width (c_bits cur)) + snd c div 8
     in mono_pixel cur (c_source (c_bits cur) ! i) (c_mask (c_bits cur) ! i) (snd c))"

definition mono_readable :: "Cursor \<Rightarrow> nat \<times> nat \<Rightarrow> bool" where
  "mono_readable cur c \<longleftrightarrow> fst c * BitmapBytePad (c_width (c_bits cur)) + snd c div 8
     < min (length (c_source (c_bits cur))) (length (c_mask (c_bits cur)))"

lemma mono_loop_ok:
  "\<forall>c\<in>set cs. mono_readable cur c \<Longrightarrow> p + length cs \<le> length data \<Longrightarrow>
   \<exists>d. mono_loop cur cs p data = Some d \<and> length d = length data
     \<and> (\<forall>k<length data. d ! k = (if p \<le> k \<and> k < p + length cs then mono_at cur (cs ! (k - p)) else data ! k))"
proof (induction cs arbitrary: p data)
  case (Cons c cs)
  obtain y x where c: "c = (y, x)" by fastforce
  let ?d = "data[p := mono_at cur c]"
  have e: "mono_loop cur (c # cs) p data = mono_loop cur cs (Suc p) ?d"
    using Cons.prems by (simp add: c rd_def wr_def mono_readable_def mono_at_def Let_def)
  have "\<exists>d. mono_loop cur cs (Suc p) ?d = Some d \<and> length d = length ?d
     \<and> (\<forall>k<length ?d. d ! k = (if Suc p \<le> k \<and> k < Suc p + length cs then mono_at cur (cs ! (k - Suc p)) else ?d ! k))"
    using Cons.prems by (intro Cons.IH) simp_all
  then obtain d where d: "mono_loop cur cs (Suc p) ?d = Some d" "length d = length data"
    "\<forall>k<length data. d ! k = (if Suc p \<le> k \<and> k < Suc p + length cs then mono_at cur (cs ! (k - Suc p)) else ?d ! k)" by auto
  have "d ! k = (if p \<le> k \<and> k < p + length (c # cs) then mono_at cur ((c # cs) ! (k - p)) else data ! k)"
    if "k < length data" for k
    using d(3) that Cons.prems(2) by (cases "k = p") (auto simp: nth_Cons')
  then show ?case using d(1,2) unfolding e by simp
qed auto

text \<open>A cursor whose arrays are as long as its dimensions demand.\<close>

definition cursor_ok :: "Cursor \<Rightarrow> bool" where
  "cursor_ok cur \<longleftrightarrow> (let b = c_bits cur in
     case c_argb b of
       Some argb \<Rightarrow> c_width b * c_height b \<le> length argb
     | None \<Rightarrow> BitmapBytePad (c_width b) * c_height b \<le> min (length (c_source b)) (length (c_mask b)))"

definition cursor_pixel :: "Cursor \<Rightarrow> nat \<Rightarrow> u32" where
  "cursor_pixel cur k = (case c_argb (c_bits cur) of
     Some argb \<Rightarrow> swap_pixel (argb ! k)
   | None \<Rightarrow> mono_at cur (k div c_width (c_bits cur), k mod c_width (c_bits cur)))"

lemma row_in_bitmap:
  assumes "y < h" "x < w"
  shows "y * BitmapBytePad w + x div 8 < BitmapBytePad w * h"
proof -
  have "x div 8 < BitmapBytePad w" using assms(2) unfolding BitmapBytePad_def by linarith
  then have "y * BitmapBytePad w + x div 8 < (y + 1) * BitmapBytePad w" by (simp add: algebra_simps)
  also have "\<dots> \<le> h * BitmapBytePad w" using assms(1) by (intro mult_le_mono1) simp
  finally show ?thesis by (simp add: mult.commute)
qed

lemma product_upt_nth:
  assumes "k < h * w"
  shows "List.product [0..<h] [0..<w] ! k = (k div w, k mod w)"
proof -
  have "0 < w" "k div w < h" using assms by (auto simp: less_mult_imp_div_less intro: Nat.gr0I)
  then show ?thesis using assms by (simp add: product_nth)
qed

lemma convert_cursor_ok:
  assumes "cursor_ok cur" "c_width (c_bits cur) * c_height (c_bits cur) \<le> length data"
  shows "\<exists>d. lorieConvertCursor cur data = Some d \<and> length d = length data
    \<and> (\<forall>k<length data. d ! k = (if k < c_width (c_bits cur) * c_height (c_bits cur) then cursor_pixel cur k else data ! k))"
proof (cases "c_argb (c_bits cur)")
  case (Some argb)
  then show ?thesis
    using argb_loop_ok [of 0 "c_width (c_bits cur) * c_height (c_bits cur)" argb data] assms
    by (auto simp: lorieConvertCursor_def Let_def cursor_ok_def cursor_pixel_def)
next
  case None
  let ?w = "c_width (c_bits cur)" and ?h = "c_height (c_bits cur)"
  let ?cs = "List.product [0..<?h] [0..<?w]"
  have "\<forall>c\<in>set ?cs. mono_readable cur c"
    using None assms(1) row_in_bitmap [of _ ?h _ ?w] by (fastforce simp: mono_readable_def cursor_ok_def Let_def)
  moreover have len: "length ?cs = ?w * ?h" by simp
  ultimately have "\<exists>d. mono_loop cur ?cs 0 data = Some d \<and> length d = length data
     \<and> (\<forall>k<length data. d ! k = (if k < ?w * ?h then mono_at cur (?cs ! k) else data ! k))"
    using mono_loop_ok [of ?cs cur 0 data] assms(2) unfolding len by (simp only: add_0 le0 simp_thms diff_zero)
  then show ?thesis using None product_upt_nth [of _ ?h ?w]
    by (auto simp: lorieConvertCursor_def Let_def cursor_pixel_def mult.commute)
qed

section \<open>What a pixel of the cursor should be\<close>

text \<open>
  A pixel of the shared image by its four bytes in memory, and the two kinds of sources: an ARGB
  value, whose lowest byte is blue, and the bitmaps of a two-coloured cursor, whose rows are padded
  to 32 bits and start with the lowest bit; of a 16 bit colour the high byte is used.
\<close>

definition rgba :: "u8 \<Rightarrow> u8 \<Rightarrow> u8 \<Rightarrow> u8 \<Rightarrow> u32" where
  "rgba r g b a = ucast r OR push_bit 8 (ucast g) OR push_bit 16 (ucast b) OR push_bit 24 (ucast a)"

definition byte_of :: "nat \<Rightarrow> u32 \<Rightarrow> u8" where
  "byte_of n p = ucast (drop_bit (8 * n) p)"

definition high_byte :: "u16 \<Rightarrow> u8" where
  "high_byte c = ucast (drop_bit 8 c)"

definition bitmap_bit :: "bytes \<Rightarrow> nat \<Rightarrow> nat \<Rightarrow> nat \<Rightarrow> bool" where
  "bitmap_bit bs w x y = bit (bs ! (y * ((w + 31) div 32 * 4) + x div 8)) (x mod 8)"

definition wanted_pixel :: "Cursor \<Rightarrow> nat \<Rightarrow> u32" where
  "wanted_pixel cur k =
     (let b = c_bits cur; x = k mod c_width b; y = k div c_width b in
      case c_argb b of
        Some argb \<Rightarrow> rgba (byte_of 2 (argb ! k)) (byte_of 1 (argb ! k)) (byte_of 0 (argb ! k)) (byte_of 3 (argb ! k))
      | None \<Rightarrow>
          if \<not> bitmap_bit (c_mask b) (c_width b) x y then 0
          else if bitmap_bit (c_source b) (c_width b) x y
          then rgba (high_byte (foreRed cur)) (high_byte (foreGreen cur)) (high_byte (foreBlue cur)) 255
          else rgba (high_byte (backRed cur)) (high_byte (backGreen cur)) (high_byte (backBlue cur)) 255)"

lemma pixel_masks:
  "(0xFF000000 :: u32) = push_bit 24 (mask 8)" "(0x00FF0000 :: u32) = push_bit 16 (mask 8)"
  "(0x0000FF00 :: u32) = push_bit 8 (mask 8)" "(0x000000FF :: u32) = mask 8" "(255 :: u8) = mask 8"
  by (simp_all add: mask_eq_exp_minus_1)

lemma swap_pixel_rgba: "swap_pixel p = rgba (byte_of 2 p) (byte_of 1 p) (byte_of 0 p) (byte_of 3 p)"
  unfolding swap_pixel_def pixel_masks
  by (rule bit_word_eqI) (auto simp: rgba_def byte_of_def bit_simps)

lemma cursor_colour_rgba:
  "cursor_colour r g b OR 0xff000000 = rgba (high_byte r) (high_byte g) (high_byte b) 255"
  unfolding cursor_colour_def pixel_masks
  by (rule bit_word_eqI) (auto simp: rgba_def high_byte_def bit_simps dest: bit_imp_le_length)

lemma cursor_pixel_wanted: "cursor_pixel cur k = wanted_pixel cur k"
  by (simp add: cursor_pixel_def wanted_pixel_def Let_def swap_pixel_rgba mono_at_def mono_pixel_def bitmap_bit_def
      BitmapBytePad_def cursor_colour_rgba split: option.splits)

section \<open>The property of the cursor\<close>

text \<open>C17: A cursor smaller than \<open>512 * 512\<close> is converted inside the shared image: exactly the first
  \<open>width * height\<close> pixels are replaced, each by red, green, blue and alpha of its ARGB value, or by
  the opaque foreground or background colour its source bit selects, or by a transparent pixel
  where its mask bit is clear; hot spot, dimensions and position are set and the renderer is told of
  the new image and place. For a larger cursor the image of the root cursor is stored, but with the
  hot spot and the dimensions of the large one, which the image need not hold.\<close>
theorem cursor_image:
  assumes "cursor_ok cur" "cursor_ok rootCursor" "length (cur_bits s) = 512 * 512"
    "c_width (c_bits rootCursor) < 512" "c_height (c_bits rootCursor) < 512"
  shows "\<exists>s'. lorieSetCursor rootCursor True (Some cur) x y s = Some s' \<and> length (cur_bits s') = 512 * 512
    \<and> cur_width s' = c_width (c_bits cur) \<and> cur_height s' = c_height (c_bits cur) \<and> cur_x s' = x \<and> cur_y s' = y
    \<and> cur_xhot s' = c_xhot (c_bits cur) \<and> cur_yhot s' = c_yhot (c_bits cur) \<and> cur_updated s' \<and> cur_moved s'
    \<and> cur_visible s' = cur_visible s
    \<and> (let shown = (if c_width (c_bits cur) < 512 \<and> c_height (c_bits cur) < 512 then cur else rootCursor) in
       \<forall>k<512 * 512. cur_bits s' ! k =
         (if k < c_width (c_bits shown) * c_height (c_bits shown) then wanted_pixel shown k else cur_bits s ! k))"
proof -
  define shown where "shown = (if c_width (c_bits cur) < 512 \<and> c_height (c_bits cur) < 512 then cur else rootCursor)"
  have w: "c_width (c_bits shown) \<le> 512" "c_height (c_bits shown) \<le> 512" "cursor_ok shown"
    using assms(1,2,4,5) by (auto simp: shown_def)
  have "c_width (c_bits shown) * c_height (c_bits shown) \<le> 512 * 512" using w(1,2) by (rule mult_le_mono)
  then obtain d where d: "lorieConvertCursor shown (cur_bits s) = Some d" "length d = 512 * 512"
    "\<forall>k<512 * 512. d ! k = (if k < c_width (c_bits shown) * c_height (c_bits shown) then wanted_pixel shown k else cur_bits s ! k)"
    using convert_cursor_ok [OF w(3), of "cur_bits s"] unfolding assms(3) cursor_pixel_wanted by auto
  have "(if 512 \<le> c_width (c_bits cur) \<or> 512 \<le> c_height (c_bits cur) then rootCursor else cur) = shown"
    by (auto simp: shown_def)
  then show ?thesis using d unfolding shown_def [symmetric] by (simp add: lorieSetCursor_def lorieMoveCursor_def Let_def)
qed

text \<open>A cursor of two pixels: its source bits are 01, its mask bits 11; the colours are red and green.\<close>

definition sample_cursor :: Cursor where
  "sample_cursor = \<lparr>c_bits = \<lparr>c_width = 2, c_height = 1, c_xhot = 1, c_yhot = 0, c_argb = None, c_source = [1, 0, 0, 0],
       c_mask = [3, 0, 0, 0]\<rparr>,
     foreRed = 0xffff, foreGreen = 0, foreBlue = 0, backRed = 0, backGreen = 0xffff, backBlue = 0\<rparr>"

theorem cursor_image_witness:
  "\<exists>s'. lorieSetCursor sample_cursor True (Some sample_cursor) 5 6
      \<lparr>cur_x = 0, cur_y = 0, cur_xhot = 0, cur_yhot = 0, cur_width = 0, cur_height = 0, cur_bits = replicate (512 * 512) 0,
       cur_visible = True, cur_moved = False, cur_updated = False\<rparr> = Some s'
    \<and> cur_bits s' ! 0 = 0xff0000ff \<and> cur_bits s' ! 1 = 0xff00ff00 \<and> cur_xhot s' = 1 \<and> cur_x s' = 5"
proof -
  let ?s = "\<lparr>cur_x = 0, cur_y = 0, cur_xhot = 0, cur_yhot = 0, cur_width = 0, cur_height = 0, cur_bits = replicate (512 * 512) 0,
       cur_visible = True, cur_moved = False, cur_updated = False\<rparr> :: cursor_state"
  have c: "cursor_ok sample_cursor" "c_width (c_bits sample_cursor) = 2" "c_height (c_bits sample_cursor) = 1"
    "c_xhot (c_bits sample_cursor) = 1"
    "wanted_pixel sample_cursor 0 = 0xff0000ff" "wanted_pixel sample_cursor 1 = 0xff00ff00"
    by (simp_all add: cursor_ok_def sample_cursor_def wanted_pixel_def bitmap_bit_def rgba_def high_byte_def BitmapBytePad_def)
  have "length (cur_bits ?s) = 512 * 512" by simp
  from cursor_image [OF c(1,1) this, of 5 6] c show ?thesis by (auto simp: Let_def)
qed

section \<open>The test image stays on the screen\<close>

lemma draw_loop_ok:
  "\<forall>c\<in>set cs. (snd c + y) * stride + x + fst c < length pixels \<Longrightarrow>
   \<exists>p. draw_loop x y colour stride cs pixels = Some p \<and> length p = length pixels"
proof (induction cs arbitrary: pixels)
  case (Cons c cs)
  then show ?case using Cons.IH [of "pixels[(snd c + y) * stride + x + fst c := colour]"]
    by (cases c) (simp add: wr_def)
qed simp

lemma drawSquare_ok:
  assumes "x + l \<le> stride" "(y + l) * stride \<le> length pixels"
  shows "\<exists>p. drawSquare x y l colour stride pixels = Some p \<and> length p = length pixels"
proof -
  have "(j + y) * stride + x + i < length pixels" if "i < l" "j < l" for i j
  proof -
    have "(j + y) * stride + x + i < (j + y + 1) * stride" using that assms(1) by (simp add: algebra_simps)
    also have "\<dots> \<le> (y + l) * stride" using that by (intro mult_le_mono1) simp
    finally show ?thesis using assms(2) by simp
  qed
  then show ?thesis unfolding drawSquare_def by (intro draw_loop_ok) auto
qed

lemma drawSquares_ok:
  assumes "width \<le> stride" "height * stride \<le> length pixels"
  shows "\<exists>p. drawSquares width height stride pixels = Some p \<and> length p = length pixels"
proof -
  define l where "l = min width height div 4"
  define x where "x = (width - l) div 2"
  define y where "y = (height - l) div 2"
  define t where "t = l div 3"
  have b: "x + t + l \<le> width" "y + t + l \<le> height" unfolding x_def y_def t_def l_def by linarith+
  then have b': "x - t + l \<le> width" "y - t + l \<le> height" by linarith+
  have fits: "\<exists>p. drawSquare x' y' l colour stride q = Some p \<and> length p = length pixels"
    if "x' + l \<le> width" "y' + l \<le> height" "length q = length pixels" for x' y' colour q
  proof -
    have "(y' + l) * stride \<le> length q" using mult_le_mono1 [OF that(2), of stride] assms(2) that(3) by linarith
    then show ?thesis using drawSquare_ok [of x' l stride y' q colour] that assms(1) by simp
  qed
  obtain p1 where p1: "drawSquare (x - t) (y - t) l 0x00FF0000 stride pixels = Some p1" "length p1 = length pixels"
    using fits [of "x - t" "y - t" pixels "0x00FF0000"] b' by auto
  obtain p2 where p2: "drawSquare x y l 0x0000FF00 stride p1 = Some p2" "length p2 = length pixels"
    using fits [of x y p1 "0x0000FF00"] b p1(2) by auto
  obtain p3 where p3: "drawSquare (x + t) (y + t) l 0x000000FF stride p2 = Some p3" "length p3 = length pixels"
    using fits [of "x + t" "y + t" p2 "0x000000FF"] b p2(2) by auto
  have "drawSquares width height stride pixels = Some p3"
    using p1(1) p2(1) p3(1) unfolding drawSquares_def Let_def l_def [symmetric] x_def [symmetric] y_def [symmetric] t_def [symmetric]
    by simp
  then show ?thesis using p3(2) by simp
qed

end
