(* ===== verification/Shared_Memory.thy ===== *)
theory Shared_Memory
  imports Prelude "HOL-Library.Multiset" "HOL-Library.Signed_Division" "HOL-Library.Sublist"
begin

text \<open>
  The System V shared memory of \<open>lorie/shm/shmem.c\<close>, which emulates \<open>shmget\<close>, \<open>shmat\<close>,
  \<open>shmdt\<close> and \<open>shmctl\<close> on ashmem regions whose descriptors travel between processes through
  a listening thread.

  The state \<open>shm\<close> holds the static variables of the file and what the process owns: open
  descriptors of regions (\<open>fds\<close>), listening sockets, mappings (address, length, descriptor) and the
  symbolic links of keys, which are shared by all processes. An address is an \<open>int\<close>, 0 is
  \<open>NULL\<close> and -1 the failure of \<open>shmat\<close>. The answers of the kernel and of other processes are the
  record \<open>kernel\<close>, one per call. A result \<open>None\<close> means that the call does not return.
\<close>

section \<open>State\<close>

record shmem_t =
  seg_id :: int
  seg_addr :: int
  descriptor :: int
  seg_size :: u64
  markedForDeletion :: bool
  seg_key :: int

record shm =
  shmem :: "shmem_t list"
  syscall_supported :: u8
  ashv_local_socket_id :: int
  ashv_pid_setup :: int
  ashv_listening_thread :: bool
  shmem_counter :: nat
  fds :: "int list"
  sockets :: "int list"
  maps :: "(int \<times> u64 \<times> int) list"
  links :: "int \<rightharpoonup> int"

text \<open>
  \<open>Unreachable\<close>: no socket, or \<open>connect\<close> or \<open>send\<close> failed; \<open>NoReply\<close>: the connection was
  closed before the key and the descriptor arrived; \<open>Reply\<close>: key, new descriptor and the size
  \<open>ioctl\<close> reports for it.
\<close>

datatype remote = Unreachable | NoReply | Reply int int int

text \<open>A new descriptor depends on those that are open, the argument of \<open>k_region\<close> and \<open>k_remote\<close>.\<close>

record kernel =
  k_pid :: int
  k_socket :: int
  k_bind :: "int \<Rightarrow> bool"
  k_listen :: bool
  k_page :: u64
  k_region :: "int list \<Rightarrow> int"
  k_mmap :: int
  k_remote :: "int list \<Rightarrow> int \<Rightarrow> remote"
  k_rival :: "nat \<Rightarrow> int option"
  k_tmp_writable :: bool
  k_euid :: int
  k_egid :: int
  k_shmget :: "int \<Rightarrow> u64 \<Rightarrow> int \<Rightarrow> int"
  k_shmat :: "int \<Rightarrow> int \<Rightarrow> int \<Rightarrow> int"
  k_shmdt :: "int \<Rightarrow> int"
  k_shmctl :: "int \<Rightarrow> int \<Rightarrow> int"

definition IPC_PRIVATE :: int where "IPC_PRIVATE = 0"
definition IPC_RMID :: int where "IPC_RMID = 0"
definition IPC_STAT :: int where "IPC_STAT = 2"

definition android_shmem_sysv_shm_force :: "u8 \<Rightarrow> shm \<Rightarrow> shm" where
  "android_shmem_sysv_shm_force enable s = s\<lparr>syscall_supported := enable\<rparr>"

section \<open>System call support\<close>

text \<open>
  \<open>isProot\<close> on the text of \<open>/proc/self/status\<close> (\<open>None\<close> when it cannot be opened). The right
  side of the disjunction is only reached when \<open>tracer_str\<close> is \<open>NULL\<close>, and \<open>sscanf\<close> on it is
  undefined behaviour, the outer \<open>None\<close>. The code behind the condition is not reached.
\<close>

definition isProot :: "string option \<Rightarrow> bool option" where
  "isProot status = (case status of
     None \<Rightarrow> Some False
   | Some buf \<Rightarrow> if sublist ''TracerPid:'' buf then Some False else None)"

definition check_syscall_support :: "string option \<Rightarrow> bool \<Rightarrow> shm \<Rightarrow> shm option" where
  "check_syscall_support status enosys s = (case isProot status of
     None \<Rightarrow> None
   | Some proot \<Rightarrow> Some (if \<not> proot \<or> enosys then s else s\<lparr>syscall_supported := 1\<rparr>))"

section \<open>Identifiers\<close>

text \<open>
  \<open>ashv_local_socket_id * 0x10000 + counter\<close> in 32 bits, read as an \<open>int\<close>: for socket ids from
  \<open>0x8000\<close> the product exceeds \<open>INT_MAX\<close> and the identifier is negative (formally, signed
  overflow; the wrapped value is what the generated code computes).
\<close>

definition ashv_shmid_from_counter :: "nat \<Rightarrow> shm \<Rightarrow> int" where
  "ashv_shmid_from_counter c s = signed_take_bit 31 (ashv_local_socket_id s * 0x10000 + int c)"

definition ashv_socket_id_from_shmid :: "int \<Rightarrow> int" where
  "ashv_socket_id_from_shmid shmid = shmid sdiv 0x10000"

fun find_from :: "int \<Rightarrow> shmem_t list \<Rightarrow> nat option" where
  "find_from shmid [] = None"
| "find_from shmid (x # xs) = (if seg_id x = shmid then Some 0 else map_option Suc (find_from shmid xs))"

definition ashv_find_local_index :: "int \<Rightarrow> shm \<Rightarrow> nat option" where
  "ashv_find_local_index shmid s = find_from shmid (shmem s)"

definition ROUND_UP :: "u64 \<Rightarrow> u64 \<Rightarrow> u64" where
  "ROUND_UP n s = ((n + s - 1) div s) * s"

section \<open>Fork, deletion and the listening thread\<close>

definition ashv_check_pid :: "kernel \<Rightarrow> shm \<Rightarrow> shm" where
  "ashv_check_pid e s =
     (if ashv_pid_setup s = 0 then s\<lparr>ashv_pid_setup := k_pid e\<rparr>
      else if ashv_pid_setup s \<noteq> k_pid e then
        s\<lparr>ashv_pid_setup := k_pid e, ashv_local_socket_id := 0, ashv_listening_thread := False, shmem := []\<rparr>
      else s)"

definition drop_nth :: "nat \<Rightarrow> 'a list \<Rightarrow> 'a list" where
  "drop_nth i xs = take i xs @ drop (Suc i) xs"

definition android_shmem_delete :: "nat \<Rightarrow> shm \<Rightarrow> shm" where
  "android_shmem_delete i s =
     (let d = descriptor (shmem s ! i);
          s1 = (if d \<noteq> 0 then s\<lparr>fds := remove1 d (fds s)\<rparr> else s)
      in s1\<lparr>shmem := drop_nth i (shmem s1)\<rparr>)"

text \<open>What \<open>ashv_thread_function\<close> answers to the identifier a peer sends: key and descriptor.\<close>

definition ashv_serve :: "int \<Rightarrow> shm \<Rightarrow> (int \<times> int) option" where
  "ashv_serve shmid s = (case ashv_find_local_index shmid s of
     None \<Rightarrow> None
   | Some i \<Rightarrow> Some (seg_key (shmem s ! i), descriptor (shmem s ! i)))"

text \<open>
  One conversation of the thread with a peer that has connected and sent its identifier, one
  blocking call per step; \<open>None\<close> when the call cannot go on, here because the mutex is \<open>held\<close> by
  another thread. The mutex is given back with the answer.
\<close>

datatype listener = Accepting | Receiving | Locking int | Closed "(int \<times> int) option"

definition ashv_thread_step :: "bool \<Rightarrow> int \<Rightarrow> shm \<Rightarrow> listener \<Rightarrow> listener option" where
  "ashv_thread_step held shmid s l = (case l of
     Accepting \<Rightarrow> Some Receiving
   | Receiving \<Rightarrow> Some (Locking shmid)
   | Locking i \<Rightarrow> if held then None else Some (Closed (ashv_serve i s))
   | Closed r \<Rightarrow> None)"

fun ashv_thread_run :: "nat \<Rightarrow> bool \<Rightarrow> int \<Rightarrow> shm \<Rightarrow> listener \<Rightarrow> listener" where
  "ashv_thread_run 0 held shmid s l = l"
| "ashv_thread_run (Suc n) held shmid s l = (case ashv_thread_step held shmid s l of
     None \<Rightarrow> l | Some l1 \<Rightarrow> ashv_thread_run n held shmid s l1)"

text \<open>Reading from the socket of the process itself returns when the thread closes the connection.\<close>

definition own_thread_answers :: "bool \<Rightarrow> int \<Rightarrow> shm \<Rightarrow> bool" where
  "own_thread_answers held shmid s \<longleftrightarrow> (case ashv_thread_run 3 held shmid s Accepting of Closed r \<Rightarrow> True | _ \<Rightarrow> False)"

text \<open>
  \<open>held\<close> says whether the caller holds the mutex: both callers do. When the identifier names the
  socket of the process itself, the call returns only if its own listening thread answers.
\<close>

definition ashv_read_remote_segment :: "kernel \<Rightarrow> bool \<Rightarrow> int \<Rightarrow> shm \<Rightarrow> (nat option \<times> shm) option" where
  "ashv_read_remote_segment e held shmid s =
     (let r = k_remote e (fds s) shmid in
      if r = Unreachable then Some (None, s)
      else if ashv_listening_thread s \<and> ashv_socket_id_from_shmid shmid = ashv_local_socket_id s
        \<and> \<not> own_thread_answers held shmid s then None
      else case r of
        Reply k fd sz \<Rightarrow>
          (let s1 = s\<lparr>fds := fd # fds s\<rparr> in
           if sz = 0 \<or> sz = -1 then Some (None, s1)
           else Some (Some (length (shmem s)),
             s1\<lparr>shmem := shmem s @ [\<lparr>seg_id = shmid, seg_addr = 0, descriptor = fd, seg_size = word_of_int sz,
                                     markedForDeletion = False, seg_key = k\<rparr>]\<rparr>))
      | _ \<Rightarrow> Some (None, s))"

section \<open>shmget\<close>

fun bind_loop :: "kernel \<Rightarrow> nat \<Rightarrow> nat \<Rightarrow> int option" where
  "bind_loop e 0 i = None"
| "bind_loop e (Suc n) i =
     (let a = (k_pid e + int i) mod 0x10000
      in if 0 \<le> k_socket e \<and> k_bind e a then Some a else bind_loop e n (Suc i))"

definition start_listening :: "kernel \<Rightarrow> shm \<Rightarrow> bool \<times> shm" where
  "start_listening e s =
     (if ashv_listening_thread s then (True, s)
      else
        let s1 = (if 0 \<le> k_socket e then s\<lparr>sockets := k_socket e # sockets s\<rparr> else s)
        in if k_socket e = 0 then (False, s1)
           else case bind_loop e 4096 0 of
             None \<Rightarrow> (False, s1\<lparr>ashv_local_socket_id := 0\<rparr>)
           | Some a \<Rightarrow>
               if \<not> k_listen e then (False, s1\<lparr>ashv_local_socket_id := a\<rparr>)
               else (True, s1\<lparr>ashv_local_socket_id := a, ashv_listening_thread := True\<rparr>))"

definition take_shmid :: "int \<Rightarrow> shm \<Rightarrow> int \<times> shm" where
  "take_shmid shmid s =
     (if shmid = -1 then
        let c = (shmem_counter s + 1) AND 0x7fff
        in (ashv_shmid_from_counter c s, s\<lparr>shmem_counter := c\<rparr>)
      else (shmid, s))"

text \<open>
  One look at the link of the key: a segment that is known or can be fetched, or the link is
  removed. \<open>links s k\<close> is what \<open>atoi\<close> reads from the link.
\<close>

definition follow_link :: "kernel \<Rightarrow> int \<Rightarrow> shm \<Rightarrow> (int option \<times> shm) option" where
  "follow_link e k s = (case links s k of
     None \<Rightarrow> Some (None, s)
   | Some target \<Rightarrow> do {
       (idx, s1) \<leftarrow> (if target \<noteq> 0 then
                       (case ashv_find_local_index target s of
                          Some i \<Rightarrow> Some (Some i, s)
                        | None \<Rightarrow> ashv_read_remote_segment e True target s)
                     else Some (None, s));
       Some (case idx of
               Some i \<Rightarrow> (Some (seg_id (shmem s1 ! i)), s1)
             | None \<Rightarrow> (None, if k_tmp_writable e then s1\<lparr>links := (links s1)(k := None)\<rparr> else s1)) })"

text \<open>
  The loop that looks for the owner of a key. \<open>k_rival e n\<close> is the link another process puts
  in place between the look at the link and the \<open>symlink\<close> call of round \<open>n\<close>; \<open>Inl\<close> is the
  identifier of a segment that exists, \<open>Inr\<close> the identifier under which the caller now owns
  the key.
\<close>

fun own_key :: "kernel \<Rightarrow> int \<Rightarrow> nat \<Rightarrow> nat \<Rightarrow> int \<Rightarrow> shm \<Rightarrow> ((int + int) \<times> shm) option" where
  "own_key e k 0 n shmid s = None"
| "own_key e k (Suc fuel) n shmid s = do {
     (found, s1) \<leftarrow> follow_link e k s;
     case found of
       Some i \<Rightarrow> Some (Inl i, s1)
     | None \<Rightarrow>
         (let (shmid', s2) = take_shmid shmid s1;
              s3 = (case k_rival e n of None \<Rightarrow> s2
                    | Some r \<Rightarrow> if links s2 k = None then s2\<lparr>links := (links s2)(k \<mapsto> r)\<rparr> else s2)
          in if links s3 k = None \<and> k_tmp_writable e
             then Some (Inr shmid', s3\<lparr>links := (links s3)(k \<mapsto> shmid')\<rparr>)
             else own_key e k fuel (Suc n) shmid' s3) }"

definition create_segment :: "kernel \<Rightarrow> int \<Rightarrow> u64 \<Rightarrow> int \<Rightarrow> shm \<Rightarrow> int \<times> shm" where
  "create_segment e k sz shmid s =
     (let (shmid', s1) = take_shmid shmid s
      in if k_region e (fds s1) < 0 then (-1, s1)
         else (shmid', s1\<lparr>shmem := shmem s1 @ [\<lparr>seg_id = shmid', seg_addr = 0, descriptor = k_region e (fds s1),
                  seg_size = ROUND_UP sz (k_page e), markedForDeletion = False, seg_key = k\<rparr>],
                fds := k_region e (fds s1) # fds s1\<rparr>))"

definition shmget :: "kernel \<Rightarrow> nat \<Rightarrow> int \<Rightarrow> u64 \<Rightarrow> int \<Rightarrow> shm \<Rightarrow> (int \<times> shm) option" where
  "shmget e fuel k sz flags s =
     (if syscall_supported s \<noteq> 0 then
        Some (k_shmget e k (if 0x7fffffffffffffff < sz then - 1 else sz) flags, s)
      else
        let (started, s1) = start_listening e (ashv_check_pid e s)
        in if \<not> started then Some (-1, s1)
           else do {
             (owner, s2) \<leftarrow> (if k \<noteq> IPC_PRIVATE then own_key e k fuel 0 (-1) s1 else Some (Inr (-1), s1));
             Some (case owner of
                     Inl shmid \<Rightarrow> (shmid, s2)
                   | Inr shmid \<Rightarrow> create_segment e k sz shmid s2) })"

section \<open>shmat, shmdt and shmctl\<close>

definition attach_index :: "kernel \<Rightarrow> nat \<Rightarrow> shm \<Rightarrow> int \<times> shm" where
  "attach_index e i s =
     (let x = shmem s ! i;
          s1 = (if seg_addr x = 0 \<and> k_mmap e \<noteq> 0 then
                  s\<lparr>shmem := (shmem s)[i := x\<lparr>seg_addr := k_mmap e\<rparr>], maps := (k_mmap e, seg_size x, descriptor x) # maps s\<rparr>
                else s);
          a = seg_addr (shmem s1 ! i)
      in (if a \<noteq> 0 then a else -1, s1))"

definition shmat :: "kernel \<Rightarrow> int \<Rightarrow> int \<Rightarrow> int \<Rightarrow> shm \<Rightarrow> (int \<times> shm) option" where
  "shmat e shmid shmaddr shmflg s =
     (if syscall_supported s \<noteq> 0 then Some (k_shmat e shmid shmaddr shmflg, s)
      else
        let s0 = ashv_check_pid e s
        in do {
          (idx, s1) \<leftarrow> (case ashv_find_local_index shmid s0 of
              Some i \<Rightarrow> Some (Some i, s0)
            | None \<Rightarrow> if ashv_socket_id_from_shmid shmid \<noteq> ashv_local_socket_id s0
                      then ashv_read_remote_segment e True shmid s0 else Some (None, s0));
          Some (case idx of None \<Rightarrow> (-1, s1) | Some i \<Rightarrow> attach_index e i s1) })"

fun find_addr :: "int \<Rightarrow> shmem_t list \<Rightarrow> nat option" where
  "find_addr a [] = None"
| "find_addr a (x # xs) = (if seg_addr x = a then Some 0 else map_option Suc (find_addr a xs))"

definition detach_index :: "nat \<Rightarrow> shm \<Rightarrow> shm" where
  "detach_index i s =
     (let x = shmem s ! i;
          s1 = s\<lparr>maps := remove1 (seg_addr x, seg_size x, descriptor x) (maps s), shmem := (shmem s)[i := x\<lparr>seg_addr := 0\<rparr>]\<rparr>
      in if markedForDeletion x \<or> ashv_socket_id_from_shmid (seg_id x) \<noteq> ashv_local_socket_id s
         then android_shmem_delete i s1 else s1)"

definition shmdt :: "kernel \<Rightarrow> int \<Rightarrow> shm \<Rightarrow> int \<times> shm" where
  "shmdt e shmaddr s =
     (if syscall_supported s \<noteq> 0 then (k_shmdt e shmaddr, s)
      else
        let s0 = ashv_check_pid e s
        in (0, case find_addr shmaddr (shmem s0) of None \<Rightarrow> s0 | Some i \<Rightarrow> detach_index i s0))"

record shmid_ds =
  shm_segsz :: u64
  shm_nattch :: int
  perm_key :: int
  perm_uid :: int
  perm_gid :: int
  perm_cuid :: int
  perm_cgid :: int
  perm_mode :: int
  perm_seq :: int

definition segment_status :: "kernel \<Rightarrow> shmem_t \<Rightarrow> shmid_ds" where
  "segment_status e x = \<lparr>shm_segsz = seg_size x, shm_nattch = 1, perm_key = seg_key x, perm_uid = k_euid e,
     perm_gid = k_egid e, perm_cuid = k_euid e, perm_cgid = k_egid e, perm_mode = 0x1b6, perm_seq = 1\<rparr>"

definition remove_segment :: "nat \<Rightarrow> shm \<Rightarrow> shm" where
  "remove_segment i s =
     (if seg_addr (shmem s ! i) \<noteq> 0
      then s\<lparr>shmem := (shmem s)[i := (shmem s ! i)\<lparr>markedForDeletion := True\<rparr>]\<rparr>
      else android_shmem_delete i s)"

text \<open>\<open>buf\<close> says whether the caller passed a buffer; the second component is what it receives.\<close>

definition shmctl :: "kernel \<Rightarrow> int \<Rightarrow> int \<Rightarrow> bool \<Rightarrow> shm \<Rightarrow> int \<times> shmid_ds option \<times> shm" where
  "shmctl e shmid cmd buf s =
     (if syscall_supported s \<noteq> 0 then (k_shmctl e shmid cmd, None, s)
      else
        let s0 = ashv_check_pid e s
        in if cmd = IPC_RMID then
             (0, None, case ashv_find_local_index shmid s0 of None \<Rightarrow> s0 | Some i \<Rightarrow> remove_segment i s0)
           else if cmd = IPC_STAT then
             (if \<not> buf then (-1, None, s0)
              else case ashv_find_local_index shmid s0 of
                None \<Rightarrow> (-1, None, s0)
              | Some i \<Rightarrow> (0, Some (segment_status e (shmem s0 ! i)), s0))
           else (-1, None, s0))"


section \<open>Indices\<close>

lemma find_from_SomeD:
  "find_from shmid xs = Some i \<Longrightarrow> i < length xs \<and> seg_id (xs ! i) = shmid"
  by (induction xs arbitrary: i) (auto split: if_splits)

lemma find_from_None: "find_from shmid xs = None \<longleftrightarrow> shmid \<notin> seg_id ` set xs"
  by (induction xs) auto

lemma find_from_append:
  "find_from shmid (xs @ ys) =
     (case find_from shmid xs of Some i \<Rightarrow> Some i | None \<Rightarrow> map_option (\<lambda>i. length xs + i) (find_from shmid ys))"
  by (induction xs; cases "find_from shmid ys") (auto split: option.splits)

lemma find_from_update:
  "i < length xs \<Longrightarrow> seg_id y = seg_id (xs ! i) \<Longrightarrow> find_from shmid (xs[i := y]) = find_from shmid xs"
  by (induction xs arbitrary: i) (auto split: nat.splits)

lemma find_addr_SomeD:
  "find_addr a xs = Some i \<Longrightarrow> i < length xs \<and> seg_addr (xs ! i) = a"
  by (induction xs arbitrary: i) (auto split: if_splits)

lemma find_addr_None: "find_addr a xs = None \<longleftrightarrow> a \<notin> seg_addr ` set xs"
  by (induction xs) auto

lemma find_addr_append:
  "find_addr a (xs @ ys) =
     (case find_addr a xs of Some i \<Rightarrow> Some i | None \<Rightarrow> map_option (\<lambda>i. length xs + i) (find_addr a ys))"
  by (induction xs; cases "find_addr a ys") (auto split: option.splits)

lemma drop_nth_append [simp]: "drop_nth (length xs) (xs @ y # ys) = xs @ ys"
  by (simp add: drop_nth_def)

lemma nth_split: "i < length xs \<Longrightarrow> \<exists>ys zs. xs = ys @ xs ! i # zs \<and> length ys = i"
  using id_take_nth_drop [of i xs] by (metis length_take min.absorb4)

section \<open>What the process owns\<close>

definition attached :: "shmem_t list \<Rightarrow> (int \<times> u64 \<times> int) list" where
  "attached xs = map (\<lambda>x. (seg_addr x, seg_size x, descriptor x)) (filter (\<lambda>x. seg_addr x \<noteq> 0) xs)"

text \<open>The open descriptors and the mappings are those of the segments, and beside them \<open>lf\<close> and \<open>lm\<close>.\<close>

definition shm_owns :: "int multiset \<Rightarrow> (int \<times> u64 \<times> int) multiset \<Rightarrow> shm \<Rightarrow> bool" where
  "shm_owns lf lm s \<longleftrightarrow>
     mset (fds s) = mset (map descriptor (shmem s)) + lf \<and> distinct (fds s) \<and> (\<forall>d \<in> set (fds s). 0 < d)
     \<and> mset (maps s) = mset (attached (shmem s)) + lm \<and> distinct (map fst (maps s)) \<and> (\<forall>m \<in># lm. fst m \<noteq> 0)
     \<and> (\<forall>x \<in> set (shmem s). markedForDeletion x \<longrightarrow> seg_addr x \<noteq> 0)"

text \<open>
  What the kernel promises: a new descriptor is positive and not in use, and a new mapping does
  not start at the address of another one.
\<close>

definition kernel_ok :: "kernel \<Rightarrow> shm \<Rightarrow> bool" where
  "kernel_ok e s \<longleftrightarrow>
     k_pid e \<noteq> 0
     \<and> (\<forall>ds. 0 \<le> k_region e ds \<longrightarrow> 0 < k_region e ds \<and> k_region e ds \<notin> set ds)
     \<and> k_mmap e \<notin> fst ` set (maps s)
     \<and> (\<forall>ds shmid k d sz. k_remote e ds shmid = Reply k d sz \<longrightarrow> 0 < d \<and> d \<notin> set ds)"

text \<open>The descriptors that arrive for an empty region, which \<open>ashv_read_remote_segment\<close> does not close.\<close>

definition empties :: "kernel \<Rightarrow> int set" where
  "empties e = {d. \<exists>ds i k sz. k_remote e ds i = Reply k d sz \<and> (sz = 0 \<or> sz = -1)}"

text \<open>The process is a child that still has the state of its parent.\<close>

definition forked :: "kernel \<Rightarrow> shm \<Rightarrow> bool" where
  "forked e s \<longleftrightarrow> ashv_pid_setup s \<noteq> 0 \<and> ashv_pid_setup s \<noteq> k_pid e"

definition shm_good :: "int set \<Rightarrow> (int \<times> u64 \<times> int) set \<Rightarrow> shm \<Rightarrow> bool" where
  "shm_good F M s \<longleftrightarrow> (\<exists>lf lm. shm_owns lf lm s \<and> set_mset lf \<subseteq> F \<and> set_mset lm \<subseteq> M)"

definition same_owned :: "shm \<Rightarrow> shm \<Rightarrow> bool" where
  "same_owned s t \<longleftrightarrow> shmem t = shmem s \<and> fds t = fds s \<and> maps t = maps s"

lemma same_owned_refl [simp]: "same_owned s s"
  by (simp add: same_owned_def)

lemma same_owned_owns: "same_owned s t \<Longrightarrow> shm_owns lf lm s \<Longrightarrow> shm_owns lf lm t"
  by (simp add: same_owned_def shm_owns_def)

lemma attached_simps [simp]:
  "attached [] = []"
  "attached (x # xs) = (if seg_addr x \<noteq> 0 then [(seg_addr x, seg_size x, descriptor x)] else []) @ attached xs"
  "attached (xs @ ys) = attached xs @ attached ys"
  by (auto simp: attached_def)

lemma owns_add:
  assumes "shm_owns lf lm s" "0 < descriptor x" "descriptor x \<notin> set (fds s)" "seg_addr x = 0" "\<not> markedForDeletion x"
  shows "shm_owns lf lm (s\<lparr>shmem := shmem s @ [x], fds := descriptor x # fds s\<rparr>)"
    "shm_owns lf lm (s\<lparr>fds := descriptor x # fds s, shmem := shmem s @ [x]\<rparr>)"
  using assms by (auto simp: shm_owns_def)

lemma owns_split:
  assumes "shmem s = xs @ x # ys"
  shows "shm_owns lf lm s \<longleftrightarrow>
     mset (fds s) = mset (map descriptor xs) + mset (map descriptor ys) + {#descriptor x#} + lf \<and> distinct (fds s)
     \<and> (\<forall>d \<in> set (fds s). 0 < d)
     \<and> mset (maps s) = mset (attached xs) + mset (attached ys)
          + (if seg_addr x \<noteq> 0 then {#(seg_addr x, seg_size x, descriptor x)#} else {#}) + lm \<and> distinct (map fst (maps s)) \<and> (\<forall>m \<in># lm. fst m \<noteq> 0)
     \<and> (\<forall>y \<in> set xs \<union> set ys. markedForDeletion y \<longrightarrow> seg_addr y \<noteq> 0)
     \<and> (markedForDeletion x \<longrightarrow> seg_addr x \<noteq> 0)"
  unfolding shm_owns_def by (auto simp: assms)

lemma owns_delete:
  assumes "shm_owns lf lm s" "i < length (shmem s)" "seg_addr (shmem s ! i) = 0"
  shows "shm_owns lf lm (android_shmem_delete i s)"
proof -
  define x where "x = shmem s ! i"
  obtain xs ys where s: "shmem s = xs @ x # ys" "length xs = i"
    using nth_split [OF assms(2)] by (auto simp: x_def)
  have d: "descriptor x \<in> set (fds s)"
    using assms(1) unfolding owns_split [OF s(1)] by (simp flip: set_mset_mset)
  then have p: "0 < descriptor x" using assms(1) by (auto simp: shm_owns_def)
  have del: "android_shmem_delete i s = s\<lparr>fds := remove1 (descriptor x) (fds s), shmem := xs @ ys\<rparr>"
    using p s by (auto simp: android_shmem_delete_def x_def [symmetric] Let_def)
  have "set (remove1 (descriptor x) (fds s)) \<subseteq> set (fds s)" by (rule set_remove1_subset)
  then show ?thesis
    using assms(1) assms(3) unfolding owns_split [OF s(1)] del x_def [symmetric]
    by (auto simp: shm_owns_def)
qed


lemma owns_detach:
  assumes "shm_owns lf lm s" "i < length (shmem s)"
  shows "shm_owns lf lm (detach_index i s)"
proof -
  define x where "x = shmem s ! i"
  define s1 where "s1 = s\<lparr>maps := remove1 (seg_addr x, seg_size x, descriptor x) (maps s), shmem := (shmem s)[i := x\<lparr>seg_addr := 0, markedForDeletion := False\<rparr>]\<rparr>"
  define s2 where "s2 = s\<lparr>maps := remove1 (seg_addr x, seg_size x, descriptor x) (maps s), shmem := (shmem s)[i := x\<lparr>seg_addr := 0\<rparr>]\<rparr>"
  obtain xs ys where s: "shmem s = xs @ x # ys" "length xs = i"
    using nth_split [OF assms(2)] by (auto simp: x_def)
  have z: "seg_addr x = 0 \<Longrightarrow> (0, seg_size x, descriptor x) \<notin> set (maps s)"
  proof
    assume "(0, seg_size x, descriptor x) \<in> set (maps s)"
    then have "(0, seg_size x, descriptor x) \<in># mset (attached (shmem s)) + lm"
      using assms(1) by (simp add: shm_owns_def flip: set_mset_mset)
    then show False using assms(1) by (auto simp: attached_def shm_owns_def)
  qed
  have sh: "shmem s1 = xs @ (x\<lparr>seg_addr := 0, markedForDeletion := False\<rparr>) # ys"
    using s by (auto simp: s1_def list_update_append)
  have f: "fds s1 = fds s" "maps s1 = remove1 (seg_addr x, seg_size x, descriptor x) (maps s)" by (simp_all add: s1_def)
  have m: "mset (maps s1) = mset (attached xs) + mset (attached ys) + lm"
    using assms(1) z unfolding owns_split [OF s(1)] f
    by (cases "seg_addr x = 0") (simp_all add: remove1_idem flip: set_mset_mset)
  have "distinct (map fst (maps s1))"
    unfolding f using assms(1) by (auto simp: shm_owns_def distinct_map intro: inj_on_subset dest: set_remove1_subset [THEN subsetD])
  then have o1: "shm_owns lf lm s1"
    using assms(1) m unfolding owns_split [OF s(1)] owns_split [OF sh] f(1) by auto
  have del: "android_shmem_delete i s2 = android_shmem_delete i s1"
    using assms(2) by (auto simp: s1_def s2_def android_shmem_delete_def drop_nth_def Let_def)
  have st: "detach_index i s = (if markedForDeletion x \<or> ashv_socket_id_from_shmid (seg_id x) \<noteq> ashv_local_socket_id s
      then android_shmem_delete i s2 else s2)"
    by (simp add: detach_index_def x_def [symmetric] s2_def Let_def)
  show ?thesis
  proof (cases "markedForDeletion x \<or> ashv_socket_id_from_shmid (seg_id x) \<noteq> ashv_local_socket_id s")
    case True
    have "i < length (shmem s1)" "seg_addr (shmem s1 ! i) = 0" using sh s by auto
    then show ?thesis using True st del owns_delete [OF o1] by simp
  next
    case False
    then have "s2 = s1" by (cases x) (simp add: s1_def s2_def)
    then show ?thesis using False st o1 by simp
  qed
qed

lemma owns_attach:
  assumes "shm_owns lf lm s" "i < length (shmem s)" "k_mmap e \<notin> fst ` set (maps s)"
  shows "shm_owns lf lm (snd (attach_index e i s))"
proof (cases "seg_addr (shmem s ! i) = 0 \<and> k_mmap e \<noteq> 0")
  case True
  define x where "x = shmem s ! i"
  obtain xs ys where s: "shmem s = xs @ x # ys" "length xs = i"
    using nth_split [OF assms(2)] by (auto simp: x_def)
  define s1 where "s1 = s\<lparr>shmem := (shmem s)[i := x\<lparr>seg_addr := k_mmap e\<rparr>], maps := (k_mmap e, seg_size x, descriptor x) # maps s\<rparr>"
  have sh: "shmem s1 = xs @ (x\<lparr>seg_addr := k_mmap e\<rparr>) # ys"
    using s by (auto simp: s1_def list_update_append)
  have f: "fds s1 = fds s" "maps s1 = (k_mmap e, seg_size x, descriptor x) # maps s" by (simp_all add: s1_def)
  have "shm_owns lf lm s1"
    using assms(1,3) True unfolding owns_split [OF sh] owns_split [OF s(1)] f x_def [symmetric] by auto
  moreover have "snd (attach_index e i s) = s1"
    using True by (simp add: attach_index_def x_def [symmetric] s1_def Let_def)
  ultimately show ?thesis by simp
next
  case False
  then show ?thesis using assms(1) by (auto simp: attach_index_def Let_def)
qed

lemma owns_remove:
  assumes "shm_owns lf lm s" "i < length (shmem s)"
  shows "shm_owns lf lm (remove_segment i s)"
proof (cases "seg_addr (shmem s ! i) = 0")
  case True
  then show ?thesis using owns_delete [OF assms True] by (simp add: remove_segment_def)
next
  case False
  define x where "x = shmem s ! i"
  obtain xs ys where s: "shmem s = xs @ x # ys" "length xs = i"
    using nth_split [OF assms(2)] by (auto simp: x_def)
  define s1 where "s1 = s\<lparr>shmem := (shmem s)[i := x\<lparr>markedForDeletion := True\<rparr>]\<rparr>"
  have sh: "shmem s1 = xs @ (x\<lparr>markedForDeletion := True\<rparr>) # ys"
    using s by (auto simp: s1_def list_update_append)
  have f: "fds s1 = fds s" "maps s1 = maps s" by (simp_all add: s1_def)
  have "shm_owns lf lm s1"
    using assms(1) False unfolding owns_split [OF sh] owns_split [OF s(1)] f x_def [symmetric] by auto
  moreover have "remove_segment i s = s1"
    using False by (simp add: remove_segment_def x_def [symmetric] s1_def)
  ultimately show ?thesis by simp
qed

lemma check_pid_same [simp]: "\<not> forked e s \<Longrightarrow> ashv_check_pid e s = s\<lparr>ashv_pid_setup := k_pid e\<rparr>"
  by (auto simp: ashv_check_pid_def forked_def)

lemma kernel_ok_maps: "maps t = maps s \<Longrightarrow> kernel_ok e t = kernel_ok e s"
  by (simp add: kernel_ok_def)

lemma shm_good_mono: "shm_good F M s \<Longrightarrow> F \<subseteq> F' \<Longrightarrow> M \<subseteq> M' \<Longrightarrow> shm_good F' M' s"
  unfolding shm_good_def by blast

lemma shm_good_same: "same_owned s t \<Longrightarrow> shm_good F M t = shm_good F M s"
  by (simp add: shm_good_def shm_owns_def same_owned_def)

lemma shm_goodD:
  "shm_good F M s \<Longrightarrow> i < length (shmem s) \<Longrightarrow> shm_good F M (detach_index i s)"
  "shm_good F M s \<Longrightarrow> i < length (shmem s) \<Longrightarrow> shm_good F M (remove_segment i s)"
  "shm_good F M s \<Longrightarrow> i < length (shmem s) \<Longrightarrow> k_mmap e \<notin> fst ` set (maps s) \<Longrightarrow> shm_good F M (snd (attach_index e i s))"
  unfolding shm_good_def by (blast intro: owns_detach owns_remove owns_attach)+

text \<open>A child forgets the segments of its parent, but keeps the descriptors and mappings.\<close>

lemma check_pid_good:
  assumes "shm_good F M s" "F' = F \<union> (if forked e s then set (fds s) else {})" "M' = M \<union> (if forked e s then set (maps s) else {})"
  shows "shm_good F' M' (ashv_check_pid e s)" "maps (ashv_check_pid e s) = maps s"
proof -
  show "maps (ashv_check_pid e s) = maps s" by (simp add: ashv_check_pid_def)
  show "shm_good F' M' (ashv_check_pid e s)"
  proof (cases "forked e s")
    case True
    obtain lf lm where o: "shm_owns lf lm s" using assms(1) by (auto simp: shm_good_def)
    have "\<forall>m \<in> set (maps s). fst m \<noteq> 0"
    proof
      fix m assume "m \<in> set (maps s)"
      then have "m \<in># mset (attached (shmem s)) + lm" using o by (simp add: shm_owns_def flip: set_mset_mset)
      then show "fst m \<noteq> 0" using o by (auto simp: shm_owns_def attached_def)
    qed
    moreover have "distinct (fds s)" "\<forall>d \<in> set (fds s). 0 < d" "distinct (map fst (maps s))"
      using o by (simp_all add: shm_owns_def)
    ultimately have "shm_owns (mset (fds s)) (mset (maps s)) (ashv_check_pid e s)"
      using True by (simp add: ashv_check_pid_def forked_def shm_owns_def)
    then show ?thesis using True assms(2,3) unfolding shm_good_def
      by (intro exI [of _ "mset (fds s)"] exI [of _ "mset (maps s)"]) simp
  next
    case False
    then have "same_owned s (ashv_check_pid e s)" by (simp add: same_owned_def)
    then show ?thesis using False assms shm_good_same by simp
  qed
qed

lemma good_add:
  assumes "shm_good F M s" "0 < descriptor x" "descriptor x \<notin> set (fds s)" "seg_addr x = 0" "\<not> markedForDeletion x"
  shows "shm_good F M (s\<lparr>shmem := shmem s @ [x], fds := descriptor x # fds s\<rparr>)"
    "shm_good F M (s\<lparr>fds := descriptor x # fds s, shmem := shmem s @ [x]\<rparr>)"
  using assms owns_add [OF _ assms(2-5)] unfolding shm_good_def by blast+

lemma good_leak:
  assumes "shm_good F M s" "0 < d" "d \<notin> set (fds s)" "d \<in> F"
  shows "shm_good F M (s\<lparr>fds := d # fds s\<rparr>)"
proof -
  obtain lf lm where o: "shm_owns lf lm s" "set_mset lf \<subseteq> F" "set_mset lm \<subseteq> M" using assms(1) by (auto simp: shm_good_def)
  then have "shm_owns (add_mset d lf) lm (s\<lparr>fds := d # fds s\<rparr>)" using assms(2,3) by (simp add: shm_owns_def)
  then show ?thesis using o assms(4) unfolding shm_good_def by (intro exI [of _ "add_mset d lf"] exI [of _ lm]) auto
qed

lemma read_remote_good:
  assumes "ashv_read_remote_segment e held shmid s = Some (idx, s')" "shm_good F M s" "kernel_ok e s" "empties e \<subseteq> F"
  shows "shm_good F M s' \<and> maps s' = maps s \<and> links s' = links s
    \<and> (case idx of None \<Rightarrow> True | Some i \<Rightarrow> i < length (shmem s') \<and> seg_id (shmem s' ! i) = shmid)"
proof (cases "k_remote e (fds s) shmid")
  case (Reply k d sz)
  then have d: "0 < d" "d \<notin> set (fds s)" using assms(3) unfolding kernel_ok_def by blast+
  have "d \<in> F" if "sz = 0 \<or> sz = -1" using that Reply assms(4) unfolding empties_def by blast
  then show ?thesis
    using assms(1) Reply d good_leak [OF assms(2) d]
      good_add [OF assms(2), of "\<lparr>seg_id = shmid, seg_addr = 0, descriptor = d,
      seg_size = word_of_int sz, markedForDeletion = False, seg_key = k\<rparr>"]
    by (auto simp: ashv_read_remote_segment_def Let_def split: if_splits)
qed (use assms in \<open>auto simp: ashv_read_remote_segment_def Let_def split: if_splits\<close>)

lemma take_shmid_same:
  "take_shmid i s = (j, t) \<Longrightarrow> same_owned s t \<and> links t = links s"
  by (auto simp: take_shmid_def same_owned_def Let_def split: if_splits)

lemma find_local_SomeD:
  "ashv_find_local_index shmid s = Some i \<Longrightarrow> i < length (shmem s) \<and> seg_id (shmem s ! i) = shmid"
  unfolding ashv_find_local_index_def by (rule find_from_SomeD)

lemma follow_link_good:
  assumes "follow_link e k s = Some (found, s')" "shm_good F M s" "kernel_ok e s" "empties e \<subseteq> F"
  shows "shm_good F M s' \<and> maps s' = maps s"
proof (cases "links s k")
  case None
  then show ?thesis using assms by (simp add: follow_link_def)
next
  case (Some t)
  obtain idx s1 where i: "(if t \<noteq> 0 then (case ashv_find_local_index t s of Some i \<Rightarrow> Some (Some i, s)
        | None \<Rightarrow> ashv_read_remote_segment e True t s) else Some (None, s)) = Some (idx, s1)"
    and r: "(found, s') = (case idx of Some i \<Rightarrow> (Some (seg_id (shmem s1 ! i)), s1)
             | None \<Rightarrow> (None, if k_tmp_writable e then s1\<lparr>links := (links s1)(k := None)\<rparr> else s1))"
    using assms(1) Some by (auto simp: follow_link_def split: bind_splits if_splits option.splits)
  have "shm_good F M s1 \<and> maps s1 = maps s"
  proof (cases "t \<noteq> 0 \<and> ashv_find_local_index t s = None")
    case True
    then have "ashv_read_remote_segment e True t s = Some (idx, s1)" using i by simp
    from read_remote_good [OF this assms(2-4)] show ?thesis by blast
  next
    case False
    then have "s1 = s" using i by (cases "ashv_find_local_index t s") (auto split: if_splits)
    then show ?thesis using assms(2) by simp
  qed
  moreover have "same_owned s1 s'" using r by (auto simp: same_owned_def split: option.splits)
  ultimately show ?thesis using shm_good_same [of s1 s' F M] by (simp add: same_owned_def)
qed

lemma own_key_good:
  assumes "empties e \<subseteq> F"
  shows "own_key e k fuel n i s = Some (r, s') \<Longrightarrow> shm_good F M s \<Longrightarrow> kernel_ok e s \<Longrightarrow> shm_good F M s' \<and> maps s' = maps s"
proof (induction fuel arbitrary: n i s)
  case (Suc fuel)
  obtain found s1 where f: "follow_link e k s = Some (found, s1)"
    using Suc.prems(1) by (auto split: bind_splits)
  note o = follow_link_good [OF f Suc.prems(2,3) assms]
  show ?case
  proof (cases found)
    case (Some j)
    then show ?thesis using Suc.prems(1) f o by auto
  next
    case None
    obtain j s2 where t: "take_shmid i s1 = (j, s2)" by fastforce
    define s3 where "s3 = (case k_rival e n of None \<Rightarrow> s2
        | Some r \<Rightarrow> if links s2 k = None then s2\<lparr>links := (links s2)(k \<mapsto> r)\<rparr> else s2)"
    have "same_owned s1 s3"
      using take_shmid_same [OF t] unfolding s3_def by (auto simp: same_owned_def split: option.splits)
    then have s3: "shm_good F M s3" "maps s3 = maps s" "kernel_ok e s3"
      using o shm_good_same [of s1 s3 F M] Suc.prems(3) kernel_ok_maps [of s3 s e] by (simp_all add: same_owned_def)
    have "(if links s3 k = None \<and> k_tmp_writable e then Some (Inr j, s3\<lparr>links := (links s3)(k \<mapsto> j)\<rparr>)
           else own_key e k fuel (Suc n) j s3) = Some (r, s')"
      using Suc.prems(1) f None t by (simp add: s3_def [symmetric])
    then show ?thesis
      using Suc.IH [of "Suc n" j s3] s3 shm_good_same [of s3 "s3\<lparr>links := (links s3)(k \<mapsto> j)\<rparr>" F M]
      by (auto simp: same_owned_def split: if_splits)
  qed
qed simp

lemma start_listening_same: "start_listening e s = (ok, t) \<Longrightarrow> same_owned s t"
  by (auto simp: start_listening_def same_owned_def Let_def split: if_splits option.splits)

lemma create_segment_good:
  assumes "create_segment e k sz i s = (r, s')" "shm_good F M s" "kernel_ok e s"
  shows "shm_good F M s'"
proof -
  obtain j s1 where t: "take_shmid i s = (j, s1)" by fastforce
  have o: "shm_good F M s1" using take_shmid_same [OF t] assms(2) shm_good_same by blast
  define x where "x = \<lparr>seg_id = j, seg_addr = 0, descriptor = k_region e (fds s1),
                  seg_size = ROUND_UP sz (k_page e), markedForDeletion = False, seg_key = k\<rparr>"
  have "s' = (if k_region e (fds s1) < 0 then s1 else s1\<lparr>shmem := shmem s1 @ [x], fds := descriptor x # fds s1\<rparr>)"
    using assms(1) t by (auto simp: create_segment_def x_def split: if_splits)
  moreover have "0 < descriptor x \<and> descriptor x \<notin> set (fds s1)" if "\<not> k_region e (fds s1) < 0"
    using that assms(3) unfolding kernel_ok_def x_def by simp
  ultimately show ?thesis
    using good_add(1) [OF o, of x] o by (auto simp: x_def)
qed

text \<open>
  A call may leave descriptors of empty regions behind, and in a child those of the parent.
\<close>

definition left_fds :: "kernel \<Rightarrow> shm \<Rightarrow> int set" where
  "left_fds e s = empties e \<union> (if forked e s then set (fds s) else {})"

definition left_maps :: "kernel \<Rightarrow> shm \<Rightarrow> (int \<times> u64 \<times> int) set" where
  "left_maps e s = (if forked e s then set (maps s) else {})"

lemma checked_good:
  assumes "shm_good F M s" "kernel_ok e s"
  shows "shm_good (F \<union> left_fds e s) (M \<union> left_maps e s) (ashv_check_pid e s)" "kernel_ok e (ashv_check_pid e s)"
proof -
  have "shm_good (F \<union> empties e) M s" using shm_good_mono [OF assms(1)] by blast
  from check_pid_good [OF this refl refl, of e]
  show "shm_good (F \<union> left_fds e s) (M \<union> left_maps e s) (ashv_check_pid e s)" "kernel_ok e (ashv_check_pid e s)"
    using assms(2) kernel_ok_maps [of "ashv_check_pid e s" s e] by (simp_all add: left_fds_def left_maps_def Un_assoc)
qed

lemma supported_good: "shm_good F M s \<Longrightarrow> shm_good (F \<union> A) (M \<union> B) s"
  by (erule shm_good_mono) auto

lemma shmget_good:
  assumes "shmget e fuel k sz fl s = Some (r, s')" "shm_good F M s" "kernel_ok e s"
  shows "shm_good (F \<union> left_fds e s) (M \<union> left_maps e s) s'"
proof (cases "syscall_supported s \<noteq> 0")
  case False
  let ?F = "F \<union> left_fds e s" and ?M = "M \<union> left_maps e s"
  have E: "empties e \<subseteq> ?F" by (auto simp: left_fds_def)
  obtain ok s1 where st: "start_listening e (ashv_check_pid e s) = (ok, s1)" by fastforce
  have o1: "shm_good ?F ?M s1" "kernel_ok e s1"
    using checked_good [OF assms(2,3)] start_listening_same [OF st] shm_good_same kernel_ok_maps
    unfolding same_owned_def by metis+
  show ?thesis
  proof (cases ok)
    case False
    then show ?thesis using assms(1) st o1 \<open>\<not> syscall_supported s \<noteq> 0\<close> by (simp add: shmget_def)
  next
    case True
    obtain ow s2 where ow: "(if k \<noteq> IPC_PRIVATE then own_key e k fuel 0 (-1) s1 else Some (Inr (-1), s1)) = Some (ow, s2)"
      and r: "(r, s') = (case ow of Inl shmid \<Rightarrow> (shmid, s2) | Inr shmid \<Rightarrow> create_segment e k sz shmid s2)"
      using assms(1) st True \<open>\<not> syscall_supported s \<noteq> 0\<close>
      by (auto simp: shmget_def split: bind_splits)
    have o2: "shm_good ?F ?M s2" "kernel_ok e s2"
      using ow own_key_good [OF E, of k fuel 0 "-1" s1 ow s2 ?M] o1 kernel_ok_maps [of s2 s1 e]
      by (auto split: if_splits)
    show ?thesis
    proof (cases ow)
      case (Inr j)
      then show ?thesis using r create_segment_good [OF _ o2] by (metis sum.simps(6))
    qed (use r o2 in simp)
  qed
qed (use assms supported_good in \<open>auto simp: shmget_def\<close>)

lemma shmat_good:
  assumes "shmat e shmid a fl s = Some (r, s')" "shm_good F M s" "kernel_ok e s"
  shows "shm_good (F \<union> left_fds e s) (M \<union> left_maps e s) s'"
proof (cases "syscall_supported s \<noteq> 0")
  case False
  let ?F = "F \<union> left_fds e s" and ?M = "M \<union> left_maps e s"
  have E: "empties e \<subseteq> ?F" by (auto simp: left_fds_def)
  define s0 where "s0 = ashv_check_pid e s"
  have o0: "shm_good ?F ?M s0" "kernel_ok e s0" using checked_good [OF assms(2,3)] by (simp_all add: s0_def)
  obtain idx s1 where i: "(case ashv_find_local_index shmid s0 of Some i \<Rightarrow> Some (Some i, s0)
            | None \<Rightarrow> if ashv_socket_id_from_shmid shmid \<noteq> ashv_local_socket_id s0
                      then ashv_read_remote_segment e True shmid s0 else Some (None, s0)) = Some (idx, s1)"
    and r: "(r, s') = (case idx of None \<Rightarrow> (-1, s1) | Some i \<Rightarrow> attach_index e i s1)"
    using assms(1) False by (auto simp: shmat_def s0_def [symmetric] split: bind_splits)
  have o1: "shm_good ?F ?M s1 \<and> maps s1 = maps s0 \<and> (case idx of None \<Rightarrow> True | Some i \<Rightarrow> i < length (shmem s1))"
  proof (cases "ashv_find_local_index shmid s0 = None \<and> ashv_socket_id_from_shmid shmid \<noteq> ashv_local_socket_id s0")
    case True
    then have "ashv_read_remote_segment e True shmid s0 = Some (idx, s1)" using i by simp
    from read_remote_good [OF this o0 E] show ?thesis by (auto split: option.splits)
  next
    case False
    then have "s1 = s0 \<and> idx = ashv_find_local_index shmid s0"
      using i by (cases "ashv_find_local_index shmid s0") auto
    then show ?thesis using o0(1) find_local_SomeD [of shmid s0] by (auto split: option.splits)
  qed
  have "k_mmap e \<notin> fst ` set (maps s1)" using o0(2) o1 by (simp add: kernel_ok_def)
  then show ?thesis
    using r o1 shm_goodD(3) [of ?F ?M s1 _ e] by (cases idx) (auto, metis snd_conv)
qed (use assms supported_good in \<open>auto simp: shmat_def\<close>)

lemma shmdt_good:
  assumes "shmdt e a s = (r, s')" "shm_good F M s" "kernel_ok e s"
  shows "shm_good (F \<union> left_fds e s) (M \<union> left_maps e s) s'"
  using assms(1) checked_good [OF assms(2,3)] supported_good [OF assms(2), of "left_fds e s" "left_maps e s"]
  by (auto simp: shmdt_def Let_def split: if_splits option.splits intro!: shm_goodD(1) dest: find_addr_SomeD)

lemma shmctl_good:
  assumes "shmctl e i c b s = (r, d, s')" "shm_good F M s" "kernel_ok e s"
  shows "shm_good (F \<union> left_fds e s) (M \<union> left_maps e s) s'"
  using assms(1) checked_good [OF assms(2,3)] supported_good [OF assms(2), of "left_fds e s" "left_maps e s"]
  by (auto simp: shmctl_def Let_def split: if_splits option.splits intro!: shm_goodD(2) dest: find_local_SomeD)


text \<open>
  The states a process reaches from the zero initialised statics by its own calls and by forks (a
  call with another process id), with any support for the system calls and any links; other
  processes change links in between. \<open>F\<close> and \<open>M\<close> collect the descriptors and mappings that the
  calls may have left behind.
\<close>

inductive shm_reach :: "int set \<Rightarrow> (int \<times> u64 \<times> int) set \<Rightarrow> shm \<Rightarrow> bool" where
  start: "shm_reach {} {} \<lparr>shmem = [], syscall_supported = sys, ashv_local_socket_id = 0, ashv_pid_setup = 0,
            ashv_listening_thread = False, shmem_counter = 0, fds = [], sockets = [], maps = [], links = ls\<rparr>"
| get: "shm_reach F M s \<Longrightarrow> kernel_ok e s \<Longrightarrow> shmget e fuel k sz fl s = Some (r, s') \<Longrightarrow>
     shm_reach (F \<union> left_fds e s) (M \<union> left_maps e s) s'"
| attach: "shm_reach F M s \<Longrightarrow> kernel_ok e s \<Longrightarrow> shmat e i a fl s = Some (r, s') \<Longrightarrow>
     shm_reach (F \<union> left_fds e s) (M \<union> left_maps e s) s'"
| detach: "shm_reach F M s \<Longrightarrow> kernel_ok e s \<Longrightarrow> shmdt e a s = (r, s') \<Longrightarrow>
     shm_reach (F \<union> left_fds e s) (M \<union> left_maps e s) s'"
| control: "shm_reach F M s \<Longrightarrow> kernel_ok e s \<Longrightarrow> shmctl e i c b s = (r, d, s') \<Longrightarrow>
     shm_reach (F \<union> left_fds e s) (M \<union> left_maps e s) s'"
| others: "shm_reach F M s \<Longrightarrow> shm_reach F M (s\<lparr>links := ls\<rparr>)"

lemma shm_reach_good: "shm_reach F M s \<Longrightarrow> shm_good F M s"
proof (induction rule: shm_reach.induct)
  case start
  then show ?case by (simp add: shm_good_def shm_owns_def)
next
  case (others F M s ls)
  then show ?case using shm_good_same [of s "s\<lparr>links := ls\<rparr>"] by (simp add: same_owned_def)
qed (blast intro: shmget_good shmat_good shmdt_good shmctl_good)+

section \<open>Identifiers and sizes\<close>

lemma next_counter: "(c + 1) AND 0x7fff = (c + 1) mod (2 ^ 15 :: nat)"
  using take_bit_eq_mask [of 15 "c + 1"] by (simp add: take_bit_eq_mod mask_eq_exp_minus_1)

lemma shmid_low:
  assumes "0 \<le> ashv_local_socket_id s" "ashv_local_socket_id s < 0x8000" "c < 0x8000"
  shows "ashv_shmid_from_counter c s = ashv_local_socket_id s * 0x10000 + int c"
    and "ashv_socket_id_from_shmid (ashv_shmid_from_counter c s) = ashv_local_socket_id s"
proof -
  show *: "ashv_shmid_from_counter c s = ashv_local_socket_id s * 0x10000 + int c"
    unfolding ashv_shmid_from_counter_def using assms by (intro signed_take_bit_int_eq_self) auto
  show "ashv_socket_id_from_shmid (ashv_shmid_from_counter c s) = ashv_local_socket_id s"
    unfolding * ashv_socket_id_from_shmid_def using assms by (auto simp: signed_divide_int_def sgn_if)
qed

lemma shmid_high:
  assumes "0x8000 \<le> ashv_local_socket_id s" "ashv_local_socket_id s < 0x10000" "c < 0x8000"
  shows "ashv_shmid_from_counter c s < 0"
    and "ashv_socket_id_from_shmid (ashv_shmid_from_counter c s) \<le> 0"
proof -
  have "signed_take_bit 31 (ashv_local_socket_id s * 0x10000 + int c)
      = signed_take_bit 31 (ashv_local_socket_id s * 0x10000 + int c - 2 ^ 32)"
    by (subst signed_take_bit_eq_iff_take_bit_eq) (simp add: take_bit_eq_mod)
  also have "\<dots> = ashv_local_socket_id s * 0x10000 + int c - 2 ^ 32"
    using assms by (intro signed_take_bit_int_eq_self) auto
  finally show l: "ashv_shmid_from_counter c s < 0"
    unfolding ashv_shmid_from_counter_def using assms by simp
  then show "ashv_socket_id_from_shmid (ashv_shmid_from_counter c s) \<le> 0"
    unfolding ashv_socket_id_from_shmid_def by (simp add: signed_divide_int_def sgn_if)
qed

lemma round_up_bounds:
  assumes "0 < p" "unat n + unat p \<le> 2 ^ 64"
  shows "unat n \<le> unat (ROUND_UP n p)" "unat (ROUND_UP n p) < unat n + unat p" "unat p dvd unat (ROUND_UP n p)"
proof -
  have p: "0 < unat p" using assms(1) by (simp add: word_less_nat_alt)
  define q where "q = (unat n + unat p - 1) div unat p"
  have q: "q * unat p \<le> unat n + unat p - 1" "unat n + unat p - 1 < q * unat p + unat p"
    using p dividend_less_div_times [of "unat p" "unat n + unat p - 1"] unfolding q_def by auto
  have e: "n + p - 1 = word_of_nat (unat n + unat p - 1)"
    using p by (simp add: of_nat_diff)
  have "unat (n + p - 1) = unat n + unat p - 1"
    unfolding e by (rule unat_of_nat_u64) (use assms(2) p in linarith)
  then have u: "unat ((n + p - 1) div p) = q" by (simp add: unat_div q_def)
  have "ROUND_UP n p = word_of_nat (unat ((n + p - 1) div p) * unat p)"
    unfolding ROUND_UP_def by simp
  then have e2: "ROUND_UP n p = word_of_nat (q * unat p)" by (simp only: u)
  have r: "unat (ROUND_UP n p) = q * unat p"
    unfolding e2 by (rule unat_of_nat_u64) (use q assms(2) p in linarith)
  show "unat n \<le> unat (ROUND_UP n p)" "unat (ROUND_UP n p) < unat n + unat p" "unat p dvd unat (ROUND_UP n p)"
    using q p unfolding r by auto
qed

lemma round_up_overflow:
  assumes "n = 0xffffffffffffffff"
  shows "ROUND_UP n 0x1000 = 0"
  using assms by (simp add: ROUND_UP_def)


section \<open>Whole calls\<close>

text \<open>A process that has its listening socket, with the kernel keeping its promises.\<close>

definition serving :: "kernel \<Rightarrow> shm \<Rightarrow> bool" where
  "serving e s \<longleftrightarrow> syscall_supported s = 0 \<and> ashv_listening_thread s \<and> kernel_ok e s \<and> \<not> forked e s
     \<and> 0 \<le> ashv_local_socket_id s \<and> ashv_local_socket_id s < 0x10000"

definition next_shmid :: "shm \<Rightarrow> int" where
  "next_shmid s = ashv_shmid_from_counter ((shmem_counter s + 1) mod 2 ^ 15) s"

definition fresh_segment :: "kernel \<Rightarrow> int \<Rightarrow> int \<Rightarrow> u64 \<Rightarrow> int \<Rightarrow> shmem_t" where
  "fresh_segment e d k sz i = \<lparr>seg_id = i, seg_addr = 0, descriptor = d,
     seg_size = ROUND_UP sz (k_page e), markedForDeletion = False, seg_key = k\<rparr>"

definition with_segment :: "kernel \<Rightarrow> int \<Rightarrow> u64 \<Rightarrow> int \<Rightarrow> shm \<Rightarrow> shm" where
  "with_segment e k sz i s = s\<lparr>ashv_pid_setup := k_pid e, shmem_counter := (shmem_counter s + 1) mod 2 ^ 15,
     shmem := shmem s @ [fresh_segment e (k_region e (fds s)) k sz i], fds := k_region e (fds s) # fds s\<rparr>"

lemma take_shmid_new: "take_shmid (-1) s = (next_shmid s, s\<lparr>shmem_counter := (shmem_counter s + 1) mod 2 ^ 15\<rparr>)"
  unfolding take_shmid_def next_shmid_def next_counter by (simp add: Let_def ashv_shmid_from_counter_def)

lemma start_listening_done [simp]: "ashv_listening_thread s \<Longrightarrow> start_listening e s = (True, s)"
  by (simp add: start_listening_def)

lemma next_shmid_pid [simp]: "next_shmid (s\<lparr>ashv_pid_setup := p\<rparr>) = next_shmid s"
  by (simp add: next_shmid_def ashv_shmid_from_counter_def)

lemma shmid_not_minus1:
  assumes "c < 0x8000" shows "ashv_shmid_from_counter c s \<noteq> -1"
proof
  assume "ashv_shmid_from_counter c s = -1"
  then have "take_bit 16 (ashv_shmid_from_counter c s) = take_bit 16 (-1 :: int)" by simp
  moreover have "take_bit 16 (ashv_shmid_from_counter c s) = take_bit 16 (ashv_local_socket_id s * 0x10000 + int c)"
    unfolding ashv_shmid_from_counter_def by (rule take_bit_signed_take_bit) simp
  moreover have "take_bit 16 (ashv_local_socket_id s * 0x10000 + int c) = int c"
    using assms by (simp add: take_bit_eq_mod)
  ultimately show False using assms by (simp add: take_bit_minus_one_eq_mask mask_eq_exp_minus_1)
qed

lemma next_shmid_not_minus1 [simp]: "next_shmid s \<noteq> -1"
  unfolding next_shmid_def by (rule shmid_not_minus1) simp

lemma shmget_private:
  assumes "serving e s" "0 \<le> k_region e (fds s)"
  shows "shmget e fuel IPC_PRIVATE sz fl s = Some (next_shmid s, with_segment e IPC_PRIVATE sz (next_shmid s) s)"
  using assms
  by (simp add: serving_def shmget_def create_segment_def take_shmid_new with_segment_def fresh_segment_def)

lemma shmget_new_key:
  assumes "serving e s" "0 \<le> k_region e (fds s)" "k \<noteq> IPC_PRIVATE" "links s k = None" "k_rival e 0 = None" "k_tmp_writable e"
  shows "shmget e (Suc fuel) k sz fl s =
    Some (next_shmid s, with_segment e k sz (next_shmid s) (s\<lparr>links := (links s)(k \<mapsto> next_shmid s)\<rparr>))"
proof -
  define s1 where "s1 = s\<lparr>ashv_pid_setup := k_pid e\<rparr>"
  have "own_key e k (Suc fuel) 0 (-1) s1 = Some (Inr (next_shmid s), s1\<lparr>shmem_counter := (shmem_counter s + 1) mod 2 ^ 15,
      links := (links s)(k \<mapsto> next_shmid s)\<rparr>)"
    using assms take_shmid_new [of s1] by (simp add: follow_link_def s1_def)
  moreover have "start_listening e s1 = (True, s1)" using assms by (simp add: s1_def serving_def)
  ultimately show ?thesis
    using assms by (simp add: serving_def shmget_def s1_def [symmetric] del: own_key.simps)
      (simp add: create_segment_def take_shmid_def with_segment_def fresh_segment_def s1_def)
qed

lemma find_with_segment:
  assumes "i \<notin> seg_id ` set (shmem s)"
  shows "ashv_find_local_index i (with_segment e k sz i s) = Some (length (shmem s))"
  using assms find_from_None [of i "shmem s"]
  by (simp add: ashv_find_local_index_def with_segment_def find_from_append fresh_segment_def)

lemma serving_with_segment:
  assumes "serving e s" "k_pid e' = k_pid e" "kernel_ok e' (with_segment e k sz i s)"
  shows "serving e' (with_segment e k sz i s)"
  using assms by (simp add: serving_def with_segment_def forked_def)


text \<open>A segment that is attached, marked and detached again.\<close>

definition with_mapping :: "kernel \<Rightarrow> int \<Rightarrow> u64 \<Rightarrow> int \<Rightarrow> bool \<Rightarrow> shm \<Rightarrow> shm" where
  "with_mapping e k sz i b s = s\<lparr>ashv_pid_setup := k_pid e, shmem_counter := (shmem_counter s + 1) mod 2 ^ 15,
     shmem := shmem s @ [(fresh_segment e (k_region e (fds s)) k sz i)\<lparr>seg_addr := k_mmap e, markedForDeletion := b\<rparr>],
     fds := k_region e (fds s) # fds s, maps := (k_mmap e, ROUND_UP sz (k_page e), k_region e (fds s)) # maps s\<rparr>"

lemma serving_check_pid [simp]:
  "serving e s \<Longrightarrow> ashv_check_pid e (with_segment e k sz i s) = with_segment e k sz i s"
  "serving e s \<Longrightarrow> ashv_check_pid e (with_mapping e k sz i b s) = with_mapping e k sz i b s"
  by (auto simp: ashv_check_pid_def with_segment_def with_mapping_def serving_def kernel_ok_def)

lemma shmat_with_segment:
  assumes "serving e s" "k_mmap e \<noteq> 0" "i \<notin> seg_id ` set (shmem s)"
  shows "shmat e i a fl (with_segment e k sz i s) = Some (k_mmap e, with_mapping e k sz i False s)"
proof -
  have "attach_index e (length (shmem s)) (with_segment e k sz i s) = (k_mmap e, with_mapping e k sz i False s)"
    using assms(2) by (simp add: attach_index_def with_segment_def with_mapping_def fresh_segment_def Let_def list_update_append)
  then show ?thesis
    using assms(1) by (simp add: shmat_def find_with_segment [OF assms(3)])
      (simp add: serving_def with_segment_def)
qed

lemma find_with_mapping:
  assumes "i \<notin> seg_id ` set (shmem s)"
  shows "ashv_find_local_index i (with_mapping e k sz i b s) = Some (length (shmem s))"
  using assms find_from_None [of i "shmem s"]
  by (simp add: ashv_find_local_index_def with_mapping_def find_from_append fresh_segment_def)

lemma rmid_with_mapping:
  assumes "serving e s" "k_mmap e \<noteq> 0" "i \<notin> seg_id ` set (shmem s)"
  shows "shmctl e i IPC_RMID b (with_mapping e k sz i False s) = (0, None, with_mapping e k sz i True s)"
proof -
  have "remove_segment (length (shmem s)) (with_mapping e k sz i False s) = with_mapping e k sz i True s"
    using assms(2) by (simp add: remove_segment_def with_mapping_def fresh_segment_def list_update_append)
  then show ?thesis
    using assms(1) by (simp add: shmctl_def find_with_mapping [OF assms(3)])
      (simp add: serving_def with_mapping_def)
qed

lemma stat_with_mapping:
  assumes "serving e s" "i \<notin> seg_id ` set (shmem s)"
  shows "shmctl e i IPC_STAT True (with_mapping e k sz i b s) =
    (0, Some (segment_status e (fresh_segment e (k_region e (fds s)) k sz i)), with_mapping e k sz i b s)"
proof -
  have "segment_status e (shmem (with_mapping e k sz i b s) ! length (shmem s)) = segment_status e (fresh_segment e (k_region e (fds s)) k sz i)"
    by (simp add: with_mapping_def segment_status_def)
  then show ?thesis
    using assms(1) by (simp add: shmctl_def find_with_mapping [OF assms(2)] IPC_STAT_def IPC_RMID_def)
      (simp add: serving_def with_mapping_def)
qed

lemma mapping_fresh:
  assumes "shm_owns lf lm s" "k_mmap e \<notin> fst ` set (maps s)" "k_mmap e \<noteq> 0"
  shows "find_addr (k_mmap e) (shmem s) = None"
proof -
  have "seg_addr x \<noteq> k_mmap e" if "x \<in> set (shmem s)" for x
  proof
    assume a: "seg_addr x = k_mmap e"
    then have "(k_mmap e, seg_size x, descriptor x) \<in> set (attached (shmem s))"
      using that assms(3) by (auto simp: attached_def intro!: image_eqI [of _ _ x])
    then have "(k_mmap e, seg_size x, descriptor x) \<in> set (maps s)"
      using assms(1) by (metis shm_owns_def set_mset_mset set_mset_union UnI1)
    then show False using assms(2) by force
  qed
  then show ?thesis unfolding find_addr_None by (metis imageE)
qed

lemma shmdt_with_mapping:
  assumes "serving e s" "k_mmap e \<noteq> 0" "shm_owns lf lm s" "0 \<le> k_region e (fds s)"
  shows "shmdt e (k_mmap e) (with_mapping e k sz i b s) =
    (0, if b \<or> ashv_socket_id_from_shmid i \<noteq> ashv_local_socket_id s
        then s\<lparr>ashv_pid_setup := k_pid e, shmem_counter := (shmem_counter s + 1) mod 2 ^ 15\<rparr>
        else with_segment e k sz i s)"
proof -
  have r: "k_region e (fds s) \<noteq> 0" using assms(1,4) by (auto simp: serving_def kernel_ok_def)
  have "find_addr (k_mmap e) (shmem (with_mapping e k sz i b s)) = Some (length (shmem s))"
    using mapping_fresh [OF assms(3) _ assms(2)] assms(1)
    by (simp add: with_mapping_def find_addr_append serving_def kernel_ok_def)
  then show ?thesis
    using assms(1) r
    by (simp add: shmdt_def)
      (simp add: serving_def with_mapping_def with_segment_def detach_index_def android_shmem_delete_def
        fresh_segment_def Let_def list_update_append)
qed


lemma with_mapping_ids: "i \<in> seg_id ` set (shmem (with_segment e k sz i s))"
  by (simp add: with_segment_def fresh_segment_def)

text \<open>While the mutex is held the listening thread never gets to its answer.\<close>

lemma thread_run_held: "ashv_thread_run n True i s l \<noteq> Closed r \<or> l = Closed r"
  by (induction n arbitrary: l) (auto simp: ashv_thread_step_def split: listener.splits option.splits)

lemma own_thread_blocked: "\<not> own_thread_answers True i s"
  using thread_run_held [of 3 i s Accepting] by (auto simp: own_thread_answers_def split: listener.splits)

lemma thread_run_free: "ashv_thread_run 3 False i s Accepting = Closed (ashv_serve i s)"
  by (simp add: ashv_thread_step_def eval_nat_numeral)

lemma remote_own_socket:
  assumes "ashv_listening_thread s" "k_remote e (fds s) t \<noteq> Unreachable" "ashv_socket_id_from_shmid t = ashv_local_socket_id s"
  shows "ashv_read_remote_segment e True t s = None"
  using assms by (simp add: ashv_read_remote_segment_def own_thread_blocked)

text \<open>A link that names a removed segment of the process itself makes every further request for the key wait for itself.\<close>

lemma stale_link_blocks:
  assumes "serving e s" "k \<noteq> IPC_PRIVATE" "links s k = Some t" "t \<noteq> 0" "t \<notin> seg_id ` set (shmem s)"
    "ashv_socket_id_from_shmid t = ashv_local_socket_id s" "k_remote e (fds s) t \<noteq> Unreachable"
  shows "shmget e fuel k sz fl s = None"
proof -
  define s1 where "s1 = s\<lparr>ashv_pid_setup := k_pid e\<rparr>"
  have "ashv_find_local_index t s1 = None"
    using assms(5) find_from_None [of t "shmem s"] by (simp add: ashv_find_local_index_def s1_def)
  moreover have "ashv_read_remote_segment e True t s1 = None"
    using assms by (intro remote_own_socket) (simp_all add: s1_def serving_def)
  ultimately have "follow_link e k s1 = None"
    using assms(3,4) by (simp add: follow_link_def s1_def)
  then have "own_key e k fuel 0 (-1) s1 = None" by (cases fuel) simp_all
  moreover have "start_listening e s1 = (True, s1)" using assms by (simp add: s1_def serving_def)
  ultimately show ?thesis
    using assms(1,2) by (simp add: shmget_def serving_def s1_def [symmetric])
qed

lemma delete_with_segment:
  assumes "k_region e (fds s) \<noteq> 0"
  shows "android_shmem_delete (length (shmem s)) (with_segment e k sz i s) =
    s\<lparr>ashv_pid_setup := k_pid e, shmem_counter := (shmem_counter s + 1) mod 2 ^ 15\<rparr>"
  using assms by (simp add: android_shmem_delete_def with_segment_def fresh_segment_def Let_def)

lemma rmid_with_segment:
  assumes "serving e s" "0 \<le> k_region e (fds s)" "i \<notin> seg_id ` set (shmem s)"
  shows "shmctl e i IPC_RMID b (with_segment e k sz i s) =
    (0, None, s\<lparr>ashv_pid_setup := k_pid e, shmem_counter := (shmem_counter s + 1) mod 2 ^ 15\<rparr>)"
proof -
  have "k_region e (fds s) \<noteq> 0" using assms(1,2) by (auto simp: serving_def kernel_ok_def)
  moreover have "seg_addr (shmem (with_segment e k sz i s) ! length (shmem s)) = 0"
    by (simp add: with_segment_def fresh_segment_def)
  ultimately have "remove_segment (length (shmem s)) (with_segment e k sz i s)
      = s\<lparr>ashv_pid_setup := k_pid e, shmem_counter := (shmem_counter s + 1) mod 2 ^ 15\<rparr>"
    by (simp add: remove_segment_def delete_with_segment)
  then show ?thesis
    using assms(1) by (simp add: shmctl_def find_with_segment [OF assms(3)])
      (simp add: serving_def with_segment_def)
qed

section \<open>The search for the owner of a key ends\<close>

lemma follow_link_returns:
  assumes "\<forall>t. links s k = Some t \<longrightarrow> ashv_socket_id_from_shmid t \<noteq> ashv_local_socket_id s" "k_tmp_writable e"
  obtains found s' where "follow_link e k s = Some (found, s')"
    "found = None \<longrightarrow> links s' k = None" "ashv_local_socket_id s' = ashv_local_socket_id s"
    "ashv_listening_thread s' = ashv_listening_thread s"
proof (cases "links s k")
  case None
  then show ?thesis by (intro that [of None s]) (simp_all add: follow_link_def)
next
  case (Some t)
  have "\<exists>r u. (if t \<noteq> 0 then (case ashv_find_local_index t s of Some i \<Rightarrow> Some (Some i, s)
        | None \<Rightarrow> ashv_read_remote_segment e True t s) else Some (None, s)) = Some (r, u)
      \<and> ashv_local_socket_id u = ashv_local_socket_id s \<and> ashv_listening_thread u = ashv_listening_thread s"
    using assms(1) Some
    by (auto simp: ashv_read_remote_segment_def Let_def split: option.splits remote.splits)
  then obtain r u where u: "(if t \<noteq> 0 then (case ashv_find_local_index t s of Some i \<Rightarrow> Some (Some i, s)
        | None \<Rightarrow> ashv_read_remote_segment e True t s) else Some (None, s)) = Some (r, u)"
      "ashv_local_socket_id u = ashv_local_socket_id s" "ashv_listening_thread u = ashv_listening_thread s" by blast
  show ?thesis
  proof (cases r)
    case None
    then show ?thesis
      using u Some assms(2) by (intro that [of None "u\<lparr>links := (links u)(k := None)\<rparr>"]) (simp_all add: follow_link_def)
  next
    case (Some j)
    then show ?thesis
      using u \<open>links s k = Some t\<close> by (intro that [of "Some (seg_id (shmem u ! j))" u]) (simp_all add: follow_link_def)
  qed
qed

lemma own_key_returns:
  assumes "k_tmp_writable e" "\<forall>m \<ge> N. k_rival e m = None"
    "\<forall>m t. k_rival e m = Some t \<longrightarrow> ashv_socket_id_from_shmid t \<noteq> L"
  shows "ashv_local_socket_id s = L \<Longrightarrow> (\<forall>t. links s k = Some t \<longrightarrow> ashv_socket_id_from_shmid t \<noteq> L)
    \<Longrightarrow> n \<le> N \<Longrightarrow> N < n + fuel \<Longrightarrow> \<exists>r. own_key e k fuel n i s = Some r"
proof (induction fuel arbitrary: n i s)
  case (Suc fuel)
  obtain found s1 where f: "follow_link e k s = Some (found, s1)" "found = None \<longrightarrow> links s1 k = None"
      "ashv_local_socket_id s1 = L"
    using follow_link_returns [OF _ assms(1), of s k] Suc.prems(1,2) by metis
  show ?case
  proof (cases found)
    case None
    obtain j s2 where t: "take_shmid i s1 = (j, s2)" by fastforce
    have s2: "links s2 k = None" "ashv_local_socket_id s2 = L"
      using t f None by (auto simp: take_shmid_def Let_def split: if_splits)
    show ?thesis
    proof (cases "k_rival e n")
      case None
      then show ?thesis using f \<open>found = None\<close> t s2 assms(1) by simp
    next
      case (Some r)
      then have "n < N" using assms(2) by (metis not_less option.distinct(1))
      moreover have "ashv_socket_id_from_shmid r \<noteq> L" using Some assms(3) by blast
      ultimately have "\<exists>r'. own_key e k fuel (Suc n) j (s2\<lparr>links := (links s2)(k \<mapsto> r)\<rparr>) = Some r'"
        using Suc.prems(4) s2 by (intro Suc.IH) auto
      then show ?thesis using f \<open>found = None\<close> t s2 Some by simp
    qed
  qed (use f in simp)
qed simp

text \<open>In a directory that cannot be written the loop goes on for ever.\<close>

lemma own_key_unwritable:
  assumes "\<not> k_tmp_writable e" "\<forall>m. k_rival e m = None"
  shows "links s k = None \<Longrightarrow> own_key e k fuel n i s = None"
proof (induction fuel arbitrary: n i s)
  case (Suc fuel)
  obtain j s2 where t: "take_shmid i s = (j, s2)" by fastforce
  then have "links s2 k = None" using take_shmid_same [OF t] Suc.prems by simp
  then show ?case
    using Suc assms t by (simp add: follow_link_def)
qed simp


text \<open>
  What a process reads from the socket of the process in state \<open>a\<close>: the key, and a descriptor of
  its own for the region behind the descriptor that was sent. \<open>regA\<close> and \<open>regB\<close> are the regions
  behind the descriptors of the two processes, \<open>rsize\<close> is what \<open>ioctl\<close> reports for a region.
\<close>

definition served_reply :: "(int \<Rightarrow> nat) \<Rightarrow> (int \<Rightarrow> nat) \<Rightarrow> (nat \<Rightarrow> int) \<Rightarrow> int \<Rightarrow> shm \<Rightarrow> remote \<Rightarrow> bool" where
  "served_reply regA regB rsize shmid a r \<longleftrightarrow> (case ashv_serve shmid a of
     None \<Rightarrow> r = NoReply
   | Some (k, fd) \<Rightarrow> \<exists>d. r = Reply k d (rsize (regA fd)) \<and> regB d = regA fd)"

lemma shmat_last:
  assumes "serving e s" "k_mmap e \<noteq> 0" "shmem s = xs @ [x]" "seg_id x \<notin> seg_id ` set xs" "seg_addr x = 0"
  shows "\<exists>s2. shmat e (seg_id x) a f s = Some (k_mmap e, s2) \<and> maps s2 = (k_mmap e, seg_size x, descriptor x) # maps s"
proof -
  let ?s = "s\<lparr>ashv_pid_setup := k_pid e\<rparr>"
  have "ashv_find_local_index (seg_id x) ?s = Some (length xs)"
    using assms(3,4) find_from_None [of "seg_id x" xs] by (simp add: ashv_find_local_index_def find_from_append)
  then show ?thesis
    using assms(1,2,3,5) by (simp add: shmat_def serving_def attach_index_def Let_def)
qed

lemma serving_links [simp]: "serving e (s\<lparr>links := l\<rparr>) = serving e s"
  by (simp add: serving_def kernel_ok_def forked_def)

lemma serving_renewed: "serving e s \<Longrightarrow> serving e (s\<lparr>ashv_pid_setup := k_pid e, shmem_counter := c\<rparr>)"
  by (simp add: serving_def kernel_ok_def forked_def)

lemma shmget_linked:
  assumes "serving e s" "k \<noteq> IPC_PRIVATE" "links s k = Some i" "i \<noteq> 0" "i \<notin> seg_id ` set (shmem s)"
    "ashv_socket_id_from_shmid i \<noteq> ashv_local_socket_id s" "k_remote e (fds s) i = Reply kk d n" "n \<noteq> 0" "n \<noteq> -1"
  shows "shmget e (Suc fuel) k sz fl s = Some (i, s\<lparr>ashv_pid_setup := k_pid e, fds := d # fds s,
     shmem := shmem s @ [\<lparr>seg_id = i, seg_addr = 0, descriptor = d, seg_size = word_of_int n,
       markedForDeletion = False, seg_key = kk\<rparr>]\<rparr>)"
proof -
  define s1 where "s1 = s\<lparr>ashv_pid_setup := k_pid e\<rparr>"
  have "ashv_find_local_index i s1 = None"
    using assms(5) find_from_None [of i "shmem s"] by (simp add: ashv_find_local_index_def s1_def)
  then have "follow_link e k s1 = Some (Some i, s1\<lparr>fds := d # fds s, shmem := shmem s @ [\<lparr>seg_id = i, seg_addr = 0,
      descriptor = d, seg_size = word_of_int n, markedForDeletion = False, seg_key = kk\<rparr>]\<rparr>)"
    using assms(3-9) by (simp add: follow_link_def ashv_read_remote_segment_def s1_def)
  moreover have "start_listening e s1 = (True, s1)" using assms by (simp add: s1_def serving_def)
  ultimately show ?thesis
    using assms(1,2) by (simp add: shmget_def serving_def s1_def [symmetric])
qed

section \<open>Properties\<close>

text \<open>A kernel and a process for the examples.\<close>

definition fresh_fd :: "int list \<Rightarrow> int" where
  "fresh_fd ds = fold max ds 4 + 1"

lemma fresh_fd: "0 < fresh_fd ds" "fresh_fd ds \<notin> set ds" "fresh_fd [] = 5"
proof -
  have "m \<le> fold max ds m \<and> (\<forall>d\<in>set ds. d \<le> fold max ds m)" for m :: int
    by (induction ds arbitrary: m) (simp_all, meson max.bounded_iff order_trans)
  from this [of 4] show "0 < fresh_fd ds" "fresh_fd ds \<notin> set ds" by (auto simp: fresh_fd_def)
qed (simp add: fresh_fd_def)

definition demo_kernel :: kernel where
  "demo_kernel = \<lparr>k_pid = 7, k_socket = 3, k_bind = (\<lambda>_. True), k_listen = True, k_page = 0x1000,
     k_region = fresh_fd, k_mmap = 0x7000, k_remote = (\<lambda>_ _. NoReply), k_rival = (\<lambda>_. None), k_tmp_writable = True,
     k_euid = 0, k_egid = 0, k_shmget = (\<lambda>_ _ _. -1), k_shmat = (\<lambda>_ _ _. -1), k_shmdt = (\<lambda>_. -1), k_shmctl = (\<lambda>_ _. -1)\<rparr>"

definition demo_process :: "int \<Rightarrow> int \<Rightarrow> shm" where
  "demo_process pid sock = \<lparr>shmem = [], syscall_supported = 0, ashv_local_socket_id = sock, ashv_pid_setup = pid,
     ashv_listening_thread = True, shmem_counter = 0, fds = [], sockets = [3], maps = [], links = Map.empty\<rparr>"

lemma demo_serving: "0 \<le> sock \<Longrightarrow> sock < 0x10000 \<Longrightarrow> serving demo_kernel (demo_process 7 sock)"
  by (simp add: serving_def demo_process_def demo_kernel_def kernel_ok_def forked_def fresh_fd)

lemma demo_owns: "shm_owns {#} {#} (demo_process pid sock)"
  by (simp add: shm_owns_def demo_process_def)

lemma demo_next_shmid: "next_shmid (demo_process 7 7) = 0x70001"
  by (simp add: next_shmid_def ashv_shmid_from_counter_def demo_process_def signed_take_bit_int_eq_self)

text \<open>C18: In every state a process reaches by its own \<open>shmget\<close>, \<open>shmat\<close>, \<open>shmdt\<close> and \<open>shmctl\<close> calls and by
  forks, while other processes change the links, the open region descriptors are those of its
  segments, each once, and beside them only descriptors that arrived for an empty region, which the
  code leaves open, and those a child has from its parent; the mappings are those of the attached
  segments, each address once, and beside them only those from the parent; and a segment that
  waits for its removal is attached.\<close>

theorem segments_own_resources:
  assumes "shm_reach F M s"
  shows "\<exists>lf lm. mset (fds s) = mset (map descriptor (shmem s)) + lf \<and> set_mset lf \<subseteq> F \<and> distinct (fds s)
    \<and> mset (maps s) = mset (attached (shmem s)) + lm \<and> set_mset lm \<subseteq> M \<and> distinct (map fst (maps s))
    \<and> (\<forall>x \<in> set (shmem s). markedForDeletion x \<longrightarrow> seg_addr x \<noteq> 0)"
  using shm_reach_good [OF assms] unfolding shm_good_def shm_owns_def by blast

theorem segments_own_resources_witness:
  "\<exists>F s. shm_reach F {} s \<and> F = {} \<and> shmem s \<noteq> [] \<and> mset (fds s) = mset (map descriptor (shmem s))
    \<and> mset (maps s) = mset (attached (shmem s))"
proof -
  let ?s = "\<lparr>shmem = [], syscall_supported = 0, ashv_local_socket_id = 0, ashv_pid_setup = 0,
            ashv_listening_thread = False, shmem_counter = 0, fds = [], sockets = [], maps = [], links = Map.empty\<rparr>"
  have "bind_loop demo_kernel (Suc 4095) 0 = Some 7"
    by (simp only: bind_loop.simps) (simp add: demo_kernel_def)
  then have b: "bind_loop demo_kernel 4096 0 = Some 7" by (simp del: bind_loop.simps)
  have ok: "kernel_ok demo_kernel ?s" "\<not> forked demo_kernel ?s"
    by (simp_all add: kernel_ok_def demo_kernel_def fresh_fd forked_def)
  have l: "left_fds demo_kernel ?s = {}" "left_maps demo_kernel ?s = {}"
    using ok(2) by (simp_all add: left_fds_def left_maps_def empties_def demo_kernel_def)
  obtain s' where "shmget demo_kernel 1 IPC_PRIVATE 0x1000 0 ?s = Some (next_shmid (demo_process 7 7), s') \<and> shmem s' \<noteq> []"
    using ok b take_shmid_new [of "demo_process 7 7"]
    by (simp add: shmget_def start_listening_def demo_process_def create_segment_def demo_kernel_def fresh_fd ashv_check_pid_def)
  then have "shm_reach {} {} s'" "shmem s' \<noteq> []"
    using shm_reach.get [OF shm_reach.start ok(1)] l by auto
  then show ?thesis using segments_own_resources [of "{}" "{}" s'] by (intro exI [of _ "{}"] exI [of _ s']) auto
qed

text \<open>A private segment that is created, attached and removed lives until it is detached: its status can still
  be read, and the detach leaves segments, descriptors and mappings as they were before.\<close>

theorem segment_lifetime:
  assumes "serving e s" "shm_owns lf lm s" "0 \<le> k_region e (fds s)" "k_mmap e \<noteq> 0" "next_shmid s \<notin> seg_id ` set (shmem s)"
  shows "\<exists>s1 s2 s3 s4. shmget e fuel IPC_PRIVATE sz fl s = Some (next_shmid s, s1)
    \<and> shmat e (next_shmid s) a f s1 = Some (k_mmap e, s2)
    \<and> shmctl e (next_shmid s) IPC_RMID b s2 = (0, None, s3)
    \<and> map_option shm_segsz (fst (snd (shmctl e (next_shmid s) IPC_STAT True s3))) = Some (ROUND_UP sz (k_page e))
    \<and> shmdt e (k_mmap e) s3 = (0, s4)
    \<and> shmem s4 = shmem s \<and> fds s4 = fds s \<and> maps s4 = maps s"
proof (intro exI conjI)
  show "shmget e fuel IPC_PRIVATE sz fl s = Some (next_shmid s, with_segment e IPC_PRIVATE sz (next_shmid s) s)"
    by (rule shmget_private [OF assms(1,3)])
  show "shmat e (next_shmid s) a f (with_segment e IPC_PRIVATE sz (next_shmid s) s)
      = Some (k_mmap e, with_mapping e IPC_PRIVATE sz (next_shmid s) False s)"
    by (rule shmat_with_segment [OF assms(1,4,5)])
  show "shmctl e (next_shmid s) IPC_RMID b (with_mapping e IPC_PRIVATE sz (next_shmid s) False s)
      = (0, None, with_mapping e IPC_PRIVATE sz (next_shmid s) True s)"
    by (rule rmid_with_mapping [OF assms(1,4,5)])
  show "map_option shm_segsz (fst (snd (shmctl e (next_shmid s) IPC_STAT True
      (with_mapping e IPC_PRIVATE sz (next_shmid s) True s)))) = Some (ROUND_UP sz (k_page e))"
    by (simp add: stat_with_mapping [OF assms(1,5)] segment_status_def fresh_segment_def)
  show "shmdt e (k_mmap e) (with_mapping e IPC_PRIVATE sz (next_shmid s) True s)
      = (0, s\<lparr>ashv_pid_setup := k_pid e, shmem_counter := (shmem_counter s + 1) mod 2 ^ 15\<rparr>)"
    by (simp add: shmdt_with_mapping [OF assms(1,4,2,3)])
qed simp_all

theorem segment_lifetime_witness:
  "\<exists>s1 s2 s3 s4. shmget demo_kernel 0 IPC_PRIVATE 0x1234 0 (demo_process 7 7) = Some (next_shmid (demo_process 7 7), s1)
    \<and> shmat demo_kernel (next_shmid (demo_process 7 7)) 0 0 s1 = Some (0x7000, s2)
    \<and> shmctl demo_kernel (next_shmid (demo_process 7 7)) IPC_RMID False s2 = (0, None, s3)
    \<and> map_option shm_segsz (fst (snd (shmctl demo_kernel (next_shmid (demo_process 7 7)) IPC_STAT True s3))) = Some 0x2000
    \<and> shmdt demo_kernel 0x7000 s3 = (0, s4)
    \<and> shmem s4 = [] \<and> fds s4 = [] \<and> maps s4 = []"
proof -
  have k: "k_mmap demo_kernel = 0x7000" "k_region demo_kernel [] = 5" "ROUND_UP 0x1234 (k_page demo_kernel) = 0x2000"
    "shmem (demo_process 7 7) = []" "fds (demo_process 7 7) = []" "maps (demo_process 7 7) = []"
    by (simp_all add: demo_kernel_def demo_process_def ROUND_UP_def fresh_fd)
  show ?thesis
    using segment_lifetime [OF demo_serving [of 7] demo_owns, where fuel = 0 and sz = "0x1234" and fl = 0 and a = 0 and f = 0 and b = False] by (simp add: k)
qed

text \<open>A process that detaches a segment it created and did not remove keeps the segment exactly when its socket
  number is below \<open>0x8000\<close>; otherwise the identifier is negative, the process takes the segment for
  one of another process and deletes it.\<close>

theorem detached_segment_kept:
  assumes "serving e s" "shm_owns lf lm s" "0 \<le> k_region e (fds s)" "k_mmap e \<noteq> 0" "next_shmid s \<notin> seg_id ` set (shmem s)"
  shows "\<exists>s1 s2 s3. shmget e fuel IPC_PRIVATE sz fl s = Some (next_shmid s, s1)
    \<and> shmat e (next_shmid s) a f s1 = Some (k_mmap e, s2)
    \<and> shmdt e (k_mmap e) s2 = (0, s3)
    \<and> (next_shmid s \<in> seg_id ` set (shmem s3) \<longleftrightarrow> ashv_local_socket_id s < 0x8000)
    \<and> (next_shmid s < 0 \<longleftrightarrow> 0x8000 \<le> ashv_local_socket_id s)"
proof (intro exI conjI)
  let ?i = "next_shmid s"
  have l: "0 \<le> ashv_local_socket_id s" "ashv_local_socket_id s < 0x10000" using assms(1) by (auto simp: serving_def)
  have low: "0 \<le> ?i \<and> ashv_socket_id_from_shmid ?i = ashv_local_socket_id s" if "ashv_local_socket_id s < 0x8000"
    unfolding next_shmid_def using shmid_low [OF l(1) that, of "(shmem_counter s + 1) mod 2 ^ 15"] l by simp
  have high: "?i < 0 \<and> ashv_socket_id_from_shmid ?i \<noteq> ashv_local_socket_id s" if "0x8000 \<le> ashv_local_socket_id s"
    unfolding next_shmid_def using shmid_high [OF that l(2), of "(shmem_counter s + 1) mod 2 ^ 15"] that by auto
  show "shmget e fuel IPC_PRIVATE sz fl s = Some (?i, with_segment e IPC_PRIVATE sz ?i s)"
    by (rule shmget_private [OF assms(1,3)])
  show "shmat e ?i a f (with_segment e IPC_PRIVATE sz ?i s) = Some (k_mmap e, with_mapping e IPC_PRIVATE sz ?i False s)"
    by (rule shmat_with_segment [OF assms(1,4,5)])
  show "shmdt e (k_mmap e) (with_mapping e IPC_PRIVATE sz ?i False s) = (0, snd (shmdt e (k_mmap e) (with_mapping e IPC_PRIVATE sz ?i False s)))"
    by (simp add: shmdt_with_mapping [OF assms(1,4,2,3)])
  show "?i \<in> seg_id ` set (shmem (snd (shmdt e (k_mmap e) (with_mapping e IPC_PRIVATE sz ?i False s))))
      \<longleftrightarrow> ashv_local_socket_id s < 0x8000"
    using low high assms(5) with_mapping_ids by (auto simp: shmdt_with_mapping [OF assms(1,4,2,3)] not_less)
  show "?i < 0 \<longleftrightarrow> 0x8000 \<le> ashv_local_socket_id s" using low high by force
qed

theorem detached_segment_kept_witness:
  "\<exists>s1 s2 s3. shmget demo_kernel 0 IPC_PRIVATE 0x1000 0 (demo_process 7 0x8001) = Some (next_shmid (demo_process 7 0x8001), s1)
    \<and> shmat demo_kernel (next_shmid (demo_process 7 0x8001)) 0 0 s1 = Some (0x7000, s2)
    \<and> shmdt demo_kernel 0x7000 s2 = (0, s3)
    \<and> next_shmid (demo_process 7 0x8001) \<notin> seg_id ` set (shmem s3)"
proof -
  have k: "k_mmap demo_kernel = 0x7000" "k_region demo_kernel [] = 5" "shmem (demo_process 7 0x8001) = []" "fds (demo_process 7 0x8001) = []"
    "ashv_local_socket_id (demo_process 7 0x8001) = 0x8001"
    by (simp_all add: demo_kernel_def demo_process_def fresh_fd)
  show ?thesis
    using detached_segment_kept [OF demo_serving [of "0x8001"] demo_owns, where fuel = 0 and sz = "0x1000" and fl = 0 and a = 0 and f = 0] by (simp add: k) metis
qed

text \<open>C21: A process whose socket number is below \<open>0x8000\<close> and that creates a segment for a key, removes it and
  asks for the key again waits for itself for ever: the link still names the removed segment, whose
  identifier leads to the socket of the process; the call holds the mutex while it waits for its own
  listening thread, which never gets past taking the mutex, and would answer if it were free.\<close>

theorem removed_key_blocks:
  assumes "serving e s" "0 \<le> k_region e (fds s)" "k \<noteq> IPC_PRIVATE" "links s k = None" "k_rival e 0 = None" "k_tmp_writable e"
    "0 < ashv_local_socket_id s" "ashv_local_socket_id s < 0x8000" "next_shmid s \<notin> seg_id ` set (shmem s)"
    "k_remote e (fds s) (next_shmid s) \<noteq> Unreachable"
  shows "\<exists>s1 s2. shmget e (Suc m) k sz fl s = Some (next_shmid s, s1)
    \<and> shmctl e (next_shmid s) IPC_RMID b s1 = (0, None, s2) \<and> shmem s2 = shmem s
    \<and> (\<forall>fuel sz' fl'. shmget e fuel k sz' fl' s2 = None)
    \<and> (\<forall>n r. ashv_thread_run n True (next_shmid s) s2 Accepting \<noteq> Closed r)
    \<and> ashv_thread_run 3 False (next_shmid s) s2 Accepting = Closed None"
proof (intro exI conjI)
  let ?i = "next_shmid s"
  let ?s = "s\<lparr>links := (links s)(k \<mapsto> ?i)\<rparr>"
  let ?s2 = "?s\<lparr>ashv_pid_setup := k_pid e, shmem_counter := (shmem_counter s + 1) mod 2 ^ 15\<rparr>"
  have sv: "serving e ?s" "serving e ?s2" using assms(1) serving_renewed [of e ?s] by auto
  have i: "?i = ashv_local_socket_id s * 0x10000 + int ((shmem_counter s + 1) mod 2 ^ 15)"
      "ashv_socket_id_from_shmid ?i = ashv_local_socket_id s"
    unfolding next_shmid_def using shmid_low [of s "(shmem_counter s + 1) mod 2 ^ 15"] assms(7,8) by simp_all
  show "shmget e (Suc m) k sz fl s = Some (?i, with_segment e k sz ?i ?s)"
    by (rule shmget_new_key [OF assms(1-6)])
  show "shmctl e ?i IPC_RMID b (with_segment e k sz ?i ?s) = (0, None, ?s2)"
    using rmid_with_segment [OF sv(1), of ?i b k sz] assms(2) assms(9) by simp
  show "\<forall>fuel sz' fl'. shmget e fuel k sz' fl' ?s2 = None"
    using stale_link_blocks [OF sv(2) assms(3), of ?i] i assms(7,9,10) by simp
  show "\<forall>n r. ashv_thread_run n True ?i ?s2 Accepting \<noteq> Closed r"
    using thread_run_held by blast
  have "ashv_find_local_index ?i ?s2 = None"
    using assms(9) find_from_None [of ?i "shmem s"] by (simp add: ashv_find_local_index_def)
  then have "ashv_serve ?i ?s2 = None" unfolding ashv_serve_def by (simp only: option.case)
  then show "ashv_thread_run 3 False ?i ?s2 Accepting = Closed None" unfolding thread_run_free by (rule arg_cong)
qed simp

theorem removed_key_blocks_witness:
  "\<exists>s1 s2. shmget demo_kernel 1 9 0x1000 0 (demo_process 7 7) = Some (0x70001, s1)
    \<and> shmctl demo_kernel 0x70001 IPC_RMID False s1 = (0, None, s2) \<and> shmem s2 = []
    \<and> (\<forall>fuel sz' fl'. shmget demo_kernel fuel 9 sz' fl' s2 = None)"
proof -
  let ?s = "demo_process 7 7"
  have k: "0 \<le> k_region demo_kernel (fds ?s)" "(9::int) \<noteq> IPC_PRIVATE" "links ?s 9 = None" "k_rival demo_kernel 0 = None"
    "k_tmp_writable demo_kernel" "0 < ashv_local_socket_id ?s" "ashv_local_socket_id ?s < 0x8000"
    "next_shmid ?s \<notin> seg_id ` set (shmem ?s)" "k_remote demo_kernel (fds ?s) (next_shmid ?s) \<noteq> Unreachable" "shmem ?s = []"
    by (simp_all add: demo_kernel_def demo_process_def fresh_fd IPC_PRIVATE_def)
  show ?thesis
    using removed_key_blocks [OF demo_serving [of 7] k(1-9), of 0 "0x1000" 0 False] k(10) by (simp add: demo_next_shmid) blast
qed

text \<open>C19: Two processes that use the same key share the region: the second \<open>shmget\<close> follows the link, receives key
  and descriptor from the listening thread of the first process and returns the same identifier,
  with the size the first process asked for; its segment holds a descriptor of the region that the
  first process created, and this is the descriptor that \<open>shmat\<close> maps.\<close>

theorem key_shared_between_processes:
  assumes "serving eA a" "0 \<le> k_region eA (fds a)" "k \<noteq> IPC_PRIVATE" "links a k = None" "k_rival eA 0 = None"
    "k_tmp_writable eA" "next_shmid a \<noteq> 0" "next_shmid a \<notin> seg_id ` set (shmem a)"
    "ROUND_UP sz (k_page eA) \<noteq> 0" "ROUND_UP sz (k_page eA) < 0x80000000"
    "shmget eA (Suc m) k sz fl a = Some (i, a1)"
    "rsize (regA (k_region eA (fds a))) = uint (ROUND_UP sz (k_page eA))"
    "serving eB b" "links b = links a1" "i \<notin> seg_id ` set (shmem b)"
    "ashv_socket_id_from_shmid i \<noteq> ashv_local_socket_id b" "served_reply regA regB rsize i a1 (k_remote eB (fds b) i)"
  shows "i = next_shmid a \<and> (\<exists>b1 x. shmget eB (Suc n) k sz' fl' b = Some (i, b1) \<and> shmem b1 = shmem b @ [x]
    \<and> seg_id x = i \<and> seg_key x = k \<and> seg_size x = ROUND_UP sz (k_page eA) \<and> fds b1 = descriptor x # fds b
    \<and> regB (descriptor x) = regA (k_region eA (fds a))
    \<and> (\<forall>eC adr f. serving eC b1 \<and> k_mmap eC \<noteq> 0 \<longrightarrow> (\<exists>b2. shmat eC i adr f b1 = Some (k_mmap eC, b2)
         \<and> maps b2 = (k_mmap eC, ROUND_UP sz (k_page eA), descriptor x) # maps b)))"
proof -
  let ?i = "next_shmid a"
  let ?a = "a\<lparr>links := (links a)(k \<mapsto> ?i)\<rparr>"
  have a1: "i = ?i" "a1 = with_segment eA k sz ?i ?a"
    using shmget_new_key [OF assms(1-6), of m sz fl] assms(11) by simp_all
  have seg: "shmem a1 ! length (shmem a) = fresh_segment eA (k_region eA (fds a)) k sz ?i" "ashv_find_local_index ?i a1 = Some (length (shmem a))"
    using find_with_segment [of ?i ?a eA k sz] assms(8) a1 by (simp_all add: with_segment_def)
  define z where "z = uint (ROUND_UP sz (k_page eA))"
  have z: "0 < z" "z < 2 ^ 31"
    using assms(9,10) by (auto simp: z_def word_less_def order_less_le uint_0_iff)
  have "ashv_serve i a1 = Some (k, k_region eA (fds a))"
    using seg a1(1) by (simp add: ashv_serve_def fresh_segment_def)
  then obtain d where d: "k_remote eB (fds b) i = Reply k d z" "regB d = regA (k_region eA (fds a))"
    using assms(12,17) by (auto simp: served_reply_def z_def)
  have l: "links b k = Some i" using assms(14) a1 by (simp add: with_segment_def)
  let ?x = "\<lparr>seg_id = i, seg_addr = 0, descriptor = d, seg_size = word_of_int z, markedForDeletion = False, seg_key = k\<rparr>"
  define b1 where "b1 = b\<lparr>ashv_pid_setup := k_pid eB, fds := d # fds b, shmem := shmem b @ [?x]\<rparr>"
  have g: "shmget eB (Suc n) k sz' fl' b = Some (i, b1)"
    unfolding b1_def using shmget_linked [OF assms(13,3) l _ assms(15,16) d(1), of n sz' fl'] a1(1) assms(7) z by simp
  have "\<exists>b2. shmat eC i adr f b1 = Some (k_mmap eC, b2) \<and> maps b2 = (k_mmap eC, ROUND_UP sz (k_page eA), d) # maps b"
    if "serving eC b1" "k_mmap eC \<noteq> 0" for eC adr f
    using shmat_last [OF that, of "shmem b" ?x adr f] assms(15) by (simp add: b1_def z_def)
  then show ?thesis using a1(1) g d(2) by (auto simp: b1_def z_def)
qed

text \<open>The first process gets descriptor 5 for its region (1); the second has a descriptor 5 for another one.\<close>

definition demo_peer :: "shm \<Rightarrow> kernel" where
  "demo_peer a = demo_kernel\<lparr>k_remote := \<lambda>ds i. case ashv_serve i a of None \<Rightarrow> NoReply
     | Some (k, fd) \<Rightarrow> Reply k (fresh_fd ds) (if fd = 5 then 0x1000 else 0)\<rparr>"

theorem key_shared_between_processes_witness:
  "\<exists>a1 b1 x. shmget demo_kernel 1 9 0x1000 0 (demo_process 7 7) = Some (0x70001, a1)
    \<and> shmget (demo_peer a1) 1 9 0x1000 0 ((demo_process 7 8)\<lparr>links := links a1, fds := [5]\<rparr>) = Some (0x70001, b1)
    \<and> shmem b1 = [x] \<and> seg_key x = 9 \<and> seg_size x = 0x1000 \<and> descriptor x = 6"
proof -
  let ?a = "demo_process 7 7"
  have k: "0 \<le> k_region demo_kernel (fds ?a)" "k_rival demo_kernel 0 = None" "k_tmp_writable demo_kernel"
    "ROUND_UP 0x1000 (k_page demo_kernel) = 0x1000" "links ?a 9 = None" "shmem ?a = []" "(9::int) \<noteq> IPC_PRIVATE"
    "k_region demo_kernel (fds ?a) = 5"
    by (simp_all add: demo_kernel_def demo_process_def ROUND_UP_def IPC_PRIVATE_def fresh_fd)
  obtain a1 where a1: "shmget demo_kernel (Suc 0) 9 0x1000 0 ?a = Some (0x70001, a1)"
    using shmget_new_key [OF demo_serving [of 7] k(1) k(7,5,2,3)] by (simp add: demo_next_shmid)
  let ?b = "(demo_process 7 8)\<lparr>links := links a1, fds := [5]\<rparr>"
  have sB: "serving (demo_peer a1) ?b"
    by (auto simp: serving_def kernel_ok_def demo_process_def demo_peer_def demo_kernel_def forked_def fresh_fd split: option.splits)
  have b: "shmem ?b = []" "shmem ?a = []" "ashv_local_socket_id ?b = 8" "ashv_socket_id_from_shmid 0x70001 = 7"
    by (simp_all add: demo_process_def ashv_socket_id_from_shmid_def signed_divide_int_def)
  have f: "fresh_fd [5] = 6" by (simp add: fresh_fd_def)
  have sr: "served_reply (\<lambda>d. if d = 5 then 1 else 2) (\<lambda>d. if d = 6 then 1 else 2) (\<lambda>r. if r = 1 then 0x1000 else 0) 0x70001 a1
      (k_remote (demo_peer a1) (fds ?b) 0x70001)" if "\<exists>q. ashv_serve 0x70001 a1 = Some (q, 5)"
    using that f by (auto simp: served_reply_def demo_peer_def)
  have "a1 = with_segment demo_kernel 9 0x1000 0x70001 (?a\<lparr>links := (links ?a)(9 \<mapsto> 0x70001)\<rparr>)"
    using shmget_new_key [OF demo_serving [of 7] k(1) k(7,5,2,3), of 0 "0x1000" 0] a1 by (simp add: demo_next_shmid)
  then have "ashv_serve 0x70001 a1 = Some (9, 5)"
    using k by (simp add: ashv_serve_def ashv_find_local_index_def with_segment_def fresh_segment_def demo_process_def)
  with sr have sr': "served_reply (\<lambda>d. if d = 5 then 1 else 2) (\<lambda>d. if d = 6 then 1 else 2) (\<lambda>r. if r = 1 then 0x1000 else 0) 0x70001 a1
      (k_remote (demo_peer a1) (fds ?b) 0x70001)" by blast
  have sA: "serving demo_kernel ?a" by (rule demo_serving) simp_all
  have h: "next_shmid ?a \<noteq> 0" "next_shmid ?a \<notin> seg_id ` set (shmem ?a)" "ROUND_UP 0x1000 (k_page demo_kernel) \<noteq> 0"
    "ROUND_UP 0x1000 (k_page demo_kernel) < 0x80000000" "links ?b = links a1" "0x70001 \<notin> seg_id ` set (shmem ?b)"
    "ashv_socket_id_from_shmid 0x70001 \<noteq> ashv_local_socket_id ?b"
    "(\<lambda>r :: nat. if r = 1 then 0x1000 else 0) ((\<lambda>d. if d = 5 then 1 else 2) (k_region demo_kernel (fds ?a)))
      = uint (ROUND_UP 0x1000 (k_page demo_kernel))"
    using k b by (simp_all add: demo_next_shmid)
  note th = key_shared_between_processes [OF sA k(1) k(7,5,2,3) h(1-4) a1 h(8) sB h(5-7) sr', of 0 "0x1000" 0]
  obtain b1 x where b1: "shmget (demo_peer a1) (Suc 0) 9 0x1000 0 ?b = Some (0x70001, b1)" "shmem b1 = shmem ?b @ [x]"
    "seg_key x = 9" "seg_size x = ROUND_UP 0x1000 (k_page demo_kernel)"
    "(if descriptor x = 6 then 1 else 2) = (if k_region demo_kernel (fds ?a) = 5 then 1 else (2 :: nat))"
    using conjunct2 [OF th] by (elim exE conjE) (rule that)
  have "descriptor x = 6" using b1(5) k(8) by (simp split: if_splits)
  moreover have "shmem b1 = [x]" "seg_size x = 0x1000" using b1(2,4) b(1) k(4) by simp_all
  ultimately show ?thesis unfolding One_nat_def using a1 b1(1,3) by blast
qed

text \<open>C20: When the directory of the links can be written, other processes put links in the way in the
  first \<open>N\<close> rounds only, and no link that is read leads to the socket of the process itself, the
  search of \<open>shmget\<close> for the owner of a key ends after at most \<open>N + 1\<close> rounds. When the directory cannot
  be written and there is no link for the key, it never ends.\<close>

theorem key_search_ends:
  assumes "serving e s" "k \<noteq> IPC_PRIVATE" "\<forall>m \<ge> N. k_rival e m = None"
  shows "(k_tmp_writable e \<and> (\<forall>m t. k_rival e m = Some t \<longrightarrow> ashv_socket_id_from_shmid t \<noteq> ashv_local_socket_id s)
      \<and> (\<forall>t. links s k = Some t \<longrightarrow> ashv_socket_id_from_shmid t \<noteq> ashv_local_socket_id s)
      \<longrightarrow> (\<exists>r. shmget e (Suc N) k sz fl s = Some r))
    \<and> (\<not> k_tmp_writable e \<and> N = 0 \<and> links s k = None \<longrightarrow> shmget e fuel k sz fl s = None)"
proof -
  define s1 where "s1 = s\<lparr>ashv_pid_setup := k_pid e\<rparr>"
  have st: "start_listening e s1 = (True, s1)" using assms by (simp add: s1_def serving_def)
  have g: "shmget e f k sz fl s = own_key e k f 0 (-1) s1 \<bind> (\<lambda>(ow, s2). Some (case ow of Inl i \<Rightarrow> (i, s2)
      | Inr i \<Rightarrow> create_segment e k sz i s2))" for f
    using assms(1,2) st by (simp add: shmget_def serving_def s1_def [symmetric])
  have "\<exists>r. shmget e (Suc N) k sz fl s = Some r" if "k_tmp_writable e"
      "\<forall>m t. k_rival e m = Some t \<longrightarrow> ashv_socket_id_from_shmid t \<noteq> ashv_local_socket_id s"
      "\<forall>t. links s k = Some t \<longrightarrow> ashv_socket_id_from_shmid t \<noteq> ashv_local_socket_id s"
  proof -
    have "\<exists>r. own_key e k (Suc N) 0 (-1) s1 = Some r"
      using own_key_returns [OF that(1) assms(3) that(2), where s = s1 and n = 0 and fuel = "Suc N"] that(3) by (simp add: s1_def)
    then obtain ow s2 where "own_key e k (Suc N) 0 (-1) s1 = Some (ow, s2)" by auto
    then show ?thesis by (simp add: g del: own_key.simps)
  qed
  moreover have "shmget e fuel k sz fl s = None" if "\<not> k_tmp_writable e" "N = 0" "links s k = None"
    using own_key_unwritable [OF that(1), where s = s1 and n = 0] that(2,3) assms(3) by (simp add: g s1_def)
  ultimately show ?thesis by blast
qed

theorem key_search_ends_witness:
  "\<exists>r. shmget demo_kernel 1 9 0x1000 0 (demo_process 7 7) = Some r"
  using key_search_ends [OF demo_serving [of 7], where k = 9 and N = 0 and sz = "0x1000" and fl = 0]
  by (simp add: IPC_PRIVATE_def) (simp add: demo_kernel_def demo_process_def)

end
