(* ===== verification/Fences.thy ===== *)
theory Fences
  imports Prelude
begin

text \<open>
  Shared memory fences: \<open>lorie/xshmfence.c\<close> chooses between the futex and the pthread version of
  \<open>libxshmfence\<close> (\<open>xshmfence_futex.c\<close>, \<open>xshmfence_pthread.c\<close>), both of which are modelled.

  Fences are used by several threads and processes. Each version is a step relation on the shared
  words and a program counter per thread; one step is one atomic access, one system call or one
  critical section. The actions record what a step means for the fence, and both versions are
  shown to refine a flag that is set and cleared and that lets waiting threads through while it
  is set.
\<close>

section \<open>The interface\<close>

text \<open>What a step does: set or clear the flag, return from \<open>await\<close> with 0 or with -1, or nothing visible.\<close>

datatype action = SetFlag | ClearFlag | Return nat | Fail nat | Silent

text \<open>The abstract fence.\<close>

fun flag_step :: "action \<Rightarrow> bool \<Rightarrow> bool \<Rightarrow> bool" where
  "flag_step SetFlag b b' \<longleftrightarrow> b'"
| "flag_step ClearFlag b b' \<longleftrightarrow> \<not> b'"
| "flag_step (Return t) b b' \<longleftrightarrow> b \<and> b'"
| "flag_step (Fail t) b b' \<longleftrightarrow> b' = b"
| "flag_step Silent b b' \<longleftrightarrow> b' = b"

inductive runs :: "(action \<Rightarrow> 's \<Rightarrow> 's \<Rightarrow> bool) \<Rightarrow> 's \<Rightarrow> action list \<Rightarrow> 's \<Rightarrow> bool"
  for step :: "action \<Rightarrow> 's \<Rightarrow> 's \<Rightarrow> bool" and s0 :: 's where
  none: "runs step s0 [] s0"
| more: "runs step s0 tr s \<Longrightarrow> step a s s' \<Longrightarrow> runs step s0 (tr @ [a]) s'"

inductive_cases runs_NilE: "runs step s0 [] s"

text \<open>The flag after a sequence of actions.\<close>

definition flag_of :: "action list \<Rightarrow> bool" where
  "flag_of tr = foldl (\<lambda>b a. case a of SetFlag \<Rightarrow> True | ClearFlag \<Rightarrow> False | _ \<Rightarrow> b) False tr"

lemma flag_of_simps [simp]:
  "flag_of [] = False"
  "flag_of (tr @ [a]) = (case a of SetFlag \<Rightarrow> True | ClearFlag \<Rightarrow> False | _ \<Rightarrow> flag_of tr)"
  by (simp add: flag_of_def) (cases a; simp add: flag_of_def)

definition returns_when_set :: "action list \<Rightarrow> bool" where
  "returns_when_set tr \<longleftrightarrow> (\<forall>us t vs. tr = us @ Return t # vs \<longrightarrow> flag_of us)"

lemma returns_when_set_snoc:
  "returns_when_set (tr @ [a]) \<longleftrightarrow> returns_when_set tr \<and> (\<forall>t. a = Return t \<longrightarrow> flag_of tr)"
proof
  assume r: "returns_when_set (tr @ [a])"
  have "flag_of us" if "tr = us @ Return t # vs" for us t vs
    using r that unfolding returns_when_set_def by (metis append.assoc append_Cons)
  then show "returns_when_set tr \<and> (\<forall>t. a = Return t \<longrightarrow> flag_of tr)"
    using r unfolding returns_when_set_def by blast
next
  assume r: "returns_when_set tr \<and> (\<forall>t. a = Return t \<longrightarrow> flag_of tr)"
  have "flag_of us" if "tr @ [a] = us @ Return t # vs" for us t vs
  proof (cases vs rule: rev_cases)
    case Nil
    then show ?thesis using that r by simp
  next
    case (snoc vs' x)
    then have "tr = us @ Return t # vs'" using that by simp
    then show ?thesis using r by (auto simp: returns_when_set_def)
  qed
  then show "returns_when_set (tr @ [a])" by (simp add: returns_when_set_def)
qed

text \<open>
  A fence for many threads: \<open>triggered\<close> is the flag, \<open>asleep\<close> the threads the kernel has put to
  sleep and \<open>waking\<close> says that some thread is about to wake them.
\<close>

locale fence =
  fixes step :: "action \<Rightarrow> 's \<Rightarrow> 's \<Rightarrow> bool" and s0 :: 's and ok :: "'s \<Rightarrow> bool"
    and triggered :: "'s \<Rightarrow> bool" and asleep :: "'s \<Rightarrow> nat set" and waking :: "'s \<Rightarrow> bool"
  assumes start_ok: "ok s0" and start_clear: "\<not> triggered s0"
    and step_ok: "ok s \<Longrightarrow> step a s s' \<Longrightarrow> ok s'"
    and step_flag: "ok s \<Longrightarrow> step a s s' \<Longrightarrow> flag_step a (triggered s) (triggered s')"
    and none_stuck: "ok s \<Longrightarrow> triggered s \<Longrightarrow> asleep s \<noteq> {} \<Longrightarrow> waking s"
begin

lemma reach_ok: "runs step s0 tr s \<Longrightarrow> ok s"
  by (induction rule: runs.induct) (auto intro: start_ok step_ok)

lemma reach_flag: "runs step s0 tr s \<Longrightarrow> triggered s = flag_of tr \<and> returns_when_set tr"
proof (induction rule: runs.induct)
  case none
  then show ?case using start_clear by (simp add: returns_when_set_def)
next
  case (more tr s a s')
  note f = step_flag [OF reach_ok [OF more(1)] more(2)]
  show ?case using more.IH f by (cases a) (auto simp: returns_when_set_snoc)
qed

lemma reach_not_stuck: "runs step s0 tr s \<Longrightarrow> flag_of tr \<Longrightarrow> asleep s \<noteq> {} \<Longrightarrow> waking s"
  using none_stuck reach_ok reach_flag by blast

end

section \<open>The futex version\<close>

text \<open>
  The word is 0, 1 (triggered) or -1 (not triggered, threads wait). Program counters: \<open>Idle\<close>
  between calls; \<open>AwaitCas\<close> before the compare-and-swap of \<open>await\<close>, \<open>AwaitCall\<close> before \<open>futex_wait\<close>,
  \<open>AwaitSleep\<close> inside; \<open>TriggerStore\<close> and \<open>TriggerWake\<close> after the compare-and-swap of \<open>trigger\<close> found -1.
\<close>

datatype futex_pc = Idle | AwaitCas | AwaitCall | AwaitSleep | TriggerStore | TriggerWake

record futex =
  word_v :: int
  fpc :: "nat \<Rightarrow> futex_pc"

definition at :: "nat \<Rightarrow> futex_pc \<Rightarrow> futex \<Rightarrow> futex" where
  "at t p s = s\<lparr>fpc := (fpc s)(t := p)\<rparr>"

text \<open>\<open>__sync_val_compare_and_swap\<close>: the old value and the new contents.\<close>

definition cas :: "int \<Rightarrow> int \<Rightarrow> int \<Rightarrow> int \<times> int" where
  "cas v old new = (v, if v = old then new else v)"

definition futex_trigger_start :: "nat \<Rightarrow> futex \<Rightarrow> action \<times> futex" where
  "futex_trigger_start t s =
     (let (r, v) = cas (word_v s) 0 1
      in if r = -1 then (Silent, at t TriggerStore (s\<lparr>word_v := v\<rparr>))
         else (if r = 0 then SetFlag else Silent, s\<lparr>word_v := v\<rparr>))"

definition futex_trigger_store :: "nat \<Rightarrow> futex \<Rightarrow> action \<times> futex" where
  "futex_trigger_store t s = (SetFlag, at t TriggerWake (s\<lparr>word_v := 1\<rparr>))"

definition futex_trigger_wake :: "nat \<Rightarrow> futex \<Rightarrow> action \<times> futex" where
  "futex_trigger_wake t s =
     (Silent, at t Idle (s\<lparr>fpc := \<lambda>u. if fpc s u = AwaitSleep then AwaitCas else fpc s u\<rparr>))"

definition futex_await_cas :: "nat \<Rightarrow> futex \<Rightarrow> action \<times> futex" where
  "futex_await_cas t s =
     (let (r, v) = cas (word_v s) 0 (-1)
      in if r \<noteq> 1 then (Silent, at t AwaitCall (s\<lparr>word_v := v\<rparr>))
         else (Return t, at t Idle (s\<lparr>word_v := v\<rparr>)))"

text \<open>\<open>futex_wait (&f->v, -1)\<close> compares and goes to sleep atomically; otherwise the error is \<open>EWOULDBLOCK\<close>.\<close>

definition futex_await_call :: "nat \<Rightarrow> futex \<Rightarrow> action \<times> futex" where
  "futex_await_call t s = (Silent, at t (if word_v s = -1 then AwaitSleep else AwaitCas) s)"

definition futex_reset :: "nat \<Rightarrow> futex \<Rightarrow> action \<times> futex" where
  "futex_reset t s = (let (r, v) = cas (word_v s) 1 0 in (ClearFlag, s\<lparr>word_v := v\<rparr>))"

definition futex_query :: "futex \<Rightarrow> bool" where
  "futex_query s \<longleftrightarrow> word_v s = 1"

inductive futex_step :: "action \<Rightarrow> futex \<Rightarrow> futex \<Rightarrow> bool" where
  trigger: "fpc s t = Idle \<Longrightarrow> futex_trigger_start t s = (a, s') \<Longrightarrow> futex_step a s s'"
| store: "fpc s t = TriggerStore \<Longrightarrow> futex_trigger_store t s = (a, s') \<Longrightarrow> futex_step a s s'"
| wake: "fpc s t = TriggerWake \<Longrightarrow> futex_trigger_wake t s = (a, s') \<Longrightarrow> futex_step a s s'"
| await: "fpc s t = Idle \<Longrightarrow> futex_step Silent s (at t AwaitCas s)"
| cas: "fpc s t = AwaitCas \<Longrightarrow> futex_await_cas t s = (a, s') \<Longrightarrow> futex_step a s s'"
| call: "fpc s t = AwaitCall \<Longrightarrow> futex_await_call t s = (a, s') \<Longrightarrow> futex_step a s s'"
| spurious: "fpc s t = AwaitSleep \<Longrightarrow> futex_step Silent s (at t AwaitCas s)"
| interrupted: "fpc s t = AwaitSleep \<Longrightarrow> futex_step (Fail t) s (at t Idle s)"
| reset: "fpc s t = Idle \<Longrightarrow> futex_reset t s = (a, s') \<Longrightarrow> futex_step a s s'"

inductive_cases futex_stepE: "futex_step a s s'"

definition futex_start :: futex where
  "futex_start = \<lparr>word_v = 0, fpc = \<lambda>_. Idle\<rparr>"

definition futex_asleep :: "futex \<Rightarrow> nat set" where
  "futex_asleep s = {t. fpc s t = AwaitSleep}"

definition futex_waking :: "futex \<Rightarrow> bool" where
  "futex_waking s \<longleftrightarrow> (\<exists>t. fpc s t = TriggerWake)"

definition futex_ok :: "futex \<Rightarrow> bool" where
  "futex_ok s \<longleftrightarrow> word_v s \<in> {0, 1, -1}
     \<and> (\<forall>t. fpc s t = AwaitSleep \<longrightarrow> word_v s = -1 \<or> futex_waking s)"

named_theorems futex_defs \<open>the atomic steps of the futex version\<close>

declare futex_trigger_start_def [futex_defs] futex_trigger_store_def [futex_defs] futex_trigger_wake_def [futex_defs]
  futex_await_cas_def [futex_defs] futex_await_call_def [futex_defs] futex_reset_def [futex_defs]
  cas_def [futex_defs]

lemma futex_step_flag:
  "futex_ok s \<Longrightarrow> futex_step a s s' \<Longrightarrow> flag_step a (futex_query s) (futex_query s')"
  by (erule futex_stepE) (auto simp: futex_ok_def futex_query_def futex_defs at_def Let_def split: if_splits)

lemma futex_ok_at:
  assumes "futex_ok s" "fpc s t \<noteq> TriggerWake" "v \<in> {0, 1, -1}" "p = AwaitSleep \<Longrightarrow> v = -1"
    "word_v s = -1 \<Longrightarrow> v = -1 \<or> p = TriggerWake"
  shows "futex_ok (at t p (s\<lparr>word_v := v\<rparr>))"
proof -
  have "v = -1 \<or> futex_waking (at t p (s\<lparr>word_v := v\<rparr>))" if a: "fpc (at t p (s\<lparr>word_v := v\<rparr>)) u = AwaitSleep" for u
  proof (cases "u = t")
    case True
    then show ?thesis using a assms(4) by (simp add: at_def)
  next
    case False
    then have "word_v s = -1 \<or> futex_waking s" using a assms(1) by (auto simp: at_def futex_ok_def)
    moreover have "futex_waking (at t p (s\<lparr>word_v := v\<rparr>))" if "futex_waking s"
      using that assms(2) unfolding futex_waking_def at_def by (auto intro: exI)
    moreover have "futex_waking (at t p (s\<lparr>word_v := v\<rparr>))" if "p = TriggerWake"
      using that unfolding futex_waking_def at_def by (intro exI [of _ t]) simp
    ultimately show ?thesis using assms(5) by blast
  qed
  then show ?thesis using assms(3) by (auto simp: futex_ok_def at_def)
qed

lemma futex_ok_word:
  "futex_ok s \<Longrightarrow> v \<in> {0, 1, -1} \<Longrightarrow> (word_v s = -1 \<Longrightarrow> v = -1) \<Longrightarrow> futex_ok (s\<lparr>word_v := v\<rparr>)"
  by (auto simp: futex_ok_def futex_waking_def)

lemma futex_ok_same: "futex_ok s \<Longrightarrow> fpc s t \<noteq> TriggerWake \<Longrightarrow> p \<noteq> AwaitSleep \<or> word_v s = -1 \<Longrightarrow> futex_ok (at t p s)"
  using futex_ok_at [of s t "word_v s" p] by (auto simp: futex_ok_def)

lemma futex_step_ok:
  assumes "futex_ok s" "futex_step a s s'" shows "futex_ok s'"
proof -
  have v: "word_v s = 0 \<or> word_v s = 1 \<or> word_v s = -1" using assms(1) by (simp add: futex_ok_def)
  show ?thesis
  using assms(2)
proof cases
  case (trigger t)
  then show ?thesis
    using assms(1) v by (auto simp: futex_defs Let_def split: if_splits intro!: futex_ok_at futex_ok_word)
next
  case (store t)
  then show ?thesis using assms(1) futex_ok_at [of s t 1 TriggerWake] by (simp add: futex_defs)
next
  case (wake t)
  then have "fpc s' u \<noteq> AwaitSleep" for u
    by (cases "u = t"; cases "fpc s u = AwaitSleep") (auto simp: futex_defs at_def)
  moreover have "word_v s' = word_v s" using wake by (auto simp: futex_defs at_def)
  ultimately show ?thesis using assms(1) by (simp add: futex_ok_def)
next
  case (cas t)
  then show ?thesis
    using assms(1) v by (auto simp: futex_defs Let_def split: if_splits intro!: futex_ok_at)
next
  case (call t)
  then show ?thesis using assms(1) by (auto simp: futex_defs intro!: futex_ok_same)
next
  case (reset t)
  then show ?thesis
    using assms(1) v by (auto simp: futex_defs Let_def split: if_splits intro!: futex_ok_word)
qed (use assms(1) in \<open>auto intro!: futex_ok_same\<close>)
qed

interpretation fx: fence futex_step futex_start futex_ok futex_query futex_asleep futex_waking
proof
  show "futex_ok futex_start" by (simp add: futex_ok_def futex_start_def)
  show "\<not> futex_query futex_start" by (simp add: futex_query_def futex_start_def)
  show "futex_ok s \<Longrightarrow> futex_query s \<Longrightarrow> futex_asleep s \<noteq> {} \<Longrightarrow> futex_waking s" for s
    by (auto simp: futex_ok_def futex_query_def futex_asleep_def)
qed (blast intro: futex_step_ok futex_step_flag)+

section \<open>The pthread version\<close>

text \<open>
  Each step is a critical section of the mutex. \<open>Waiting\<close> is a thread inside \<open>pthread_cond_wait\<close>;
  a broadcast or a spurious wake-up takes it back to the test of the loop.
\<close>

datatype pthread_pc = Outside | Testing | Waiting

record pthread =
  p_value :: int
  p_waiting :: int
  ppc :: "nat \<Rightarrow> pthread_pc"

definition pthread_trigger :: "pthread \<Rightarrow> action \<times> pthread" where
  "pthread_trigger s =
     (if p_value s = 0 then
        let s1 = s\<lparr>p_value := 1\<rparr>
        in (SetFlag, if p_waiting s1 \<noteq> 0
              then s1\<lparr>p_waiting := 0, ppc := \<lambda>u. if ppc s1 u = Waiting then Testing else ppc s1 u\<rparr> else s1)
      else (Silent, s))"

definition pthread_await :: "nat \<Rightarrow> pthread \<Rightarrow> action \<times> pthread" where
  "pthread_await t s =
     (if p_value s = 0 then (Silent, s\<lparr>p_waiting := 1, ppc := (ppc s)(t := Waiting)\<rparr>)
      else (Return t, s\<lparr>ppc := (ppc s)(t := Outside)\<rparr>))"

definition pthread_query :: "pthread \<Rightarrow> int" where
  "pthread_query s = p_value s"

definition pthread_reset :: "pthread \<Rightarrow> action \<times> pthread" where
  "pthread_reset s = (ClearFlag, s\<lparr>p_value := 0\<rparr>)"

inductive pthread_step :: "action \<Rightarrow> pthread \<Rightarrow> pthread \<Rightarrow> bool" where
  trigger: "ppc s t = Outside \<Longrightarrow> pthread_trigger s = (a, s') \<Longrightarrow> pthread_step a s s'"
| await: "ppc s t = Outside \<or> ppc s t = Testing \<Longrightarrow> pthread_await t s = (a, s') \<Longrightarrow> pthread_step a s s'"
| spurious: "ppc s t = Waiting \<Longrightarrow> pthread_step Silent s (s\<lparr>ppc := (ppc s)(t := Testing)\<rparr>)"
| reset: "ppc s t = Outside \<Longrightarrow> pthread_reset s = (a, s') \<Longrightarrow> pthread_step a s s'"

inductive_cases pthread_stepE: "pthread_step a s s'"

definition pthread_start :: pthread where
  "pthread_start = \<lparr>p_value = 0, p_waiting = 0, ppc = \<lambda>_. Outside\<rparr>"

definition pthread_asleep :: "pthread \<Rightarrow> nat set" where
  "pthread_asleep s = {t. ppc s t = Waiting}"

definition pthread_ok :: "pthread \<Rightarrow> bool" where
  "pthread_ok s \<longleftrightarrow> p_value s \<in> {0, 1} \<and> (\<forall>t. ppc s t = Waiting \<longrightarrow> p_waiting s \<noteq> 0 \<and> p_value s = 0)"

named_theorems pthread_defs \<open>the critical sections of the pthread version\<close>

declare pthread_trigger_def [pthread_defs] pthread_await_def [pthread_defs] pthread_reset_def [pthread_defs]
  pthread_ok_def [pthread_defs] pthread_query_def [pthread_defs] pthread_asleep_def [pthread_defs]

lemma pthread_step_ok: "pthread_ok s \<Longrightarrow> pthread_step a s s' \<Longrightarrow> pthread_ok s'"
  by (erule pthread_stepE) (auto simp: pthread_defs Let_def split: if_splits)

lemma pthread_step_flag:
  "pthread_ok s \<Longrightarrow> pthread_step a s s' \<Longrightarrow> flag_step a (pthread_query s = 1) (pthread_query s' = 1)"
  by (erule pthread_stepE) (auto simp: pthread_defs Let_def split: if_splits)

interpretation pt: fence pthread_step pthread_start pthread_ok "\<lambda>s. pthread_query s = 1" pthread_asleep "\<lambda>_. False"
proof
  show "pthread_ok pthread_start" by (simp add: pthread_defs pthread_start_def)
  show "pthread_query pthread_start \<noteq> 1" by (simp add: pthread_defs pthread_start_def)
  show "pthread_ok s \<Longrightarrow> pthread_query s = 1 \<Longrightarrow> pthread_asleep s \<noteq> {} \<Longrightarrow> False" for s
    by (auto simp: pthread_defs)
qed (blast intro: pthread_step_ok pthread_step_flag)+

section \<open>The choice between the versions\<close>

text \<open>
  \<open>xshmfence_map_shm\<close> takes the futex version exactly for files of four bytes. The arguments are
  the success of \<open>calloc\<close>, the size \<open>fstat\<close> reports (0 when it fails), and the mapped fences
  (\<open>None\<close> when \<open>mmap\<close> failed); the file of a fence holds the state of one version.
\<close>

datatype xshmfence = Futex futex | Pthread pthread

definition xshmfence_map_shm :: "bool \<Rightarrow> u64 \<Rightarrow> futex option \<Rightarrow> pthread option \<Rightarrow> xshmfence option" where
  "xshmfence_map_shm calloc_ok st_size fm pm =
     (if \<not> calloc_ok then None
      else if st_size = 4 then map_option Futex fm else map_option Pthread pm)"

fun xshmfence_query :: "xshmfence \<Rightarrow> int" where
  "xshmfence_query (Futex s) = (if futex_query s then 1 else 0)"
| "xshmfence_query (Pthread s) = pthread_query s"

fun xshmfence_asleep :: "xshmfence \<Rightarrow> nat set" where
  "xshmfence_asleep (Futex s) = futex_asleep s"
| "xshmfence_asleep (Pthread s) = pthread_asleep s"

fun xshmfence_waking :: "xshmfence \<Rightarrow> bool" where
  "xshmfence_waking (Futex s) = futex_waking s"
| "xshmfence_waking (Pthread s) = False"

fun xshmfence_ok :: "xshmfence \<Rightarrow> bool" where
  "xshmfence_ok (Futex s) = futex_ok s"
| "xshmfence_ok (Pthread s) = pthread_ok s"

text \<open>The calls of \<open>xshmfence.c\<close> hand every call to the version the fence was mapped with.\<close>

inductive xshmfence_step :: "action \<Rightarrow> xshmfence \<Rightarrow> xshmfence \<Rightarrow> bool" where
  "futex_step a s s' \<Longrightarrow> xshmfence_step a (Futex s) (Futex s')"
| "pthread_step a s s' \<Longrightarrow> xshmfence_step a (Pthread s) (Pthread s')"

inductive_cases xshmfence_stepE: "xshmfence_step a f f'"

definition new_fence :: "u64 \<Rightarrow> xshmfence" where
  "new_fence n = (if n = 4 then Futex futex_start else Pthread pthread_start)"

lemma new_fence_mapped: "xshmfence_map_shm True n (Some futex_start) (Some pthread_start) = Some (new_fence n)"
  by (simp add: xshmfence_map_shm_def new_fence_def)

interpretation xf: fence xshmfence_step "new_fence n" xshmfence_ok "\<lambda>f. xshmfence_query f = 1" xshmfence_asleep xshmfence_waking for n
proof
  show "xshmfence_ok (new_fence n)" by (simp add: new_fence_def fx.start_ok pt.start_ok)
  show "xshmfence_query (new_fence n) \<noteq> 1"
    using fx.start_clear pt.start_clear by (simp add: new_fence_def)
  show "xshmfence_ok s \<Longrightarrow> xshmfence_step a s s' \<Longrightarrow> xshmfence_ok s'" for a s s'
    by (auto elim!: xshmfence_stepE intro: futex_step_ok pthread_step_ok)
  show "xshmfence_ok s \<Longrightarrow> xshmfence_step a s s' \<Longrightarrow> flag_step a (xshmfence_query s = 1) (xshmfence_query s' = 1)" for a s s'
    using futex_step_flag pthread_step_flag by (fastforce elim!: xshmfence_stepE)
  show "xshmfence_ok s \<Longrightarrow> xshmfence_query s = 1 \<Longrightarrow> xshmfence_asleep s \<noteq> {} \<Longrightarrow> xshmfence_waking s" for s
    using fx.none_stuck pt.none_stuck by (cases s) (auto split: if_splits)
qed


section \<open>Properties\<close>

text \<open>C22: A mapped fence, whichever version it is, behaves as a flag for every interleaving of the calls of all threads:
  the query says whether the flag was set last, and a wait returns 0 only while the flag is set.\<close>

theorem fence_is_a_flag:
  assumes "runs xshmfence_step (new_fence n) tr f"
  shows "(xshmfence_query f = 1 \<longleftrightarrow> flag_of tr) \<and> returns_when_set tr"
  using xf.reach_flag [OF assms] .

theorem fence_is_a_flag_witness:
  "\<exists>f. runs xshmfence_step (new_fence 8) [SetFlag] f \<and> xshmfence_query f = 1 \<and> returns_when_set [SetFlag]"
proof -
  have "pthread_trigger pthread_start = (SetFlag, pthread_start\<lparr>p_value := 1\<rparr>)"
    by (simp add: pthread_trigger_def pthread_start_def)
  then have "pthread_step SetFlag pthread_start (pthread_start\<lparr>p_value := 1\<rparr>)"
    by (rule pthread_step.trigger [rotated]) (simp add: pthread_start_def)
  then have "xshmfence_step SetFlag (new_fence 8) (Pthread (pthread_start\<lparr>p_value := 1\<rparr>))"
    by (simp add: new_fence_def xshmfence_step.intros)
  from runs.more [OF runs.none [of xshmfence_step] this] have "runs xshmfence_step (new_fence 8) [SetFlag] (Pthread (pthread_start\<lparr>p_value := 1\<rparr>))"
    by simp
  from this fence_is_a_flag [OF this] show ?thesis by (auto simp: flag_of_def pthread_query_def)
qed

text \<open>C23: No wake-up is lost in the futex version: when the fence is triggered and no thread is about to wake the
  sleepers, no thread sleeps, and a waiting thread returns from its wait with at most two further steps.\<close>

theorem triggered_waits_return:
  assumes "runs futex_step futex_start tr s" "flag_of tr" "\<not> futex_waking s"
    "fpc s t \<in> {AwaitCas, AwaitCall, AwaitSleep}"
  shows "fpc s t \<noteq> AwaitSleep
    \<and> (\<exists>us s'. runs futex_step futex_start (tr @ us @ [Return t]) s' \<and> length us \<le> 1 \<and> fpc s' t = Idle)"
proof -
  have v: "word_v s = 1" using fx.reach_flag [OF assms(1)] assms(2) by (simp add: futex_query_def)
  have n: "fpc s t \<noteq> AwaitSleep"
    using fx.reach_not_stuck [OF assms(1,2)] assms(3) by (auto simp: futex_asleep_def)
  have ret: "runs futex_step futex_start (tr' @ [Return t]) (at t Idle r)"
    if "runs futex_step futex_start tr' r" "word_v r = 1" "fpc r t = AwaitCas" for tr' r
  proof -
    have e: "r\<lparr>word_v := 1\<rparr> = r" using that(2) by (cases r) simp
    have "futex_await_cas t r = (Return t, at t Idle r)"
      unfolding futex_await_cas_def cas_def by (simp add: that(2)) (simp only: e)
    then show ?thesis
      using that(1) futex_step.cas [OF that(3)] by (blast intro: runs.more)
  qed
  show ?thesis
  proof (cases "fpc s t = AwaitCas")
    case True
    then show ?thesis
      using n ret [OF assms(1) v] by (intro conjI exI [of _ "[]"] exI [of _ "at t Idle s"]) (auto simp: at_def)
  next
    case False
    then have "futex_step Silent s (at t AwaitCas s)"
      using assms(4) n v by (intro futex_step.call [of s t]) (auto simp: futex_await_call_def)
    from runs.more [OF assms(1) this] have "runs futex_step futex_start (tr @ [Silent]) (at t AwaitCas s)" .
    from ret [OF this] have "runs futex_step futex_start ((tr @ [Silent]) @ [Return t]) (at t Idle (at t AwaitCas s))"
      using v by (simp add: at_def)
    then show ?thesis
      using n by (intro conjI exI [of _ "[Silent]"] exI [of _ "at t Idle (at t AwaitCas s)"]) (auto simp: at_def)
  qed
qed

theorem triggered_waits_return_witness:
  "\<exists>tr s us s'. runs futex_step futex_start tr s \<and> flag_of tr \<and> fpc s 1 = AwaitCas
     \<and> runs futex_step futex_start (tr @ us @ [Return 1]) s' \<and> fpc s' 1 = Idle"
proof -
  let ?s1 = "at 1 AwaitCas futex_start"
  let ?s2 = "at 1 AwaitCall (?s1\<lparr>word_v := -1\<rparr>)"
  let ?s3 = "at 1 AwaitSleep ?s2"
  let ?s4 = "at 2 TriggerStore (?s3\<lparr>word_v := -1\<rparr>)"
  let ?s5 = "at 2 TriggerWake (?s4\<lparr>word_v := 1\<rparr>)"
  let ?s6 = "snd (futex_trigger_wake 2 ?s5)"
  note d = futex_start_def at_def futex_defs
  have "futex_step Silent futex_start ?s1" by (rule futex_step.await) (simp add: futex_start_def)
  note r = runs.more [OF runs.none [of futex_step futex_start] this]
  have "futex_step Silent ?s1 ?s2" by (rule futex_step.cas [where t = 1]) (simp_all add: d)
  note r = runs.more [OF r this]
  have "futex_step Silent ?s2 ?s3" by (rule futex_step.call [where t = 1]) (simp_all add: d)
  note r = runs.more [OF r this]
  have "futex_step Silent ?s3 ?s4" by (rule futex_step.trigger [where t = 2]) (simp_all add: d)
  note r = runs.more [OF r this]
  have "futex_step SetFlag ?s4 ?s5" by (rule futex_step.store [where t = 2]) (simp_all add: d)
  note r = runs.more [OF r this]
  have "futex_step Silent ?s5 ?s6" by (rule futex_step.wake [where t = 2]) (simp_all add: d)
  note r = runs.more [OF r this]
  have c: "flag_of ((((((([] @ [Silent]) @ [Silent]) @ [Silent]) @ [Silent]) @ [SetFlag]) @ [Silent]))"
    by (simp add: flag_of_def)
  have w: "\<not> futex_waking ?s6" "fpc ?s6 1 = AwaitCas" by (auto simp: d futex_waking_def)
  from triggered_waits_return [OF r c w(1), of 1] r c w(2) show ?thesis by blast
qed

end
