(* ===== verification/Resources.thy ===== *)
theory Resources
  imports Prelude "HOL-Library.Sublist" "HOL-Library.Multiset"
begin

text \<open>
  The resource database of \<open>xserver/dix/resource.c\<close>: one hash table per client that maps XIDs to
  resources, resource types and classes, the identifiers the server allocates for itself, and the
  range and list of unused identifiers of \<open>XC-MISC\<close>.

  A chain of the hash table is the list of its cells. The functions that destroy resources belong
  to other components; they are the parameter \<open>del\<close>, which is given the number of the function, the value and
  the identifier, and works on the whole state, since destroying a window destroys other
  resources. \<open>None\<close> stands for a fatal error, an access outside an array, or the use of a bucket of
  a table that was replaced meanwhile.
\<close>

section \<open>State\<close>

type_synonym XID = u32
type_synonym RESTYPE = u32

record ResourceRec =
  res_id :: XID
  res_type :: RESTYPE
  res_value :: nat

record ClientResourceRec =
  resources :: "ResourceRec list list"
  elements :: nat
  buckets :: nat
  hashsize :: nat
  fakeID :: XID
  endFakeID :: XID

record ResourceType =
  deleteFunc :: nat
  sizeFunc :: nat
  findSubResFunc :: nat
  type_errorValue :: int

datatype res_event = Adding ResourceRec | Freeing ResourceRec | ClientException nat

record rs =
  clientTable :: "nat \<Rightarrow> ClientResourceRec"
  lastResourceType :: RESTYPE
  lastResourceClass :: RESTYPE
  TypeMask :: RESTYPE
  resourceTypes :: "ResourceType list"
  LimitClients :: nat
  client_errorValue :: "nat \<Rightarrow> u32"
  res_events :: "res_event list"

type_synonym 'z destroy = "nat \<Rightarrow> nat \<Rightarrow> XID \<Rightarrow> 'z rs_scheme \<Rightarrow> 'z rs_scheme"

definition RC_DRAWABLE :: RESTYPE where "RC_DRAWABLE = push_bit 30 1"
definition RC_NEVERRETAIN :: RESTYPE where "RC_NEVERRETAIN = push_bit 29 1"
definition RC_LASTPREDEF :: RESTYPE where "RC_LASTPREDEF = RC_NEVERRETAIN"
definition RC_ANY :: RESTYPE where "RC_ANY = NOT 0"
definition RT_LASTPREDEF :: RESTYPE where "RT_LASTPREDEF = 9"
definition SERVER_BIT :: u32 where "SERVER_BIT = 0x40000000"
definition SERVER_MINID :: u32 where "SERVER_MINID = 32"
definition INITBUCKETS :: nat where "INITBUCKETS = 64"
definition INITHASHSIZE :: nat where "INITHASHSIZE = 6"
definition MAXHASHSIZE :: nat where "MAXHASHSIZE = 16"

section \<open>Identifiers\<close>

fun ilog2_loop :: "nat \<Rightarrow> nat" where
  "ilog2_loop val = (if val = 0 then 0 else Suc (ilog2_loop (val div 2)))"

declare ilog2_loop.simps [simp del]

definition ilog2 :: "int \<Rightarrow> nat" where
  "ilog2 val = (if val \<le> 0 then 0 else ilog2_loop (nat val) - 1)"

definition ResourceClientBits :: "'z rs_scheme \<Rightarrow> nat" where
  "ResourceClientBits s = ilog2 (int (LimitClients s))"

definition CLIENTOFFSET :: "'z rs_scheme \<Rightarrow> nat" where
  "CLIENTOFFSET s = 29 - ResourceClientBits s"

definition RESOURCE_ID_MASK :: "'z rs_scheme \<Rightarrow> u32" where
  "RESOURCE_ID_MASK s = push_bit (CLIENTOFFSET s) 1 - 1"

definition RESOURCE_CLIENT_MASK :: "'z rs_scheme \<Rightarrow> u32" where
  "RESOURCE_CLIENT_MASK s = push_bit (CLIENTOFFSET s) (push_bit (ResourceClientBits s) 1 - 1)"

definition CLIENT_ID :: "'z rs_scheme \<Rightarrow> XID \<Rightarrow> nat" where
  "CLIENT_ID s i = unat (drop_bit (CLIENTOFFSET s) (i AND RESOURCE_CLIENT_MASK s))"

definition clientAsMask :: "'z rs_scheme \<Rightarrow> nat \<Rightarrow> u32" where
  "clientAsMask s c = push_bit (CLIENTOFFSET s) (word_of_nat c)"

text \<open>The static \<open>mask\<close> keeps the first value of \<open>RESOURCE_ID_MASK\<close>, which does not change after start-up.\<close>

definition HashResourceID :: "'z rs_scheme \<Rightarrow> XID \<Rightarrow> nat \<Rightarrow> nat" where
  "HashResourceID s i0 numBits =
     (let i = i0 AND RESOURCE_ID_MASK s
      in unat ((if numBits < 9 then i XOR drop_bit numBits i XOR drop_bit (2 * numBits) i
                else i XOR drop_bit numBits i) AND NOT (push_bit numBits (-1))))"

section \<open>Types and classes\<close>

definition CreateNewResourceType :: "bool \<Rightarrow> nat \<Rightarrow> 'z rs_scheme \<Rightarrow> RESTYPE \<times> 'z rs_scheme" where
  "CreateNewResourceType alloc_ok del s =
     (let next = lastResourceType s + 1
      in if next AND lastResourceClass s \<noteq> 0 then (0, s)
         else if \<not> alloc_ok then (0, s)
         else (next, s\<lparr>lastResourceType := next,
                resourceTypes := take (unat next) (resourceTypes s) @
                  [\<lparr>deleteFunc = del, sizeFunc = 0, findSubResFunc = 0, type_errorValue = 2\<rparr>]\<rparr>))"

definition CreateNewResourceClass :: "'z rs_scheme \<Rightarrow> RESTYPE \<times> 'z rs_scheme" where
  "CreateNewResourceClass s =
     (let next = drop_bit 1 (lastResourceClass s)
      in if next AND lastResourceType s \<noteq> 0 then (0, s)
         else (next, s\<lparr>lastResourceClass := next, TypeMask := next - 1\<rparr>))"

definition type_entry :: "'z rs_scheme \<Rightarrow> RESTYPE \<Rightarrow> ResourceType option" where
  "type_entry s t = rd (resourceTypes s) (unat (t AND TypeMask s))"

definition change_type :: "RESTYPE \<Rightarrow> (ResourceType \<Rightarrow> ResourceType) \<Rightarrow> 'z rs_scheme \<Rightarrow> 'z rs_scheme option" where
  "change_type t f s = do {
     x \<leftarrow> type_entry s t;
     Some (s\<lparr>resourceTypes := (resourceTypes s)[unat (t AND TypeMask s) := f x]\<rparr>) }"

definition GetResourceTypeSizeFunc :: "RESTYPE \<Rightarrow> 'z rs_scheme \<Rightarrow> nat option" where
  "GetResourceTypeSizeFunc t s = map_option sizeFunc (type_entry s t)"

definition SetResourceTypeSizeFunc :: "RESTYPE \<Rightarrow> nat \<Rightarrow> 'z rs_scheme \<Rightarrow> 'z rs_scheme option" where
  "SetResourceTypeSizeFunc t f s = change_type t (\<lambda>x. x\<lparr>sizeFunc := f\<rparr>) s"

definition SetResourceTypeFindSubResFunc :: "RESTYPE \<Rightarrow> nat \<Rightarrow> 'z rs_scheme \<Rightarrow> 'z rs_scheme option" where
  "SetResourceTypeFindSubResFunc t f s = change_type t (\<lambda>x. x\<lparr>findSubResFunc := f\<rparr>) s"

definition SetResourceTypeErrorValue :: "RESTYPE \<Rightarrow> int \<Rightarrow> 'z rs_scheme \<Rightarrow> 'z rs_scheme option" where
  "SetResourceTypeErrorValue t e s = change_type t (\<lambda>x. x\<lparr>type_errorValue := e\<rparr>) s"

section \<open>Tables of clients\<close>

definition set_client :: "nat \<Rightarrow> ClientResourceRec \<Rightarrow> 'z rs_scheme \<Rightarrow> 'z rs_scheme" where
  "set_client c r s = s\<lparr>clientTable := (clientTable s)(c := r)\<rparr>"

definition log_event :: "res_event \<Rightarrow> 'z rs_scheme \<Rightarrow> 'z rs_scheme" where
  "log_event e s = s\<lparr>res_events := res_events s @ [e]\<rparr>"

text \<open>The entries of \<open>predefTypes\<close>: number of the delete function, error value; size and sub-resource functions 0 are the defaults.\<close>

definition predefTypes :: "ResourceType list" where
  "predefTypes = map (\<lambda>(d, sz, f, e). \<lparr>deleteFunc = d, sizeFunc = sz, findSubResFunc = f, type_errorValue = e\<rparr>)
     [(0, 0, 0, 2), (1, 1, 1, 3), (2, 2, 0, 4), (3, 3, 3, 13), (4, 0, 0, 7), (5, 0, 0, 6), (6, 0, 0, 12),
      (7, 0, 0, 12), (8, 0, 0, 2), (9, 0, 0, 2)]"

definition InitClientResources :: "bool \<Rightarrow> bool \<Rightarrow> nat \<Rightarrow> 'z rs_scheme \<Rightarrow> bool \<times> 'z rs_scheme" where
  "InitClientResources types_ok table_ok c s0 =
     (let s1 = (if c = 0 then s0\<lparr>lastResourceType := RT_LASTPREDEF, lastResourceClass := RC_LASTPREDEF,
                              TypeMask := RC_LASTPREDEF - 1, resourceTypes := []\<rparr> else s0)
      in if c = 0 \<and> \<not> types_ok then (False, s1)
         else
           let s2 = (if c = 0 then s1\<lparr>resourceTypes := predefTypes\<rparr> else s1)
           in if \<not> table_ok then (False, set_client c ((clientTable s2 c)\<lparr>resources := []\<rparr>) s2)
              else
                let f = clientAsMask s2 c OR (if c \<noteq> 0 then SERVER_BIT else SERVER_MINID)
                in (True, set_client c \<lparr>resources = replicate INITBUCKETS [], elements = 0, buckets = INITBUCKETS,
                      hashsize = INITHASHSIZE, fakeID = f, endFakeID = (f OR RESOURCE_ID_MASK s2) + 1\<rparr> s2))"

definition bucket :: "'z rs_scheme \<Rightarrow> nat \<Rightarrow> XID \<Rightarrow> ResourceRec list" where
  "bucket s c i = resources (clientTable s c) ! HashResourceID s i (hashsize (clientTable s c))"

section \<open>Adding\<close>

fun relink :: "(ResourceRec \<Rightarrow> nat) \<Rightarrow> ResourceRec list \<Rightarrow> ResourceRec list list \<Rightarrow> ResourceRec list list" where
  "relink hash [] acc = acc"
| "relink hash (r # rs) acc = relink hash rs (acc[hash r := acc ! hash r @ [r]])"

definition RebuildTable :: "bool \<Rightarrow> nat \<Rightarrow> 'z rs_scheme \<Rightarrow> 'z rs_scheme" where
  "RebuildTable alloc_ok c s =
     (if \<not> alloc_ok then s
      else
        let r = clientTable s c;
            j = 2 * buckets r;
            n = hashsize r + 1
        in set_client c (r\<lparr>hashsize := n, buckets := j,
             resources := relink (\<lambda>x. HashResourceID s (res_id x) n) (concat (resources r)) (replicate j [])\<rparr>) s)"

definition call_delete :: "'z destroy \<Rightarrow> RESTYPE \<Rightarrow> nat \<Rightarrow> XID \<Rightarrow> 'z rs_scheme \<Rightarrow> 'z rs_scheme option" where
  "call_delete del t v i s = do {
     x \<leftarrow> type_entry s t;
     Some (del (deleteFunc x) v i s) }"

text \<open>\<open>FatalError\<close> for a client that is not in use is \<open>None\<close>.\<close>

definition AddResource ::
  "'z destroy \<Rightarrow> bool \<Rightarrow> bool \<Rightarrow> XID \<Rightarrow> RESTYPE \<Rightarrow> nat \<Rightarrow> 'z rs_scheme \<Rightarrow> (bool \<times> 'z rs_scheme) option" where
  "AddResource del rebuild_ok malloc_ok i t v s =
     (let c = CLIENT_ID s i; r = clientTable s c
      in if buckets r = 0 then None
         else
           let s1 = (if 4 * buckets r \<le> elements r \<and> hashsize r < MAXHASHSIZE then RebuildTable rebuild_ok c s else s);
               r1 = clientTable s1 c;
               h = HashResourceID s1 i (hashsize r1);
               res = \<lparr>res_id = i, res_type = t, res_value = v\<rparr>
           in if \<not> malloc_ok then do { s2 \<leftarrow> call_delete del t v i s1; Some (False, s2) }
              else Some (True, log_event (Adding res)
                (set_client c (r1\<lparr>resources := (resources r1)[h := res # resources r1 ! h], elements := elements r1 + 1\<rparr>) s1)))"

section \<open>Freeing\<close>

definition doFreeResource :: "'z destroy \<Rightarrow> ResourceRec \<Rightarrow> bool \<Rightarrow> 'z rs_scheme \<Rightarrow> 'z rs_scheme option" where
  "doFreeResource del res skip s =
     (let s1 = log_event (Freeing res) s
      in if skip then Some s1 else call_delete del (res_type res) (res_value res) (res_id res) s1)"

text \<open>Taking cell \<open>p\<close> out of bucket \<open>h\<close>.\<close>

definition unlink_cell :: "nat \<Rightarrow> nat \<Rightarrow> nat \<Rightarrow> 'z rs_scheme \<Rightarrow> 'z rs_scheme" where
  "unlink_cell c h p s =
     (let r = clientTable s c; ch = resources r ! h
      in set_client c (r\<lparr>resources := (resources r)[h := take p ch @ drop (Suc p) ch], elements := elements r - 1\<rparr>) s)"

text \<open>
  The loop of \<open>FreeResource\<close> and \<open>FreeClientNeverRetainResources\<close>: \<open>prev\<close> is the field that points
  to cell \<open>p\<close> of bucket \<open>h\<close>. After a resource was destroyed the walk starts over when the number
  of elements has changed. The bucket belongs to the table that was in use when the loop
  started: if destroying a resource replaced the table, \<open>prev\<close> points into freed memory.
\<close>

fun free_loop :: "'z destroy \<Rightarrow> (ResourceRec \<Rightarrow> bool) \<Rightarrow> (ResourceRec \<Rightarrow> bool) \<Rightarrow> nat \<Rightarrow> nat \<Rightarrow> nat \<Rightarrow> nat \<Rightarrow> nat
    \<Rightarrow> 'z rs_scheme \<Rightarrow> 'z rs_scheme option" where
  "free_loop del match skip c n h p 0 s = None"
| "free_loop del match skip c n h p (Suc fuel) s =
     (if buckets (clientTable s c) \<noteq> n then None
      else case rd (resources (clientTable s c) ! h) p of
        None \<Rightarrow> Some s
      | Some res \<Rightarrow>
          if match res then do {
            let s1 = unlink_cell c h p s;
            s2 \<leftarrow> doFreeResource del res (skip res) s1;
            free_loop del match skip c n h
              (if elements (clientTable s2 c) \<noteq> elements (clientTable s1 c) then 0 else p) fuel s2 }
          else free_loop del match skip c n h (Suc p) fuel s)"

definition FreeResource :: "'z destroy \<Rightarrow> nat \<Rightarrow> XID \<Rightarrow> RESTYPE \<Rightarrow> 'z rs_scheme \<Rightarrow> 'z rs_scheme option" where
  "FreeResource del fuel i skipDeleteFuncType s =
     (let c = CLIENT_ID s i; r = clientTable s c
      in if c < LimitClients s \<and> buckets r \<noteq> 0
         then free_loop del (\<lambda>x. res_id x = i) (\<lambda>x. res_type x = skipDeleteFuncType) c (buckets r)
                (HashResourceID s i (hashsize r)) 0 fuel s
         else Some s)"

fun find_cell :: "(ResourceRec \<Rightarrow> bool) \<Rightarrow> ResourceRec list \<Rightarrow> nat option" where
  "find_cell P [] = None"
| "find_cell P (r # rs) = (if P r then Some 0 else map_option Suc (find_cell P rs))"

definition FreeResourceByType :: "'z destroy \<Rightarrow> XID \<Rightarrow> RESTYPE \<Rightarrow> bool \<Rightarrow> 'z rs_scheme \<Rightarrow> 'z rs_scheme option" where
  "FreeResourceByType del i t skipFree s =
     (let c = CLIENT_ID s i; r = clientTable s c; h = HashResourceID s i (hashsize r)
      in if c < LimitClients s \<and> buckets r \<noteq> 0
         then (case find_cell (\<lambda>x. res_id x = i \<and> res_type x = t) (resources r ! h) of
             None \<Rightarrow> Some s
           | Some p \<Rightarrow> doFreeResource del (resources r ! h ! p) skipFree (unlink_cell c h p s))
         else Some s)"

definition ChangeResourceValue :: "XID \<Rightarrow> RESTYPE \<Rightarrow> nat \<Rightarrow> 'z rs_scheme \<Rightarrow> bool \<times> 'z rs_scheme" where
  "ChangeResourceValue i t v s =
     (let c = CLIENT_ID s i; r = clientTable s c; h = HashResourceID s i (hashsize r)
      in if c < LimitClients s \<and> buckets r \<noteq> 0
         then (case find_cell (\<lambda>x. res_id x = i \<and> res_type x = t) (resources r ! h) of
             None \<Rightarrow> (False, s)
           | Some p \<Rightarrow> (True, set_client c (r\<lparr>resources := (resources r)[h :=
                (resources r ! h)[p := (resources r ! h ! p)\<lparr>res_value := v\<rparr>]]\<rparr>) s))
         else (False, s))"

text \<open>All buckets of a client in turn; \<open>buckets\<close> and \<open>resources\<close> do not change while the loop runs, or the result is \<open>None\<close>.\<close>

fun never_retain_loop :: "'z destroy \<Rightarrow> nat \<Rightarrow> nat \<Rightarrow> nat \<Rightarrow> nat list \<Rightarrow> 'z rs_scheme \<Rightarrow> 'z rs_scheme option" where
  "never_retain_loop del fuel c n [] s = Some s"
| "never_retain_loop del fuel c n (j # js) s = do {
     s1 \<leftarrow> free_loop del (\<lambda>x. res_type x AND RC_NEVERRETAIN \<noteq> 0) (\<lambda>_. False) c n j 0 fuel s;
     never_retain_loop del fuel c n js s1 }"

definition FreeClientNeverRetainResources :: "'z destroy \<Rightarrow> nat \<Rightarrow> nat option \<Rightarrow> 'z rs_scheme \<Rightarrow> 'z rs_scheme option" where
  "FreeClientNeverRetainResources del fuel client s = (case client of
     None \<Rightarrow> Some s
   | Some c \<Rightarrow> never_retain_loop del fuel c (buckets (clientTable s c)) [0..<buckets (clientTable s c)] s)"

text \<open>The inner loop takes the first cell until the bucket is empty.\<close>

fun empty_bucket :: "'z destroy \<Rightarrow> nat \<Rightarrow> nat \<Rightarrow> nat \<Rightarrow> nat \<Rightarrow> 'z rs_scheme \<Rightarrow> 'z rs_scheme option" where
  "empty_bucket del c n h 0 s = None"
| "empty_bucket del c n h (Suc fuel) s =
     (if buckets (clientTable s c) \<noteq> n then None
      else case resources (clientTable s c) ! h of
        [] \<Rightarrow> Some s
      | res # _ \<Rightarrow> do {
          s1 \<leftarrow> doFreeResource del res False (unlink_cell c h 0 s);
          empty_bucket del c n h fuel s1 })"

fun empty_buckets :: "'z destroy \<Rightarrow> nat \<Rightarrow> nat \<Rightarrow> nat \<Rightarrow> nat list \<Rightarrow> 'z rs_scheme \<Rightarrow> 'z rs_scheme option" where
  "empty_buckets del fuel c n [] s = Some s"
| "empty_buckets del fuel c n (j # js) s = do {
     s1 \<leftarrow> empty_bucket del c n j fuel s;
     empty_buckets del fuel c n js s1 }"

definition FreeClientResources ::
  "'z destroy \<Rightarrow> (nat \<Rightarrow> 'z rs_scheme \<Rightarrow> 'z rs_scheme) \<Rightarrow> nat \<Rightarrow> nat option \<Rightarrow> 'z rs_scheme \<Rightarrow> 'z rs_scheme option" where
  "FreeClientResources del HandleSaveSet fuel client s = (case client of
     None \<Rightarrow> Some s
   | Some c \<Rightarrow>
       let s0 = HandleSaveSet c s; n = buckets (clientTable s0 c)
       in do {
         s1 \<leftarrow> empty_buckets del fuel c n [0..<n] s0;
         Some (set_client c ((clientTable s1 c)\<lparr>resources := [], buckets := 0\<rparr>) s1) })"

fun free_all_loop :: "'z destroy \<Rightarrow> (nat \<Rightarrow> 'z rs_scheme \<Rightarrow> 'z rs_scheme) \<Rightarrow> nat \<Rightarrow> nat \<Rightarrow> 'z rs_scheme \<Rightarrow> 'z rs_scheme option" where
  "free_all_loop del save fuel 0 s = Some s"
| "free_all_loop del save fuel (Suc i) s = do {
     s1 \<leftarrow> (if buckets (clientTable s i) \<noteq> 0 then FreeClientResources del save fuel (Some i) s else Some s);
     free_all_loop del save fuel i s1 }"

definition FreeAllResources :: "'z destroy \<Rightarrow> (nat \<Rightarrow> 'z rs_scheme \<Rightarrow> 'z rs_scheme) \<Rightarrow> nat \<Rightarrow> nat \<Rightarrow> 'z rs_scheme \<Rightarrow> 'z rs_scheme option" where
  "FreeAllResources del save fuel currentMaxClients s = free_all_loop del save fuel currentMaxClients s"

section \<open>Walking through the resources of a client\<close>

text \<open>
  \<open>FindClientResourcesByType\<close> and \<open>FindAllClientResources\<close> (type 0): the function \<open>func\<close> gets
  value, identifier and type. When the number of elements changed the bucket is walked from its
  start again.
\<close>

fun walk_bucket :: "(nat \<Rightarrow> XID \<Rightarrow> RESTYPE \<Rightarrow> 'z rs_scheme \<Rightarrow> 'z rs_scheme) \<Rightarrow> RESTYPE \<Rightarrow> nat \<Rightarrow> nat \<Rightarrow> nat \<Rightarrow> nat \<Rightarrow> nat
    \<Rightarrow> 'z rs_scheme \<Rightarrow> 'z rs_scheme option" where
  "walk_bucket func t c n h p 0 s = None"
| "walk_bucket func t c n h p (Suc fuel) s =
     (if buckets (clientTable s c) \<noteq> n then None
      else case rd (resources (clientTable s c) ! h) p of
        None \<Rightarrow> Some s
      | Some res \<Rightarrow>
          if t = 0 \<or> res_type res = t then
            let s1 = func (res_value res) (res_id res) (res_type res) s
            in walk_bucket func t c n h (if elements (clientTable s1 c) \<noteq> elements (clientTable s c) then 0 else Suc p) fuel s1
          else walk_bucket func t c n h (Suc p) fuel s)"

fun walk_buckets :: "(nat \<Rightarrow> XID \<Rightarrow> RESTYPE \<Rightarrow> 'z rs_scheme \<Rightarrow> 'z rs_scheme) \<Rightarrow> RESTYPE \<Rightarrow> nat \<Rightarrow> nat \<Rightarrow> nat \<Rightarrow> nat list
    \<Rightarrow> 'z rs_scheme \<Rightarrow> 'z rs_scheme option" where
  "walk_buckets func t fuel c n [] s = Some s"
| "walk_buckets func t fuel c n (j # js) s = do {
     s1 \<leftarrow> walk_bucket func t c n j 0 fuel s;
     walk_buckets func t fuel c n js s1 }"

definition FindClientResourcesByType ::
  "(nat \<Rightarrow> XID \<Rightarrow> RESTYPE \<Rightarrow> 'z rs_scheme \<Rightarrow> 'z rs_scheme) \<Rightarrow> nat \<Rightarrow> nat option \<Rightarrow> RESTYPE \<Rightarrow> 'z rs_scheme \<Rightarrow> 'z rs_scheme option" where
  "FindClientResourcesByType func fuel client t s =
     (let c = (case client of None \<Rightarrow> 0 | Some c \<Rightarrow> c); n = buckets (clientTable s c)
      in walk_buckets func t fuel c n [0..<n] s)"

definition FindAllClientResources ::
  "(nat \<Rightarrow> XID \<Rightarrow> RESTYPE \<Rightarrow> 'z rs_scheme \<Rightarrow> 'z rs_scheme) \<Rightarrow> nat \<Rightarrow> nat option \<Rightarrow> 'z rs_scheme \<Rightarrow> 'z rs_scheme option" where
  "FindAllClientResources func fuel client s = FindClientResourcesByType func fuel client 0 s"

section \<open>Sizes and sub-resources\<close>

record PixmapRec =
  px_id :: XID
  px_refcnt :: int
  px_width :: int
  px_height :: int
  px_bitsPerPixel :: nat

datatype backgroundState = BackgroundNone | ParentRelative | BackgroundPixel | BackgroundPixmap

text \<open>The parts of a window and of a graphics context that refer to pixmaps; an address that is not a pixmap is \<open>None\<close>.\<close>

record WindowPixmaps =
  w_backgroundState :: backgroundState
  w_background :: "PixmapRec option"
  w_border :: "PixmapRec option"
  w_borderIsPixel :: bool

record GCPixmaps =
  gc_stipple :: "PixmapRec option"
  gc_tile :: "PixmapRec option"
  gc_tileIsPixel :: bool

record ResourceSizeRec =
  resourceSize :: u64
  pixmapRefSize :: u64
  refCnt :: u64

definition GetDefaultBytes :: ResourceSizeRec where
  "GetDefaultBytes = \<lparr>resourceSize = 0, pixmapRefSize = 0, refCnt = 1\<rparr>"

text \<open>The product is computed as an \<open>int\<close> and widened to \<open>unsigned long\<close>.\<close>

definition GetDrawableBytes :: "PixmapRec \<Rightarrow> u64" where
  "GetDrawableBytes d = word_of_int (signed_take_bit 31
     (px_width d * px_height d * int (px_bitsPerPixel d div 8)))"

definition GetPixmapBytes :: "PixmapRec \<Rightarrow> ResourceSizeRec" where
  "GetPixmapBytes p =
     (if px_refcnt p \<noteq> 0
      then \<lparr>resourceSize = GetDrawableBytes p, pixmapRefSize = GetDrawableBytes p div word_of_int (px_refcnt p),
            refCnt = word_of_int (px_refcnt p)\<rparr>
      else \<lparr>resourceSize = 0, pixmapRefSize = 0, refCnt = 0\<rparr>)"

text \<open>\<open>pixmapSizeFunc\<close> is the size function of \<open>RT_PIXMAP\<close>.\<close>

definition ref_size :: "(PixmapRec \<Rightarrow> ResourceSizeRec) \<Rightarrow> bool \<Rightarrow> PixmapRec option \<Rightarrow> u64 option" where
  "ref_size pixmapSizeFunc counted p =
     (if \<not> counted then Some 0 else map_option (\<lambda>x. pixmapRefSize (pixmapSizeFunc x)) p)"

definition GetWindowBytes :: "(PixmapRec \<Rightarrow> ResourceSizeRec) \<Rightarrow> WindowPixmaps \<Rightarrow> ResourceSizeRec option" where
  "GetWindowBytes f w = do {
     a \<leftarrow> ref_size f (w_backgroundState w = BackgroundPixmap) (w_background w);
     b \<leftarrow> ref_size f (w_border w \<noteq> None \<and> \<not> w_borderIsPixel w) (w_border w);
     Some \<lparr>resourceSize = 0, pixmapRefSize = a + b, refCnt = 1\<rparr> }"

definition GetGcBytes :: "(PixmapRec \<Rightarrow> ResourceSizeRec) \<Rightarrow> GCPixmaps \<Rightarrow> ResourceSizeRec option" where
  "GetGcBytes f g = do {
     a \<leftarrow> ref_size f (gc_stipple g \<noteq> None) (gc_stipple g);
     b \<leftarrow> ref_size f (gc_tile g \<noteq> None \<and> \<not> gc_tileIsPixel g) (gc_tile g);
     Some \<lparr>resourceSize = 0, pixmapRefSize = a + b, refCnt = 1\<rparr> }"

text \<open>The calls of \<open>func\<close>: the value handed over and the identifier. For the border the code passes the background.\<close>

definition FindWindowSubRes :: "WindowPixmaps \<Rightarrow> (PixmapRec option \<times> XID) list option" where
  "FindWindowSubRes w = do {
     a \<leftarrow> (if w_backgroundState w = BackgroundPixmap
           then map_option (\<lambda>p. [(w_background w, px_id p)]) (w_background w) else Some []);
     Some (a @ (case w_border w of
                  Some p \<Rightarrow> if \<not> w_borderIsPixel w then [(w_background w, px_id p)] else []
                | None \<Rightarrow> [])) }"

definition FindGCSubRes :: "GCPixmaps \<Rightarrow> (PixmapRec option \<times> XID) list" where
  "FindGCSubRes g =
     (case gc_stipple g of Some p \<Rightarrow> [(Some p, px_id p)] | None \<Rightarrow> [])
     @ (case gc_tile g of Some p \<Rightarrow> if \<not> gc_tileIsPixel g then [(Some p, px_id p)] else [] | None \<Rightarrow> [])"

section \<open>Looking up\<close>

text \<open>\<open>xace\<close> is the hook \<open>XACE_RESOURCE_ACCESS\<close>: client, identifier, type, value, mode.\<close>

type_synonym xace = "nat \<Rightarrow> XID \<Rightarrow> RESTYPE \<Rightarrow> nat \<Rightarrow> u32 \<Rightarrow> int"

definition find_resource :: "'z rs_scheme \<Rightarrow> XID \<Rightarrow> (ResourceRec \<Rightarrow> bool) \<Rightarrow> ResourceRec option" where
  "find_resource s i P =
     (let c = CLIENT_ID s i
      in if c < LimitClients s \<and> buckets (clientTable s c) \<noteq> 0
         then List.find (\<lambda>x. res_id x = i \<and> P x) (bucket s c i) else None)"

definition set_error :: "nat option \<Rightarrow> XID \<Rightarrow> 'z rs_scheme \<Rightarrow> 'z rs_scheme" where
  "set_error client i s = (case client of None \<Rightarrow> s
     | Some c \<Rightarrow> s\<lparr>client_errorValue := (client_errorValue s)(c := i)\<rparr>)"

definition dixLookupResourceByType ::
  "xace \<Rightarrow> XID \<Rightarrow> RESTYPE \<Rightarrow> nat option \<Rightarrow> u32 \<Rightarrow> 'z rs_scheme \<Rightarrow> (int \<times> nat option \<times> 'z rs_scheme) option" where
  "dixLookupResourceByType xace i rtype client mode s =
     (if lastResourceType s < rtype AND TypeMask s then Some (17, None, s)
      else
        let s1 = set_error client i s
        in case find_resource s i (\<lambda>x. res_type x = rtype) of
            None \<Rightarrow> do { x \<leftarrow> type_entry s rtype; Some (type_errorValue x, None, s1) }
          | Some res \<Rightarrow> (case client of
              None \<Rightarrow> Some (0, Some (res_value res), s1)
            | Some c \<Rightarrow>
                let e = xace c i (res_type res) (res_value res) mode
                in if e = 2 then do { x \<leftarrow> type_entry s rtype; Some (type_errorValue x, None, s1) }
                   else if e \<noteq> 0 then Some (e, None, s1)
                   else Some (0, Some (res_value res), s1)))"

definition dixLookupResourceByClass ::
  "xace \<Rightarrow> XID \<Rightarrow> RESTYPE \<Rightarrow> nat option \<Rightarrow> u32 \<Rightarrow> 'z rs_scheme \<Rightarrow> int \<times> nat option \<times> 'z rs_scheme" where
  "dixLookupResourceByClass xace i rclass client mode s =
     (let s1 = set_error client i s
      in case find_resource s i (\<lambda>x. res_type x AND rclass \<noteq> 0) of
          None \<Rightarrow> (2, None, s1)
        | Some res \<Rightarrow> (case client of
            None \<Rightarrow> (0, Some (res_value res), s1)
          | Some c \<Rightarrow>
              let e = xace c i (res_type res) (res_value res) mode
              in if e \<noteq> 0 then (e, None, s1) else (0, Some (res_value res), s1)))"

text \<open>\<open>noPanoramiX\<close> is \<open>noPanoramiXExtension\<close>; the server looks the identifier up with \<open>DixGetAttrAccess\<close>.\<close>

definition LegalNewID :: "xace \<Rightarrow> bool \<Rightarrow> XID \<Rightarrow> nat \<Rightarrow> 'z rs_scheme \<Rightarrow> bool \<times> 'z rs_scheme" where
  "LegalNewID xace noPanoramiX i c s =
     (let minid = clientAsMask s c OR (if c \<noteq> 0 then SERVER_BIT else SERVER_MINID);
          maxid = (fakeID (clientTable s c) OR RESOURCE_ID_MASK s) + 1
      in if \<not> noPanoramiX \<and> minid \<le> i \<and> i \<le> maxid then (True, s)
         else if clientAsMask s c = i AND NOT (RESOURCE_ID_MASK s) then
           (let (rc, _, s1) = dixLookupResourceByClass xace i RC_ANY (Some 0) (push_bit 4 1) s
            in (rc = 2, s1))
         else (False, s))"

section \<open>Unused identifiers\<close>

definition in_bucket :: "'z rs_scheme \<Rightarrow> nat \<Rightarrow> XID \<Rightarrow> bool" where
  "in_bucket s c i \<longleftrightarrow> list_ex (\<lambda>x. res_id x = i) (bucket s c i)"

text \<open>\<open>n\<close> counts the identifiers from \<open>i\<close> to the end of the range; 0 is the answer that none is unused.
  (A range that ended at \<open>0xffffffff\<close> would make the C loop wrap around; the ranges of clients end far below.)\<close>

fun available_loop :: "'z rs_scheme \<Rightarrow> nat \<Rightarrow> nat \<Rightarrow> XID \<Rightarrow> XID" where
  "available_loop s c 0 i = 0"
| "available_loop s c (Suc n) i = (if \<not> in_bucket s c i then i else available_loop s c n (i + 1))"

definition AvailableID :: "'z rs_scheme \<Rightarrow> nat \<Rightarrow> XID \<Rightarrow> XID \<Rightarrow> XID \<Rightarrow> XID" where
  "AvailableID s c i maxid goodid =
     (if i \<le> goodid \<and> goodid \<le> maxid then goodid
      else available_loop s c (if i \<le> maxid then unat maxid + 1 - unat i else 0) i)"

fun range_loop :: "'z rs_scheme \<Rightarrow> nat \<Rightarrow> ResourceRec list \<Rightarrow> XID \<Rightarrow> XID \<Rightarrow> XID \<Rightarrow> XID \<times> XID" where
  "range_loop s c [] i maxid goodid = (i, maxid)"
| "range_loop s c (res # rs) i maxid goodid =
     (if res_id res < i \<or> maxid < res_id res then range_loop s c rs i maxid goodid
      else if maxid - res_id res \<le> res_id res - i then
        (let g = AvailableID s c i (res_id res - 1) goodid
         in if g \<noteq> 0 then range_loop s c rs i (res_id res - 1) g
            else range_loop s c rs (res_id res + 1) maxid g)
      else
        (let g = AvailableID s c (res_id res + 1) maxid goodid
         in if g = 0 then range_loop s c rs i (res_id res - 1) g
            else range_loop s c rs (res_id res + 1) maxid g))"

definition first_id :: "'z rs_scheme \<Rightarrow> nat \<Rightarrow> bool \<Rightarrow> XID" where
  "first_id s c server = clientAsMask s c OR (if server then if c \<noteq> 0 then SERVER_BIT else SERVER_MINID else 0)"

definition GetXIDRange :: "nat \<Rightarrow> bool \<Rightarrow> 'z rs_scheme \<Rightarrow> XID \<times> XID" where
  "GetXIDRange c server s =
     (let i = first_id s c server;
          (lo, hi) = range_loop s c (concat (resources (clientTable s c))) i (i OR RESOURCE_ID_MASK s) 0
      in if hi < lo then (0, 0) else (lo, hi))"

fun xid_list_loop :: "xace \<Rightarrow> nat \<Rightarrow> nat \<Rightarrow> XID \<Rightarrow> 'z rs_scheme \<Rightarrow> XID list \<times> 'z rs_scheme" where
  "xid_list_loop xace cnt 0 i s = ([], s)"
| "xid_list_loop xace cnt (Suc n) i s =
     (if cnt = 0 then ([], s)
      else
        let (rc, _, s1) = dixLookupResourceByClass xace i RC_ANY (Some 0) (push_bit 4 1) s
        in if rc = 2 then (let (ids, s2) = xid_list_loop xace (cnt - 1) n (i + 1) s1 in (i # ids, s2))
           else xid_list_loop xace cnt n (i + 1) s1)"

definition GetXIDList :: "xace \<Rightarrow> nat \<Rightarrow> nat \<Rightarrow> 'z rs_scheme \<Rightarrow> XID list \<times> 'z rs_scheme" where
  "GetXIDList xace c cnt s = xid_list_loop xace cnt (unat (RESOURCE_ID_MASK s) + 1) (clientAsMask s c) s"

definition FakeClientID :: "nat \<Rightarrow> 'z rs_scheme \<Rightarrow> (XID \<times> 'z rs_scheme) option" where
  "FakeClientID c s =
     (let r = clientTable s c; i = fakeID r; s1 = set_client c (r\<lparr>fakeID := i + 1\<rparr>) s
      in if i \<noteq> endFakeID r then Some (i, s1)
         else
           let (lo, hi) = GetXIDRange c True s1
           in if lo = 0 \<and> c = 0 then None
              else
                let (a, b, s2) = (if lo = 0 then
                    let a = clientAsMask s1 c OR (SERVER_BIT * 3)
                    in (a, a OR RESOURCE_ID_MASK s1, log_event (ClientException c) s1)
                  else (lo, hi, s1))
                in Some (a, set_client c ((clientTable s2 c)\<lparr>fakeID := a + 1, endFakeID := b + 1\<rparr>) s2))"


section \<open>Hash values and the invariant\<close>

lemma hash_less: "n \<le> 16 \<Longrightarrow> HashResourceID s i n < 2 ^ n"
proof -
  assume n: "n \<le> 16"
  have *: "unat (x AND NOT (push_bit n (-1))) < 2 ^ n" for x :: u32
  proof -
    have "x AND NOT (push_bit n (-1)) = take_bit n x"
      by (simp add: push_bit_minus_one_eq_not_mask take_bit_eq_mask)
    then show ?thesis using n by (simp add: unsigned_take_bit_eq)
  qed
  show ?thesis unfolding HashResourceID_def Let_def by (rule *)
qed

text \<open>The table of one client: every resource lies in the bucket of its hash value and belongs to the client.\<close>

definition table_ok :: "'z rs_scheme \<Rightarrow> nat \<Rightarrow> ClientResourceRec \<Rightarrow> bool" where
  "table_ok s c r \<longleftrightarrow> (buckets r = 0 \<longrightarrow> resources r = []) \<and> (buckets r \<noteq> 0 \<longrightarrow>
     length (resources r) = buckets r \<and> buckets r = 2 ^ hashsize r \<and> hashsize r \<le> MAXHASHSIZE
     \<and> elements r = length (concat (resources r))
     \<and> (\<forall>h < buckets r. \<forall>x \<in> set (resources r ! h).
          HashResourceID s (res_id x) (hashsize r) = h \<and> CLIENT_ID s (res_id x) = c
          \<and> type_entry s (res_type x) \<noteq> None))"

definition rs_ok :: "'z rs_scheme \<Rightarrow> bool" where
  "rs_ok s \<longleftrightarrow> (\<forall>c. table_ok s c (clientTable s c))"

text \<open>What the hash values and the types depend on.\<close>

definition same_types :: "'z rs_scheme \<Rightarrow> 'z rs_scheme \<Rightarrow> bool" where
  "same_types s t \<longleftrightarrow> LimitClients t = LimitClients s \<and> TypeMask t = TypeMask s \<and> resourceTypes t = resourceTypes s
     \<and> lastResourceType t = lastResourceType s"

lemma same_types_refl [simp]: "same_types s s"
  by (simp add: same_types_def)

lemma same_types_sym: "same_types s t \<Longrightarrow> same_types t s"
  by (simp add: same_types_def)

lemma same_types_trans: "same_types s t \<Longrightarrow> same_types t u \<Longrightarrow> same_types s u"
  by (simp add: same_types_def)

lemma same_types_eq:
  assumes "same_types s t"
  shows "HashResourceID t = HashResourceID s" "CLIENT_ID t = CLIENT_ID s" "type_entry t = type_entry s"
    "RESOURCE_ID_MASK t = RESOURCE_ID_MASK s" "clientAsMask t = clientAsMask s" "table_ok t = table_ok s"
proof -
  have o: "CLIENTOFFSET t = CLIENTOFFSET s" "ResourceClientBits t = ResourceClientBits s"
    using assms by (simp_all add: same_types_def CLIENTOFFSET_def ResourceClientBits_def)
  show h: "HashResourceID t = HashResourceID s" and c: "CLIENT_ID t = CLIENT_ID s" and "RESOURCE_ID_MASK t = RESOURCE_ID_MASK s"
    "clientAsMask t = clientAsMask s"
    by (simp_all add: fun_eq_iff HashResourceID_def RESOURCE_ID_MASK_def CLIENT_ID_def RESOURCE_CLIENT_MASK_def clientAsMask_def o)
  show ty: "type_entry t = type_entry s"
    using assms by (intro ext) (simp add: type_entry_def same_types_def)
  show "table_ok t = table_ok s"
    by (intro ext) (simp add: table_ok_def h c ty)
qed

named_theorems rs_simps \<open>what the elementary updates of the state change\<close>

lemma set_client_simps [rs_simps]:
  "clientTable (set_client c r s) = (clientTable s)(c := r)" "same_types s (set_client c r s)"
  "same_types s (log_event e s)" "clientTable (log_event e s) = clientTable s"
  "res_events (set_client c r s) = res_events s" "res_events (log_event e s) = res_events s @ [e]"
  "LimitClients (set_client c r s) = LimitClients s" "LimitClients (log_event e s) = LimitClients s"
  by (simp_all add: set_client_def log_event_def same_types_def)

lemma set_client_same [rs_simps]:
  "HashResourceID (set_client c r s) = HashResourceID s" "CLIENT_ID (set_client c r s) = CLIENT_ID s"
  "type_entry (set_client c r s) = type_entry s" "table_ok (set_client c r s) = table_ok s"
  "HashResourceID (log_event e s) = HashResourceID s" "CLIENT_ID (log_event e s) = CLIENT_ID s"
  "type_entry (log_event e s) = type_entry s" "table_ok (log_event e s) = table_ok s"
  by (simp_all add: same_types_eq [OF set_client_simps(2)] same_types_eq [OF set_client_simps(3)])

lemma rs_ok_set: "rs_ok s \<Longrightarrow> table_ok s c r \<Longrightarrow> rs_ok (set_client c r s)"
  by (simp add: rs_ok_def rs_simps)

lemma rs_ok_log [simp]: "rs_ok (log_event e s) = rs_ok s"
  by (simp add: rs_ok_def rs_simps)

section \<open>Rebuilding\<close>

lemma relink_length: "length (relink hash rs acc) = length acc"
  by (induction rs arbitrary: acc) simp_all

lemma relink_bucket:
  assumes "\<forall>r \<in> set rs. hash r < length acc"
  shows "h < length acc \<Longrightarrow> relink hash rs acc ! h = acc ! h @ filter (\<lambda>r. hash r = h) rs"
  using assms by (induction rs arbitrary: acc) (auto simp: nth_list_update)

lemma relink_elements:
  assumes "\<forall>r \<in> set rs. hash r < length acc"
  shows "length (concat (relink hash rs acc)) = length (concat acc) + length rs"
  using assms
proof (induction rs arbitrary: acc)
  case (Cons r rs)
  have "length (concat (acc[hash r := acc ! hash r @ [r]])) = Suc (length (concat acc))"
  proof -
    have "hash r < length acc" using Cons.prems by simp
    then obtain us vs where a: "acc = us @ acc ! hash r # vs" "length us = hash r"
      using id_take_nth_drop [of "hash r" acc] by (metis length_take min.absorb4)
    then have "acc[hash r := acc ! hash r @ [r]] = us @ (acc ! hash r @ [r]) # vs"
      by (metis list_update_length)
    moreover have "length (concat acc) = length (concat us) + length (acc ! hash r) + length (concat vs)"
      by (subst a(1)) simp
    ultimately show ?thesis by simp
  qed
  then show ?case using Cons by simp
qed simp

text \<open>The resources with an identifier, newest first.\<close>

definition found :: "'z rs_scheme \<Rightarrow> XID \<Rightarrow> ResourceRec list" where
  "found s i = filter (\<lambda>x. res_id x = i) (concat (resources (clientTable s (CLIENT_ID s i))))"

lemma all_concat: "(\<forall>x \<in> set (concat bs). P x) \<longleftrightarrow> (\<forall>k < length bs. \<forall>x \<in> set (bs ! k). P x)"
  using all_set_conv_all_nth [of bs "\<lambda>b. \<forall>x \<in> set b. P x"] by auto

lemma filter_concat_none:
  assumes "\<forall>k < length bs. \<forall>x \<in> set (bs ! k). \<not> P x"
  shows "filter P (concat bs) = []"
  using assms unfolding filter_empty_conv all_concat .

lemma filter_concat_bucket:
  assumes "h < length bs" "\<forall>k < length bs. k \<noteq> h \<longrightarrow> (\<forall>x \<in> set (bs ! k). \<not> P x)"
  shows "filter P (concat bs) = filter P (bs ! h)"
proof -
  have "filter P (concat (take h bs)) = []"
  proof (rule filter_concat_none, intro allI impI ballI)
    fix k x assume "k < length (take h bs)" "x \<in> set (take h bs ! k)"
    then show "\<not> P x" using assms(2) by (metis length_take min_less_iff_conj nat_less_le nth_take)
  qed
  moreover have "filter P (concat (drop (Suc h) bs)) = []"
  proof (rule filter_concat_none, intro allI impI ballI)
    fix k x assume k: "k < length (drop (Suc h) bs)" "x \<in> set (drop (Suc h) bs ! k)"
    then have "Suc (h + k) < length bs" "x \<in> set (bs ! Suc (h + k))" by auto
    then show "\<not> P x" using assms(2) by (metis less_add_Suc1 less_irrefl)
  qed
  moreover have "concat bs = concat (take h bs) @ bs ! h @ concat (drop (Suc h) bs)"
    using arg_cong [OF id_take_nth_drop [OF assms(1)], of concat] by simp
  ultimately show ?thesis by simp
qed

lemma found_bucket:
  assumes "table_ok s c (clientTable s c)" "c = CLIENT_ID s i" "buckets (clientTable s c) \<noteq> 0"
  shows "found s i = filter (\<lambda>x. res_id x = i) (bucket s c i)"
proof -
  let ?r = "clientTable s c"
  have t: "length (resources ?r) = buckets ?r" "buckets ?r = 2 ^ hashsize ?r" "hashsize ?r \<le> 16"
    "\<forall>h < buckets ?r. \<forall>x \<in> set (resources ?r ! h). HashResourceID s (res_id x) (hashsize ?r) = h"
    using assms(1,3) by (auto simp: table_ok_def MAXHASHSIZE_def)
  have "HashResourceID s i (hashsize ?r) < length (resources ?r)" using hash_less [OF t(3)] t(1,2) by simp
  then show ?thesis
    unfolding found_def bucket_def assms(2) [symmetric] using t
    by (intro filter_concat_bucket) auto
qed

lemma rebuild_ok:
  assumes "table_ok s c (clientTable s c)" "buckets (clientTable s c) \<noteq> 0" "hashsize (clientTable s c) < MAXHASHSIZE"
  shows "table_ok s c (clientTable (RebuildTable ok c s) c)" "buckets (clientTable (RebuildTable ok c s) c) \<noteq> 0"
    "same_types s (RebuildTable ok c s)" "d \<noteq> c \<Longrightarrow> clientTable (RebuildTable ok c s) d = clientTable s d"
    "res_events (RebuildTable ok c s) = res_events s"
    "filter (\<lambda>x. res_id x = i) (concat (resources (clientTable (RebuildTable ok c s) c)))
     = filter (\<lambda>x. res_id x = i) (concat (resources (clientTable s c)))"
proof -
  let ?r = "clientTable s c"
  define n where "n = hashsize ?r + 1"
  define j where "j = 2 * buckets ?r"
  define hash where "hash x = HashResourceID s (res_id x) n" for x :: ResourceRec
  define rs where "rs = concat (resources ?r)"
  define new where "new = relink hash rs (replicate j [])"
  have t: "length (resources ?r) = buckets ?r" "buckets ?r = 2 ^ hashsize ?r" "hashsize ?r < 16"
    "elements ?r = length rs"
    "\<forall>h < buckets ?r. \<forall>x \<in> set (resources ?r ! h). CLIENT_ID s (res_id x) = c \<and> type_entry s (res_type x) \<noteq> None"
    using assms by (auto simp: table_ok_def MAXHASHSIZE_def rs_def)
  have j: "j = 2 ^ n" "n \<le> 16" using t by (simp_all add: j_def n_def)
  have h: "hash x < j" for x unfolding hash_def j(1) by (rule hash_less [OF j(2)])
  have rs: "CLIENT_ID s (res_id x) = c \<and> type_entry s (res_type x) \<noteq> None" if "x \<in> set rs" for x
    using that t(1,5) all_concat [of "resources ?r" "\<lambda>x. CLIENT_ID s (res_id x) = c \<and> type_entry s (res_type x) \<noteq> None"]
    by (auto simp: rs_def)
  have b: "new ! k = filter (\<lambda>x. hash x = k) rs" if "k < j" for k
    unfolding new_def using relink_bucket [of rs hash "replicate j []" k] that h by simp
  have l: "length new = j" "length (concat new) = length rs"
    unfolding new_def using relink_length [of hash rs "replicate j []"] relink_elements [of rs hash "replicate j []"] h
    by (simp_all add: concat_replicate_trivial)
  have R: "RebuildTable True c s = set_client c (?r\<lparr>hashsize := n, buckets := j, resources := new\<rparr>) s"
    by (simp add: RebuildTable_def Let_def n_def j_def new_def rs_def hash_def [abs_def])
  have ok: "table_ok s c (?r\<lparr>hashsize := n, buckets := j, resources := new\<rparr>)"
    using l b j t(4) rs by (auto simp: table_ok_def MAXHASHSIZE_def hash_def)
  have f: "filter (\<lambda>x. res_id x = i) (concat new) = filter (\<lambda>x. res_id x = i) rs"
  proof -
    define k where "k = HashResourceID s i n"
    have k: "k < length new" unfolding k_def l(1) j(1) by (rule hash_less [OF j(2)])
    have "filter (\<lambda>x. res_id x = i) (concat new) = filter (\<lambda>x. res_id x = i) (new ! k)"
      using k l(1) b by (intro filter_concat_bucket) (auto simp: hash_def k_def)
    also have "\<dots> = filter (\<lambda>x. res_id x = i) rs"
      using k l(1) b by (auto simp: k_def hash_def intro: filter_cong)
    finally show ?thesis .
  qed
  show "table_ok s c (clientTable (RebuildTable ok c s) c)" "buckets (clientTable (RebuildTable ok c s) c) \<noteq> 0"
    "same_types s (RebuildTable ok c s)" "d \<noteq> c \<Longrightarrow> clientTable (RebuildTable ok c s) d = clientTable s d"
    "res_events (RebuildTable ok c s) = res_events s"
    "filter (\<lambda>x. res_id x = i) (concat (resources (clientTable (RebuildTable ok c s) c)))
     = filter (\<lambda>x. res_id x = i) (concat (resources (clientTable s c)))"
    using assms ok f j by (cases ok; simp add: R rs_simps rs_def; simp add: RebuildTable_def)+
qed


section \<open>Adding refines insertion at the front\<close>

lemma length_concat_update:
  assumes "h < length bs"
  shows "length (concat (bs[h := b])) + length (bs ! h) = length (concat bs) + length b"
proof -
  have "concat bs = concat (take h bs) @ bs ! h @ concat (drop (Suc h) bs)"
    using arg_cong [OF id_take_nth_drop [OF assms], of concat] by simp
  moreover have "concat (bs[h := b]) = concat (take h bs) @ b @ concat (drop (Suc h) bs)"
    using assms by (simp add: upd_conv_take_nth_drop)
  ultimately show ?thesis by simp
qed

lemma found_other_client:
  "same_types s t \<Longrightarrow> clientTable t (CLIENT_ID s i) = clientTable s (CLIENT_ID s i) \<Longrightarrow> found t i = found s i"
  by (simp add: found_def same_types_eq)

text \<open>Replacing one bucket of a table by one that fits.\<close>

lemma table_ok_bucket:
  assumes "table_ok s c r" "buckets r \<noteq> 0" "h < buckets r"
    "\<forall>x \<in> set b. HashResourceID s (res_id x) (hashsize r) = h \<and> CLIENT_ID s (res_id x) = c \<and> type_entry s (res_type x) \<noteq> None"
    "n + length (resources r ! h) = elements r + length b"
  shows "table_ok s c (r\<lparr>resources := (resources r)[h := b], elements := n\<rparr>)"
  using assms length_concat_update [of h "resources r" b]
  by (auto simp: table_ok_def nth_list_update)

lemma add_resource:
  fixes s :: "'z rs_scheme"
  assumes "rs_ok s" "buckets (clientTable s (CLIENT_ID s i)) \<noteq> 0" "type_entry s t \<noteq> None"
  obtains s' where "AddResource del rb True i t v s = Some (True, s')" "rs_ok s'" "same_types s s'"
    "found s' i = \<lparr>res_id = i, res_type = t, res_value = v\<rparr> # found s i" "\<forall>j. j \<noteq> i \<longrightarrow> found s' j = found s j"
    "res_events s' = res_events s @ [Adding \<lparr>res_id = i, res_type = t, res_value = v\<rparr>]"
proof -
  define c where "c = CLIENT_ID s i"
  define res where "res = \<lparr>res_id = i, res_type = t, res_value = v\<rparr>"
  define s1 where "s1 = (if 4 * buckets (clientTable s c) \<le> elements (clientTable s c)
      \<and> hashsize (clientTable s c) < MAXHASHSIZE then RebuildTable rb c s else s)"
  define r where "r = clientTable s1 c"
  have t: "table_ok s c (clientTable s c)" "buckets (clientTable s c) \<noteq> 0"
    using assms by (auto simp: rs_ok_def c_def)
  have s1: "table_ok s c r" "buckets r \<noteq> 0" "same_types s s1" "\<And>d. d \<noteq> c \<Longrightarrow> clientTable s1 d = clientTable s d"
      "res_events s1 = res_events s"
      "\<And>j. filter (\<lambda>x. res_id x = j) (concat (resources r)) = filter (\<lambda>x. res_id x = j) (concat (resources (clientTable s c)))"
    using t rebuild_ok [OF t] by (auto simp: s1_def r_def)
  have ok1: "rs_ok s1"
    unfolding rs_ok_def same_types_eq [OF s1(3)]
    using assms(1) s1(1,4) by (metis r_def rs_ok_def)
  define h where "h = HashResourceID s i (hashsize r)"
  have rr: "length (resources r) = buckets r" "buckets r = 2 ^ hashsize r" "hashsize r \<le> 16" "elements r = length (concat (resources r))"
    "\<forall>h < buckets r. \<forall>x \<in> set (resources r ! h). HashResourceID s (res_id x) (hashsize r) = h
       \<and> CLIENT_ID s (res_id x) = c \<and> type_entry s (res_type x) \<noteq> None"
    using s1(1,2) by (auto simp: table_ok_def MAXHASHSIZE_def)
  have h: "h < buckets r" unfolding h_def rr(2) by (rule hash_less [OF rr(3)])
  define r' where "r' = r\<lparr>resources := (resources r)[h := res # resources r ! h], elements := elements r + 1\<rparr>"
  have ok': "table_ok s c r'"
    unfolding r'_def using s1(1,2) h rr(5) assms(3)
    by (intro table_ok_bucket) (auto simp: h_def res_def c_def)
  define s' where "s' = log_event (Adding res) (set_client c r' s1)"
  have st: "same_types s s'"
    unfolding s'_def using s1(3) same_types_trans by (blast intro: set_client_simps)
  have ok: "rs_ok s'"
    unfolding s'_def rs_ok_log using ok' by (intro rs_ok_set [OF ok1]) (simp add: same_types_eq [OF s1(3)])
  have tab: "clientTable s' = (clientTable s1)(c := r')" by (simp add: s'_def rs_simps)
  have fo: "filter (\<lambda>x. res_id x = j) (concat (resources r')) =
      (if j = i then [res] else []) @ filter (\<lambda>x. res_id x = j) (concat (resources r))" for j
  proof (cases "HashResourceID s j (hashsize r) = h")
    case True
    have "filter (\<lambda>x. res_id x = j) (concat (resources r')) = filter (\<lambda>x. res_id x = j) (res # resources r ! h)"
      using h rr True by (subst filter_concat_bucket [of h]) (auto simp: r'_def nth_list_update)
    moreover have "filter (\<lambda>x. res_id x = j) (concat (resources r)) = filter (\<lambda>x. res_id x = j) (resources r ! h)"
      using h rr True by (intro filter_concat_bucket) auto
    ultimately show ?thesis by (simp add: res_def)
  next
    case False
    then have "j \<noteq> i" by (auto simp: h_def)
    define k where "k = HashResourceID s j (hashsize r)"
    have k: "k < buckets r" unfolding k_def rr(2) by (rule hash_less [OF rr(3)])
    have "filter (\<lambda>x. res_id x = j) (concat (resources r')) = filter (\<lambda>x. res_id x = j) (resources r' ! k)"
      using k rr h \<open>j \<noteq> i\<close> by (intro filter_concat_bucket) (auto simp: r'_def nth_list_update k_def res_def)
    moreover have "filter (\<lambda>x. res_id x = j) (concat (resources r)) = filter (\<lambda>x. res_id x = j) (resources r ! k)"
      using k rr by (intro filter_concat_bucket) (auto simp: k_def)
    ultimately show ?thesis using False \<open>j \<noteq> i\<close> by (simp add: r'_def k_def)
  qed
  have fs: "found s' j = (if j = i then [res] else []) @ found s j" for j
  proof (cases "CLIENT_ID s j = c")
    case True
    then show ?thesis using fo [of j] s1(6) [of j] by (simp add: found_def same_types_eq [OF st] tab)
  next
    case False
    then show ?thesis using s1(4) by (auto simp: found_def same_types_eq [OF st] tab c_def)
  qed
  have "AddResource del rb True i t v s = Some (True, s')"
    using t(2) by (simp add: AddResource_def c_def [symmetric] s1_def [symmetric] r_def [symmetric] Let_def
        h_def res_def [symmetric] r'_def s'_def same_types_eq [OF s1(3)])
  then show ?thesis
    using that ok st fs by (simp add: res_def) (simp add: s'_def rs_simps s1(5) res_def)
qed


section \<open>Looking up\<close>

lemma find_filter: "List.find (\<lambda>x. A x \<and> P x) xs = List.find P (filter A xs)"
  by (induction xs) auto

lemma found_none: "rs_ok s \<Longrightarrow> buckets (clientTable s (CLIENT_ID s i)) = 0 \<Longrightarrow> found s i = []"
  by (simp add: rs_ok_def table_ok_def found_def)

lemma find_resource_found:
  assumes "rs_ok s" "CLIENT_ID s i < LimitClients s"
  shows "find_resource s i P = List.find P (found s i)"
proof (cases "buckets (clientTable s (CLIENT_ID s i)) = 0")
  case True
  then show ?thesis using found_none [OF assms(1) True] by (simp add: find_resource_def)
next
  case False
  then show ?thesis
    using assms found_bucket [of s "CLIENT_ID s i" i] by (simp add: find_resource_def find_filter rs_ok_def)
qed

lemma find_cell_Some:
  "find_cell P xs = Some p \<Longrightarrow> p < length xs \<and> P (xs ! p) \<and> (\<forall>k < p. \<not> P (xs ! k))"
  by (induction xs arbitrary: p) (auto split: if_splits simp: less_Suc_eq_0_disj)

lemma find_cell_None: "find_cell P xs = None \<longleftrightarrow> (\<forall>x \<in> set xs. \<not> P x)"
  by (induction xs) auto

section \<open>Freeing\<close>

text \<open>Tables that only lost resources.\<close>

definition shrunk :: "'z rs_scheme \<Rightarrow> 'z rs_scheme \<Rightarrow> bool" where
  "shrunk s t \<longleftrightarrow> same_types s t \<and> (\<forall>c. buckets (clientTable t c) = buckets (clientTable s c)
     \<and> hashsize (clientTable t c) = hashsize (clientTable s c)
     \<and> list_all2 subseq (resources (clientTable t c)) (resources (clientTable s c)))"

text \<open>
  What \<open>resource.c\<close> expects of the functions that destroy resources: they may free other
  resources, but add none (its comments forbid to add and delete an equal number).
\<close>

definition well_behaved :: "'z destroy \<Rightarrow> bool" where
  "well_behaved del \<longleftrightarrow> (\<forall>f v i s. rs_ok s \<longrightarrow> rs_ok (del f v i s) \<and> shrunk s (del f v i s))"

lemma subseq_list_refl: "list_all2 subseq xs xs"
  by (rule list_all2_refl) simp

lemma shrunk_refl [simp]: "shrunk s s"
  by (simp add: shrunk_def subseq_list_refl)

lemma subseq_list_trans: "list_all2 subseq xs ys \<Longrightarrow> list_all2 subseq ys zs \<Longrightarrow> list_all2 subseq xs zs"
  by (erule (1) list_all2_trans [rotated]) (rule subseq_order.order_trans)

lemma shrunk_trans:
  assumes "shrunk s t" "shrunk t u" shows "shrunk s u"
  unfolding shrunk_def
proof (intro conjI allI)
  show "same_types s u" using assms same_types_trans unfolding shrunk_def by blast
  fix c
  show "buckets (clientTable u c) = buckets (clientTable s c)" "hashsize (clientTable u c) = hashsize (clientTable s c)"
    using assms by (simp_all add: shrunk_def)
  show "list_all2 subseq (resources (clientTable u c)) (resources (clientTable s c))"
    using assms subseq_list_trans unfolding shrunk_def by blast
qed

lemma shrunk_log [simp]: "shrunk s (log_event e s)"
  by (simp add: shrunk_def rs_simps subseq_list_refl)

lemma subseq_concat_length:
  "list_all2 subseq xs ys \<Longrightarrow> length (concat xs) \<le> length (concat ys) \<and> (length (concat xs) = length (concat ys) \<longrightarrow> xs = ys)"
proof (induction rule: list_all2_induct)
  case (Cons x xs y ys)
  have "length x \<le> length y" "length x = length y \<longrightarrow> x = y"
    using Cons.hyps(1) list_emb_length subseq_same_length by blast+
  then show ?case using Cons.IH by auto
qed simp

lemma shrunk_elements:
  assumes "shrunk s t" "rs_ok s" "rs_ok t" "buckets (clientTable s c) \<noteq> 0"
  shows "elements (clientTable t c) \<le> elements (clientTable s c)"
    "elements (clientTable t c) = elements (clientTable s c) \<Longrightarrow> resources (clientTable t c) = resources (clientTable s c)"
  using assms subseq_concat_length [of "resources (clientTable t c)" "resources (clientTable s c)"]
  by (simp_all add: shrunk_def rs_ok_def table_ok_def)

lemma shrunk_found:
  assumes "shrunk s t" shows "subseq (found t i) (found s i)"
proof -
  have "subseq (concat xs) (concat ys)" if "list_all2 subseq xs ys" for xs ys :: "ResourceRec list list"
    using that by (induction rule: list_all2_induct) (auto intro: list_emb_append_mono)
  then have "subseq (concat (resources (clientTable t (CLIENT_ID s i)))) (concat (resources (clientTable s (CLIENT_ID s i))))"
    using assms by (simp add: shrunk_def)
  moreover have "CLIENT_ID t = CLIENT_ID s" using assms same_types_eq(2) by (auto simp: shrunk_def)
  ultimately show ?thesis by (simp add: found_def subseq_filter)
qed

lemma unlink_ok:
  assumes "rs_ok s" "buckets (clientTable s c) \<noteq> 0" "h < buckets (clientTable s c)"
    "p < length (resources (clientTable s c) ! h)"
  shows "rs_ok (unlink_cell c h p s)" "shrunk s (unlink_cell c h p s)"
    "elements (clientTable s c) = Suc (elements (clientTable (unlink_cell c h p s) c))"
    "resources (clientTable (unlink_cell c h p s) c) = (resources (clientTable s c))[h :=
       take p (resources (clientTable s c) ! h) @ drop (Suc p) (resources (clientTable s c) ! h)]"
    "\<And>d. d \<noteq> c \<Longrightarrow> clientTable (unlink_cell c h p s) d = clientTable s d"
    "res_events (unlink_cell c h p s) = res_events s"
proof -
  let ?r = "clientTable s c"
  let ?ch = "resources ?r ! h"
  let ?b = "take p ?ch @ drop (Suc p) ?ch"
  have t: "table_ok s c ?r" using assms(1) by (simp add: rs_ok_def)
  then have tt: "length (resources ?r) = buckets ?r" "elements ?r = length (concat (resources ?r))"
    "\<forall>h < buckets ?r. \<forall>x \<in> set (resources ?r ! h). HashResourceID s (res_id x) (hashsize ?r) = h
       \<and> CLIENT_ID s (res_id x) = c \<and> type_entry s (res_type x) \<noteq> None"
    using assms(2) by (auto simp: table_ok_def)
  have h: "h < length (resources ?r)" using assms(3) tt(1) by simp
  have b: "set ?b \<subseteq> set ?ch" using set_take_subset set_drop_subset by fastforce
  have l: "length (concat (resources ?r)) = Suc (length (concat ((resources ?r)[h := ?b])))"
    using length_concat_update [OF h, of ?b] assms(4) by simp
  have "table_ok s c (?r\<lparr>resources := (resources ?r)[h := ?b], elements := elements ?r - 1\<rparr>)"
    using t assms(2,3) b tt(2,3) l length_concat_update [OF h, of ?b] by (intro table_ok_bucket) auto
  then show "rs_ok (unlink_cell c h p s)"
    unfolding unlink_cell_def Let_def by (rule rs_ok_set [OF assms(1)])
  have "subseq ?b (take p ?ch @ ?ch ! p # drop (Suc p) ?ch)"
    by (intro list_emb_append_mono list_emb_Cons) simp_all
  then have "subseq ?b ?ch" using id_take_nth_drop [OF assms(4)] by simp
  then have "list_all2 subseq ((resources ?r)[h := ?b]) (resources ?r)"
    using h by (auto simp: list_all2_conv_all_nth nth_list_update)
  then show "shrunk s (unlink_cell c h p s)"
    by (auto simp: shrunk_def unlink_cell_def Let_def rs_simps subseq_list_refl)
  show "elements (clientTable s c) = Suc (elements (clientTable (unlink_cell c h p s) c))"
    using l tt(2) by (simp add: unlink_cell_def Let_def rs_simps)
qed (simp_all add: unlink_cell_def Let_def rs_simps)


text \<open>A destroy function that does not use the database.\<close>

definition inert :: "'z destroy \<Rightarrow> bool" where
  "inert del \<longleftrightarrow> (\<forall>f v i s. clientTable (del f v i s) = clientTable s \<and> same_types s (del f v i s)
     \<and> res_events (del f v i s) = res_events s)"

lemma inertD:
  assumes "inert del"
  shows "clientTable (del f v i s) = clientTable s" "same_types s (del f v i s)" "res_events (del f v i s) = res_events s"
  using assms by (simp_all add: inert_def)

lemma inert_well_behaved: "inert del \<Longrightarrow> well_behaved del"
  by (simp add: well_behaved_def shrunk_def subseq_list_refl rs_ok_def inertD same_types_eq(6) [OF inertD(2)])

lemma do_free:
  assumes "well_behaved del" "rs_ok s" "type_entry s (res_type res) \<noteq> None"
  obtains s' where "doFreeResource del res sk s = Some s'" "rs_ok s'" "shrunk s s'"
    "inert del \<Longrightarrow> clientTable s' = clientTable s \<and> res_events s' = res_events s @ [Freeing res]"
proof -
  let ?s1 = "log_event (Freeing res) s"
  obtain y where y: "type_entry ?s1 (res_type res) = Some y" using assms(3) by (auto simp: rs_simps)
  have ok: "rs_ok ?s1" using assms(2) by simp
  show ?thesis
  proof (cases sk)
    case True
    then have "doFreeResource del res sk s = Some ?s1" by (simp add: doFreeResource_def)
    then show ?thesis using that ok by (simp add: rs_simps)
  next
    case False
    let ?s2 = "del (deleteFunc y) (res_value res) (res_id res) ?s1"
    have "doFreeResource del res sk s = Some ?s2"
      using False y by (simp add: doFreeResource_def call_delete_def)
    moreover have "rs_ok ?s2" "shrunk ?s1 ?s2" using assms(1) ok by (auto simp: well_behaved_def)
    moreover from this have "shrunk s ?s2" by (blast intro: shrunk_trans [OF shrunk_log])
    ultimately show ?thesis
      using that by (simp add: inertD rs_simps)
  qed
qed

lemma bucket_type:
  "rs_ok s \<Longrightarrow> buckets (clientTable s c) \<noteq> 0 \<Longrightarrow> h < buckets (clientTable s c)
   \<Longrightarrow> x \<in> set (resources (clientTable s c) ! h) \<Longrightarrow> type_entry s (res_type x) \<noteq> None"
  unfolding rs_ok_def table_ok_def by blast

lemma bucket_length:
  assumes "rs_ok s" "buckets (clientTable s c) \<noteq> 0" "h < buckets (clientTable s c)"
  shows "length (resources (clientTable s c) ! h) \<le> elements (clientTable s c)" "h < length (resources (clientTable s c))"
proof -
  have t: "length (resources (clientTable s c)) = buckets (clientTable s c)"
    "elements (clientTable s c) = length (concat (resources (clientTable s c)))"
    using assms(1,2) by (auto simp: rs_ok_def table_ok_def)
  show h: "h < length (resources (clientTable s c))" using t(1) assms(3) by simp
  show "length (resources (clientTable s c) ! h) \<le> elements (clientTable s c)"
    using length_concat_update [OF h, of "[]"] t(2) by simp
qed

text \<open>Destroying the resource in cell \<open>p\<close>: what one round of the loops does.\<close>

lemma destroy_cell:
  assumes "well_behaved del" "rs_ok s" "buckets (clientTable s c) \<noteq> 0" "h < buckets (clientTable s c)"
    "p < length (resources (clientTable s c) ! h)"
  obtains s' where "doFreeResource del (resources (clientTable s c) ! h ! p) sk (unlink_cell c h p s) = Some s'"
    "rs_ok s'" "shrunk s s'" "elements (clientTable s' c) < elements (clientTable s c)"
    "elements (clientTable s' c) = elements (clientTable (unlink_cell c h p s) c) \<Longrightarrow>
       resources (clientTable s' c) = resources (clientTable (unlink_cell c h p s) c)"
    "inert del \<Longrightarrow> clientTable s' = clientTable (unlink_cell c h p s)
       \<and> res_events s' = res_events s @ [Freeing (resources (clientTable s c) ! h ! p)]"
proof -
  let ?x = "resources (clientTable s c) ! h ! p"
  let ?s1 = "unlink_cell c h p s"
  note u = unlink_ok [OF assms(2-5)]
  have "type_entry ?s1 (res_type ?x) \<noteq> None"
    using bucket_type [OF assms(2-4), of ?x] assms(5) u(2) same_types_eq(3) [of s ?s1] by (simp add: shrunk_def)
  then obtain s' where s': "doFreeResource del ?x sk ?s1 = Some s'" "rs_ok s'" "shrunk ?s1 s'"
    "inert del \<Longrightarrow> clientTable s' = clientTable ?s1 \<and> res_events s' = res_events ?s1 @ [Freeing ?x]"
    using do_free [OF assms(1) u(1)] by metis
  have b: "buckets (clientTable ?s1 c) \<noteq> 0" using u(2) assms(3) by (simp add: shrunk_def)
  note e = shrunk_elements [OF s'(3) u(1) s'(2) b]
  show ?thesis
    using that [OF s'(1,2) shrunk_trans [OF u(2) s'(3)]] e s'(4) u(3,6) by simp
qed

lemma free_loop_returns:
  assumes wb: "well_behaved del" and n: "n \<noteq> 0" "h < n"
  shows "rs_ok s \<Longrightarrow> buckets (clientTable s c) = n \<Longrightarrow> \<forall>x \<in> set (take p (resources (clientTable s c) ! h)). \<not> match x
    \<Longrightarrow> elements (clientTable s c) * (elements (clientTable s c) + 2) + (length (resources (clientTable s c) ! h) - p) < fuel
    \<Longrightarrow> \<exists>s'. free_loop del match sk c n h p fuel s = Some s' \<and> rs_ok s' \<and> shrunk s s'
      \<and> (\<forall>x \<in> set (resources (clientTable s' c) ! h). \<not> match x)
      \<and> (inert del \<longrightarrow> resources (clientTable s' c) = (resources (clientTable s c))[h := filter (\<lambda>x. \<not> match x) (resources (clientTable s c) ! h)]
          \<and> (\<forall>d. d \<noteq> c \<longrightarrow> clientTable s' d = clientTable s d)
          \<and> res_events s' = res_events s @ map Freeing (filter match (resources (clientTable s c) ! h)))"
proof (induction fuel arbitrary: p s)
  case (Suc fuel)
  let ?ch = "resources (clientTable s c) ! h"
  let ?E = "elements (clientTable s c)"
  have hb: "h < buckets (clientTable s c)" "buckets (clientTable s c) \<noteq> 0" using Suc.prems(2) n by simp_all
  note bl = bucket_length [OF Suc.prems(1) hb(2,1)]
  show ?case
  proof (cases "p < length ?ch")
    case False
    then have "\<forall>x \<in> set ?ch. \<not> match x" using Suc.prems(3) by simp
    moreover from this have "filter match ?ch = []" "filter (\<lambda>x. \<not> match x) ?ch = ?ch" by (auto simp: filter_empty_conv)
    ultimately show ?thesis using False Suc.prems(1,2) by (simp add: rd_def)
  next
    case True
    let ?x = "?ch ! p"
    show ?thesis
    proof (cases "match ?x")
      case False
      have tk: "\<forall>x \<in> set (take (Suc p) ?ch). \<not> match x"
        using Suc.prems(3) False True by (auto simp: take_Suc_conv_app_nth)
      have "?E * (?E + 2) + (length ?ch - Suc p) < fuel" using Suc.prems(4) True by linarith
      from Suc.IH [OF Suc.prems(1,2) tk this] show ?thesis using False True Suc.prems(2) by (simp add: rd_def)
    next
      case m: True
      let ?s1 = "unlink_cell c h p s"
      note u = unlink_ok [OF Suc.prems(1) hb(2,1) True]
      obtain s2 where s2: "doFreeResource del ?x (sk ?x) ?s1 = Some s2" "rs_ok s2" "shrunk s s2"
          "elements (clientTable s2 c) < ?E"
          "elements (clientTable s2 c) = elements (clientTable ?s1 c) \<Longrightarrow> resources (clientTable s2 c) = resources (clientTable ?s1 c)"
          "inert del \<Longrightarrow> clientTable s2 = clientTable ?s1 \<and> res_events s2 = res_events s @ [Freeing ?x]"
        using destroy_cell [OF wb Suc.prems(1) hb(2,1) True] by metis
      define q where "q = (if elements (clientTable s2 c) \<noteq> elements (clientTable ?s1 c) then 0 else p)"
      have b2: "buckets (clientTable s2 c) = n" using s2(3) Suc.prems(2) by (simp add: shrunk_def)
      have ch1: "resources (clientTable ?s1 c) ! h = take p ?ch @ drop (Suc p) ?ch" using u(4) bl(2) by simp
      have tk: "\<forall>x \<in> set (take q (resources (clientTable s2 c) ! h)). \<not> match x"
        using s2(5) ch1 Suc.prems(3) True by (auto simp: q_def)
      have l2: "length (resources (clientTable s2 c) ! h) \<le> elements (clientTable s2 c)"
        using bucket_length [OF s2(2)] b2 n by simp
      have "elements (clientTable s2 c) * (elements (clientTable s2 c) + 2) + (length (resources (clientTable s2 c) ! h) - q) < fuel"
      proof -
        obtain k where E: "?E = Suc k" "elements (clientTable s2 c) \<le> k" using s2(4) by (cases ?E) auto
        have "elements (clientTable s2 c) * (elements (clientTable s2 c) + 2) \<le> k * (k + 2)"
          using E(2) by (intro mult_le_mono) auto
        then show ?thesis using Suc.prems(4) E l2 by (simp add: algebra_simps)
      qed
      from Suc.IH [OF s2(2) b2 tk this] obtain s' where s': "free_loop del match sk c n h q fuel s2 = Some s'"
        "rs_ok s'" "shrunk s2 s'" "\<forall>x \<in> set (resources (clientTable s' c) ! h). \<not> match x"
        "inert del \<longrightarrow> resources (clientTable s' c) = (resources (clientTable s2 c))[h := filter (\<lambda>x. \<not> match x) (resources (clientTable s2 c) ! h)]
          \<and> (\<forall>d. d \<noteq> c \<longrightarrow> clientTable s' d = clientTable s2 d)
          \<and> res_events s' = res_events s2 @ map Freeing (filter match (resources (clientTable s2 c) ! h))" by blast
      have run: "free_loop del match sk c n h p (Suc fuel) s = Some s'"
        using m True Suc.prems(2) s2(1) s'(1) by (simp add: rd_def q_def Let_def)
      have f: "filter (\<lambda>x. \<not> match x) (take p ?ch @ drop (Suc p) ?ch) = filter (\<lambda>x. \<not> match x) ?ch"
        "filter match ?ch = ?x # filter match (take p ?ch @ drop (Suc p) ?ch)"
      proof -
        have c: "?ch = take p ?ch @ ?x # drop (Suc p) ?ch" by (rule id_take_nth_drop [OF True])
        have e: "filter match (take p ?ch) = []" using Suc.prems(3) by (simp add: filter_empty_conv)
        show "filter (\<lambda>x. \<not> match x) (take p ?ch @ drop (Suc p) ?ch) = filter (\<lambda>x. \<not> match x) ?ch"
          using m by (subst (3) c) simp
        show "filter match ?ch = ?x # filter match (take p ?ch @ drop (Suc p) ?ch)"
          using m e by (subst (1) c) simp
      qed
      have "inert del \<longrightarrow> resources (clientTable s' c) = (resources (clientTable s c))[h := filter (\<lambda>x. \<not> match x) ?ch]
          \<and> (\<forall>d. d \<noteq> c \<longrightarrow> clientTable s' d = clientTable s d)
          \<and> res_events s' = res_events s @ map Freeing (filter match ?ch)"
        using s'(5) s2(6) u(4,5) ch1 f by simp
      then show ?thesis using run s'(2,4) shrunk_trans [OF s2(3) s'(3)] by blast
    qed
  qed
qed simp


lemma shrunk_eq:
  assumes "shrunk s t"
  shows "HashResourceID t = HashResourceID s" "CLIENT_ID t = CLIENT_ID s" "LimitClients t = LimitClients s"
    "buckets (clientTable t c) = buckets (clientTable s c)" "hashsize (clientTable t c) = hashsize (clientTable s c)"
  using assms same_types_eq(1,2) [of s t] by (simp_all add: shrunk_def same_types_def)

lemma table_facts:
  assumes "rs_ok s" "buckets (clientTable s c) \<noteq> 0"
  shows "length (resources (clientTable s c)) = buckets (clientTable s c)"
    "buckets (clientTable s c) = 2 ^ hashsize (clientTable s c)" "hashsize (clientTable s c) \<le> 16"
    "elements (clientTable s c) = length (concat (resources (clientTable s c)))"
  using assms by (auto simp: rs_ok_def table_ok_def MAXHASHSIZE_def)

lemma hash_in_table:
  "rs_ok s \<Longrightarrow> buckets (clientTable s c) \<noteq> 0 \<Longrightarrow> HashResourceID s i (hashsize (clientTable s c)) < buckets (clientTable s c)"
  using table_facts [of s c] hash_less by metis

lemma free_resource:
  assumes "rs_ok s" "well_behaved del" "CLIENT_ID s i < LimitClients s"
    "elements (clientTable s (CLIENT_ID s i)) * (elements (clientTable s (CLIENT_ID s i)) + 3) < fuel"
  obtains s' where "FreeResource del fuel i sk s = Some s'" "rs_ok s'" "shrunk s s'" "found s' i = []"
    "inert del \<Longrightarrow> (\<forall>j. j \<noteq> i \<longrightarrow> found s' j = found s j) \<and> res_events s' = res_events s @ map Freeing (found s i)"
proof (cases "buckets (clientTable s (CLIENT_ID s i)) = 0")
  case True
  then show ?thesis using that [of s] found_none [OF assms(1) True] assms(1) by (simp add: FreeResource_def)
next
  case False
  define c where "c = CLIENT_ID s i"
  define h where "h = HashResourceID s i (hashsize (clientTable s c))"
  have b: "buckets (clientTable s c) \<noteq> 0" using False by (simp add: c_def)
  have h: "h < buckets (clientTable s c)" unfolding h_def by (rule hash_in_table [OF assms(1) b])
  have l: "length (resources (clientTable s c) ! h) \<le> elements (clientTable s c)" by (rule bucket_length [OF assms(1) b h])
  have fl: "elements (clientTable s c) * (elements (clientTable s c) + 2) + (length (resources (clientTable s c) ! h) - 0) < fuel"
    using assms(4) l by (simp add: c_def algebra_simps)
  obtain s' where s': "free_loop del (\<lambda>x. res_id x = i) (\<lambda>x. res_type x = sk) c (buckets (clientTable s c)) h 0 fuel s = Some s'"
    "rs_ok s'" "shrunk s s'" "\<forall>x \<in> set (resources (clientTable s' c) ! h). res_id x \<noteq> i"
    "inert del \<longrightarrow> resources (clientTable s' c) = (resources (clientTable s c))[h := filter (\<lambda>x. res_id x \<noteq> i) (resources (clientTable s c) ! h)]
          \<and> (\<forall>d. d \<noteq> c \<longrightarrow> clientTable s' d = clientTable s d)
          \<and> res_events s' = res_events s @ map Freeing (filter (\<lambda>x. res_id x = i) (resources (clientTable s c) ! h))"
    using free_loop_returns [OF assms(2) b h assms(1) refl _ fl, of "\<lambda>x. res_id x = i" "\<lambda>x. res_type x = sk"] by auto
  have run: "FreeResource del fuel i sk s = Some s'"
    using assms(3) b s'(1) by (simp add: FreeResource_def c_def [symmetric] h_def [symmetric] Let_def)
  have b': "buckets (clientTable s' c) \<noteq> 0" using b shrunk_eq(4) [OF s'(3)] by simp
  have c': "CLIENT_ID s' i = c" using shrunk_eq(2) [OF s'(3)] by (simp add: c_def)
  have bk: "bucket s' c j = resources (clientTable s' c) ! HashResourceID s j (hashsize (clientTable s c))" for j
    using shrunk_eq [OF s'(3)] by (simp add: bucket_def)
  have fb: "found s' j = filter (\<lambda>x. res_id x = j) (bucket s' c j)" if "CLIENT_ID s j = c" for j
    using that s'(2) shrunk_eq(2) [OF s'(3)] b' by (intro found_bucket) (auto simp: rs_ok_def)
  have fb0: "found s j = filter (\<lambda>x. res_id x = j) (bucket s c j)" if "CLIENT_ID s j = c" for j
    using that assms(1) b by (intro found_bucket) (auto simp: rs_ok_def)
  have gone: "found s' i = []"
    using fb [of i] bk [of i] s'(4) by (simp add: c_def h_def [symmetric] filter_empty_conv)
      (simp add: h_def c_def filter_empty_conv)
  show ?thesis
  proof (rule that [OF run s'(2,3) gone])
    assume inert: "inert del"
    have "found s' j = found s j" if "j \<noteq> i" for j
    proof (cases "CLIENT_ID s j = c")
      case True
      let ?k = "HashResourceID s j (hashsize (clientTable s c))"
      have "?k < length (resources (clientTable s c))"
        using hash_in_table [OF assms(1) b, of j] table_facts(1) [OF assms(1) b] by simp
      then have "filter (\<lambda>x. res_id x = j) (resources (clientTable s' c) ! ?k) = filter (\<lambda>x. res_id x = j) (resources (clientTable s c) ! ?k)"
        using s'(5) inert that by (cases "?k = h") (auto intro: filter_cong)
      then show ?thesis using fb [OF True] fb0 [OF True] bk [of j] by (simp add: bucket_def)
    next
      case False
      then show ?thesis using s'(5) inert shrunk_eq(2) [OF s'(3)] by (auto simp: found_def)
    qed
    moreover have "res_events s' = res_events s @ map Freeing (found s i)"
      using s'(5) inert fb0 [of i] by (simp add: c_def bucket_def h_def)
    ultimately show "(\<forall>j. j \<noteq> i \<longrightarrow> found s' j = found s j) \<and> res_events s' = res_events s @ map Freeing (found s i)" by blast
  qed
qed

section \<open>Freeing everything a client owns\<close>

lemma empty_bucket_returns:
  assumes wb: "well_behaved del" and n: "n \<noteq> 0" "h < n"
  shows "rs_ok s \<Longrightarrow> buckets (clientTable s c) = n \<Longrightarrow> elements (clientTable s c) < fuel
    \<Longrightarrow> \<exists>s'. empty_bucket del c n h fuel s = Some s' \<and> rs_ok s' \<and> shrunk s s' \<and> resources (clientTable s' c) ! h = []
      \<and> (inert del \<longrightarrow> resources (clientTable s' c) = (resources (clientTable s c))[h := []]
          \<and> (\<forall>d. d \<noteq> c \<longrightarrow> clientTable s' d = clientTable s d)
          \<and> res_events s' = res_events s @ map Freeing (resources (clientTable s c) ! h))"
proof (induction fuel arbitrary: s)
  case (Suc fuel)
  have hb: "h < buckets (clientTable s c)" "buckets (clientTable s c) \<noteq> 0" using Suc.prems(2) n by simp_all
  note bl = bucket_length [OF Suc.prems(1) hb(2,1)]
  show ?case
  proof (cases "resources (clientTable s c) ! h")
    case Nil
    then have "resources (clientTable s c) = (resources (clientTable s c))[h := []]"
      by (metis list_update_id)
    then show ?thesis using Nil Suc.prems by simp
  next
    case (Cons x xs)
    then have p: "0 < length (resources (clientTable s c) ! h)" by simp
    note u = unlink_ok [OF Suc.prems(1) hb(2,1) p]
    obtain s2 where s2: "doFreeResource del (resources (clientTable s c) ! h ! 0) False (unlink_cell c h 0 s) = Some s2"
        "rs_ok s2" "shrunk s s2" "elements (clientTable s2 c) < elements (clientTable s c)"
        "inert del \<Longrightarrow> clientTable s2 = clientTable (unlink_cell c h 0 s)
           \<and> res_events s2 = res_events s @ [Freeing (resources (clientTable s c) ! h ! 0)]"
      using destroy_cell [OF wb Suc.prems(1) hb(2,1) p] by metis
    have b2: "buckets (clientTable s2 c) = n" using shrunk_eq(4) [OF s2(3)] Suc.prems(2) by simp
    have "elements (clientTable s2 c) < fuel" using s2(4) Suc.prems(3) by simp
    from Suc.IH [OF s2(2) b2 this] obtain s' where s': "empty_bucket del c n h fuel s2 = Some s'" "rs_ok s'" "shrunk s2 s'"
      "resources (clientTable s' c) ! h = []"
      "inert del \<longrightarrow> resources (clientTable s' c) = (resources (clientTable s2 c))[h := []]
          \<and> (\<forall>d. d \<noteq> c \<longrightarrow> clientTable s' d = clientTable s2 d)
          \<and> res_events s' = res_events s2 @ map Freeing (resources (clientTable s2 c) ! h)" by blast
    have "empty_bucket del c n h (Suc fuel) s = Some s'"
      using Cons s2(1) s'(1) Suc.prems(2) by simp
    moreover have "inert del \<longrightarrow> resources (clientTable s' c) = (resources (clientTable s c))[h := []]
          \<and> (\<forall>d. d \<noteq> c \<longrightarrow> clientTable s' d = clientTable s d)
          \<and> res_events s' = res_events s @ map Freeing (resources (clientTable s c) ! h)"
      using s'(5) s2(5) u(4,5) bl(2) Cons by simp
    ultimately show ?thesis using s'(2,4) shrunk_trans [OF s2(3) s'(3)] by blast
  qed
qed simp

lemma empty_stays:
  "shrunk s t \<Longrightarrow> h < length (resources (clientTable s c)) \<Longrightarrow> resources (clientTable s c) ! h = [] \<Longrightarrow> resources (clientTable t c) ! h = []"
  unfolding shrunk_def by (metis list_all2_conv_all_nth list_emb_Nil2)

lemma empty_buckets_returns:
  assumes wb: "well_behaved del" and n: "n \<noteq> 0"
  shows "rs_ok s \<Longrightarrow> buckets (clientTable s c) = n \<Longrightarrow> elements (clientTable s c) < fuel \<Longrightarrow> \<forall>j \<in> set js. j < n \<Longrightarrow> distinct js
    \<Longrightarrow> \<exists>s'. empty_buckets del fuel c n js s = Some s' \<and> rs_ok s' \<and> shrunk s s'
      \<and> (\<forall>j \<in> set js. resources (clientTable s' c) ! j = [])
      \<and> (inert del \<longrightarrow> (\<forall>d. d \<noteq> c \<longrightarrow> clientTable s' d = clientTable s d)
          \<and> res_events s' = res_events s @ map Freeing (concat (map (\<lambda>j. resources (clientTable s c) ! j) js)))"
proof (induction js arbitrary: s)
  case (Cons j js)
  obtain s1 where s1: "empty_bucket del c n j fuel s = Some s1" "rs_ok s1" "shrunk s s1" "resources (clientTable s1 c) ! j = []"
      "inert del \<longrightarrow> resources (clientTable s1 c) = (resources (clientTable s c))[j := []]
          \<and> (\<forall>d. d \<noteq> c \<longrightarrow> clientTable s1 d = clientTable s d)
          \<and> res_events s1 = res_events s @ map Freeing (resources (clientTable s c) ! j)"
    using empty_bucket_returns [OF wb n, of j s c fuel] Cons.prems by auto
  have b: "buckets (clientTable s1 c) = n" using shrunk_eq(4) [OF s1(3)] Cons.prems(2) by simp
  have "elements (clientTable s1 c) \<le> elements (clientTable s c)"
    using shrunk_elements(1) [OF s1(3) Cons.prems(1) s1(2)] Cons.prems(2) n by simp
  then have e: "elements (clientTable s1 c) < fuel" using Cons.prems(3) by simp
  obtain s' where s': "empty_buckets del fuel c n js s1 = Some s'" "rs_ok s'" "shrunk s1 s'"
      "\<forall>j \<in> set js. resources (clientTable s' c) ! j = []"
      "inert del \<longrightarrow> (\<forall>d. d \<noteq> c \<longrightarrow> clientTable s' d = clientTable s1 d)
          \<and> res_events s' = res_events s1 @ map Freeing (concat (map (\<lambda>j. resources (clientTable s1 c) ! j) js))"
    using Cons.IH [OF s1(2) b e] Cons.prems(4,5) by auto
  have "length (resources (clientTable s1 c)) = n" using table_facts(1) [OF s1(2)] b n by simp
  then have "resources (clientTable s' c) ! j = []"
    using empty_stays [OF s'(3)] s1(4) Cons.prems(4) by simp
  moreover have "(\<forall>d. d \<noteq> c \<longrightarrow> clientTable s' d = clientTable s d)
      \<and> res_events s' = res_events s @ map Freeing (concat (map (\<lambda>j. resources (clientTable s c) ! j) (j # js)))" if i: "inert del"
  proof -
    have "map (\<lambda>j. resources (clientTable s1 c) ! j) js = map (\<lambda>j. resources (clientTable s c) ! j) js"
      using s1(5) i Cons.prems(5) by (auto intro!: nth_list_update_neq)
    then show ?thesis using s1(5) s'(5) i by (simp del: map_eq_conv)
  qed
  ultimately show ?case
    using s1(1) s'(1,2,4) shrunk_trans [OF s1(3) s'(3)] by auto
qed simp

lemma free_client_resources:
  assumes "rs_ok (save c s)" "shrunk s (save c s)" "well_behaved del" "elements (clientTable (save c s) c) < fuel"
    "buckets (clientTable s c) \<noteq> 0"
  obtains s' where "FreeClientResources del save fuel (Some c) s = Some s'" "rs_ok s'" "buckets (clientTable s' c) = 0"
    "\<And>i. CLIENT_ID s i = c \<Longrightarrow> found s' i = []" "\<And>i. subseq (found s' i) (found s i)"
    "inert del \<Longrightarrow> (\<forall>d. d \<noteq> c \<longrightarrow> clientTable s' d = clientTable (save c s) d)
       \<and> res_events s' = res_events (save c s) @ map Freeing (concat (resources (clientTable (save c s) c)))"
proof -
  let ?s0 = "save c s"
  let ?n = "buckets (clientTable ?s0 c)"
  have n: "?n \<noteq> 0" using shrunk_eq(4) [OF assms(2)] assms(5) by simp
  obtain s1 where s1: "empty_buckets del fuel c ?n [0..<?n] ?s0 = Some s1" "rs_ok s1" "shrunk ?s0 s1"
      "\<forall>j < ?n. resources (clientTable s1 c) ! j = []"
      "inert del \<longrightarrow> (\<forall>d. d \<noteq> c \<longrightarrow> clientTable s1 d = clientTable ?s0 d)
          \<and> res_events s1 = res_events ?s0 @ map Freeing (concat (map (\<lambda>j. resources (clientTable ?s0 c) ! j) [0..<?n]))"
    using empty_buckets_returns [OF assms(3) n assms(1) refl assms(4), of "[0..<?n]"] by auto
  define s' where "s' = set_client c ((clientTable s1 c)\<lparr>resources := [], buckets := 0\<rparr>) s1"
  have run: "FreeClientResources del save fuel (Some c) s = Some s'"
    using s1(1) by (simp add: FreeClientResources_def Let_def s'_def)
  have ok: "rs_ok s'" unfolding s'_def by (rule rs_ok_set [OF s1(2)]) (simp add: table_ok_def)
  have ci: "CLIENT_ID s' = CLIENT_ID s"
    using shrunk_eq(2) [OF s1(3)] shrunk_eq(2) [OF assms(2)] by (simp add: s'_def rs_simps)
  have tab: "clientTable s' = (clientTable s1)(c := (clientTable s1 c)\<lparr>resources := [], buckets := 0\<rparr>)"
    by (simp add: s'_def rs_simps)
  have gone: "found s' i = []" if "CLIENT_ID s i = c" for i
    using that by (simp add: found_def ci tab)
  have sub: "subseq (found s' i) (found s i)" for i
  proof (cases "CLIENT_ID s i = c")
    case False
    then have "found s' i = found s1 i"
      using shrunk_eq(2) [OF s1(3)] shrunk_eq(2) [OF assms(2)] by (simp add: found_def ci tab)
    then show ?thesis using shrunk_found [OF shrunk_trans [OF assms(2) s1(3)]] by simp
  qed (simp add: gone)
  have "map (\<lambda>j. resources (clientTable ?s0 c) ! j) [0..<?n] = resources (clientTable ?s0 c)"
    using table_facts(1) [OF assms(1) n] by (simp add: list_eq_iff_nth_eq)
  then show ?thesis
    using that [OF run ok _ gone sub] s1(5) by (simp add: tab) (simp add: s'_def rs_simps)
qed


text \<open>
  Destroy functions that work on the rest of the server only: \<open>eff\<close> is what the function of a type
  does there. The effect of destroying a resource is that of the function of its type, called with
  its value and its identifier.
\<close>

definition only_outside :: "'z destroy \<Rightarrow> (nat \<Rightarrow> nat \<Rightarrow> XID \<Rightarrow> 'z \<Rightarrow> 'z) \<Rightarrow> bool" where
  "only_outside del eff \<longleftrightarrow> (\<forall>f v i s. del f v i s = rs.more_update (eff f v i) s)"

definition destroyed :: "(nat \<Rightarrow> nat \<Rightarrow> XID \<Rightarrow> 'z \<Rightarrow> 'z) \<Rightarrow> 'z rs_scheme \<Rightarrow> ResourceRec \<Rightarrow> 'z \<Rightarrow> 'z" where
  "destroyed eff s x = eff (deleteFunc (the (type_entry s (res_type x)))) (res_value x) (res_id x)"

lemma only_outside_inert: "only_outside del eff \<Longrightarrow> inert del"
  by (simp add: only_outside_def inert_def same_types_def)

lemma destroyed_same: "same_types s t \<Longrightarrow> destroyed eff t = destroyed eff s"
  by (simp add: destroyed_def fun_eq_iff same_types_eq(3))

lemma unlink_more: "rs.more (unlink_cell c h p s) = rs.more s" "same_types s (unlink_cell c h p s)"
  by (simp_all add: unlink_cell_def Let_def set_client_def same_types_def)

lemma do_free_effect:
  assumes "only_outside del eff" "doFreeResource del res False s = Some s'"
  shows "rs.more s' = destroyed eff s res (rs.more s)" "clientTable s' = clientTable s" "same_types s s'"
proof -
  obtain y where y: "type_entry s (res_type res) = Some y" "s' = del (deleteFunc y) (res_value res) (res_id res) (log_event (Freeing res) s)"
    using assms(2) by (cases "type_entry s (res_type res)") (auto simp: doFreeResource_def call_delete_def rs_simps)
  have s': "s' = rs.more_update (eff (deleteFunc y) (res_value res) (res_id res)) (log_event (Freeing res) s)"
    using assms(1) y(2) by (simp add: only_outside_def)
  show "rs.more s' = destroyed eff s res (rs.more s)" using y(1) by (simp add: s' destroyed_def log_event_def)
  show "clientTable s' = clientTable s" "same_types s s'" by (simp_all add: s' log_event_def same_types_def)
qed

lemma empty_bucket_effect:
  assumes "only_outside del eff"
  shows "empty_bucket del c n h fuel s = Some s' \<Longrightarrow> h < length (resources (clientTable s c))
    \<Longrightarrow> rs.more s' = fold (destroyed eff s) (resources (clientTable s c) ! h) (rs.more s) \<and> same_types s s'
      \<and> resources (clientTable s' c) = (resources (clientTable s c))[h := []]"
proof (induction fuel arbitrary: s)
  case (Suc fuel)
  show ?case
  proof (cases "resources (clientTable s c) ! h")
    case Nil
    then have "resources (clientTable s c) = (resources (clientTable s c))[h := []]" by (metis list_update_id)
    then show ?thesis using Nil Suc.prems(1) by (auto simp: same_types_def split: if_splits)
  next
    case (Cons x xs)
    let ?u = "unlink_cell c h 0 s"
    obtain s1 where s1: "doFreeResource del x False ?u = Some s1" "empty_bucket del c n h fuel s1 = Some s'"
      using Suc.prems(1) Cons by (auto split: if_splits bind_splits)
    note e = do_free_effect [OF assms s1(1)]
    have tab: "resources (clientTable s1 c) = (resources (clientTable s c))[h := xs]"
      unfolding e(2) using Cons by (simp add: unlink_cell_def Let_def rs_simps)
    have "same_types s s1" using same_types_trans [OF unlink_more(2) e(3)] .
    moreover have "rs.more s1 = destroyed eff s x (rs.more s)"
      unfolding e(1) unlink_more(1) destroyed_same [OF unlink_more(2)] ..
    ultimately show ?thesis
      using Suc.IH [OF s1(2)] tab Suc.prems(2) Cons destroyed_same [of s s1 eff] same_types_trans by auto
  qed
qed simp

lemma empty_buckets_effect:
  assumes "only_outside del eff"
  shows "empty_buckets del fuel c n js s = Some s' \<Longrightarrow> \<forall>j \<in> set js. j < length (resources (clientTable s c)) \<Longrightarrow> distinct js
    \<Longrightarrow> rs.more s' = fold (destroyed eff s) (concat (map (\<lambda>j. resources (clientTable s c) ! j) js)) (rs.more s)"
proof (induction js arbitrary: s)
  case (Cons j js)
  obtain s1 where s1: "empty_bucket del c n j fuel s = Some s1" "empty_buckets del fuel c n js s1 = Some s'"
    using Cons.prems(1) by (auto split: bind_splits)
  note e = empty_bucket_effect [OF assms s1(1)]
  have e: "rs.more s1 = fold (destroyed eff s) (resources (clientTable s c) ! j) (rs.more s)" "same_types s s1"
    "resources (clientTable s1 c) = (resources (clientTable s c))[j := []]" using e Cons.prems(2) by auto
  have "map (\<lambda>j. resources (clientTable s1 c) ! j) js = map (\<lambda>j. resources (clientTable s c) ! j) js"
    using e(3) Cons.prems(3) by (auto intro!: nth_list_update_neq)
  moreover have "rs.more s' = fold (destroyed eff s1) (concat (map (\<lambda>j. resources (clientTable s1 c) ! j) js)) (rs.more s1)"
    using Cons.IH [OF s1(2)] Cons.prems(2,3) e(3) by simp
  ultimately show ?case using e(1) destroyed_same [OF e(2)] by (simp del: map_eq_conv)
qed simp

lemma FreeClientResources_effect:
  assumes "only_outside del eff" "FreeClientResources del (\<lambda>_ s. s) fuel (Some c) s = Some s'" "rs_ok s"
    "buckets (clientTable s c) \<noteq> 0"
  shows "rs.more s' = fold (destroyed eff s) (concat (resources (clientTable s c))) (rs.more s)"
proof -
  have len: "length (resources (clientTable s c)) = buckets (clientTable s c)" using table_facts(1) [OF assms(3,4)] .
  obtain s1 where s1: "empty_buckets del fuel c (buckets (clientTable s c)) [0..<buckets (clientTable s c)] s = Some s1"
    "rs.more s' = rs.more s1"
    using assms(2) by (auto simp: FreeClientResources_def Let_def set_client_def split: bind_splits)
  have "map (\<lambda>j. resources (clientTable s c) ! j) [0..<buckets (clientTable s c)] = resources (clientTable s c)"
    using len by (simp add: list_eq_iff_nth_eq)
  then show ?thesis using empty_buckets_effect [OF assms(1) s1(1)] len s1(2) by simp
qed

section \<open>Unused identifiers\<close>

definition used :: "'z rs_scheme \<Rightarrow> nat \<Rightarrow> XID \<Rightarrow> bool" where
  "used s c j \<longleftrightarrow> j \<in> res_id ` set (concat (resources (clientTable s c)))"

lemma in_bucket_used:
  assumes "rs_ok s" "buckets (clientTable s c) \<noteq> 0"
  shows "in_bucket s c j \<longleftrightarrow> used s c j"
proof -
  let ?r = "clientTable s c"
  let ?h = "HashResourceID s j (hashsize ?r)"
  have h: "?h < length (resources ?r)" using hash_in_table [OF assms] table_facts(1) [OF assms] by simp
  have "\<forall>k < length (resources ?r). \<forall>x \<in> set (resources ?r ! k). HashResourceID s (res_id x) (hashsize ?r) = k"
    using assms by (auto simp: rs_ok_def table_ok_def)
  then have "filter (\<lambda>x. res_id x = j) (concat (resources ?r)) = filter (\<lambda>x. res_id x = j) (resources ?r ! ?h)"
    using h by (intro filter_concat_bucket) auto
  moreover have "used s c j \<longleftrightarrow> filter (\<lambda>x. res_id x = j) (concat (resources ?r)) \<noteq> []"
    by (auto simp: used_def filter_empty_conv)
  moreover have "in_bucket s c j \<longleftrightarrow> filter (\<lambda>x. res_id x = j) (resources ?r ! ?h) \<noteq> []"
    by (auto simp: in_bucket_def bucket_def list_ex_iff filter_empty_conv)
  ultimately show ?thesis by simp
qed

lemma unat_plus1: "i \<noteq> -1 \<Longrightarrow> unat (i + 1 :: u32) = unat i + 1"
  by (metis Suc_eq_plus1 add.commute unatSuc add_eq_0_iff)

lemma available_loop_spec:
  assumes "rs_ok s" "buckets (clientTable s c) \<noteq> 0"
  shows "0 < i \<Longrightarrow> unat i + n \<le> 2 ^ 32 \<Longrightarrow>
    (let r = available_loop s c n i in
       (r \<noteq> 0 \<longrightarrow> \<not> used s c r \<and> unat i \<le> unat r \<and> unat r < unat i + n)
       \<and> (r = 0 \<longrightarrow> (\<forall>j. unat i \<le> unat j \<and> unat j < unat i + n \<longrightarrow> used s c j)))"
proof (induction n arbitrary: i)
  case (Suc n)
  show ?case
  proof (cases "used s c i")
    case False
    moreover have "i \<noteq> 0" using Suc.prems(1) by auto
    ultimately show ?thesis using Suc.prems by (simp add: in_bucket_used [OF assms])
  next
    case True
    show ?thesis
    proof (cases n)
      case 0
      have "used s c j" if "unat i \<le> unat j" "unat j < unat i + Suc n" for j
      proof -
        have "unat j = unat i" using that 0 by simp
        then have "j = i" by (rule word_unat_eq_iff [THEN iffD2])
        then show ?thesis using True by simp
      qed
      then show ?thesis using 0 True by (simp add: in_bucket_used [OF assms])
    next
      case (Suc m)
      then have "i \<noteq> -1" using Suc.prems(2) by (auto simp: unsigned_minus_1_eq_mask mask_eq_exp_minus_1)
      then have u: "unat (i + 1) = unat i + 1" by (rule unat_plus1)
      then have p: "0 < i + 1" by (metis add_gr_0 less_one unat_gt_0 word_neq_0_conv)
      have *: "available_loop s c (Suc n) i = available_loop s c n (i + 1)"
        using True by (simp add: in_bucket_used [OF assms])
      have IH: "let r = available_loop s c n (i + 1) in
         (r \<noteq> 0 \<longrightarrow> \<not> used s c r \<and> unat (i + 1) \<le> unat r \<and> unat r < unat (i + 1) + n)
         \<and> (r = 0 \<longrightarrow> (\<forall>j. unat (i + 1) \<le> unat j \<and> unat j < unat (i + 1) + n \<longrightarrow> used s c j))"
        by (rule Suc.IH [OF p]) (use Suc.prems(2) u in simp)
      define r where "r = available_loop s c n (i + 1)"
      have A: "r \<noteq> 0 \<Longrightarrow> \<not> used s c r \<and> unat i < unat r \<and> unat r < unat i + Suc n"
        using IH u unfolding r_def [symmetric] Let_def by simp
      have B: "used s c j" if r0: "r = 0" and j: "unat i \<le> unat j" "unat j < unat i + Suc n" for j
      proof (cases "unat j = unat i")
        case eq: True
        have "j = i" by (rule word_unat_eq_iff [THEN iffD2, OF eq])
        then show ?thesis using True by simp
      next
        case False
        then show ?thesis using IH u j r0 unfolding r_def [symmetric] Let_def by simp
      qed
      show ?thesis
        unfolding * r_def [symmetric] Let_def using A B by (simp add: less_imp_le)
    qed
  qed
qed (simp add: Let_def, linarith)

lemma available_spec:
  assumes "rs_ok s" "buckets (clientTable s c) \<noteq> 0" "0 < i" "g \<noteq> 0 \<longrightarrow> \<not> used s c g"
  shows "AvailableID s c i m g \<noteq> 0 \<Longrightarrow> \<not> used s c (AvailableID s c i m g) \<and> i \<le> AvailableID s c i m g \<and> AvailableID s c i m g \<le> m"
    and "AvailableID s c i m g = 0 \<Longrightarrow> i \<le> j \<Longrightarrow> j \<le> m \<Longrightarrow> used s c j"
proof -
  have le: "unat m < 2 ^ 32" by (rule unat_less_u32)
  have i0: "i \<noteq> 0" "0 < unat i" using assms(3) by (auto simp: unat_gt_0)
  have sp: "let r = available_loop s c (if i \<le> m then unat m + 1 - unat i else 0) i in
       (r \<noteq> 0 \<longrightarrow> \<not> used s c r \<and> unat i \<le> unat r \<and> unat r < unat i + (if i \<le> m then unat m + 1 - unat i else 0))
       \<and> (r = 0 \<longrightarrow> (\<forall>j. unat i \<le> unat j \<and> unat j < unat i + (if i \<le> m then unat m + 1 - unat i else 0) \<longrightarrow> used s c j))"
    by (rule available_loop_spec [OF assms(1-3)]) (use le unat_less_u32 [of i] in \<open>auto simp: word_le_nat_alt\<close>)
  show "AvailableID s c i m g \<noteq> 0 \<Longrightarrow> \<not> used s c (AvailableID s c i m g) \<and> i \<le> AvailableID s c i m g \<and> AvailableID s c i m g \<le> m"
    using sp i0 assms(4) unfolding AvailableID_def Let_def
    by (cases "i \<le> g \<and> g \<le> m") (auto simp: word_le_nat_alt split: if_splits)
  show "AvailableID s c i m g = 0 \<Longrightarrow> i \<le> j \<Longrightarrow> j \<le> m \<Longrightarrow> used s c j"
    using sp i0 unfolding AvailableID_def Let_def
    by (cases "i \<le> g \<and> g \<le> m") (auto simp: word_le_nat_alt split: if_splits)
qed

lemma range_loop_spec:
  assumes ok: "rs_ok s" "buckets (clientTable s c) \<noteq> 0"
  shows "0 < i \<Longrightarrow> m \<noteq> -1 \<Longrightarrow> (g \<noteq> 0 \<longrightarrow> \<not> used s c g) \<Longrightarrow> \<forall>x \<in> set rs. used s c (res_id x) \<Longrightarrow>
    range_loop s c rs i m g = (lo, hi) \<Longrightarrow>
    0 < lo \<and> (lo \<le> hi \<longrightarrow> i \<le> lo \<and> hi \<le> m) \<and> (\<forall>x \<in> set rs. \<not> (lo \<le> res_id x \<and> res_id x \<le> hi))
    \<and> ((\<exists>j. i \<le> j \<and> j \<le> m \<and> \<not> used s c j) \<longrightarrow> (\<exists>j. lo \<le> j \<and> j \<le> hi \<and> \<not> used s c j))"
proof (induction rs arbitrary: i m g)
  case (Cons x rs)
  let ?x = "res_id x"
  have ux: "used s c ?x" using Cons.prems(4) by simp
  show ?case
  proof (cases "?x < i \<or> m < ?x")
    case True
    then have r: "range_loop s c rs i m g = (lo, hi)" using Cons.prems(5) by simp
    show ?thesis using Cons.IH [OF Cons.prems(1-3) _ r] Cons.prems(4) True by (auto simp: not_le)
  next
    case False
    then have in_r: "i \<le> ?x" "?x \<le> m" by auto
    have x0: "0 < ?x" using Cons.prems(1) in_r(1) by (rule less_le_trans)
    have xm: "?x \<noteq> -1" using Cons.prems(2) in_r(2) by (metis word_n1_ge order_antisym)
    have dn: "unat (?x - 1) = unat ?x - 1" using x0 by (simp add: unat_minus_one word_neq_0_conv)
    have up: "unat (?x + 1) = unat ?x + 1" by (rule unat_plus1 [OF xm])
    have below: "j \<le> ?x - 1 \<longleftrightarrow> j < ?x" for j
      using dn x0 by (auto simp: word_le_nat_alt word_less_nat_alt)
    have above: "?x + 1 \<le> j \<longleftrightarrow> ?x < j" for j
      using up by (auto simp: word_le_nat_alt word_less_nat_alt)
    have low: ?thesis if r: "range_loop s c rs i (?x - 1) g' = (lo, hi)" and g': "g' \<noteq> 0 \<longrightarrow> \<not> used s c g'"
        and ex: "(\<exists>j. i \<le> j \<and> j \<le> m \<and> \<not> used s c j) \<Longrightarrow> \<exists>j. i \<le> j \<and> j < ?x \<and> \<not> used s c j" for g'
    proof -
      have m1: "?x - 1 \<noteq> -1" using x0 by auto
      have IH: "0 < lo \<and> (lo \<le> hi \<longrightarrow> i \<le> lo \<and> hi \<le> ?x - 1) \<and> (\<forall>y \<in> set rs. \<not> (lo \<le> res_id y \<and> res_id y \<le> hi))
          \<and> ((\<exists>j. i \<le> j \<and> j \<le> ?x - 1 \<and> \<not> used s c j) \<longrightarrow> (\<exists>j. lo \<le> j \<and> j \<le> hi \<and> \<not> used s c j))"
        using Cons.prems(4) by (intro Cons.IH [OF Cons.prems(1) m1 g' _ r]) simp
      have "lo \<le> hi \<longrightarrow> hi < ?x" using IH below by blast
      then have "\<not> (lo \<le> ?x \<and> ?x \<le> hi)" by (meson leD le_less_trans less_imp_le order_trans)
      moreover have "lo \<le> hi \<longrightarrow> hi \<le> m" using \<open>lo \<le> hi \<longrightarrow> hi < ?x\<close> in_r(2) by (meson less_imp_le order_trans)
      ultimately show ?thesis using IH ex unfolding below by auto
    qed
    have high: ?thesis if r: "range_loop s c rs (?x + 1) m g' = (lo, hi)" and g': "g' \<noteq> 0 \<longrightarrow> \<not> used s c g'"
        and ex: "(\<exists>j. i \<le> j \<and> j \<le> m \<and> \<not> used s c j) \<Longrightarrow> \<exists>j. ?x < j \<and> j \<le> m \<and> \<not> used s c j" for g'
    proof -
      have p: "0 < ?x + 1" using up by (metis add_gr_0 less_one unat_gt_0 word_neq_0_conv)
      have IH: "0 < lo \<and> (lo \<le> hi \<longrightarrow> ?x + 1 \<le> lo \<and> hi \<le> m) \<and> (\<forall>y \<in> set rs. \<not> (lo \<le> res_id y \<and> res_id y \<le> hi))
          \<and> ((\<exists>j. ?x + 1 \<le> j \<and> j \<le> m \<and> \<not> used s c j) \<longrightarrow> (\<exists>j. lo \<le> j \<and> j \<le> hi \<and> \<not> used s c j))"
        using Cons.prems(4) by (intro Cons.IH [OF p Cons.prems(2) g' _ r]) simp
      have l: "lo \<le> hi \<longrightarrow> ?x < lo" using IH above by blast
      then have "\<not> (lo \<le> ?x \<and> ?x \<le> hi)" by (meson leD order_trans)
      moreover have "lo \<le> hi \<longrightarrow> i \<le> lo" using l in_r(1) by (meson less_imp_le order_trans)
      ultimately show ?thesis using IH ex unfolding above by auto
    qed
    show ?thesis
    proof (cases "m - ?x \<le> ?x - i")
      case True
      define a where "a = AvailableID s c i (?x - 1) g"
      note av = available_spec [OF ok Cons.prems(1,3), of "?x - 1", folded a_def]
      show ?thesis
      proof (cases "a = 0")
        case t: True
        show ?thesis
        proof (rule high [of a])
          show "range_loop s c rs (?x + 1) m a = (lo, hi)" using Cons.prems(5) False True t by (simp add: a_def [symmetric] Let_def)
          show "\<exists>j. ?x < j \<and> j \<le> m \<and> \<not> used s c j" if "\<exists>j. i \<le> j \<and> j \<le> m \<and> \<not> used s c j"
            using that av(2) [OF t] ux unfolding below by (metis linorder_less_linear)
        qed (use t in simp)
      next
        case nz: False
        show ?thesis
        proof (rule low [of a])
          show "range_loop s c rs i (?x - 1) a = (lo, hi)" using Cons.prems(5) False True nz by (simp add: a_def [symmetric] Let_def)
          show "\<exists>j. i \<le> j \<and> j < ?x \<and> \<not> used s c j" using av(1) [OF nz] unfolding below by blast
        qed (use av(1) nz in blast)
      qed
    next
      case nt: False
      have p: "0 < ?x + 1" using up by (metis add_gr_0 less_one unat_gt_0 word_neq_0_conv)
      define a where "a = AvailableID s c (?x + 1) m g"
      note av = available_spec [OF ok p Cons.prems(3), of m, folded a_def]
      show ?thesis
      proof (cases "a = 0")
        case t: True
        show ?thesis
        proof (rule low [of a])
          show "range_loop s c rs i (?x - 1) a = (lo, hi)" using Cons.prems(5) False nt t by (simp add: a_def [symmetric] Let_def)
          show "\<exists>j. i \<le> j \<and> j < ?x \<and> \<not> used s c j" if "\<exists>j. i \<le> j \<and> j \<le> m \<and> \<not> used s c j"
            using that av(2) [OF t] ux unfolding above by (metis linorder_less_linear)
        qed (use t in simp)
      next
        case nz: False
        show ?thesis
        proof (rule high [of a])
          show "range_loop s c rs (?x + 1) m a = (lo, hi)" using Cons.prems(5) False nt nz by (simp add: a_def [symmetric] Let_def)
          show "\<exists>j. ?x < j \<and> j \<le> m \<and> \<not> used s c j" using av(1) [OF nz] unfolding above by blast
        qed (use av(1) nz in blast)
      qed
    qed
  qed
qed simp


lemma first_id_bits:
  assumes "c < 2 ^ ResourceClientBits s" "ResourceClientBits s \<le> 28"
  shows "\<not> bit (first_id s c server OR RESOURCE_ID_MASK s) 31" "c \<noteq> 0 \<or> server \<Longrightarrow> 0 < first_id s c server"
proof -
  have off: "CLIENTOFFSET s + ResourceClientBits s = 29" "CLIENTOFFSET s < 31"
    "0 < ResourceClientBits s \<or> c = 0" using assms by (auto simp: CLIENTOFFSET_def intro: gr0I)
  have cb: "\<not> bit c k" if "ResourceClientBits s \<le> k" for k
  proof -
    have "c < 2 ^ k" using assms(1) that by (meson less_le_trans one_le_numeral power_increasing)
    then show ?thesis by (simp add: bit_iff_odd)
  qed
  have m: "\<not> bit (clientAsMask s c) 31"
    using cb [of "31 - CLIENTOFFSET s"] off by (auto simp: clientAsMask_def bit_simps)
  have "RESOURCE_ID_MASK s = mask (CLIENTOFFSET s)" by (simp add: RESOURCE_ID_MASK_def mask_eq_exp_minus_1)
  then have "bit (RESOURCE_ID_MASK s) 31 = False"
    using off(2) by (simp add: bit_mask_iff)
  then show "\<not> bit (first_id s c server OR RESOURCE_ID_MASK s) 31"
    using m by (simp add: first_id_def bit_or_iff SERVER_BIT_def SERVER_MINID_def)
  show "0 < first_id s c server" if "c \<noteq> 0 \<or> server"
  proof (cases "c = 0")
    case True
    then have "bit (first_id s c server) 5" using that by (simp add: first_id_def SERVER_MINID_def bit_or_iff)
    then show ?thesis by (metis bit_0_eq bot_apply bot_bool_def word_neq_0_conv)
  next
    case False
    then obtain k where k: "bit c k" by (metis bit_eq_iff bit_0_eq bot_apply bot_bool_def)
    then have "k < ResourceClientBits s" using cb not_less by blast
    then have "bit (first_id s c server) (CLIENTOFFSET s + k)"
      using k off by (auto simp: first_id_def clientAsMask_def bit_simps)
    then show ?thesis by (metis bit_0_eq bot_apply bot_bool_def word_neq_0_conv)
  qed
qed

lemma xid_range:
  assumes "rs_ok s" "buckets (clientTable s c) \<noteq> 0" "c < 2 ^ ResourceClientBits s" "ResourceClientBits s \<le> 28"
    "c \<noteq> 0 \<or> server"
  defines "a \<equiv> first_id s c server" and "b \<equiv> first_id s c server OR RESOURCE_ID_MASK s"
  shows "if \<exists>j. a \<le> j \<and> j \<le> b \<and> \<not> used s c j
    then (\<exists>lo hi. GetXIDRange c server s = (lo, hi) \<and> 0 < lo \<and> lo \<le> hi \<and> a \<le> lo \<and> hi \<le> b
      \<and> (\<forall>j. lo \<le> j \<and> j \<le> hi \<longrightarrow> \<not> used s c j))
    else GetXIDRange c server s = (0, 0)"
proof -
  let ?rs = "concat (resources (clientTable s c))"
  obtain lo hi where r: "range_loop s c ?rs a b 0 = (lo, hi)" by fastforce
  have a: "0 < a" unfolding a_def by (rule first_id_bits(2) [OF assms(3-5)])
  have b: "b \<noteq> -1"
  proof
    assume "b = -1"
    then have "bit b 31" by simp
    then show False using first_id_bits(1) [OF assms(3,4), of server] by (simp add: b_def)
  qed
  have sp: "0 < lo \<and> (lo \<le> hi \<longrightarrow> a \<le> lo \<and> hi \<le> b) \<and> (\<forall>x \<in> set ?rs. \<not> (lo \<le> res_id x \<and> res_id x \<le> hi))
    \<and> ((\<exists>j. a \<le> j \<and> j \<le> b \<and> \<not> used s c j) \<longrightarrow> (\<exists>j. lo \<le> j \<and> j \<le> hi \<and> \<not> used s c j))"
    by (rule range_loop_spec [OF assms(1,2) a b _ _ r]) (auto simp: used_def)
  have un: "\<not> used s c j" if "lo \<le> j" "j \<le> hi" for j
    using sp that by (auto simp: used_def)
  have g: "GetXIDRange c server s = (if hi < lo then (0, 0) else (lo, hi))"
    unfolding GetXIDRange_def Let_def a_def [symmetric] using r by (simp add: a_def b_def)
  show ?thesis
  proof (cases "\<exists>j. a \<le> j \<and> j \<le> b \<and> \<not> used s c j")
    case True
    then have "lo \<le> hi" using sp by (meson order_trans)
    then show ?thesis using True sp un g by (auto simp: not_less)
  next
    case False
    have "hi < lo"
    proof (rule ccontr)
      assume "\<not> hi < lo"
      then have "lo \<le> hi" by simp
      then have "a \<le> lo \<and> lo \<le> b" using sp by (meson order_trans)
      then show False using False un [of lo] \<open>lo \<le> hi\<close> by auto
    qed
    then show ?thesis using False g by simp
  qed
qed

text \<open>The identifiers the server still has for itself are unused.\<close>

definition fakes_unused :: "'z rs_scheme \<Rightarrow> nat \<Rightarrow> bool" where
  "fakes_unused s c \<longleftrightarrow> (\<forall>j. fakeID (clientTable s c) \<le> j \<and> j < endFakeID (clientTable s c) \<longrightarrow> \<not> used s c j)
     \<and> fakeID (clientTable s c) \<le> endFakeID (clientTable s c)"

lemma used_set_client:
  "used (set_client c (r\<lparr>fakeID := x\<rparr>) s) d j = used (set_client c r s) d j"
  "used (set_client c (r\<lparr>endFakeID := x\<rparr>) s) d j = used (set_client c r s) d j"
  "used (set_client c (clientTable s c) s) d j = used s d j"
  by (simp_all add: used_def rs_simps)

lemma word_succ_le: "a < b \<Longrightarrow> a + 1 \<le> (b :: u32)" "a + 1 \<le> b \<Longrightarrow> a \<noteq> -1 \<Longrightarrow> a < b" "b \<noteq> -1 \<Longrightarrow> a < b + 1 \<Longrightarrow> a \<le> b"
    "b \<noteq> -1 \<Longrightarrow> a \<le> b \<Longrightarrow> a + 1 \<le> b + 1"
proof -
  have n: "unat x < 2 ^ 32 - 1" if "x \<noteq> -1" for x :: u32
  proof -
    have "unat x \<noteq> unat (-1 :: u32)" using that word_unat_eq_iff by blast
    then show ?thesis using unat_less_u32 [of x] by (simp add: unsigned_minus_1_eq_mask mask_eq_exp_minus_1)
  qed
  show "a < b \<Longrightarrow> a + 1 \<le> b"
    by (metis inc_le)
  show "a + 1 \<le> b \<Longrightarrow> a \<noteq> -1 \<Longrightarrow> a < b"
    using unat_plus1 [of a] by (auto simp: word_le_nat_alt word_less_nat_alt)
  show "b \<noteq> -1 \<Longrightarrow> a < b + 1 \<Longrightarrow> a \<le> b"
    using unat_plus1 [of b] by (auto simp: word_le_nat_alt word_less_nat_alt)
  show "b \<noteq> -1 \<Longrightarrow> a \<le> b \<Longrightarrow> a + 1 \<le> b + 1"
    using unat_plus1 [of b] unat_plus1 [of a] n by (cases "a = -1") (auto simp: word_le_nat_alt)
qed


lemma FakeClientID_unused:
  assumes "rs_ok s" "buckets (clientTable s c) \<noteq> 0" "c < 2 ^ ResourceClientBits s" "ResourceClientBits s \<le> 28"
    "fakes_unused s c" "FakeClientID c s = Some (i, s')"
    "fakeID (clientTable s c) \<noteq> endFakeID (clientTable s c)
      \<or> (\<exists>j. first_id s c True \<le> j \<and> j \<le> first_id s c True OR RESOURCE_ID_MASK s \<and> \<not> used s c j)"
  shows "\<not> used s c i \<and> fakes_unused s' c \<and> fakeID (clientTable s' c) = i + 1"
proof -
  let ?r = "clientTable s c"
  let ?s1 = "set_client c (?r\<lparr>fakeID := fakeID ?r + 1\<rparr>) s"
  have un: "used (set_client c (?r\<lparr>fakeID := x, endFakeID := y\<rparr>) s) c j = used s c j" for x y j
    by (simp add: used_def rs_simps)
  show ?thesis
  proof (cases "fakeID ?r = endFakeID ?r")
    case False
    then have lt: "fakeID ?r < endFakeID ?r" using assms(5) by (simp add: fakes_unused_def order_less_le)
    have n1: "fakeID ?r \<noteq> -1" using lt by auto
    have "i = fakeID ?r" "s' = ?s1" using assms(6) False by (auto simp: FakeClientID_def Let_def)
    moreover have "fakeID ?r \<le> j" if "fakeID ?r + 1 \<le> j" for j
      using word_succ_le(2) [OF that n1] by simp
    ultimately show ?thesis
      using assms(5) lt word_succ_le(1) [OF lt]
      by (auto simp: fakes_unused_def rs_simps used_def)
  next
    case True
    have st: "same_types s ?s1" by (simp add: rs_simps)
    have fi: "first_id ?s1 c True = first_id s c True" "RESOURCE_ID_MASK ?s1 = RESOURCE_ID_MASK s"
      using same_types_eq [OF st] by (simp_all add: first_id_def)
    have u1: "used ?s1 c j = used s c j" for j by (simp add: used_def rs_simps)
    have ok1: "rs_ok ?s1"
      using assms(1) by (intro rs_ok_set) (simp_all add: rs_ok_def table_ok_def)
    have rb: "ResourceClientBits ?s1 = ResourceClientBits s" by (simp add: ResourceClientBits_def rs_simps)
    have b1: "buckets (clientTable ?s1 c) \<noteq> 0" using assms(2) by (simp add: rs_simps)
    have ex: "\<exists>j. first_id s c True \<le> j \<and> j \<le> first_id s c True OR RESOURCE_ID_MASK s \<and> \<not> used s c j"
      using assms(7) True by simp
    obtain lo hi where g: "GetXIDRange c True ?s1 = (lo, hi)" "0 < lo" "lo \<le> hi"
      "hi \<le> first_id s c True OR RESOURCE_ID_MASK s" "\<forall>j. lo \<le> j \<and> j \<le> hi \<longrightarrow> \<not> used s c j"
      using xid_range [OF ok1 b1, of True] assms(3,4) ex unfolding fi rb u1 by auto
    have hi: "hi \<noteq> -1"
    proof
      assume "hi = -1"
      then have "first_id s c True OR RESOURCE_ID_MASK s = -1" using g(4) by (simp add: word_order.extremum_unique)
      then have "bit (first_id s c True OR RESOURCE_ID_MASK s) 31" by simp
      then show False using first_id_bits(1) [OF assms(3,4)] by blast
    qed
    have lo: "lo \<noteq> -1" using g(3) hi by (metis word_n1_ge order_antisym)
    have "lo \<noteq> 0" using g(2) by auto
    then have r: "i = lo" "s' = set_client c ((clientTable ?s1 c)\<lparr>fakeID := lo + 1, endFakeID := hi + 1\<rparr>) ?s1"
      using assms(6) True g(1) by (auto simp: FakeClientID_def Let_def)
    have "\<not> used s c j" if "lo + 1 \<le> j" "j < hi + 1" for j
      using word_succ_le(2) [OF that(1) lo] word_succ_le(3) [OF hi that(2)] g(5) by simp
    moreover have "lo + 1 \<le> hi + 1" by (rule word_succ_le(4) [OF hi g(3)])
    ultimately show ?thesis
      using g(3,5) by (auto simp: r fakes_unused_def rs_simps used_def)
  qed
qed

section \<open>Types and classes\<close>

definition types_ok :: "'z rs_scheme \<Rightarrow> bool" where
  "types_ok s \<longleftrightarrow> (\<exists>k < 32. lastResourceClass s = 2 ^ k \<and> unat (lastResourceType s) < 2 ^ k)
     \<and> TypeMask s = lastResourceClass s - 1 \<and> lastResourceType s \<noteq> 0
     \<and> length (resourceTypes s) = Suc (unat (lastResourceType s))"

lemma unat_exp: "k < 32 \<Longrightarrow> unat (2 ^ k :: u32) = 2 ^ k"
  using unat_of_nat_u32 [of "2 ^ k"] power_strict_increasing [of k 32 "2 :: nat"] by simp

lemma and_mask_small: "k < 32 \<Longrightarrow> unat t < 2 ^ k \<Longrightarrow> t AND (2 ^ k - 1) = (t :: u32)"
  using less_mask_eq [of t k] by (simp add: mask_eq_exp_minus_1 word_less_nat_alt unat_exp)

lemma and_bit_zero:
  assumes "k < 32" "unat t < 2 ^ Suc k" shows "t AND 2 ^ k = 0 \<longleftrightarrow> unat (t :: u32) < 2 ^ k"
proof -
  have "t AND 2 ^ k = 0 \<longleftrightarrow> \<not> bit t k" by (simp add: and_exp_eq_0_iff_not_bit)
  also have "bit t k \<longleftrightarrow> odd (unat t div 2 ^ k)"
  proof -
    have "bit (unat t) k = bit t k" using assms(1) by (simp add: bit_unsigned_iff)
    then show ?thesis by (simp add: bit_iff_odd)
  qed
  also have "odd (unat t div 2 ^ k) \<longleftrightarrow> \<not> unat t < 2 ^ k"
  proof (cases "unat t < 2 ^ k")
    case False
    then have "unat t div 2 ^ k = 1" using assms(2) by (intro div_nat_eqI) auto
    then show ?thesis using False by simp
  qed simp
  finally show ?thesis by blast
qed

lemma new_type:
  assumes "types_ok s" "CreateNewResourceType ok d s = (t, s')"
  shows "types_ok s'" "t \<noteq> 0 \<Longrightarrow> unat t = Suc (unat (lastResourceType s)) \<and> t AND TypeMask s' = t
    \<and> map_option deleteFunc (type_entry s' t) = Some d"
    "unat u \<le> unat (lastResourceType s) \<Longrightarrow> type_entry s' u = type_entry s u"
proof -
  obtain k where k: "k < 32" "lastResourceClass s = 2 ^ k" "unat (lastResourceType s) < 2 ^ k"
    using assms(1) by (auto simp: types_ok_def)
  have t: "TypeMask s = 2 ^ k - 1" "lastResourceType s \<noteq> 0" "length (resourceTypes s) = Suc (unat (lastResourceType s))"
    using assms(1) k(2) by (simp_all add: types_ok_def)
  define n where "n = lastResourceType s + 1"
  have lim: "unat (lastResourceType s) < 2 ^ 31"
    using k(1,3) power_increasing [of k 31 "2 :: nat"] by simp
  have n: "unat n = Suc (unat (lastResourceType s))"
    unfolding n_def using lim by (subst unat_plus1) (auto simp: unsigned_minus_1_eq_mask mask_eq_exp_minus_1)
  show "types_ok s'" "t \<noteq> 0 \<Longrightarrow> unat t = Suc (unat (lastResourceType s)) \<and> t AND TypeMask s' = t
    \<and> map_option deleteFunc (type_entry s' t) = Some d"
    "unat u \<le> unat (lastResourceType s) \<Longrightarrow> type_entry s' u = type_entry s u"
  proof (atomize (full), cases "n AND 2 ^ k \<noteq> 0 \<or> \<not> ok")
    case True
    then have "t = 0" "s' = s" using assms(2) k(2) by (auto simp: CreateNewResourceType_def n_def [symmetric] Let_def split: if_splits)
    then show "types_ok s' \<and> (t \<noteq> 0 \<longrightarrow> unat t = Suc (unat (lastResourceType s)) \<and> t AND TypeMask s' = t
        \<and> map_option deleteFunc (type_entry s' t) = Some d)
      \<and> (unat u \<le> unat (lastResourceType s) \<longrightarrow> type_entry s' u = type_entry s u)"
      using assms(1) by simp
  next
    case False
    then have n2: "unat n < 2 ^ k" using and_bit_zero [of k n] k n by auto
    define e where "e = \<lparr>deleteFunc = d, sizeFunc = 0, findSubResFunc = 0, type_errorValue = 2\<rparr>"
    have s': "t = n" "s' = s\<lparr>lastResourceType := n, resourceTypes := resourceTypes s @ [e]\<rparr>"
      using assms(2) False k(2) t(3) n by (auto simp: CreateNewResourceType_def n_def [symmetric] Let_def e_def)
    have m: "n AND (2 ^ k - 1) = n" by (rule and_mask_small [OF k(1) n2])
    have "type_entry s' u = type_entry s u" if "unat u \<le> unat (lastResourceType s)"
    proof -
      have "u AND (2 ^ k - 1) = u" using that k(3) by (intro and_mask_small [OF k(1)]) simp
      then show ?thesis using that t(1,3) by (simp add: type_entry_def s' rd_def nth_append)
    qed
    moreover have "types_ok s'"
      using k(1,2) n n2 t by (auto simp: types_ok_def s' intro!: exI [of _ k])
    moreover have "map_option deleteFunc (type_entry s' n) = Some d"
      using t(1,3) m n by (simp add: type_entry_def s' rd_def nth_append e_def)
    ultimately show "types_ok s' \<and> (t \<noteq> 0 \<longrightarrow> unat t = Suc (unat (lastResourceType s)) \<and> t AND TypeMask s' = t
        \<and> map_option deleteFunc (type_entry s' t) = Some d)
      \<and> (unat u \<le> unat (lastResourceType s) \<longrightarrow> type_entry s' u = type_entry s u)"
      using n m t(1) by (simp add: s')
  qed
qed

lemma new_class:
  assumes "types_ok s" "CreateNewResourceClass s = (cl, s')"
  shows "types_ok s'" "cl \<noteq> 0 \<Longrightarrow> unat t \<le> unat (lastResourceType s) \<Longrightarrow>
      cl AND TypeMask s' = 0 \<and> (t OR cl) AND TypeMask s' = t \<and> type_entry s' (t OR cl) = type_entry s t"
proof -
  obtain k where k: "k < 32" "lastResourceClass s = 2 ^ k" "unat (lastResourceType s) < 2 ^ k"
    using assms(1) by (auto simp: types_ok_def)
  have t: "TypeMask s = 2 ^ k - 1" "lastResourceType s \<noteq> 0" "length (resourceTypes s) = Suc (unat (lastResourceType s))"
    using assms(1) k(2) by (simp_all add: types_ok_def)
  have "unat (lastResourceType s) \<noteq> 0" using t(2) by (simp add: unat_eq_0)
  then have "k \<noteq> 0" using k(3) by (intro notI) simp
  then obtain j where j: "k = Suc j" by (cases k) auto
  have cl: "drop_bit 1 (2 ^ k :: u32) = 2 ^ j"
    by (rule bit_word_eqI) (use k(1) j in \<open>auto simp: bit_simps bit_exp_iff\<close>)
  have z: "lastResourceType s AND 2 ^ j = 0 \<longleftrightarrow> unat (lastResourceType s) < 2 ^ j"
    using k(1,3) j by (intro and_bit_zero) auto
  show "types_ok s'" "cl \<noteq> 0 \<Longrightarrow> unat t \<le> unat (lastResourceType s) \<Longrightarrow>
      cl AND TypeMask s' = 0 \<and> (t OR cl) AND TypeMask s' = t \<and> type_entry s' (t OR cl) = type_entry s t"
  proof (atomize (full), cases "unat (lastResourceType s) < 2 ^ j")
    case False
    then have "cl = 0" "s' = s"
      using assms(2) z cl k(2) by (auto simp: CreateNewResourceClass_def Let_def and.commute split: if_splits)
    then show "types_ok s' \<and> (cl \<noteq> 0 \<longrightarrow> unat t \<le> unat (lastResourceType s) \<longrightarrow>
      cl AND TypeMask s' = 0 \<and> (t OR cl) AND TypeMask s' = t \<and> type_entry s' (t OR cl) = type_entry s t)"
      using assms(1) by simp
  next
    case True
    then have s': "cl = 2 ^ j" "s' = s\<lparr>lastResourceClass := 2 ^ j, TypeMask := 2 ^ j - 1\<rparr>"
      using assms(2) z cl k(2) by (auto simp: CreateNewResourceClass_def Let_def and.commute split: if_splits)
    have ok: "types_ok s'" using True k(1) j t by (auto simp: types_ok_def s' intro!: exI [of _ j])
    have m: "(2 ^ j :: u32) AND (2 ^ j - 1) = 0"
    proof -
      have "(2 ^ j :: u32) AND mask j = 0" by (rule bit_word_eqI) (auto simp: bit_simps)
      then show ?thesis by (simp add: mask_eq_exp_minus_1)
    qed
    have "cl AND TypeMask s' = 0 \<and> (t OR cl) AND TypeMask s' = t \<and> type_entry s' (t OR cl) = type_entry s t"
      if tl: "unat t \<le> unat (lastResourceType s)"
    proof -
      have a: "t AND (2 ^ j - 1) = t" using tl True k(1) j by (intro and_mask_small) auto
      have b: "t AND (2 ^ k - 1) = t" using tl k by (intro and_mask_small) auto
      show ?thesis
        using m a b t by (simp add: s' type_entry_def bit.conj_disj_distrib2)
    qed
    then show "types_ok s' \<and> (cl \<noteq> 0 \<longrightarrow> unat t \<le> unat (lastResourceType s) \<longrightarrow>
      cl AND TypeMask s' = 0 \<and> (t OR cl) AND TypeMask s' = t \<and> type_entry s' (t OR cl) = type_entry s t)"
      using ok by blast
  qed
qed


section \<open>Initialisation\<close>

lemma init_client:
  assumes "rs_ok s" "c = 0 \<longrightarrow> (\<forall>d. buckets (clientTable s d) = 0)"
  shows "fst (InitClientResources True True c s)" "rs_ok (snd (InitClientResources True True c s))"
    "buckets (clientTable (snd (InitClientResources True True c s)) c) = INITBUCKETS"
    "concat (resources (clientTable (snd (InitClientResources True True c s)) c)) = []"
proof -
  define s2 where "s2 = (if c = 0 then s\<lparr>lastResourceType := RT_LASTPREDEF, lastResourceClass := RC_LASTPREDEF,
      TypeMask := RC_LASTPREDEF - 1, resourceTypes := predefTypes\<rparr> else s)"
  define f where "f = clientAsMask s2 c OR (if c \<noteq> 0 then SERVER_BIT else SERVER_MINID)"
  define r where "r = \<lparr>resources = replicate INITBUCKETS [], elements = 0, buckets = INITBUCKETS,
      hashsize = INITHASHSIZE, fakeID = f, endFakeID = (f OR RESOURCE_ID_MASK s2) + 1\<rparr>"
  have "InitClientResources True True c s = (True, set_client c r s2)"
    by (simp add: InitClientResources_def s2_def f_def r_def Let_def)
  moreover have "rs_ok s2"
    using assms by (auto simp: s2_def rs_ok_def table_ok_def)
  moreover have "table_ok s2 c r"
    by (simp add: r_def table_ok_def INITBUCKETS_def INITHASHSIZE_def MAXHASHSIZE_def concat_replicate_trivial)
  ultimately show "fst (InitClientResources True True c s)" "rs_ok (snd (InitClientResources True True c s))"
    "buckets (clientTable (snd (InitClientResources True True c s)) c) = INITBUCKETS"
    "concat (resources (clientTable (snd (InitClientResources True True c s)) c)) = []"
    by (simp_all add: rs_ok_set rs_simps) (simp_all add: r_def concat_replicate_trivial)
qed

text \<open>A database with the tables of the server and of client 1 for the examples.\<close>

definition no_table :: ClientResourceRec where
  "no_table = \<lparr>resources = [], elements = 0, buckets = 0, hashsize = 0, fakeID = 0, endFakeID = 0\<rparr>"

definition demo_rs :: rs where
  "demo_rs = snd (InitClientResources True True 1 (snd (InitClientResources True True 0
     \<lparr>clientTable = \<lambda>_. no_table, lastResourceType = 0, lastResourceClass = 0, TypeMask = 0, resourceTypes = [],
      LimitClients = 256, client_errorValue = \<lambda>_. 0, res_events = []\<rparr>)))"

lemma ilog2_256: "ilog2 256 = 8"
  by (simp add: ilog2_def ilog2_loop.simps)

lemma demo_facts:
  "LimitClients demo_rs = 256" "resourceTypes demo_rs = predefTypes" "lastResourceType demo_rs = 9"
  "lastResourceClass demo_rs = 0x20000000" "TypeMask demo_rs = 0x1fffffff" "res_events demo_rs = []"
  "ResourceClientBits demo_rs = 8" "CLIENT_ID demo_rs 0x200005 = 1"
  by (simp_all add: demo_rs_def InitClientResources_def Let_def set_client_def RT_LASTPREDEF_def RC_LASTPREDEF_def
      RC_NEVERRETAIN_def ResourceClientBits_def ilog2_256 CLIENT_ID_def CLIENTOFFSET_def RESOURCE_CLIENT_MASK_def)

lemma demo_table: "buckets (clientTable demo_rs 1) = 64" "elements (clientTable demo_rs 1) = 0"
    "concat (resources (clientTable demo_rs 1)) = []"
  by (simp_all add: demo_rs_def InitClientResources_def Let_def set_client_def INITBUCKETS_def concat_replicate_trivial)

lemma demo_ok: "rs_ok demo_rs"
proof -
  let ?s = "\<lparr>clientTable = \<lambda>_. no_table, lastResourceType = 0, lastResourceClass = 0, TypeMask = 0, resourceTypes = [],
      LimitClients = 256, client_errorValue = \<lambda>_. 0, res_events = []\<rparr>"
  have "rs_ok (snd (InitClientResources True True 0 ?s))"
    by (rule init_client) (simp_all add: rs_ok_def table_ok_def no_table_def)
  then show ?thesis unfolding demo_rs_def by (rule init_client(2)) simp
qed

lemma demo_found: "found demo_rs 0x200005 = []"
  unfolding found_def demo_facts(8) demo_table(3) by simp

definition no_destroy :: "rs \<Rightarrow> rs" where
  "no_destroy s = s"

abbreviation leave :: "nat \<Rightarrow> nat \<Rightarrow> XID \<Rightarrow> rs \<Rightarrow> rs" where
  "leave \<equiv> \<lambda>_ _ _. no_destroy"

lemma leave_inert: "inert leave"
  by (simp add: inert_def no_destroy_def)

lemma demo_added:
  obtains s where "AddResource leave True True 0x200005 3 7 demo_rs = Some (True, s)" "rs_ok s" "same_types demo_rs s"
    "found s 0x200005 = [\<lparr>res_id = 0x200005, res_type = 3, res_value = 7\<rparr>]" "buckets (clientTable s 1) = 64"
    "elements (clientTable s 1) = 1" "res_events s = [Adding \<lparr>res_id = 0x200005, res_type = 3, res_value = 7\<rparr>]"
proof -
  have b: "buckets (clientTable demo_rs (CLIENT_ID demo_rs 0x200005)) \<noteq> 0" using demo_table by (simp add: demo_facts)
  have t: "type_entry demo_rs 3 \<noteq> None" by (simp add: type_entry_def demo_facts predefTypes_def rd_def)
  obtain s where s: "AddResource leave True True 0x200005 3 7 demo_rs = Some (True, s)" "rs_ok s" "same_types demo_rs s"
      "found s 0x200005 = \<lparr>res_id = 0x200005, res_type = 3, res_value = 7\<rparr> # found demo_rs 0x200005"
      "res_events s = res_events demo_rs @ [Adding \<lparr>res_id = 0x200005, res_type = 3, res_value = 7\<rparr>]"
    by (rule add_resource [OF demo_ok b t])
  have n: "\<not> 4 * buckets (clientTable demo_rs 1) \<le> elements (clientTable demo_rs 1)" unfolding demo_table(1,2) by simp
  have e: "elements (r\<lparr>resources := x, elements := y\<rparr>) = y" "buckets (r\<lparr>resources := x, elements := y\<rparr>) = buckets r"
    for r :: ClientResourceRec and x y by simp_all
  have a: "\<exists>h res. s = log_event (Adding res) (set_client 1 (clientTable demo_rs 1\<lparr>resources := h,
      elements := elements (clientTable demo_rs 1) + 1\<rparr>) demo_rs)"
    using s(1) b n unfolding AddResource_def Let_def demo_facts(8)
    by (simp only: if_False simp_thms option.inject prod.inject) blast
  have "buckets (clientTable s 1) = 64" "elements (clientTable s 1) = 1"
    using a unfolding log_event_def set_client_def by (auto simp: demo_table simp del: One_nat_def)
  then show ?thesis using that s by (simp add: demo_found demo_facts(6))
qed


section \<open>Properties\<close>

text \<open>C24: Adding a resource refines putting it in front of the resources with its identifier: the table stays
  well-formed, rebuilt or not, no other identifier is affected, it is announced once, and a lookup by its type
  finds it.\<close>

theorem resource_added:
  assumes "rs_ok s" "buckets (clientTable s (CLIENT_ID s i)) \<noteq> 0" "CLIENT_ID s i < LimitClients s"
    "type_entry s t \<noteq> None" "t AND TypeMask s \<le> lastResourceType s"
  shows "\<exists>s'. AddResource del rebuild_ok True i t v s = Some (True, s') \<and> rs_ok s'
    \<and> found s' i = \<lparr>res_id = i, res_type = t, res_value = v\<rparr> # found s i \<and> (\<forall>j. j \<noteq> i \<longrightarrow> found s' j = found s j)
    \<and> res_events s' = res_events s @ [Adding \<lparr>res_id = i, res_type = t, res_value = v\<rparr>]
    \<and> map_option (\<lambda>(rc, res, _). (rc, res)) (dixLookupResourceByType xace i t None mode s') = Some (0, Some v)"
proof -
  obtain s' where s': "AddResource del rebuild_ok True i t v s = Some (True, s')" "rs_ok s'" "same_types s s'"
    "found s' i = \<lparr>res_id = i, res_type = t, res_value = v\<rparr> # found s i" "\<forall>j. j \<noteq> i \<longrightarrow> found s' j = found s j"
    "res_events s' = res_events s @ [Adding \<lparr>res_id = i, res_type = t, res_value = v\<rparr>]"
    using add_resource [OF assms(1,2,4)] by metis
  have l: "CLIENT_ID s' i < LimitClients s'" "t AND TypeMask s' \<le> lastResourceType s'"
    using assms(3,5) s'(3) same_types_eq(2) [OF s'(3)] by (simp_all add: same_types_def)
  have "find_resource s' i (\<lambda>x. res_type x = t) = Some \<lparr>res_id = i, res_type = t, res_value = v\<rparr>"
    using s'(4) by (simp add: find_resource_found [OF s'(2) l(1)])
  then have "dixLookupResourceByType xace i t None mode s' = Some (0, Some v, s')"
    using l(2) by (simp add: dixLookupResourceByType_def set_error_def)
  then show ?thesis using s' by simp
qed

theorem resource_added_witness:
  "\<exists>s'. AddResource leave False True 0x200005 3 7 demo_rs = Some (True, s') \<and> rs_ok s'
    \<and> found s' 0x200005 = [\<lparr>res_id = 0x200005, res_type = 3, res_value = 7\<rparr>]"
proof -
  have "buckets (clientTable demo_rs (CLIENT_ID demo_rs 0x200005)) \<noteq> 0" "type_entry demo_rs 3 \<noteq> None"
    "CLIENT_ID demo_rs 0x200005 < LimitClients demo_rs" "3 AND TypeMask demo_rs \<le> lastResourceType demo_rs"
    using demo_table by (simp_all add: demo_facts type_entry_def predefTypes_def rd_def)
  then obtain s' where "AddResource leave False True 0x200005 3 7 demo_rs = Some (True, s')" "rs_ok s'"
    "found s' 0x200005 = \<lparr>res_id = 0x200005, res_type = 3, res_value = 7\<rparr> # found demo_rs 0x200005"
    using resource_added [OF demo_ok, where i = "0x200005" and t = 3 and v = 7 and del = leave and rebuild_ok = False
      and xace = "\<lambda>_ _ _ _ _. 0" and mode = 0] by blast
  then show ?thesis unfolding demo_found by blast
qed

text \<open>C25: Freeing an identifier ends, although the functions that destroy resources may free further resources of any
  client: afterwards the identifier has no resource, nothing was added anywhere, and when these functions leave
  the database alone exactly the resources of the identifier are gone, each announced once.\<close>

theorem resource_freed:
  assumes "rs_ok s" "well_behaved del" "CLIENT_ID s i < LimitClients s"
    "elements (clientTable s (CLIENT_ID s i)) * (elements (clientTable s (CLIENT_ID s i)) + 3) < fuel"
  shows "\<exists>s'. FreeResource del fuel i skipType s = Some s' \<and> rs_ok s' \<and> found s' i = []
    \<and> (\<forall>j. subseq (found s' j) (found s j))
    \<and> (inert del \<longrightarrow> (\<forall>j. j \<noteq> i \<longrightarrow> found s' j = found s j) \<and> res_events s' = res_events s @ map Freeing (found s i))"
proof -
  obtain s' where "FreeResource del fuel i skipType s = Some s'" "rs_ok s'" "shrunk s s'" "found s' i = []"
    "inert del \<Longrightarrow> (\<forall>j. j \<noteq> i \<longrightarrow> found s' j = found s j) \<and> res_events s' = res_events s @ map Freeing (found s i)"
    using free_resource [OF assms] by metis
  then show ?thesis using shrunk_found by blast
qed

theorem resource_freed_witness:
  "\<exists>s s'. found s 0x200005 \<noteq> [] \<and> FreeResource leave 5 0x200005 0 s = Some s' \<and> found s' 0x200005 = []
    \<and> res_events s' = [Adding \<lparr>res_id = 0x200005, res_type = 3, res_value = 7\<rparr>, Freeing \<lparr>res_id = 0x200005, res_type = 3, res_value = 7\<rparr>]"
proof -
  obtain s where s: "rs_ok s" "same_types demo_rs s" "found s 0x200005 = [\<lparr>res_id = 0x200005, res_type = 3, res_value = 7\<rparr>]"
    "elements (clientTable s 1) = 1" "res_events s = [Adding \<lparr>res_id = 0x200005, res_type = 3, res_value = 7\<rparr>]"
    using demo_added by metis
  have c: "CLIENT_ID s 0x200005 = 1" "LimitClients s = 256"
    using same_types_eq(2) [OF s(2)] s(2) by (simp_all add: demo_facts same_types_def)
  have l: "CLIENT_ID s 0x200005 < LimitClients s"
    "elements (clientTable s (CLIENT_ID s 0x200005)) * (elements (clientTable s (CLIENT_ID s 0x200005)) + 3) < 5"
    unfolding c s(4) by simp_all
  obtain s' where "FreeResource leave 5 0x200005 0 s = Some s'" "found s' 0x200005 = []"
    "res_events s' = res_events s @ map Freeing (found s 0x200005)"
    using resource_freed [OF s(1) inert_well_behaved [OF leave_inert] l, of 0] leave_inert by blast
  then show ?thesis using s(3,5) by (intro exI [of _ s] exI [of _ s']) simp
qed

text \<open>C26: When a client goes, the loop over its table ends also when destroying a resource frees others; no resource of the
  client is left, its table is released and no client has gained a resource. When the destroy functions leave
  the database alone, the other clients keep their tables, every resource of the client is announced exactly
  once, and for every resource exactly one call is made, of the function of its type with its value and
  identifier; announcements and calls come in the order of the table.\<close>

theorem client_resources_freed:
  assumes "rs_ok s" "well_behaved del" "buckets (clientTable s c) \<noteq> 0" "elements (clientTable s c) < fuel"
  shows "\<exists>s'. FreeClientResources del (\<lambda>_ s. s) fuel (Some c) s = Some s' \<and> rs_ok s' \<and> buckets (clientTable s' c) = 0
    \<and> (\<forall>i. CLIENT_ID s i = c \<longrightarrow> found s' i = []) \<and> (\<forall>i. subseq (found s' i) (found s i))
    \<and> (inert del \<longrightarrow> (\<forall>d. d \<noteq> c \<longrightarrow> clientTable s' d = clientTable s d)
         \<and> res_events s' = res_events s @ map Freeing (concat (resources (clientTable s c))))
    \<and> (\<forall>eff. only_outside del eff \<longrightarrow> inert del
         \<and> rs.more s' = fold (destroyed eff s) (concat (resources (clientTable s c))) (rs.more s))"
  using free_client_resources [of "\<lambda>_ s. s" c s, OF assms(1) shrunk_refl assms(2,4,3)]
    FreeClientResources_effect [OF _ _ assms(1,3)] only_outside_inert by metis

theorem client_resources_freed_witness:
  "\<exists>s s'. found s 0x200005 \<noteq> [] \<and> FreeClientResources leave (\<lambda>_ s. s) 2 (Some 1) s = Some s' \<and> found s' 0x200005 = []
     \<and> buckets (clientTable s' 1) = 0"
proof -
  obtain s where s: "rs_ok s" "same_types demo_rs s" "found s 0x200005 = [\<lparr>res_id = 0x200005, res_type = 3, res_value = 7\<rparr>]"
    "elements (clientTable s 1) = 1" "buckets (clientTable s 1) = 64"
    using demo_added by metis
  have c: "CLIENT_ID s 0x200005 = 1" using same_types_eq(2) [OF s(2)] by (simp add: demo_facts)
  have l: "buckets (clientTable s 1) \<noteq> 0" "elements (clientTable s 1) < 2" using s(4,5) by simp_all
  obtain s' where "FreeClientResources leave (\<lambda>_ s. s) 2 (Some 1) s = Some s'" "found s' 0x200005 = []" "buckets (clientTable s' 1) = 0"
    using client_resources_freed [OF s(1) inert_well_behaved [OF leave_inert] l] c by blast
  then show ?thesis using s(3) by (intro exI [of _ s] exI [of _ s']) simp
qed

text \<open>\<open>GetXIDRange\<close> finds a range of unused identifiers of the client whenever one of its identifiers is unused,
  and returns the empty answer 0 otherwise; the search never leaves the identifiers of the client.\<close>

theorem xid_range_unused:
  assumes "rs_ok s" "buckets (clientTable s c) \<noteq> 0" "c < 2 ^ ResourceClientBits s" "ResourceClientBits s \<le> 28"
    "c \<noteq> 0 \<or> server"
  shows "if \<exists>j. first_id s c server \<le> j \<and> j \<le> first_id s c server OR RESOURCE_ID_MASK s \<and> \<not> used s c j
    then (\<exists>lo hi. GetXIDRange c server s = (lo, hi) \<and> 0 < lo \<and> lo \<le> hi \<and> first_id s c server \<le> lo
      \<and> hi \<le> first_id s c server OR RESOURCE_ID_MASK s \<and> (\<forall>j. lo \<le> j \<and> j \<le> hi \<longrightarrow> \<not> used s c j))
    else GetXIDRange c server s = (0, 0)"
  by (rule xid_range [OF assms])

theorem xid_range_unused_witness:
  "\<exists>lo hi. GetXIDRange 1 True demo_rs = (lo, hi) \<and> 0 < lo \<and> lo \<le> hi \<and> (\<forall>j. lo \<le> j \<and> j \<le> hi \<longrightarrow> \<not> used demo_rs 1 j)"
proof -
  have l: "buckets (clientTable demo_rs 1) \<noteq> 0" "1 < (2 :: nat) ^ ResourceClientBits demo_rs" "ResourceClientBits demo_rs \<le> 28"
    "(1 :: nat) \<noteq> 0 \<or> True"
    using demo_table by (simp_all add: demo_facts)
  have u: "\<not> used demo_rs 1 j" for j unfolding used_def demo_table(3) by simp
  have f: "first_id demo_rs 1 True = 0x40200000" "RESOURCE_ID_MASK demo_rs = 0x1fffff"
    by (simp_all add: first_id_def clientAsMask_def CLIENTOFFSET_def demo_facts SERVER_BIT_def RESOURCE_ID_MASK_def)
  have "\<exists>j. first_id demo_rs 1 True \<le> j \<and> j \<le> first_id demo_rs 1 True OR RESOURCE_ID_MASK demo_rs \<and> \<not> used demo_rs 1 j"
    unfolding f using u by (intro exI [of _ "0x40200000"]) simp_all
  then show ?thesis using xid_range_unused [OF demo_ok l] by auto
qed

text \<open>C27: Numbers of types and bits of classes never meet: a new type gets the next number, which lies within the mask of types and
  names its own entry, a new class is a bit outside the mask, and neither changes which entry an earlier type, with
  or without the class, leads to.\<close>

theorem types_and_classes_apart:
  assumes "types_ok s" "CreateNewResourceType alloc_ok d s = (t, s1)" "CreateNewResourceClass s1 = (cl, s2)"
    "unat u \<le> unat (lastResourceType s)"
  shows "types_ok s1 \<and> types_ok s2
    \<and> (t \<noteq> 0 \<longrightarrow> unat t = Suc (unat (lastResourceType s)) \<and> t AND TypeMask s1 = t
         \<and> map_option deleteFunc (type_entry s1 t) = Some d)
    \<and> type_entry s1 u = type_entry s u
    \<and> (cl \<noteq> 0 \<longrightarrow> cl AND TypeMask s2 = 0 \<and> type_entry s2 (u OR cl) = type_entry s u
         \<and> (t \<noteq> 0 \<longrightarrow> (t OR cl) AND TypeMask s2 = t))"
proof -
  note nt = new_type [OF assms(1,2)] and nc = new_class [OF new_type(1) [OF assms(1,2)] assms(3)]
  have "lastResourceType s1 \<noteq> 0" using nt(1) by (simp add: types_ok_def)
  then have l: "lastResourceType s1 = (if t \<noteq> 0 then t else lastResourceType s)"
    using assms(2) by (auto simp: CreateNewResourceType_def Let_def split: if_splits)
  then have u: "unat u \<le> unat (lastResourceType s1)" using assms(4) nt(2) by auto
  show ?thesis using nt nc(1) nc(2) [OF _ u] nc(2) [of t] l assms(4) by auto
qed

theorem types_and_classes_apart_witness:
  "\<exists>t s1 cl s2. CreateNewResourceType True 42 demo_rs = (t, s1) \<and> t = 10 \<and> CreateNewResourceClass s1 = (cl, s2)
     \<and> cl = 0x10000000 \<and> t AND TypeMask s1 = t \<and> (t OR cl) AND TypeMask s2 = t"
proof -
  have ok: "types_ok demo_rs"
    by (simp add: types_ok_def demo_facts predefTypes_def) (intro exI [of _ 29], simp)
  obtain t s1 where t: "CreateNewResourceType True 42 demo_rs = (t, s1)" by fastforce
  obtain cl s2 where cl: "CreateNewResourceClass s1 = (cl, s2)" by fastforce
  have "t = 10" "cl = 0x10000000"
    using t cl by (auto simp: CreateNewResourceType_def CreateNewResourceClass_def demo_facts Let_def)
  then show ?thesis using types_and_classes_apart [OF ok t cl, of 3] t cl by (simp add: demo_facts)
qed

end
