(* ===== verification/Scheduler.thy ===== *)
theory Scheduler
  imports Prelude
begin

text \<open>
  Which client runs next: the lists of clients with requests, the scheduler and the server grab of
  \<open>xserver/dix/dispatch.c\<close>, and the functions of \<open>xserver/os/connection.c\<close> that ignore clients or listen to them.

  A client is its index, and the linked lists of clients are lists of indices; a client is in
  at most one of the lists \<open>ready_clients\<close> and \<open>saved_ready_clients\<close>, because both go through the
  same field of the client. \<open>listening\<close> says for which connections \<open>ospoll\<close> reports input, \<open>None\<close> is
  an access outside an array or through a null pointer. The server grab callbacks of
  extensions are left out.
\<close>

section \<open>State\<close>

record sclient =
  priority :: int
  smart_priority :: int
  smart_start_tick :: int
  smart_stop_tick :: int
  ignoreCount :: int
  clientGone :: bool
  ignored :: bool
  impervious :: bool
  connected :: bool
  req_sequence :: int

record sched =
  sclients :: "nat \<Rightarrow> sclient"
  currentMaxClients :: nat
  in_use :: "nat \<Rightarrow> bool"
  ready_clients :: "nat list"
  saved_ready_clients :: "nat list"
  SmartLastClient :: "nat option"
  SmartLastIndex :: "int list"
  SmartScheduleTime :: int
  SmartScheduleSlice :: int
  SmartScheduleInterval :: int
  SmartScheduleMaxSlice :: int
  SmartScheduleLatencyLimited :: int
  GrabInProgress :: nat
  isItTimeToYield :: bool
  grabState :: bool
  grabClient :: nat
  grabWaiters :: "nat \<Rightarrow> bool"
  listening :: "nat \<Rightarrow> bool"

definition SMART_MIN_PRIORITY :: int where "SMART_MIN_PRIORITY = -20"
definition SMART_MAX_PRIORITY :: int where "SMART_MAX_PRIORITY = 20"

definition set_sclient :: "nat \<Rightarrow> (sclient \<Rightarrow> sclient) \<Rightarrow> 'z sched_scheme \<Rightarrow> 'z sched_scheme" where
  "set_sclient c f s = s\<lparr>sclients := (sclients s)(c := f (sclients s c))\<rparr>"

section \<open>The lists of clients with requests\<close>

definition client_is_ready :: "nat \<Rightarrow> 'z sched_scheme \<Rightarrow> bool" where
  "client_is_ready c s \<longleftrightarrow> c \<in> set (ready_clients s) \<or> c \<in> set (saved_ready_clients s)"

definition clients_are_ready :: "'z sched_scheme \<Rightarrow> bool" where
  "clients_are_ready s \<longleftrightarrow> ready_clients s \<noteq> []"

definition mark_client_ready :: "nat \<Rightarrow> 'z sched_scheme \<Rightarrow> 'z sched_scheme" where
  "mark_client_ready c s = (if client_is_ready c s then s else s\<lparr>ready_clients := ready_clients s @ [c]\<rparr>)"

definition mark_client_saved_ready :: "nat \<Rightarrow> 'z sched_scheme \<Rightarrow> 'z sched_scheme" where
  "mark_client_saved_ready c s =
     (if client_is_ready c s then s else s\<lparr>saved_ready_clients := saved_ready_clients s @ [c]\<rparr>)"

definition mark_client_not_ready :: "nat \<Rightarrow> 'z sched_scheme \<Rightarrow> 'z sched_scheme" where
  "mark_client_not_ready c s = s\<lparr>ready_clients := removeAll c (ready_clients s),
     saved_ready_clients := removeAll c (saved_ready_clients s)\<rparr>"

text \<open>The loops over the lists, one client at a time, in the order of the list.\<close>

fun grab_loop :: "nat \<Rightarrow> nat list \<Rightarrow> 'z sched_scheme \<Rightarrow> 'z sched_scheme" where
  "grab_loop g [] s = s"
| "grab_loop g (c # cs) s = grab_loop g cs
     (if c \<noteq> g then s\<lparr>ready_clients := removeAll c (ready_clients s), saved_ready_clients := saved_ready_clients s @ [c]\<rparr>
      else s)"

definition mark_client_grab :: "nat \<Rightarrow> 'z sched_scheme \<Rightarrow> 'z sched_scheme" where
  "mark_client_grab g s = grab_loop g (ready_clients s) s"

fun ungrab_loop :: "nat list \<Rightarrow> 'z sched_scheme \<Rightarrow> 'z sched_scheme" where
  "ungrab_loop [] s = s"
| "ungrab_loop (c # cs) s = ungrab_loop cs
     (s\<lparr>saved_ready_clients := removeAll c (saved_ready_clients s), ready_clients := ready_clients s @ [c]\<rparr>)"

definition mark_client_ungrab :: "'z sched_scheme \<Rightarrow> 'z sched_scheme" where
  "mark_client_ungrab s = ungrab_loop (saved_ready_clients s) s"

section \<open>Listening and ignoring\<close>

definition listen_to_client :: "nat \<Rightarrow> 'z sched_scheme \<Rightarrow> bool" where
  "listen_to_client c s =
     (if ignored (sclients s c) then False
      else if GrabInProgress s = 0 then True
      else if c = GrabInProgress s then True
      else impervious (sclients s c))"

definition set_poll_client :: "nat \<Rightarrow> 'z sched_scheme \<Rightarrow> 'z sched_scheme" where
  "set_poll_client c s =
     (if connected (sclients s c) then s\<lparr>listening := (listening s)(c := listen_to_client c s)\<rparr> else s)"

fun poll_loop :: "nat list \<Rightarrow> 'z sched_scheme \<Rightarrow> 'z sched_scheme" where
  "poll_loop [] s = s"
| "poll_loop (c # cs) s = poll_loop cs (if in_use s c \<and> \<not> clientGone (sclients s c) then set_poll_client c s else s)"

definition set_poll_clients :: "'z sched_scheme \<Rightarrow> 'z sched_scheme" where
  "set_poll_clients s = poll_loop [1..<currentMaxClients s] s"

definition IgnoreClient :: "nat \<Rightarrow> 'z sched_scheme \<Rightarrow> 'z sched_scheme" where
  "IgnoreClient c s =
     (let s1 = set_sclient c (\<lambda>r. r\<lparr>ignoreCount := ignoreCount r + 1\<rparr>) s
      in if ignoreCount (sclients s1 c) > 1 then s1
         else set_poll_client c (set_sclient c (\<lambda>r. r\<lparr>ignored := True\<rparr>)
                (mark_client_not_ready c (s1\<lparr>isItTimeToYield := True\<rparr>))))"

definition AttendClient :: "nat \<Rightarrow> 'z sched_scheme \<Rightarrow> 'z sched_scheme" where
  "AttendClient c s =
     (if clientGone (sclients s c) then s
      else
        let s1 = set_sclient c (\<lambda>r. r\<lparr>ignoreCount := ignoreCount r - 1\<rparr>) s
        in if ignoreCount (sclients s1 c) \<noteq> 0 then s1
           else
             let s2 = set_poll_client c (set_sclient c (\<lambda>r. r\<lparr>ignored := False\<rparr>) s1)
             in if listen_to_client c s2 then mark_client_ready c s2 else mark_client_saved_ready c s2)"

definition MakeClientGrabImpervious :: "nat \<Rightarrow> 'z sched_scheme \<Rightarrow> 'z sched_scheme" where
  "MakeClientGrabImpervious c s = set_poll_client c (set_sclient c (\<lambda>r. r\<lparr>impervious := True\<rparr>) s)"

definition MakeClientGrabPervious :: "nat \<Rightarrow> 'z sched_scheme \<Rightarrow> 'z sched_scheme" where
  "MakeClientGrabPervious c s =
     (set_poll_client c (set_sclient c (\<lambda>r. r\<lparr>impervious := False\<rparr>) s))\<lparr>isItTimeToYield := True\<rparr>"

text \<open>\<open>xace\<close> is the answer of the access control hook.\<close>

definition OnlyListenToOneClient :: "int \<Rightarrow> nat \<Rightarrow> 'z sched_scheme \<Rightarrow> int \<times> 'z sched_scheme" where
  "OnlyListenToOneClient xace c s =
     (if xace \<noteq> 0 then (xace, s)
      else (0, if GrabInProgress s = 0 then set_poll_clients (s\<lparr>GrabInProgress := c\<rparr>) else s))"

definition ListenToAllClients :: "'z sched_scheme \<Rightarrow> 'z sched_scheme" where
  "ListenToAllClients s =
     (if GrabInProgress s \<noteq> 0 then set_poll_clients (s\<lparr>GrabInProgress := 0\<rparr>) else s)"

text \<open>What \<open>ospoll\<close> reports for a connection: an error closes the client (the caller does that).\<close>

definition ClientReady :: "bool \<Rightarrow> nat \<Rightarrow> 'z sched_scheme \<Rightarrow> 'z sched_scheme" where
  "ClientReady input c s = (if input then mark_client_ready c s else s)"

section \<open>The server grab\<close>

definition mskcnt :: nat where "mskcnt = 64"

text \<open>
  The clients that wait for the grab are bits of an array of words of 32 bits each; the search
  takes the last word that is not 0 and its first bit. \<open>reset\<close> stands for \<open>ResetCurrentRequest\<close>.
\<close>

definition last_word :: "(nat \<Rightarrow> bool) \<Rightarrow> nat option" where
  "last_word w = find (\<lambda>i. list_ex w [32 * i..<32 * i + 32]) (rev [0..<mskcnt])"

definition next_waiter :: "(nat \<Rightarrow> bool) \<Rightarrow> nat option" where
  "next_waiter w = Option.bind (last_word w) (\<lambda>i. find w [32 * i..<32 * i + 32])"

definition ProcGrabServer ::
  "(nat \<Rightarrow> 'z sched_scheme \<Rightarrow> 'z sched_scheme option) \<Rightarrow> int \<Rightarrow> bool \<Rightarrow> nat \<Rightarrow> 'z sched_scheme \<Rightarrow> (int \<times> 'z sched_scheme) option" where
  "ProcGrabServer reset xace size_ok c s =
     (if \<not> size_ok then Some (16, s)
      else if grabState s \<and> c \<noteq> grabClient s then do {
        s1 \<leftarrow> reset c s;
        let s2 = set_sclient c (\<lambda>r. r\<lparr>req_sequence := req_sequence r - 1\<rparr>) s1;
        Some (0, IgnoreClient c (s2\<lparr>grabWaiters := (grabWaiters s2)(c := True)\<rparr>)) }
      else
        let (rc, s1) = OnlyListenToOneClient xace c s
        in if rc \<noteq> 0 then Some (rc, s1)
           else Some (0, mark_client_grab c (s1\<lparr>grabState := True, grabClient := c\<rparr>)))"

definition UngrabServer :: "'z sched_scheme \<Rightarrow> 'z sched_scheme" where
  "UngrabServer s =
     (let s1 = mark_client_ungrab (ListenToAllClients (s\<lparr>grabState := False\<rparr>))
      in case next_waiter (grabWaiters s1) of
           None \<Rightarrow> s1
         | Some i \<Rightarrow> AttendClient i (s1\<lparr>grabWaiters := (grabWaiters s1)(i := False)\<rparr>))"

definition ProcUngrabServer :: "bool \<Rightarrow> 'z sched_scheme \<Rightarrow> int \<times> 'z sched_scheme" where
  "ProcUngrabServer size_ok s = (if \<not> size_ok then (16, s) else (0, UngrabServer s))"

text \<open>The part of \<open>CloseDownClient\<close> that concerns grab and lists, for a client that is not gone yet.\<close>

definition leave_schedule :: "nat \<Rightarrow> 'z sched_scheme \<Rightarrow> 'z sched_scheme" where
  "leave_schedule c s =
     (let s1 = (if grabState s \<and> grabClient s = c then UngrabServer s else s);
          s2 = s1\<lparr>grabWaiters := (grabWaiters s1)(c := False)\<rparr>
      in mark_client_not_ready c (set_sclient c (\<lambda>r. r\<lparr>clientGone := True\<rparr>) s2))"

section \<open>Choosing a client\<close>

text \<open>Ticks are stored in an \<open>int\<close>.\<close>

definition tick_int :: "int \<Rightarrow> int" where
  "tick_int t = signed_take_bit 31 t"

definition last_index :: "'z sched_scheme \<Rightarrow> int \<Rightarrow> int option" where
  "last_index s p = (if p < SMART_MIN_PRIORITY then None else rd (SmartLastIndex s) (nat (p - SMART_MIN_PRIORITY)))"

definition set_last_index :: "int \<Rightarrow> int \<Rightarrow> 'z sched_scheme \<Rightarrow> 'z sched_scheme option" where
  "set_last_index p v s = (if p < SMART_MIN_PRIORITY then None
     else map_option (\<lambda>l. s\<lparr>SmartLastIndex := l\<rparr>) (wr (SmartLastIndex s) (nat (p - SMART_MIN_PRIORITY)) v))"

definition praise :: "int \<Rightarrow> int \<Rightarrow> sclient \<Rightarrow> sclient" where
  "praise now idle r = (if now - smart_stop_tick r \<ge> idle \<and> smart_priority r < 0
     then r\<lparr>smart_priority := smart_priority r + 1\<rparr> else r)"

definition beats :: "sclient \<Rightarrow> int \<Rightarrow> sclient \<Rightarrow> int \<Rightarrow> bool" where
  "beats p robin b bestRobin \<longleftrightarrow>
     priority p > priority b
     \<or> (priority p = priority b \<and> (smart_priority p > smart_priority b
          \<or> (smart_priority p = smart_priority b \<and> robin > bestRobin)))"

fun pick_loop :: "int \<Rightarrow> int \<Rightarrow> nat list \<Rightarrow> (nat \<times> int) option \<Rightarrow> 'z sched_scheme \<Rightarrow> ((nat \<times> int) option \<times> 'z sched_scheme) option" where
  "pick_loop now idle [] best s = Some (best, s)"
| "pick_loop now idle (c # cs) best s = do {
     let s1 = set_sclient c (praise now idle) s;
     l \<leftarrow> last_index s1 (smart_priority (sclients s1 c));
     let robin = (int c - l) mod 256;
     pick_loop now idle cs
       (case best of
          None \<Rightarrow> Some (c, robin)
        | Some (b, bestRobin) \<Rightarrow> if beats (sclients s1 c) robin (sclients s1 b) bestRobin then Some (c, robin) else best)
       s1 }"

definition adjust_slice :: "nat \<Rightarrow> nat \<Rightarrow> 'z sched_scheme \<Rightarrow> 'z sched_scheme" where
  "adjust_slice nready b s =
     (if nready = 1 \<and> SmartScheduleLatencyLimited s = 0
      then if SmartScheduleTime s - smart_start_tick (sclients s b) > 1000 \<and> SmartScheduleSlice s < SmartScheduleMaxSlice s
           then s\<lparr>SmartScheduleSlice := SmartScheduleSlice s + SmartScheduleInterval s\<rparr> else s
      else s\<lparr>SmartScheduleSlice := SmartScheduleInterval s\<rparr>)"

definition SmartScheduleClient :: "'z sched_scheme \<Rightarrow> (nat \<times> 'z sched_scheme) option" where
  "SmartScheduleClient s = do {
     (best, s1) \<leftarrow> pick_loop (SmartScheduleTime s) (2 * SmartScheduleSlice s) (ready_clients s) None s;
     (b, _) \<leftarrow> best;
     s2 \<leftarrow> set_last_index (smart_priority (sclients s1 b)) (int b) s1;
     let s3 = (if SmartLastClient s2 \<noteq> Some b
               then (set_sclient b (\<lambda>r. r\<lparr>smart_start_tick := tick_int (SmartScheduleTime s2)\<rparr>) s2)\<lparr>SmartLastClient := Some b\<rparr>
               else s2);
     Some (b, adjust_slice (length (ready_clients s)) b s3) }"

definition EnableLimitedSchedulingLatency :: "'z sched_scheme \<Rightarrow> 'z sched_scheme" where
  "EnableLimitedSchedulingLatency s = s\<lparr>SmartScheduleLatencyLimited := SmartScheduleLatencyLimited s + 1,
     SmartScheduleSlice := SmartScheduleInterval s\<rparr>"

definition DisableLimitedSchedulingLatency :: "'z sched_scheme \<Rightarrow> 'z sched_scheme" where
  "DisableLimitedSchedulingLatency s = s\<lparr>SmartScheduleLatencyLimited := max 0 (SmartScheduleLatencyLimited s - 1)\<rparr>"

text \<open>When a client has used up its slice, \<open>Dispatch\<close> lowers its priority.\<close>

definition penalize :: "nat \<Rightarrow> 'z sched_scheme \<Rightarrow> 'z sched_scheme" where
  "penalize c s = (if smart_priority (sclients s c) > SMART_MIN_PRIORITY
     then set_sclient c (\<lambda>r. r\<lparr>smart_priority := smart_priority r - 1\<rparr>) s else s)"


section \<open>The lists\<close>

named_theorems sched_defs \<open>definitions of the operations on the schedule\<close>

lemmas [sched_defs] = set_sclient_def mark_client_ready_def mark_client_saved_ready_def mark_client_not_ready_def
  set_poll_client_def client_is_ready_def

lemma grab_loop_eq: "grab_loop g cs s = s\<lparr>ready_clients := filter (\<lambda>c. c = g \<or> c \<notin> set cs) (ready_clients s),
    saved_ready_clients := saved_ready_clients s @ filter (\<lambda>c. c \<noteq> g) cs\<rparr>"
proof (induction cs arbitrary: s)
  case (Cons c cs)
  have "filter (\<lambda>d. d = g \<or> d \<notin> set cs) (removeAll c l) = filter (\<lambda>d. d = g \<or> d \<notin> set (c # cs)) l" if "c \<noteq> g" for l
    using that by (induction l) auto
  moreover have "filter (\<lambda>d. d = g \<or> d \<notin> set cs) l = filter (\<lambda>d. d = g \<or> d \<notin> set (g # cs)) l" for l
    by (induction l) auto
  ultimately show ?case using Cons by simp
qed simp

lemma mark_client_grab_eq: "mark_client_grab g s = s\<lparr>ready_clients := filter (\<lambda>c. c = g) (ready_clients s),
    saved_ready_clients := saved_ready_clients s @ filter (\<lambda>c. c \<noteq> g) (ready_clients s)\<rparr>"
proof -
  have "filter (\<lambda>c. c = g \<or> c \<notin> set l) l = filter (\<lambda>c. c = g) l" for l :: "nat list"
    by (rule filter_cong) auto
  then show ?thesis by (simp add: mark_client_grab_def grab_loop_eq)
qed

lemma ungrab_loop_eq: "ungrab_loop cs s = s\<lparr>saved_ready_clients := filter (\<lambda>c. c \<notin> set cs) (saved_ready_clients s),
    ready_clients := ready_clients s @ cs\<rparr>"
proof (induction cs arbitrary: s)
  case (Cons c cs)
  have "filter (\<lambda>d. d \<notin> set cs) (removeAll c l) = filter (\<lambda>d. d \<notin> set (c # cs)) l" for l
    by (induction l) auto
  then show ?case using Cons by simp
qed simp

lemma mark_client_ungrab_eq: "mark_client_ungrab s = s\<lparr>saved_ready_clients := [],
    ready_clients := ready_clients s @ saved_ready_clients s\<rparr>"
  by (simp add: mark_client_ungrab_def ungrab_loop_eq)

definition polled :: "nat set \<Rightarrow> 'z sched_scheme \<Rightarrow> nat \<Rightarrow> bool" where
  "polled cs s = (\<lambda>c. if c \<in> cs \<and> in_use s c \<and> \<not> clientGone (sclients s c) \<and> connected (sclients s c)
     then listen_to_client c s else listening s c)"

lemma poll_loop_eq: "poll_loop cs s = s\<lparr>listening := polled (set cs) s\<rparr>"
proof (induction cs arbitrary: s)
  case Nil
  show ?case by (simp add: polled_def)
next
  case (Cons c cs)
  define l0 where "l0 = (if in_use s c \<and> \<not> clientGone (sclients s c) \<and> connected (sclients s c)
    then (listening s)(c := listen_to_client c s) else listening s)"
  have s1: "(if in_use s c \<and> \<not> clientGone (sclients s c) then set_poll_client c s else s) = s\<lparr>listening := l0\<rparr>"
    by (simp add: l0_def set_poll_client_def)
  have "polled (set cs) (s\<lparr>listening := l0\<rparr>) = polled (set (c # cs)) s"
    by (auto simp: polled_def l0_def fun_eq_iff listen_to_client_def)
  then show ?case using Cons s1 by simp
qed

lemma set_poll_clients_eq: "set_poll_clients s = s\<lparr>listening := polled {1..<currentMaxClients s} s\<rparr>"
  by (simp add: set_poll_clients_def poll_loop_eq)

section \<open>The invariant of the schedule\<close>

definition pollable :: "'z sched_scheme \<Rightarrow> nat \<Rightarrow> bool" where
  "pollable s c \<longleftrightarrow> 1 \<le> c \<and> c < currentMaxClients s \<and> in_use s c \<and> \<not> clientGone (sclients s c) \<and> connected (sclients s c)"

text \<open>The clients of \<open>U\<close> may be ready during a grab although the server does not listen to them.\<close>

definition sched_ok_but :: "nat set \<Rightarrow> 'z sched_scheme \<Rightarrow> bool" where
  "sched_ok_but U s \<longleftrightarrow> distinct (ready_clients s @ saved_ready_clients s)
     \<and> (\<forall>c. pollable s c \<longrightarrow> listening s c = listen_to_client c s)
     \<and> (grabState s = (GrabInProgress s \<noteq> 0))
     \<and> (grabState s \<longrightarrow> GrabInProgress s = grabClient s
          \<and> (\<forall>c \<in> set (ready_clients s). c = grabClient s \<or> impervious (sclients s c) \<or> c \<in> U))"

definition sched_ok :: "'z sched_scheme \<Rightarrow> bool" where
  "sched_ok s \<longleftrightarrow> distinct (ready_clients s @ saved_ready_clients s)
     \<and> (\<forall>c. pollable s c \<longrightarrow> listening s c = listen_to_client c s)
     \<and> (grabState s = (GrabInProgress s \<noteq> 0))
     \<and> (grabState s \<longrightarrow> GrabInProgress s = grabClient s
          \<and> (\<forall>c \<in> set (ready_clients s). c = grabClient s \<or> impervious (sclients s c)))"

lemma sched_ok_but: "sched_ok s = sched_ok_but {} s"
  by (simp add: sched_ok_def sched_ok_but_def)

lemma sched_ok_but_mono: "sched_ok_but U s \<Longrightarrow> U \<subseteq> V \<Longrightarrow> sched_ok_but V s"
  unfolding sched_ok_but_def by blast

lemma sched_ok_but_trim: "sched_ok_but U s \<Longrightarrow> (\<And>c. grabState s \<Longrightarrow> c \<in> U \<Longrightarrow> c \<in> set (ready_clients s) \<Longrightarrow> c \<in> V) \<Longrightarrow> sched_ok_but V s"
  unfolding sched_ok_but_def by blast

text \<open>The fields the invariant speaks about.\<close>

definition schedule :: "'z sched_scheme \<Rightarrow> _" where
  "schedule s = (sclients s, currentMaxClients s, in_use s, ready_clients s, saved_ready_clients s, GrabInProgress s,
     grabState s, grabClient s, listening s)"

lemma schedule_ok: "schedule s = schedule t \<Longrightarrow> sched_ok_but U s = sched_ok_but U t"
  by (simp add: schedule_def sched_ok_but_def pollable_def listen_to_client_def)

lemma sched_ok_view: "schedule s' = schedule s \<Longrightarrow> sched_ok_but U s \<Longrightarrow> sched_ok_but U s'"
  using schedule_ok by blast

lemma ready_ok: "sched_ok_but U s \<Longrightarrow> (grabState s \<Longrightarrow> c = grabClient s \<or> impervious (sclients s c) \<or> c \<in> U) \<Longrightarrow> sched_ok_but U (mark_client_ready c s)"
  by (auto simp: sched_ok_but_def sched_defs pollable_def listen_to_client_def)

lemma listened: "sched_ok_but U s \<Longrightarrow> listen_to_client c s \<Longrightarrow> grabState s \<Longrightarrow> c = grabClient s \<or> impervious (sclients s c) \<or> c \<in> U"
  by (auto simp: sched_ok_but_def listen_to_client_def split: if_splits)

lemma saved_ready_ok: "sched_ok_but U s \<Longrightarrow> sched_ok_but U (mark_client_saved_ready c s)"
  by (auto simp: sched_ok_but_def sched_defs pollable_def listen_to_client_def)

lemma not_ready_ok: "sched_ok_but U s \<Longrightarrow> sched_ok_but U (mark_client_not_ready c s)"
  by (auto simp: sched_ok_but_def sched_defs pollable_def listen_to_client_def distinct_removeAll)

lemma set_poll_ok:
  assumes "distinct (ready_clients s @ saved_ready_clients s)" "\<forall>d. d \<noteq> c \<longrightarrow> pollable s d \<longrightarrow> listening s d = listen_to_client d s"
    "grabState s = (GrabInProgress s \<noteq> 0)"
    "grabState s \<longrightarrow> GrabInProgress s = grabClient s \<and> (\<forall>c \<in> set (ready_clients s). c = grabClient s \<or> impervious (sclients s c) \<or> c \<in> U)"
  shows "sched_ok_but U (set_poll_client c s)"
  using assms by (auto simp: sched_ok_but_def sched_defs pollable_def listen_to_client_def)

lemma set_sclient_poll_ok:
  assumes "sched_ok_but U s" "\<forall>r. impervious r \<longrightarrow> impervious (f r) \<or> c \<notin> set (ready_clients s) \<or> \<not> grabState s"
    "\<forall>r. clientGone (f r) = clientGone r"  "\<forall>r. connected (f r) = connected r"
  shows "sched_ok_but U (set_poll_client c (set_sclient c f s))"
  using assms by (intro set_poll_ok) (auto simp: sched_ok_but_def sched_defs pollable_def listen_to_client_def)

lemma ignore_ok: "sched_ok_but U s \<Longrightarrow> sched_ok_but U (IgnoreClient c s)"
proof -
  assume ok: "sched_ok_but U s"
  define s1 where "s1 = set_sclient c (\<lambda>r. r\<lparr>ignoreCount := ignoreCount r + 1\<rparr>) s"
  have ok1: "sched_ok_but U s1"
    using ok by (auto simp: s1_def sched_ok_but_def sched_defs pollable_def listen_to_client_def)
  have "sched_ok_but U (mark_client_not_ready c (s1\<lparr>isItTimeToYield := True\<rparr>))"
    by (intro not_ready_ok sched_ok_view [OF _ ok1]) (simp add: schedule_def)
  then have "sched_ok_but U (set_poll_client c (set_sclient c (\<lambda>r. r\<lparr>ignored := True\<rparr>)
      (mark_client_not_ready c (s1\<lparr>isItTimeToYield := True\<rparr>))))"
    by (intro set_sclient_poll_ok) auto
  then show ?thesis using ok1 by (simp add: IgnoreClient_def s1_def Let_def)
qed

lemma attend_ok: "sched_ok_but U s \<Longrightarrow> sched_ok_but U (AttendClient c s)"
proof -
  assume ok: "sched_ok_but U s"
  define s1 where "s1 = set_sclient c (\<lambda>r. r\<lparr>ignoreCount := ignoreCount r - 1\<rparr>) s"
  have ok1: "sched_ok_but U s1"
    using ok by (auto simp: s1_def sched_ok_but_def sched_defs pollable_def listen_to_client_def)
  define s2 where "s2 = set_poll_client c (set_sclient c (\<lambda>r. r\<lparr>ignored := False\<rparr>) s1)"
  have ok2: "sched_ok_but U s2" unfolding s2_def by (intro set_sclient_poll_ok ok1) auto
  show ?thesis
    using ok ok1 ready_ok [OF ok2 listened [OF ok2]] saved_ready_ok [OF ok2]
    by (simp add: AttendClient_def s1_def s2_def Let_def)
qed

lemma impervious_ok: "sched_ok_but U s \<Longrightarrow> sched_ok_but U (MakeClientGrabImpervious c s)"
  unfolding MakeClientGrabImpervious_def by (intro set_sclient_poll_ok) auto

lemma grab_ok:
  assumes "sched_ok_but U s" "1 \<le> c" "\<not> grabState s \<or> c = grabClient s"
  shows "sched_ok_but U (mark_client_grab c ((snd (OnlyListenToOneClient 0 c s))\<lparr>grabState := True, grabClient := c\<rparr>))"
  using assms
  by (auto simp: sched_ok_but_def OnlyListenToOneClient_def mark_client_grab_eq set_poll_clients_eq polled_def pollable_def listen_to_client_def)

lemma sched_release_ok: "sched_ok_but U s \<Longrightarrow> sched_ok_but U (mark_client_ungrab (ListenToAllClients (s\<lparr>grabState := False\<rparr>)))"
  by (auto simp: sched_ok_but_def ListenToAllClients_def mark_client_ungrab_eq set_poll_clients_eq polled_def pollable_def listen_to_client_def)

lemma ungrab_ok: "sched_ok_but U s \<Longrightarrow> sched_ok_but U (UngrabServer s)"
  unfolding UngrabServer_def Let_def
  by (auto split: option.split intro!: attend_ok sched_release_ok intro: sched_ok_view [OF _ sched_release_ok] simp: schedule_def)


lemma close_ok: "sched_ok_but U s \<Longrightarrow> sched_ok_but U (leave_schedule c s)"
proof -
  assume ok: "sched_ok_but U s"
  define s1 where "s1 = (if grabState s \<and> grabClient s = c then UngrabServer s else s)"
  have ok1: "sched_ok_but U s1" using ok by (auto simp: s1_def intro: ungrab_ok)
  have "sched_ok_but U (set_sclient c (\<lambda>r. r\<lparr>clientGone := True\<rparr>) (s1\<lparr>grabWaiters := (grabWaiters s1)(c := False)\<rparr>))"
    using ok1 by (auto simp: sched_ok_but_def sched_defs pollable_def listen_to_client_def)
  then show ?thesis unfolding leave_schedule_def Let_def s1_def by (rule not_ready_ok)
qed

lemma pervious_ok: "sched_ok_but U s \<Longrightarrow> (grabState s \<Longrightarrow> c \<in> set (ready_clients s) \<Longrightarrow> c = grabClient s \<or> c \<in> U) \<Longrightarrow> sched_ok_but U (MakeClientGrabPervious c s)"
proof -
  assume ok: "sched_ok_but U s" and c: "grabState s \<Longrightarrow> c \<in> set (ready_clients s) \<Longrightarrow> c = grabClient s \<or> c \<in> U"
  have "sched_ok_but U (set_poll_client c (set_sclient c (\<lambda>r. r\<lparr>impervious := False\<rparr>) s))"
    using ok c by (intro set_poll_ok) (auto simp: sched_ok_but_def sched_defs pollable_def listen_to_client_def)
  then show ?thesis unfolding MakeClientGrabPervious_def by (rule sched_ok_view [rotated]) (simp add: schedule_def)
qed

section \<open>The choice\<close>

definition prios_ok :: "'z sched_scheme \<Rightarrow> bool" where
  "prios_ok s \<longleftrightarrow> length (SmartLastIndex s) = 41
     \<and> (\<forall>c. SMART_MIN_PRIORITY \<le> smart_priority (sclients s c) \<and> smart_priority (sclients s c) \<le> SMART_MAX_PRIORITY)"

definition robin :: "'z sched_scheme \<Rightarrow> sclient \<Rightarrow> nat \<Rightarrow> int" where
  "robin s r c = (int c - SmartLastIndex s ! nat (smart_priority r - SMART_MIN_PRIORITY)) mod 256"

definition praised :: "int \<Rightarrow> int \<Rightarrow> nat set \<Rightarrow> 'z sched_scheme \<Rightarrow> 'z sched_scheme" where
  "praised now idle C s = s\<lparr>sclients := \<lambda>c. if c \<in> C then praise now idle (sclients s c) else sclients s c\<rparr>"

lemma praise_range:
  "SMART_MIN_PRIORITY \<le> smart_priority r \<Longrightarrow> smart_priority r \<le> SMART_MAX_PRIORITY \<Longrightarrow>
    SMART_MIN_PRIORITY \<le> smart_priority (praise now idle r) \<and> smart_priority (praise now idle r) \<le> SMART_MAX_PRIORITY"
  by (simp add: praise_def SMART_MIN_PRIORITY_def SMART_MAX_PRIORITY_def)

lemma last_index_ok:
  assumes "length (SmartLastIndex s) = 41" "SMART_MIN_PRIORITY \<le> p" "p \<le> SMART_MAX_PRIORITY"
  shows "last_index s p = Some (SmartLastIndex s ! nat (p - SMART_MIN_PRIORITY))"
  using assms by (simp add: last_index_def rd_def SMART_MIN_PRIORITY_def SMART_MAX_PRIORITY_def)

lemma not_beats_trans: "\<not> beats a i b j \<Longrightarrow> \<not> beats b j c k \<Longrightarrow> \<not> beats a i c k"
  unfolding beats_def by linarith

lemma beats_asym: "beats a i b j \<Longrightarrow> \<not> beats b j a i"
  unfolding beats_def by linarith

lemma pick_loop_spec:
  assumes "distinct cs" "prios_ok s" "\<And>b r. best = Some (b, r) \<Longrightarrow> b \<notin> set cs"
  shows "\<exists>best'. pick_loop now idle cs best s = Some (best', praised now idle (set cs) s)
    \<and> (best' = None \<longrightarrow> best = None \<and> cs = [])
    \<and> (\<forall>b r. best' = Some (b, r) \<longrightarrow>
         (best = Some (b, r) \<or> b \<in> set cs \<and> r = robin s (praise now idle (sclients s b)) b)
       \<and> (\<forall>c \<in> set cs. \<not> beats (praise now idle (sclients s c)) (robin s (praise now idle (sclients s c)) c)
              (sclients (praised now idle (set cs) s) b) r)
       \<and> (\<forall>b0 r0. best = Some (b0, r0) \<longrightarrow> \<not> beats (sclients s b0) r0 (sclients (praised now idle (set cs) s) b) r))"
  using assms
proof (induction cs arbitrary: best s)
  case Nil
  then show ?case by (auto simp: praised_def beats_def)
next
  case (Cons c cs)
  define s1 where "s1 = set_sclient c (praise now idle) s"
  define pc where "pc = praise now idle (sclients s c)"
  define rc where "rc = robin s pc c"
  define best1 where "best1 = (case best of None \<Rightarrow> Some (c, rc)
    | Some (b, r) \<Rightarrow> if beats pc rc (sclients s1 b) r then Some (c, rc) else best)"
  have range: "SMART_MIN_PRIORITY \<le> smart_priority pc" "smart_priority pc \<le> SMART_MAX_PRIORITY" "length (SmartLastIndex s) = 41"
    using Cons.prems(2) praise_range [of "sclients s c"] by (auto simp: pc_def prios_ok_def)
  have p1: "prios_ok s1"
    using Cons.prems(2) range by (auto simp: s1_def prios_ok_def set_sclient_def pc_def)
  have s1: "sclients s1 c = pc" "SmartLastIndex s1 = SmartLastIndex s" "\<And>d. d \<noteq> c \<Longrightarrow> sclients s1 d = sclients s d"
    by (simp_all add: s1_def set_sclient_def pc_def)
  have pr: "praised now idle (set cs) s1 = praised now idle (set (c # cs)) s"
    using Cons.prems(1) by (auto simp: praised_def s1_def set_sclient_def fun_eq_iff)
  have step: "pick_loop now idle (c # cs) best s = pick_loop now idle cs best1 s1"
    using last_index_ok [of s1 "smart_priority pc"] range
    by (simp add: s1_def [symmetric] s1 best1_def rc_def robin_def Let_def split: option.split)
  have nb: "b \<notin> set cs" if "best1 = Some (b, r)" for b r
    using that Cons.prems(1,3) by (auto simp: best1_def split: option.splits if_splits)
  obtain best' where B: "pick_loop now idle cs best1 s1 = Some (best', praised now idle (set (c # cs)) s)"
    "best' = None \<longrightarrow> best1 = None"
    "\<And>b r. best' = Some (b, r) \<Longrightarrow> (best1 = Some (b, r) \<or> b \<in> set cs \<and> r = robin s1 (praise now idle (sclients s1 b)) b)"
    "\<And>b r d. best' = Some (b, r) \<Longrightarrow> d \<in> set cs \<Longrightarrow> \<not> beats (praise now idle (sclients s1 d))
        (robin s1 (praise now idle (sclients s1 d)) d) (sclients (praised now idle (set (c # cs)) s) b) r"
    "\<And>b r b0 r0. best' = Some (b, r) \<Longrightarrow> best1 = Some (b0, r0) \<Longrightarrow>
        \<not> beats (sclients s1 b0) r0 (sclients (praised now idle (set (c # cs)) s) b) r"
    using Cons.IH [of s1 best1] Cons.prems(1) p1 nb pr by (auto simp: distinct.simps)
  have n1: "best1 \<noteq> None" by (auto simp: best1_def split: option.splits)
  have rob: "robin s1 = robin s" by (simp add: robin_def s1 fun_eq_iff)
  have cs: "sclients s1 d = sclients s d" if "d \<in> set cs" for d
    using that Cons.prems(1) by (intro s1(3)) auto
  have goal1: "best = Some (b, r) \<or> b \<in> set (c # cs) \<and> r = robin s (praise now idle (sclients s b)) b"
    if "best' = Some (b, r)" for b r
    using B(3) [OF that] cs rob by (auto simp: best1_def rc_def pc_def split: option.splits if_splits)
  have top: "\<not> beats pc rc (sclients (praised now idle (set (c # cs)) s) b) r \<and>
      (\<forall>b0 r0. best = Some (b0, r0) \<longrightarrow> \<not> beats (sclients s b0) r0 (sclients (praised now idle (set (c # cs)) s) b) r)"
    if b: "best' = Some (b, r)" for b r
  proof (cases best)
    case None
    then show ?thesis using B(5) [OF b, of c rc] by (simp add: best1_def s1)
  next
    case (Some x)
    obtain b0 r0 where x: "x = (b0, r0)" by fastforce
    have "b0 \<noteq> c" using Cons.prems(3) Some x by auto
    then have s0: "sclients s1 b0 = sclients s b0" by (rule s1(3))
    show ?thesis
    proof (cases "beats pc rc (sclients s b0) r0")
      case True
      then have "best1 = Some (c, rc)" using Some x by (simp add: best1_def s0)
      then have "\<not> beats pc rc (sclients (praised now idle (set (c # cs)) s) b) r" using B(5) [OF b] s1 by metis
      then show ?thesis using not_beats_trans [OF beats_asym [OF True]] Some x by auto
    next
      case False
      then have "best1 = Some (b0, r0)" using Some x by (simp add: best1_def s0)
      then have "\<not> beats (sclients s b0) r0 (sclients (praised now idle (set (c # cs)) s) b) r" using B(5) [OF b] s0 by metis
      then show ?thesis using not_beats_trans [OF False] Some x by auto
    qed
  qed
  have all: "\<not> beats (praise now idle (sclients s d)) (robin s (praise now idle (sclients s d)) d)
      (sclients (praised now idle (set (c # cs)) s) b) r" if "best' = Some (b, r)" "d \<in> set (c # cs)" for b r d
    using that B(4) [OF that(1), of d] top [OF that(1)] cs [of d] rob by (auto simp: pc_def rc_def)
  show ?case
    using step B(1,2) n1 goal1 top all by (intro exI [of _ best']) auto
qed


lemma sched_ok_clients:
  assumes "sched_ok_but U s" "\<forall>c. clientGone (f c) = clientGone (sclients s c) \<and> connected (f c) = connected (sclients s c)
    \<and> ignored (f c) = ignored (sclients s c) \<and> impervious (f c) = impervious (sclients s c)"
  shows "sched_ok_but U (s\<lparr>sclients := f\<rparr>)"
  using assms by (simp add: sched_ok_but_def pollable_def listen_to_client_def)

lemma schedule_client:
  assumes "sched_ok_but U s" "prios_ok s" "ready_clients s \<noteq> []"
  defines "p \<equiv> \<lambda>c. praise (SmartScheduleTime s) (2 * SmartScheduleSlice s) (sclients s c)"
  obtains b s' where "SmartScheduleClient s = Some (b, s')" "b \<in> set (ready_clients s)"
    "\<forall>c \<in> set (ready_clients s). \<not> beats (p c) (robin s (p c) c) (p b) (robin s (p b) b)"
    "SmartLastIndex s' = (SmartLastIndex s)[nat (smart_priority (p b) - SMART_MIN_PRIORITY) := int b]"
    "prios_ok s'" "sched_ok_but U s'" "ready_clients s' = ready_clients s" "grabClient s' = grabClient s"
    "\<forall>c. priority (sclients s' c) = priority (sclients s c)
       \<and> smart_priority (sclients s' c) = smart_priority (if c \<in> set (ready_clients s) then p c else sclients s c)
       \<and> impervious (sclients s' c) = impervious (sclients s c)"
proof -
  let ?C = "set (ready_clients s)"
  define s1 where "s1 = praised (SmartScheduleTime s) (2 * SmartScheduleSlice s) ?C s"
  have d: "distinct (ready_clients s)" using assms(1) by (simp add: sched_ok_but_def)
  obtain best' where B: "pick_loop (SmartScheduleTime s) (2 * SmartScheduleSlice s) (ready_clients s) None s = Some (best', s1)"
    "best' \<noteq> None" "\<And>b r. best' = Some (b, r) \<Longrightarrow> b \<in> ?C \<and> r = robin s (p b) b"
    "\<And>b r. best' = Some (b, r) \<Longrightarrow> \<forall>c \<in> ?C. \<not> beats (p c) (robin s (p c) c) (sclients s1 b) r"
    using pick_loop_spec [OF d assms(2), where best = None and now = "SmartScheduleTime s" and idle = "2 * SmartScheduleSlice s"] assms(3)
    unfolding p_def s1_def by auto
  obtain b r where b: "best' = Some (b, r)" using B(2) by auto
  have bC: "b \<in> ?C" "r = robin s (p b) b" using B(3) [OF b] by simp_all
  have s1: "sclients s1 c = (if c \<in> ?C then p c else sclients s c)" "SmartLastIndex s1 = SmartLastIndex s" for c
    by (simp_all add: s1_def praised_def p_def)
  have range: "SMART_MIN_PRIORITY \<le> smart_priority (p c)" "smart_priority (p c) \<le> SMART_MAX_PRIORITY" "length (SmartLastIndex s) = 41" for c
    using assms(2) praise_range [of "sclients s c"] by (auto simp: p_def prios_ok_def)
  define i where "i = nat (smart_priority (p b) - SMART_MIN_PRIORITY)"
  define s2 where "s2 = s1\<lparr>SmartLastIndex := (SmartLastIndex s)[i := int b]\<rparr>"
  have s2: "set_last_index (smart_priority (sclients s1 b)) (int b) s1 = Some s2"
    using range(1,2) [of b] range(3) bC(1)
    by (simp add: set_last_index_def wr_def s1 s2_def i_def SMART_MIN_PRIORITY_def SMART_MAX_PRIORITY_def)
  define s3 where "s3 = (if SmartLastClient s2 \<noteq> Some b
      then (set_sclient b (\<lambda>r. r\<lparr>smart_start_tick := tick_int (SmartScheduleTime s2)\<rparr>) s2)\<lparr>SmartLastClient := Some b\<rparr> else s2)"
  define s4 where "s4 = adjust_slice (length (ready_clients s)) b s3"
  have run: "SmartScheduleClient s = Some (b, s4)"
    by (simp add: SmartScheduleClient_def B(1) b s2 s3_def [symmetric] s4_def Let_def)
  have f4: "schedule s4 = schedule s3" "SmartLastIndex s4 = SmartLastIndex s3" "sclients s4 = sclients s3"
    by (simp_all add: s4_def adjust_slice_def schedule_def)
  have f3: "SmartLastIndex s3 = (SmartLastIndex s)[i := int b]" "ready_clients s3 = ready_clients s" "grabClient s3 = grabClient s"
    by (simp_all add: s3_def s2_def s1_def praised_def set_sclient_def)
  have c3: "priority (sclients s3 c) = priority (sclients s c)
       \<and> smart_priority (sclients s3 c) = smart_priority (if c \<in> ?C then p c else sclients s c)
       \<and> impervious (sclients s3 c) = impervious (sclients s c)" for c
    by (simp add: s3_def s2_def set_sclient_def s1 p_def praise_def)
  have "sched_ok_but U (s\<lparr>sclients := sclients s3\<rparr>)"
    by (rule sched_ok_clients [OF assms(1)]) (simp add: s3_def s2_def set_sclient_def s1 p_def praise_def)
  moreover have "schedule s3 = schedule (s\<lparr>sclients := sclients s3\<rparr>)"
    by (simp add: schedule_def s3_def s2_def s1_def praised_def set_sclient_def)
  ultimately have "sched_ok_but U s3" using schedule_ok by blast
  then have "sched_ok_but U s4" using schedule_ok [OF f4(1)] by simp
  moreover have "prios_ok s4"
    unfolding prios_ok_def f4 f3 using range assms(2) c3 by (simp add: prios_ok_def)
  moreover have "ready_clients s4 = ready_clients s" "grabClient s4 = grabClient s"
    using f4(1) f3 by (simp_all add: schedule_def)
  moreover have "\<forall>c \<in> ?C. \<not> beats (p c) (robin s (p c) c) (p b) (robin s (p b) b)"
    using B(4) [OF b] bC s1 by simp
  ultimately show ?thesis using that [OF run bC(1)] c3 f4(2,3) f3(1) by (simp add: i_def)
qed

lemma schedule_client_ok:
  assumes "sched_ok_but U s" "prios_ok s" "SmartScheduleClient s = Some (c, t)"
  shows "sched_ok_but U t \<and> prios_ok t \<and> c \<in> set (ready_clients s)"
proof -
  have "ready_clients s \<noteq> []" using assms(3) by (auto simp: SmartScheduleClient_def)
  from schedule_client [OF assms(1,2) this] show ?thesis using assms(3) by auto
qed

section \<open>Round robin\<close>

text \<open>The clients that are chosen one after the other while the list of ready clients stays the same.\<close>

fun turns :: "nat \<Rightarrow> 'z sched_scheme \<Rightarrow> nat list option" where
  "turns 0 s = Some []"
| "turns (Suc n) s = do { (b, s1) \<leftarrow> SmartScheduleClient s; bs \<leftarrow> turns n s1; Some (b # bs) }"

definition even_handed :: "nat set \<Rightarrow> int \<Rightarrow> int \<Rightarrow> 'z sched_scheme \<Rightarrow> bool" where
  "even_handed C p q s \<longleftrightarrow> sched_ok s \<and> prios_ok s \<and> set (ready_clients s) = C
     \<and> (\<forall>c \<in> C. c < 256 \<and> priority (sclients s c) = p \<and> smart_priority (sclients s c) = q) \<and> 0 \<le> q"

definition turn_of :: "'z sched_scheme \<Rightarrow> int \<Rightarrow> nat \<Rightarrow> int" where
  "turn_of s q c = (int c - SmartLastIndex s ! nat (q - SMART_MIN_PRIORITY)) mod 256"

lemma turn:
  assumes e: "even_handed C p q s" "C \<noteq> {}"
  obtains b s' where "SmartScheduleClient s = Some (b, s')" "b \<in> C" "\<forall>c \<in> C. turn_of s q c \<le> turn_of s q b" "even_handed C p q s'"
    "SmartLastIndex s' ! nat (q - SMART_MIN_PRIORITY) = int b"
proof -
  have s: "sched_ok s" "prios_ok s" "ready_clients s \<noteq> []" "set (ready_clients s) = C"
    using e by (auto simp: even_handed_def)
  let ?p = "\<lambda>c. praise (SmartScheduleTime s) (2 * SmartScheduleSlice s) (sclients s c)"
  have pr: "?p c = sclients s c" "smart_priority (sclients s c) = q" "priority (sclients s c) = p" if "c \<in> C" for c
    using e that by (auto simp: even_handed_def praise_def)
  obtain b s' where b: "SmartScheduleClient s = Some (b, s')" "b \<in> C"
    "\<forall>c \<in> C. \<not> beats (?p c) (robin s (?p c) c) (?p b) (robin s (?p b) b)"
    "SmartLastIndex s' = (SmartLastIndex s)[nat (smart_priority (?p b) - SMART_MIN_PRIORITY) := int b]"
    "prios_ok s'" "sched_ok s'" "ready_clients s' = ready_clients s"
    "\<forall>c. priority (sclients s' c) = priority (sclients s c)
       \<and> smart_priority (sclients s' c) = smart_priority (if c \<in> C then ?p c else sclients s c)"
    using schedule_client [OF s(1) [unfolded sched_ok_but] s(2,3), folded sched_ok_but] s(4) by metis
  have "\<forall>c \<in> C. turn_of s q c \<le> turn_of s q b"
  proof
    fix c assume c: "c \<in> C"
    then have "\<not> beats (sclients s c) (robin s (sclients s c) c) (sclients s b) (robin s (sclients s b) b)"
      using b(2,3) pr(1) by metis
    then show "turn_of s q c \<le> turn_of s q b"
      using pr(2,3) [OF c] pr(2,3) [OF b(2)] by (simp add: beats_def robin_def turn_of_def)
  qed
  moreover have q: "SMART_MIN_PRIORITY \<le> q" "q \<le> SMART_MAX_PRIORITY"
    using s(2) pr(2) [OF b(2)] unfolding prios_ok_def by auto
  moreover have "even_handed C p q s'"
    using e b pr s(4) by (simp add: even_handed_def)
  moreover have "SmartLastIndex s' ! nat (q - SMART_MIN_PRIORITY) = int b"
    using b(4) pr [OF b(2)] q s(2) by (simp add: prios_ok_def SMART_MIN_PRIORITY_def SMART_MAX_PRIORITY_def)
  ultimately show ?thesis using that b(1,2) by blast
qed

lemma neg_mod: "- 256 \<le> d \<Longrightarrow> d < 0 \<Longrightarrow> d mod 256 = 256 + (d :: int)"
  using mod_add_self1 [of 256 d] mod_pos_pos_trivial [of "256 + d" 256] by simp

lemma small_mod:
  fixes a b :: int
  assumes "256 dvd a - b" "0 \<le> a" "a < 256" "0 \<le> b" "b < 256"
  shows "a = b"
proof -
  have "a mod 256 = b mod 256" using assms(1) by (simp add: mod_eq_dvd_iff)
  then show ?thesis using assms(2-) by (simp add: mod_pos_pos_trivial)
qed

lemma turn_shift:
  fixes b c j l :: int
  assumes "(c - l) mod 256 \<le> (b - l) mod 256" "(j - l) mod 256 \<le> (b - l) mod 256"
    "0 \<le> c" "c < 256" "0 \<le> b" "b < 256" "0 \<le> j" "j < 256" "j \<noteq> b"
  shows "(j - b) mod 256 < (c - b) mod 256 \<longleftrightarrow> c \<noteq> b \<and> (j - l) mod 256 < (c - l) mod 256"
proof -
  define x y z where "x = (c - l) mod 256" and "y = (b - l) mod 256" and "z = (j - l) mod 256"
  have c: "(c - b) mod 256 = (x - y) mod 256" unfolding x_def y_def by (simp add: mod_diff_eq)
  have j: "(j - b) mod 256 = (z - y) mod 256" unfolding z_def y_def by (simp add: mod_diff_eq)
  have r: "0 \<le> x" "x \<le> y" "y < 256" "0 \<le> z" "z \<le> y" using assms by (simp_all add: x_def y_def z_def)
  have "c = b" if "x = y"
  proof -
    have "256 dvd c - b" using c that by (simp add: dvd_eq_mod_eq_0)
    then show ?thesis using assms(3-6) by (rule small_mod)
  qed
  moreover have "z \<noteq> y"
  proof
    assume "z = y"
    then have "256 dvd j - b" using j by (simp add: dvd_eq_mod_eq_0)
    then show False using small_mod [of j b] assms(5-9) by simp
  qed
  moreover have "(z - y) mod 256 = 256 + (z - y)" if "z \<noteq> y"
    using r that by (intro neg_mod) simp_all
  moreover have "(x - y) mod 256 = (if x = y then 0 else 256 + (x - y))"
  proof (cases "x = y")
    case False
    then have "(x - y) mod 256 = 256 + (x - y)" using r by (intro neg_mod) simp_all
    then show ?thesis using False by simp
  qed simp
  moreover have "x = y" if "c = b" using that by (simp add: x_def y_def)
  ultimately show ?thesis unfolding c j x_def [symmetric] z_def [symmetric] using r by auto
qed

lemma turns_reach:
  assumes "even_handed C p q s" "j \<in> C" "finite C" "card {c \<in> C. turn_of s q j < turn_of s q c} < n"
  shows "\<exists>bs. turns n s = Some bs \<and> j \<in> set bs"
  using assms
proof (induction n arbitrary: s)
  case (Suc n)
  have ne: "C \<noteq> {}" using Suc.prems(2) by auto
  obtain b s' where b: "SmartScheduleClient s = Some (b, s')" "b \<in> C" "\<forall>c \<in> C. turn_of s q c \<le> turn_of s q b" "even_handed C p q s'"
    "SmartLastIndex s' ! nat (q - SMART_MIN_PRIORITY) = int b"
    by (rule turn [OF Suc.prems(1) ne])
  have total: "\<exists>bs. turns n t = Some bs" if "even_handed C p q t" for t n
    using that
  proof (induction n arbitrary: t)
    case (Suc n)
    obtain c u where "SmartScheduleClient t = Some (c, u)" "even_handed C p q u"
      using turn [OF Suc.prems ne] by metis
    then show ?case using Suc.IH by fastforce
  qed simp
  show ?case
  proof (cases "j = b")
    case True
    obtain bs where "turns n s' = Some bs" using total [OF b(4), of n] by blast
    then show ?thesis using b(1) True by simp
  next
    case False
    have lt: "c < 256" if "c \<in> C" for c using Suc.prems(1) that by (auto simp: even_handed_def)
    have sh: "turn_of s' q j < turn_of s' q c \<longleftrightarrow> c \<noteq> b \<and> turn_of s q j < turn_of s q c" if c: "c \<in> C" for c
    proof -
      let ?l = "SmartLastIndex s ! nat (q - SMART_MIN_PRIORITY)"
      have "(int j - int b) mod 256 < (int c - int b) mod 256
          \<longleftrightarrow> int c \<noteq> int b \<and> (int j - ?l) mod 256 < (int c - ?l) mod 256"
        using b(3) c Suc.prems(2) lt [OF c] lt [OF b(2)] lt [OF Suc.prems(2)] False
        by (intro turn_shift) (simp_all add: turn_of_def)
      then show ?thesis by (simp add: turn_of_def b(5))
    qed
    have "{c \<in> C. turn_of s' q j < turn_of s' q c} = {c \<in> C. turn_of s q j < turn_of s q c} - {b}"
      using sh by auto
    moreover have "b \<in> {c \<in> C. turn_of s q j < turn_of s q c}"
    proof -
      have "turn_of s q j \<noteq> turn_of s q b"
      proof
        assume "turn_of s q j = turn_of s q b"
        then have "256 dvd int j - int b" by (simp add: turn_of_def mod_eq_dvd_iff)
        then show False using small_mod [of "int j" "int b"] lt [OF Suc.prems(2)] lt [OF b(2)] False by simp
      qed
      then show ?thesis using b(2,3) Suc.prems(2) by force
    qed
    ultimately have "card {c \<in> C. turn_of s' q j < turn_of s' q c} < card {c \<in> C. turn_of s q j < turn_of s q c}"
      using Suc.prems(3) card_Diff1_less [of "{c \<in> C. turn_of s q j < turn_of s q c}" b] by simp
    then have "card {c \<in> C. turn_of s' q j < turn_of s' q c} < n" using Suc.prems(4) by simp
    then obtain bs where "turns n s' = Some bs" "j \<in> set bs"
      using Suc.IH [OF b(4) Suc.prems(2,3)] by blast
    then show ?thesis using b(1) by simp
  qed
qed simp


section \<open>All steps of the schedule\<close>

text \<open>
  What happens to the schedule: connections that arrive, input on a connection that is listened to,
  a connection found empty, clients that are ignored or attended again, requests of ready clients
  about the server grab, clients that go, and turns of the scheduler. \<open>reset\<close> is the function that
  puts back a request; \<open>pushes c s s'\<close> are the operations that make a client ready without
  asking whether the server listens to it. The set that goes with the state is the clients such
  operations have put on the list of ready clients during the present grab, or that stopped being
  impervious during it, and that are still on the list.
\<close>

definition let_in :: "nat set \<Rightarrow> 'z sched_scheme \<Rightarrow> nat set" where
  "let_in U s = (if grabState s then {c \<in> U. c \<in> set (ready_clients s)} else {})"

definition arrives :: "nat \<Rightarrow> sclient \<Rightarrow> 'z sched_scheme \<Rightarrow> 'z sched_scheme" where
  "arrives c r s = set_poll_client c (set_sclient c (\<lambda>_. r)
     (s\<lparr>in_use := (in_use s)(c := True), currentMaxClients := max (Suc c) (currentMaxClients s)\<rparr>))"

definition disconnect :: "nat \<Rightarrow> 'z sched_scheme \<Rightarrow> 'z sched_scheme" where
  "disconnect c s = (set_sclient c (\<lambda>r. r\<lparr>connected := False\<rparr>) s)\<lparr>listening := (listening s)(c := False)\<rparr>"

inductive sched_change ::
  "(nat \<Rightarrow> 'z sched_scheme \<Rightarrow> 'z sched_scheme option) \<Rightarrow> (nat \<Rightarrow> 'z sched_scheme \<Rightarrow> 'z sched_scheme \<Rightarrow> bool)
   \<Rightarrow> nat set \<Rightarrow> 'z sched_scheme \<Rightarrow> 'z sched_scheme \<Rightarrow> bool"
  for reset pushes where
  arrive: "\<not> in_use s c \<Longrightarrow> 1 \<le> c \<Longrightarrow> c \<le> currentMaxClients s \<Longrightarrow> c \<notin> set (ready_clients s) \<Longrightarrow>
     sched_change reset pushes {} s (arrives c r s)"
| vacate: "clientGone (sclients s c) \<Longrightarrow> sched_change reset pushes {} s (s\<lparr>in_use := (in_use s)(c := False)\<rparr>)"
| input: "pollable s c \<Longrightarrow> listening s c \<Longrightarrow> sched_change reset pushes {} s (ClientReady True c s)"
| drained: "sched_change reset pushes {} s (mark_client_not_ready c s)"
| ignore: "sched_change reset pushes {} s (IgnoreClient c s)"
| attend: "sched_change reset pushes {} s (AttendClient c s)"
| grab: "c \<in> set (ready_clients s) \<Longrightarrow> 1 \<le> c \<Longrightarrow> ProcGrabServer reset xace size_ok c s = Some (r, s') \<Longrightarrow>
     sched_change reset pushes {} s s'"
| ungrab: "sched_change reset pushes {} s (snd (ProcUngrabServer size_ok s))"
| impervious: "sched_change reset pushes {} s (MakeClientGrabImpervious c s)"
| pervious: "sched_change reset pushes (if c = grabClient s then {} else {c}) s (MakeClientGrabPervious c s)"
| gone: "sched_change reset pushes {} s (leave_schedule c s)"
| turn: "prios_ok s \<Longrightarrow> SmartScheduleClient s = Some (c, s') \<Longrightarrow> sched_change reset pushes {} s s'"
| used_up: "sched_change reset pushes {} s (penalize c s)"
| pushes: "pushes c s s' \<Longrightarrow> sched_change reset pushes {c} s s'"

inductive sched_step ::
  "(nat \<Rightarrow> 'z sched_scheme \<Rightarrow> 'z sched_scheme option) \<Rightarrow> (nat \<Rightarrow> 'z sched_scheme \<Rightarrow> 'z sched_scheme \<Rightarrow> bool)
   \<Rightarrow> nat set \<times> 'z sched_scheme \<Rightarrow> nat set \<times> 'z sched_scheme \<Rightarrow> bool"
  for reset pushes where
  step: "sched_change reset pushes N s s' \<Longrightarrow> sched_step reset pushes (U, s) (let_in (U \<union> N) s', s')"

lemma let_in_ok: "sched_ok_but U s \<Longrightarrow> sched_ok_but (let_in U s) s"
  by (erule sched_ok_but_trim) (simp add: let_in_def)

lemma disconnect_ok: "sched_ok_but U s \<Longrightarrow> sched_ok_but U (disconnect c s)"
  by (auto simp: disconnect_def sched_ok_but_def set_sclient_def pollable_def listen_to_client_def)

lemma arrives_ok:
  assumes "sched_ok_but U s" "\<not> in_use s c" "1 \<le> c" "c \<le> currentMaxClients s" "c \<notin> set (ready_clients s)"
  shows "sched_ok_but U (arrives c r s)"
  unfolding arrives_def
  by (rule set_poll_ok) (use assms in \<open>auto simp: sched_ok_but_def set_sclient_def pollable_def listen_to_client_def\<close>)

text \<open>The contract of the two functions: putting back a request changes of the schedule at most that the client
  becomes ready, and only when the client is listened to; an operation of this kind at most makes the
  client ready, after its connection may have been closed.\<close>

locale request_reset =
  fixes reset :: "nat \<Rightarrow> 'z sched_scheme \<Rightarrow> 'z sched_scheme option"
    and pushes :: "nat \<Rightarrow> 'z sched_scheme \<Rightarrow> 'z sched_scheme \<Rightarrow> bool"
  assumes reset_schedule: "reset c s = Some s' \<Longrightarrow>
    schedule s' = schedule s \<or> listen_to_client c s \<and> schedule s' = schedule (mark_client_ready c s)"
    and pushes_schedule: "pushes c s s' \<Longrightarrow>
    schedule s' \<in> {schedule s, schedule (mark_client_ready c s), schedule (mark_client_ready c (disconnect c s))}"
begin

lemma reset_ok: "sched_ok_but U s \<Longrightarrow> reset c s = Some s' \<Longrightarrow> sched_ok_but U s'"
  using reset_schedule [of c s s'] sched_ok_view [of s' s U] sched_ok_view [of s' "mark_client_ready c s" U]
    ready_ok [of U s c] listened [of U s c] by blast

lemma pushes_ok: "sched_ok_but U s \<Longrightarrow> pushes c s s' \<Longrightarrow> sched_ok_but (insert c U) s'"
proof -
  assume "sched_ok_but U s" "pushes c s s'"
  then have ok: "sched_ok_but (insert c U) s" "sched_ok_but (insert c U) (disconnect c s)"
    using sched_ok_but_mono [of U s "insert c U"] disconnect_ok by auto
  then have "sched_ok_but (insert c U) (mark_client_ready c s)" "sched_ok_but (insert c U) (mark_client_ready c (disconnect c s))"
    by (auto intro: ready_ok)
  then show ?thesis using pushes_schedule [OF \<open>pushes c s s'\<close>] ok(1) sched_ok_view by blast
qed

lemma grab_request_ok:
  assumes ok: "sched_ok_but U s" and c: "1 \<le> c" and r: "ProcGrabServer reset xace size_ok c s = Some (rc, s')"
  shows "sched_ok_but U s'"
proof (cases "size_ok \<and> grabState s \<and> c \<noteq> grabClient s")
  case True
  obtain s1 where s1: "reset c s = Some s1" "s' = IgnoreClient c ((set_sclient c (\<lambda>r. r\<lparr>req_sequence := req_sequence r - 1\<rparr>) s1)
      \<lparr>grabWaiters := (grabWaiters s1)(c := True)\<rparr>)"
    using True r by (auto simp: ProcGrabServer_def Let_def set_sclient_def split: Option.bind_splits)
  have "sched_ok_but U (s1\<lparr>sclients := (sclients s1)(c := (sclients s1 c)\<lparr>req_sequence := req_sequence (sclients s1 c) - 1\<rparr>)\<rparr>)"
    by (rule sched_ok_clients [OF reset_ok [OF ok s1(1)]]) simp
  then have "sched_ok_but U ((set_sclient c (\<lambda>r. r\<lparr>req_sequence := req_sequence r - 1\<rparr>) s1)\<lparr>grabWaiters := (grabWaiters s1)(c := True)\<rparr>)"
    by (rule sched_ok_view [rotated]) (simp add: schedule_def set_sclient_def)
  then show ?thesis unfolding s1(2) by (rule ignore_ok)
next
  case False
  show ?thesis
  proof (cases "size_ok \<and> xace = 0")
    case True
    then have "s' = mark_client_grab c ((snd (OnlyListenToOneClient 0 c s))\<lparr>grabState := True, grabClient := c\<rparr>)"
      using r False by (auto simp: ProcGrabServer_def OnlyListenToOneClient_def Let_def)
    then show ?thesis using grab_ok [OF ok c] True False by auto
  next
    case False
    then have "s' = s"
      using r \<open>\<not> (size_ok \<and> grabState s \<and> c \<noteq> grabClient s)\<close>
      by (auto simp: ProcGrabServer_def OnlyListenToOneClient_def Let_def split: if_splits)
    then show ?thesis using ok by simp
  qed
qed

lemma change_ok:
  assumes "sched_change reset pushes N s s'" "sched_ok_but U s"
  shows "sched_ok_but (U \<union> N) s'"
  using assms
proof (induction rule: sched_change.cases)
  case (arrive s c r)
  then show ?case using arrives_ok by simp
next
  case (vacate s c)
  then show ?case by (auto simp: sched_ok_but_def pollable_def listen_to_client_def)
next
  case (input s c)
  then have "listen_to_client c s" by (simp add: sched_ok_but_def)
  then show ?case using input ready_ok [OF _ listened] by (simp add: ClientReady_def)
next
  case (grab c s xace size_ok r s')
  then show ?case using grab_request_ok by simp
next
  case (ungrab s size_ok)
  then show ?case by (auto simp: ProcUngrabServer_def intro: ungrab_ok)
next
  case (pervious c s1)
  have "sched_ok_but (U \<union> N) s1" using sched_ok_but_mono [of U s1 "U \<union> N"] pervious by simp
  then show ?case unfolding \<open>s' = MakeClientGrabPervious c s1\<close> by (rule pervious_ok) (use pervious(1) in \<open>auto split: if_splits\<close>)
next
  case (turn s c s')
  then show ?case using schedule_client_ok [of U s c s'] by simp
next
  case (used_up s c)
  have "sched_ok_but U (s\<lparr>sclients := (sclients s)(c := (sclients s c)\<lparr>smart_priority := smart_priority (sclients s c) - 1\<rparr>)\<rparr>)"
    by (rule sched_ok_clients) (use used_up in simp_all)
  then show ?case using used_up by (simp add: penalize_def set_sclient_def)
next
  case (pushes c s s')
  then show ?case using pushes_ok by simp
qed (simp_all add: not_ready_ok ignore_ok attend_ok impervious_ok close_ok)

lemma steps_ok:
  assumes "(sched_step reset pushes)\<^sup>*\<^sup>* (U, s) (U', s')" "sched_ok_but U s"
  shows "sched_ok_but U' s'"
proof -
  have "sched_ok_but (fst p) (snd p) \<Longrightarrow> sched_ok_but (fst q) (snd q)" if "(sched_step reset pushes)\<^sup>*\<^sup>* p q" for p q
    using that
  proof (induction rule: rtranclp_induct)
    case (step q q')
    from step.hyps(2) step.IH [OF step.prems] show ?case
      by (cases rule: sched_step.cases) (auto intro: let_in_ok change_ok)
  qed
  from this [OF assms(1)] assms(2) show ?thesis by simp
qed

lemma grab_holds:
  assumes "(sched_step reset pushes)\<^sup>*\<^sup>* ({}, s) (U, s')" "sched_ok s" "prios_ok s'" "grabState s'"
    "SmartScheduleClient s' = Some (c, t)"
  shows "c = grabClient s' \<or> impervious (sclients s' c) \<or> c \<in> U"
proof -
  have ok: "sched_ok_but U s'" using steps_ok [OF assms(1)] assms(2) by (simp add: sched_ok_but)
  then have "c \<in> set (ready_clients s')" using schedule_client_ok assms(3,5) by blast
  then show ?thesis using ok assms(4) by (auto simp: sched_ok_but_def)
qed

end

text \<open>Two situations in which a client is forgotten: an impervious client with requests when another client grabs the server,
  and a client that waits for the grab when the waiting client that was woken before it goes.\<close>

lemma impervious_client_stuck:
  assumes "sched_ok s" "c \<in> set (ready_clients s)" "impervious (sclients s c)" "g \<noteq> c" "\<not> grabState s"
  shows "\<exists>s'. ProcGrabServer reset 0 True g s = Some (0, s') \<and> c \<notin> set (ready_clients s') \<and> ClientReady True c s' = s'"
  using assms
  by (auto simp: ProcGrabServer_def OnlyListenToOneClient_def mark_client_grab_eq ClientReady_def mark_client_ready_def
      client_is_ready_def sched_ok_def set_poll_clients_eq)

lemma attend_other: "grabState (AttendClient a s) = grabState s" "grabWaiters (AttendClient a s) = grabWaiters s"
    "d \<noteq> a \<Longrightarrow> sclients (AttendClient a s) d = sclients s d"
  by (simp_all add: AttendClient_def sched_defs Let_def)

lemma woken_waiter_gone:
  assumes "next_waiter (grabWaiters s) = Some a" "b \<noteq> a" "grabWaiters s b" "ignored (sclients s b)"
  shows "\<exists>t. leave_schedule a (UngrabServer s) = t \<and> \<not> grabState t \<and> grabWaiters t b \<and> \<not> listen_to_client b t"
proof -
  define s1 where "s1 = mark_client_ungrab (ListenToAllClients (s\<lparr>grabState := False\<rparr>))"
  have s1: "grabWaiters s1 = grabWaiters s" "\<not> grabState s1" "sclients s1 = sclients s"
    by (simp_all add: s1_def mark_client_ungrab_eq ListenToAllClients_def set_poll_clients_eq)
  define s2 where "s2 = AttendClient a (s1\<lparr>grabWaiters := (grabWaiters s1)(a := False)\<rparr>)"
  have u: "UngrabServer s = s2"
    using assms(1) by (simp add: UngrabServer_def s1_def [symmetric] s1(1) s2_def Let_def)
  have s2: "\<not> grabState s2" "grabWaiters s2 b" "ignored (sclients s2 b)"
    unfolding s2_def attend_other(1,2) attend_other(3) [OF assms(2)] using s1 assms(2-4) by simp_all
  show ?thesis
    unfolding u using s2 assms(2) by (simp add: leave_schedule_def Let_def sched_defs listen_to_client_def)
qed

lemma turns_length: "turns n s = Some bs \<Longrightarrow> length bs = n"
  by (induction n arbitrary: s bs) (auto split: Option.bind_splits)

section \<open>Properties\<close>

text \<open>Four clients; the first is the server itself.\<close>

definition demo_sched :: sched where
  "demo_sched = \<lparr>sclients = \<lambda>_. \<lparr>priority = 0, smart_priority = 0, smart_start_tick = 0, smart_stop_tick = 0, ignoreCount = 0,
      clientGone = False, ignored = False, impervious = False, connected = True, req_sequence = 0\<rparr>,
    currentMaxClients = 4, in_use = \<lambda>c. c < 4, ready_clients = [1, 2, 3], saved_ready_clients = [],
    SmartLastClient = None, SmartLastIndex = replicate 41 0, SmartScheduleTime = 0, SmartScheduleSlice = 5,
    SmartScheduleInterval = 5, SmartScheduleMaxSlice = 15, SmartScheduleLatencyLimited = 0, GrabInProgress = 0,
    isItTimeToYield = False, grabState = False, grabClient = 0, grabWaiters = \<lambda>_. False, listening = \<lambda>c. c < 4\<rparr>"

lemma demo_sched: "sched_ok demo_sched" "prios_ok demo_sched" "ready_clients demo_sched = [1, 2, 3]"
  by (simp_all add: demo_sched_def sched_ok_def prios_ok_def pollable_def listen_to_client_def SMART_MIN_PRIORITY_def
      SMART_MAX_PRIORITY_def)

text \<open>C30: The scheduler chooses a ready client that no other ready client beats: priority first, then the priority earned by
  behaviour (after clients that have not run in a while were praised), then the place in the
  round. It remembers the choice and leaves the lists of clients alone.\<close>

theorem scheduled_client_best:
  assumes "sched_ok s" "prios_ok s" "ready_clients s \<noteq> []"
  shows "let p = (\<lambda>c. praise (SmartScheduleTime s) (2 * SmartScheduleSlice s) (sclients s c))
    in \<exists>b s'. SmartScheduleClient s = Some (b, s') \<and> b \<in> set (ready_clients s)
      \<and> (\<forall>c \<in> set (ready_clients s). \<not> beats (p c) (robin s (p c) c) (p b) (robin s (p b) b))
      \<and> SmartLastIndex s' = (SmartLastIndex s)[nat (smart_priority (p b) - SMART_MIN_PRIORITY) := int b]
      \<and> ready_clients s' = ready_clients s \<and> sched_ok s' \<and> prios_ok s'"
  unfolding Let_def by (rule schedule_client [OF assms(1) [unfolded sched_ok_but] assms(2,3), folded sched_ok_but]) blast

theorem scheduled_client_best_witness:
  "\<exists>b s'. SmartScheduleClient demo_sched = Some (b, s') \<and> b \<in> {1, 2, 3} \<and> ready_clients s' = [1, 2, 3]"
  using scheduled_client_best [OF demo_sched(1,2)] unfolding Let_def demo_sched(3) by auto

text \<open>C31: With equal priorities and indices below 256 no client starves: in as many turns as clients are ready each of them is
  chosen exactly once.\<close>

theorem ready_clients_take_turns:
  assumes "even_handed (set (ready_clients s)) p q s"
  shows "\<exists>bs. turns (length (ready_clients s)) s = Some bs \<and> distinct bs \<and> set bs = set (ready_clients s)"
proof (cases "ready_clients s = []")
  case False
  define C n where "C = set (ready_clients s)" and "n = length (ready_clients s)"
  have "distinct (ready_clients s)" using assms by (simp add: even_handed_def sched_ok_def)
  then have card: "card C = n" by (simp add: C_def n_def distinct_card)
  have reach: "\<exists>bs. turns n s = Some bs \<and> j \<in> set bs" if j: "j \<in> C" for j
  proof -
    have "{c \<in> C. turn_of s q j < turn_of s q c} \<subset> C" using j by auto
    then have "card {c \<in> C. turn_of s q j < turn_of s q c} < n"
      using psubset_card_mono [of C] by (simp add: C_def card [symmetric])
    then show ?thesis using turns_reach [OF assms] j by (simp add: C_def)
  qed
  obtain bs where bs: "turns n s = Some bs" using reach False C_def by (metis last_in_set)
  have "C \<subseteq> set bs" using reach bs by auto
  moreover have "card (set bs) \<le> card C" using card_length [of bs] turns_length [OF bs] card by simp
  ultimately have "set bs = C" using card_seteq [of "set bs" C] by simp
  moreover have "distinct bs" using card_distinct [of bs] calculation turns_length [OF bs] card by simp
  ultimately show ?thesis using bs by (auto simp: C_def n_def)
qed simp

theorem ready_clients_take_turns_witness: "\<exists>bs. turns 3 demo_sched = Some bs \<and> distinct bs \<and> set bs = {1, 2, 3}"
proof -
  have "even_handed (set (ready_clients demo_sched)) 0 0 demo_sched"
    unfolding even_handed_def using demo_sched by (simp add: demo_sched_def)
  from ready_clients_take_turns [OF this] show ?thesis unfolding demo_sched(3) by (simp add: eval_nat_numeral)
qed


end
