(* ===== verification/Client_IO.thy ===== *)
theory Client_IO
  imports Scheduler
begin

text \<open>
  Reading requests from clients and writing to them, \<open>xserver/os/io.c\<close>, on top of the schedule.

  A client is its index. Its socket is the list \<open>wire\<close> of the bytes that have arrived and the list \<open>sent\<close>
  of the bytes the kernel has accepted. Input and output buffers are byte lists; reading or
  writing outside a buffer is \<open>None\<close>, and so is a failed assertion. Offsets into a buffer replace
  pointers; the number of bytes in front of the reading position is computed in 32 bits as in the code. The answers of
  the kernel and of the allocator are the record \<open>iokernel\<close>; fresh memory contains arbitrary bytes (\<open>junk\<close>).
  The server runs on a little-endian machine. Callbacks for replies are kept as events, and the
  check that the caller is not the input thread is left out.
\<close>

section \<open>State\<close>

record ConnectionInput =
  buffer :: bytes
  bufptr :: nat
  bufcnt :: nat
  lenLastReq :: nat
  inp_size :: nat
  ignoreBytes :: nat

record ConnectionOutput =
  obuf :: bytes
  out_size :: nat
  out_count :: nat

record OsComm =
  oc_input :: "ConnectionInput option"
  oc_output :: "ConnectionOutput option"
  wire :: bytes
  sent :: bytes
  recv_fds :: "int list"

record client_io =
  swapped :: bool
  big_requests :: bool
  req_len :: nat
  requestBuffer :: nat
  req_fds :: nat
  noClientException :: bool
  running :: bool
  replyBytesRemaining :: u32
  osPrivate :: bool

datatype io_event = ResetEvents nat | ListenWrite nat | ReplyInfo nat nat bool u32 | Flushing nat | ClosedFd int | Disconnected nat | SentFd nat int bool

record io = sched +
  os :: "nat \<Rightarrow> OsComm"
  cio :: "nat \<Rightarrow> client_io"
  FreeInputs :: "ConnectionInput list"
  FreeOutputs :: "ConnectionOutput list"
  AvailableInput :: "nat option"
  timesThisConnection :: nat
  NewOutputPending :: bool
  CriticalOutputPending :: bool
  output_pending_clients :: "nat list"
  ReplyCallback :: bool
  FlushCallback :: bool
  io_events :: "io_event list"

datatype read_answer = ReadUpTo nat | ReadWouldBlock | ReadError
datatype write_answer = WroteUpTo nat | WriteWouldBlock | MessageTooLong | WriteError

record iokernel =
  malloc_ok :: bool
  realloc_ok :: bool
  shrink_ok :: bool
  junk :: "nat \<Rightarrow> u8"
  read_ans :: read_answer
  write_ans :: "nat \<Rightarrow> write_answer"

definition BUFSIZE :: nat where "BUFSIZE = 16384"
definition BUFWATERMARK :: nat where "BUFWATERMARK = 32768"
definition MAXINT :: nat where "MAXINT = 2147483647"

definition set_os :: "nat \<Rightarrow> (OsComm \<Rightarrow> OsComm) \<Rightarrow> 'z io_scheme \<Rightarrow> 'z io_scheme" where
  "set_os c f s = s\<lparr>os := (os s)(c := f (os s c))\<rparr>"

definition set_cio :: "nat \<Rightarrow> (client_io \<Rightarrow> client_io) \<Rightarrow> 'z io_scheme \<Rightarrow> 'z io_scheme" where
  "set_cio c f s = s\<lparr>cio := (cio s)(c := f (cio s c))\<rparr>"

definition set_input :: "nat \<Rightarrow> ConnectionInput option \<Rightarrow> 'z io_scheme \<Rightarrow> 'z io_scheme" where
  "set_input c i s = set_os c (\<lambda>r. r\<lparr>oc_input := i\<rparr>) s"

definition set_output :: "nat \<Rightarrow> ConnectionOutput option \<Rightarrow> 'z io_scheme \<Rightarrow> 'z io_scheme" where
  "set_output c i s = set_os c (\<lambda>r. r\<lparr>oc_output := i\<rparr>) s"

definition io_log :: "io_event \<Rightarrow> 'z io_scheme \<Rightarrow> 'z io_scheme" where
  "io_log e s = s\<lparr>io_events := io_events s @ [e]\<rparr>"

section \<open>Bytes\<close>

definition junk_bytes :: "iokernel \<Rightarrow> nat \<Rightarrow> bytes" where
  "junk_bytes env n = map (junk env) [0..<n]"

definition rd_bytes :: "bytes \<Rightarrow> nat \<Rightarrow> nat \<Rightarrow> bytes option" where
  "rd_bytes m p n = (if p + n \<le> length m then Some (take n (drop p m)) else None)"

definition wr_bytes :: "bytes \<Rightarrow> nat \<Rightarrow> bytes \<Rightarrow> bytes option" where
  "wr_bytes m p xs = (if p + length xs \<le> length m then Some (take p m @ xs @ drop (p + length xs) m) else None)"

definition memmove :: "bytes \<Rightarrow> nat \<Rightarrow> nat \<Rightarrow> nat \<Rightarrow> bytes option" where
  "memmove m dst src n = do { xs \<leftarrow> rd_bytes m src n; wr_bytes m dst xs }"

definition num :: "bool \<Rightarrow> bytes \<Rightarrow> nat" where
  "num sw bs = foldr (\<lambda>b n. unat b + 256 * n) (if sw then rev bs else bs) 0"

definition get16 :: "bool \<Rightarrow> bytes \<Rightarrow> nat \<Rightarrow> nat option" where
  "get16 sw m p = map_option (num sw) (rd_bytes m p 2)"

definition get32 :: "bool \<Rightarrow> bytes \<Rightarrow> nat \<Rightarrow> nat option" where
  "get32 sw m p = map_option (num sw) (rd_bytes m p 4)"

definition card32 :: "bool \<Rightarrow> nat \<Rightarrow> bytes" where
  "card32 sw n = (let bs = map (\<lambda>i. word_of_nat (n div 256 ^ i)) [0..<4] in if sw then rev bs else bs)"

section \<open>Yielding\<close>

definition YieldControl :: "'z io_scheme \<Rightarrow> 'z io_scheme" where
  "YieldControl s = s\<lparr>isItTimeToYield := True, timesThisConnection := 0\<rparr>"

definition YieldControlNoInput :: "nat \<Rightarrow> 'z io_scheme \<Rightarrow> 'z io_scheme" where
  "YieldControlNoInput c s =
     (let s1 = YieldControl s in if connected (sclients s1 c) then io_log (ResetEvents c) s1 else s1)"

definition YieldControlDeath :: "'z io_scheme \<Rightarrow> 'z io_scheme" where
  "YieldControlDeath s = s\<lparr>timesThisConnection := 0\<rparr>"

section \<open>Input buffers\<close>

definition AllocateInputBuffer :: "iokernel \<Rightarrow> ConnectionInput option" where
  "AllocateInputBuffer env =
     (if malloc_ok env
      then Some \<lparr>buffer = junk_bytes env BUFSIZE, bufptr = 0, bufcnt = 0, lenLastReq = 0, inp_size = BUFSIZE, ignoreBytes = 0\<rparr>
      else None)"

text \<open>An empty input buffer goes back when another client wants to read.\<close>

definition NextAvailableInput :: "nat \<Rightarrow> 'z io_scheme \<Rightarrow> 'z io_scheme option" where
  "NextAvailableInput c s =
     (case AvailableInput s of
        None \<Rightarrow> Some s
      | Some d \<Rightarrow>
          if d = c then Some (s\<lparr>AvailableInput := None\<rparr>)
          else do {
            aci \<leftarrow> oc_input (os s d);
            let s1 = (if inp_size aci > BUFWATERMARK then s else s\<lparr>FreeInputs := aci # FreeInputs s\<rparr>);
            Some ((set_input d None s1)\<lparr>AvailableInput := None\<rparr>) })"

text \<open>The buffer of the client, a free one or a new one; \<open>None\<close> inside is a failed allocation.\<close>

definition get_input :: "iokernel \<Rightarrow> nat \<Rightarrow> ConnectionInput option \<Rightarrow> 'z io_scheme \<Rightarrow> 'z io_scheme option" where
  "get_input env c oci s =
     (case oci of
        Some _ \<Rightarrow> Some s
      | None \<Rightarrow>
          (case FreeInputs s of
             i # is \<Rightarrow> Some (set_input c (Some i) (s\<lparr>FreeInputs := is\<rparr>))
           | [] \<Rightarrow> map_option (\<lambda>i. set_input c (Some i) s) (AllocateInputBuffer env)))"

section \<open>File descriptors that come with requests\<close>

definition ReadFdFromClient :: "nat \<Rightarrow> 'z io_scheme \<Rightarrow> int \<times> 'z io_scheme" where
  "ReadFdFromClient c s =
     (if req_fds (cio s c) > 0
      then
        let s1 = set_cio c (\<lambda>r. r\<lparr>req_fds := req_fds r - 1\<rparr>) s
        in case recv_fds (os s1 c) of
             [] \<Rightarrow> (-1, s1)
           | f # fs \<Rightarrow> (f, set_os c (\<lambda>r. r\<lparr>recv_fds := fs\<rparr>) s1)
      else (-1, s))"

fun discard_fds :: "nat \<Rightarrow> nat \<Rightarrow> 'z io_scheme \<Rightarrow> 'z io_scheme" where
  "discard_fds 0 c s = s"
| "discard_fds (Suc n) c s =
     (let (fd, s1) = ReadFdFromClient c s
      in discard_fds n c (if fd \<ge> 0 then io_log (ClosedFd fd) s1 else s1))"

section \<open>Reading a request\<close>

definition gotnow :: "ConnectionInput \<Rightarrow> nat" where
  "gotnow i = unat (word_of_int (int (bufcnt i) - int (bufptr i)) :: u32)"

text \<open>The length in words that the header at \<open>bufptr\<close> announces, and whether it is the header of a big request.\<close>

definition announced :: "client_io \<Rightarrow> ConnectionInput \<Rightarrow> nat \<Rightarrow> (nat \<times> bool) option" where
  "announced cl i got = do {
     w \<leftarrow> get16 (swapped cl) (buffer i) (bufptr i + 2);
     if w = 0 \<and> big_requests cl
     then if got < 8 then Some (bytes_to_int32 8, True)
          else do { v \<leftarrow> get32 (swapped cl) (buffer i) (bufptr i + 4); Some (v, True) }
     else Some (w, False) }"

text \<open>Room for \<open>needed\<close> bytes from the reading position; \<open>Inl\<close> when the buffer cannot grow.\<close>

definition make_room :: "iokernel \<Rightarrow> nat \<Rightarrow> nat \<Rightarrow> ConnectionInput \<Rightarrow> (ConnectionInput + ConnectionInput) option" where
  "make_room env needed got i =
     (if got = 0 \<or> bufptr i + needed > inp_size i
      then do {
        b \<leftarrow> (if got > 0 \<and> bufptr i \<noteq> 0 then memmove (buffer i) 0 (bufptr i) got else Some (buffer i));
        let i1 = i\<lparr>buffer := b\<rparr>;
        if needed > inp_size i1
        then if realloc_ok env
             then Some (Inr (i1\<lparr>inp_size := needed, buffer := b @ junk_bytes env (needed - length b), bufptr := 0, bufcnt := got\<rparr>))
             else Some (Inl i1)
        else Some (Inr (i1\<lparr>bufptr := 0, bufcnt := got\<rparr>)) }
      else Some (Inr i))"

text \<open>The last part of \<open>ReadRequestFromClient\<close>, when at least \<open>needed\<close> bytes are there.\<close>

definition finish_request :: "nat \<Rightarrow> nat \<Rightarrow> bool \<Rightarrow> nat \<Rightarrow> ConnectionInput \<Rightarrow> 'z io_scheme \<Rightarrow> (int \<times> 'z io_scheme) option" where
  "finish_request c needed0 move_header got i s = do {
     let cl = cio s c;
     let n1 = (if needed0 = 0 then if big_requests cl then 8 else 4 else needed0);
     (needed, got1, i1) \<leftarrow>
       (if ignoreBytes i > 0
        then if n1 \<noteq> ignoreBytes i \<and> n1 \<noteq> inp_size i then None
             else if got < n1 then Some (0, 0, i\<lparr>ignoreBytes := ignoreBytes i - got, bufptr := bufptr i + got\<rparr>)
             else Some (0, got - n1, i\<lparr>ignoreBytes := ignoreBytes i - n1, bufptr := bufptr i + n1\<rparr>)
        else Some (n1, got, i));
     let i2 = i1\<lparr>lenLastReq := needed\<rparr>;
     let s1 = set_input c (Some i2) s;
     let s2 = (if got1 = needed \<and> ignoreBytes i2 = 0 then s1\<lparr>AvailableInput := Some c\<rparr> else s1);
     if move_header
     then if req_len cl < bytes_to_int32 4 then Some (-1, YieldControlDeath s2)
          else do {
            h \<leftarrow> rd_bytes (buffer i2) (bufptr i2) 4;
            b \<leftarrow> wr_bytes (buffer i2) (bufptr i2 + 4) h;
            let i3 = i2\<lparr>buffer := b, bufptr := bufptr i2 + 4, lenLastReq := lenLastReq i2 - 4\<rparr>;
            Some (int needed, set_cio c (\<lambda>r. r\<lparr>req_len := req_len r - bytes_to_int32 4, requestBuffer := bufptr i3\<rparr>)
                                (set_input c (Some i3) s2)) }
     else Some (int needed, set_cio c (\<lambda>r. r\<lparr>requestBuffer := bufptr i2\<rparr>) s2) }"

text \<open>Giving memory back after huge requests.\<close>

definition shrink :: "iokernel \<Rightarrow> nat \<Rightarrow> nat \<Rightarrow> ConnectionInput \<Rightarrow> ConnectionInput" where
  "shrink env needed got i =
     (if inp_size i > BUFWATERMARK \<and> bufcnt i < BUFSIZE \<and> needed < BUFSIZE \<and> shrink_ok env
      then i\<lparr>inp_size := BUFSIZE, buffer := take BUFSIZE (buffer i), bufptr := bufcnt i - got\<rparr> else i)"

text \<open>The part after the system call, with \<open>xs\<close> the bytes that were read.\<close>

definition after_read :: "iokernel \<Rightarrow> nat \<Rightarrow> nat \<Rightarrow> bool \<Rightarrow> bool \<Rightarrow> nat \<Rightarrow> bytes \<Rightarrow> ConnectionInput \<Rightarrow> 'z io_scheme
    \<Rightarrow> (int \<times> 'z io_scheme) option" where
  "after_read env c needed need_header move_header got0 xs i s = do {
     b \<leftarrow> wr_bytes (buffer i) (bufcnt i) xs;
     let got = got0 + length xs;
     let i1 = shrink env needed got (i\<lparr>buffer := b, bufcnt := bufcnt i + length xs\<rparr>);
     if need_header \<and> got \<ge> needed
     then do {
       (w, mv) \<leftarrow> announced (cio s c) i1 got;
       let s1 = set_cio c (\<lambda>r. r\<lparr>req_len := w\<rparr>) (set_input c (Some i1) s);
       if w > MAXINT div 4 then Some (-16, s1)
       else if got < 4 * w then Some (0, YieldControlNoInput c s1)
       else finish_request c (4 * w) (move_header \<or> mv) got i1 s1 }
     else
       let s1 = set_input c (Some i1) s
       in if got < needed then Some (0, YieldControlNoInput c s1)
          else finish_request c needed move_header got i1 s1 }"

text \<open>The system call, when the buffer has room.\<close>

definition receive :: "iokernel \<Rightarrow> nat \<Rightarrow> nat \<Rightarrow> bool \<Rightarrow> bool \<Rightarrow> nat \<Rightarrow> ConnectionInput \<Rightarrow> 'z io_scheme
    \<Rightarrow> (int \<times> 'z io_scheme) option" where
  "receive env c needed need_header move_header got i s =
     (if \<not> connected (sclients s c) then Some (-1, YieldControlDeath s)
      else
        case read_ans env of
          ReadWouldBlock \<Rightarrow> Some (0, YieldControlNoInput c (mark_client_not_ready c s))
        | ReadError \<Rightarrow> Some (-1, YieldControlDeath s)
        | ReadUpTo k \<Rightarrow>
            let xs = take (min k (inp_size i - bufcnt i)) (wire (os s c))
            in if xs = [] then Some (-1, YieldControlDeath s)
               else after_read env c needed need_header move_header got xs i
                      (set_os c (\<lambda>r. r\<lparr>wire := drop (length xs) (wire r)\<rparr>) s))"

text \<open>Reading when fewer than \<open>needed\<close> bytes are there; \<open>big\<close> is \<open>maxBigRequestSize\<close>.\<close>

definition read_more :: "iokernel \<Rightarrow> nat \<Rightarrow> nat \<Rightarrow> nat \<Rightarrow> bool \<Rightarrow> bool \<Rightarrow> nat \<Rightarrow> ConnectionInput \<Rightarrow> 'z io_scheme
    \<Rightarrow> (int \<times> 'z io_scheme) option" where
  "read_more env big c needed need_header move_header got i0 s =
     (let i = i0\<lparr>lenLastReq := 0\<rparr>
      in if needed > 4 * big
         then Some (int needed, set_input c (Some (i\<lparr>ignoreBytes := needed - got, lenLastReq := got\<rparr>)) s)
         else do {
           room \<leftarrow> make_room env needed got i;
           case room of
             Inl i1 \<Rightarrow> Some (-1, YieldControlDeath (set_input c (Some i1) s))
           | Inr i1 \<Rightarrow> receive env c needed need_header move_header got i1 (set_input c (Some i1) s) })"

text \<open>The whole function. The size of the request is checked before anything is read.\<close>

definition read_request :: "iokernel \<Rightarrow> nat \<Rightarrow> nat \<Rightarrow> ConnectionInput \<Rightarrow> 'z io_scheme \<Rightarrow> (int \<times> 'z io_scheme) option" where
  "read_request env big c i0 s =
     (let i = i0\<lparr>bufptr := bufptr i0 + lenLastReq i0\<rparr>;
          got = gotnow i;
          go = (\<lambda>needed need_header move_header s1.
                  if got < needed then read_more env big c needed need_header move_header got i s1
                  else finish_request c needed move_header got i s1)
      in if ignoreBytes i > 0 then go (min (ignoreBytes i) (inp_size i)) False False s
         else if got < 4 then go 4 True False s
         else do {
           (w, mv) \<leftarrow> announced (cio s c) i got;
           let s1 = set_cio c (\<lambda>r. r\<lparr>req_len := w\<rparr>) s;
           if w > MAXINT div 4 then Some (-16, set_input c (Some i) s1)
           else go (4 * w) (mv \<and> got < 8) mv s1 })"

definition ReadRequestFromClient :: "iokernel \<Rightarrow> nat \<Rightarrow> nat \<Rightarrow> 'z io_scheme \<Rightarrow> (int \<times> 'z io_scheme) option" where
  "ReadRequestFromClient env big c s = do {
     let oci = oc_input (os s c);
     s1 \<leftarrow> NextAvailableInput c s;
     case get_input env c oci s1 of
       None \<Rightarrow> Some (-1, YieldControlDeath s1)
     | Some s2 \<Rightarrow> do {
         let s3 = discard_fds (req_fds (cio s2 c)) c s2;
         i \<leftarrow> oc_input (os s3 c);
         read_request env big c i s3 } }"

section \<open>Input buffers that are in order\<close>

text \<open>\<open>front i\<close> are the bytes from the reading position on, \<open>unread i\<close> those behind the last request.\<close>

definition front :: "ConnectionInput \<Rightarrow> bytes" where
  "front i = take (bufcnt i - bufptr i) (drop (bufptr i) (buffer i))"

definition next_input :: "ConnectionInput \<Rightarrow> ConnectionInput" where
  "next_input i = i\<lparr>bufptr := bufptr i + lenLastReq i\<rparr>"

definition unread :: "ConnectionInput \<Rightarrow> bytes" where
  "unread i = front (next_input i)"

definition in_ok :: "nat \<Rightarrow> ConnectionInput \<Rightarrow> bool" where
  "in_ok big i \<longleftrightarrow> length (buffer i) = inp_size i \<and> bufptr i \<le> bufcnt i \<and> bufcnt i \<le> inp_size i
     \<and> BUFSIZE \<le> inp_size i \<and> inp_size i \<le> 4 * big \<and> 4 * big \<le> MAXINT"

definition input_ok :: "nat \<Rightarrow> ConnectionInput \<Rightarrow> bool" where
  "input_ok big i = in_ok big (next_input i)"

text \<open>The format: length in words and kind of the first header of a stream, when it is complete.\<close>

definition header :: "client_io \<Rightarrow> bytes \<Rightarrow> nat \<times> bool" where
  "header cl bs = (let w = num (swapped cl) (take 2 (drop 2 bs))
     in if w = 0 \<and> big_requests cl then (num (swapped cl) (take 4 (drop 4 bs)), True) else (w, False))"

definition header_complete :: "client_io \<Rightarrow> bytes \<Rightarrow> bool" where
  "header_complete cl bs \<longleftrightarrow> 4 \<le> length bs \<and> (snd (header cl bs) \<longrightarrow> 8 \<le> length bs)"

text \<open>A header is proper when its length fits into 31 bits and a big request counts its own header.\<close>

definition proper :: "client_io \<Rightarrow> bytes \<Rightarrow> bool" where
  "proper cl bs \<longleftrightarrow> (header_complete cl bs \<longrightarrow> fst (header cl bs) \<le> MAXINT div 4 \<and> (snd (header cl bs) \<longrightarrow> 2 \<le> fst (header cl bs)))"

definition request_bytes :: "client_io \<Rightarrow> bytes \<Rightarrow> nat" where
  "request_bytes cl bs = (if fst (header cl bs) = 0 then 4 else 4 * fst (header cl bs))"

text \<open>The request as the handlers see it: a big request without the second word of its header.\<close>

definition delivered :: "client_io \<Rightarrow> bytes \<Rightarrow> bytes" where
  "delivered cl bs = (let r = take (request_bytes cl bs) bs in if snd (header cl bs) then take 4 r @ drop 8 r else r)"

lemma in_okD:
  assumes "in_ok big i"
  shows "length (buffer i) = inp_size i" "bufptr i \<le> bufcnt i" "bufcnt i \<le> inp_size i" "BUFSIZE \<le> inp_size i"
    "inp_size i \<le> 4 * big" "4 * big \<le> MAXINT"
  using assms by (simp_all add: in_ok_def)

lemma gotnow_ok: "in_ok big i \<Longrightarrow> gotnow i = bufcnt i - bufptr i"
proof -
  assume ok: "in_ok big i"
  have e: "int (bufcnt i) - int (bufptr i) = int (bufcnt i - bufptr i)"
    using in_okD(2) [OF ok] by (simp add: of_nat_diff)
  have l: "bufcnt i - bufptr i < 2 ^ 32"
    using in_okD [OF ok] by (simp add: MAXINT_def)
  show ?thesis by (simp only: gotnow_def e of_int_of_nat_eq unat_of_nat_u32 [OF l])
qed

lemma length_front: "in_ok big i \<Longrightarrow> length (front i) = bufcnt i - bufptr i"
  using in_okD(1-3) [of big i] by (simp add: front_def min_absorb2 diff_le_mono)

lemma front_at_start: "bufptr i = 0 \<Longrightarrow> front i = take (bufcnt i) (buffer i)"
  by (simp add: front_def)

lemma rd_bytes_front:
  assumes "in_ok big i" "k + n \<le> bufcnt i - bufptr i"
  shows "rd_bytes (buffer i) (bufptr i + k) n = Some (take n (drop k (front i)))"
proof -
  have "bufptr i + k + n \<le> length (buffer i)" using in_okD [OF assms(1)] assms(2) by linarith
  moreover have "take n (drop k (front i)) = take n (drop (bufptr i + k) (buffer i))"
    using assms(2) by (simp add: front_def drop_take min_def add.commute)
  ultimately show ?thesis by (simp add: rd_bytes_def)
qed

lemma header_append: "4 \<le> length bs \<Longrightarrow> (snd (header cl bs) \<longrightarrow> 8 \<le> length bs) \<Longrightarrow> header cl (bs @ xs) = header cl bs"
  by (auto simp: header_def Let_def)

lemma header_snd_append: "4 \<le> length bs \<Longrightarrow> snd (header cl (bs @ xs)) = snd (header cl bs)"
  by (auto simp: header_def Let_def)

lemma announced_ok:
  assumes "in_ok big i" "got = bufcnt i - bufptr i" "4 \<le> got"
  shows "announced cl i got = Some (if snd (header cl (front i)) \<and> got < 8 then (2, True) else header cl (front i))"
proof -
  have "get16 (swapped cl) (buffer i) (bufptr i + 2) = Some (num (swapped cl) (take 2 (drop 2 (front i))))"
    using rd_bytes_front [OF assms(1), of 2 2] assms(2,3) by (simp add: get16_def)
  moreover have "8 \<le> got \<Longrightarrow> get32 (swapped cl) (buffer i) (bufptr i + 4) = Some (num (swapped cl) (take 4 (drop 4 (front i))))"
    using rd_bytes_front [OF assms(1), of 4 4] assms(2,3) by (simp add: get32_def)
  ultimately show ?thesis by (auto simp: announced_def header_def Let_def bytes_to_int32_def)
qed

lemma wr_bytes_in: "p + length xs \<le> length m \<Longrightarrow> wr_bytes m p xs = Some (take p m @ xs @ drop (p + length xs) m)"
  by (simp add: wr_bytes_def)

lemma make_room_ok:
  assumes ok: "in_ok big i" and n: "bufcnt i - bufptr i < needed" "needed \<le> 4 * big"
  obtains (full) j where "make_room env needed (bufcnt i - bufptr i) i = Some (Inl j)" "in_ok big j"
      "lenLastReq j = lenLastReq i" "ignoreBytes j = ignoreBytes i"
  | (room) j where "make_room env needed (bufcnt i - bufptr i) i = Some (Inr j)" "in_ok big j" "front j = front i"
      "lenLastReq j = lenLastReq i" "ignoreBytes j = ignoreBytes i" "bufcnt j < inp_size j" "bufcnt j - bufptr j = bufcnt i - bufptr i"
      "needed \<le> inp_size i \<Longrightarrow> inp_size j = inp_size i"
proof -
  define got where "got = bufcnt i - bufptr i"
  have o: "length (buffer i) = inp_size i" "bufptr i \<le> bufcnt i" "bufcnt i \<le> inp_size i" "BUFSIZE \<le> inp_size i"
    "inp_size i \<le> 4 * big" "4 * big \<le> MAXINT" using ok by (simp_all add: in_ok_def)
  have gl: "got \<le> inp_size i" using o by (simp add: got_def)
  show ?thesis
  proof (cases "got = 0 \<or> bufptr i + needed > inp_size i")
    case False
    then have "make_room env needed got i = Some (Inr i)" by (simp add: make_room_def)
    moreover have "bufcnt i < inp_size i" using False n(1) o(2) unfolding got_def by linarith
    ultimately show ?thesis using room ok by (simp add: got_def)
  next
    case True
    obtain b where b: "(if got > 0 \<and> bufptr i \<noteq> 0 then memmove (buffer i) 0 (bufptr i) got else Some (buffer i)) = Some b"
      "length b = inp_size i" "take got b = front i"
    proof (cases "got > 0 \<and> bufptr i \<noteq> 0")
      case True
      have "rd_bytes (buffer i) (bufptr i) got = Some (front i)"
        using rd_bytes_front [OF ok, of 0 got] length_front [OF ok] by (simp add: got_def)
      moreover have "wr_bytes (buffer i) 0 (front i) = Some (front i @ drop got (buffer i))"
        using length_front [OF ok] o gl by (simp add: wr_bytes_def got_def)
      ultimately show ?thesis
        using that [of "front i @ drop got (buffer i)"] True length_front [OF ok] o gl by (simp add: memmove_def got_def)
    next
      case False
      then have "take got (buffer i) = front i" by (auto simp: front_def got_def)
      then show ?thesis using that [of "buffer i"] False o by auto
    qed
    show ?thesis
    proof (cases "needed > inp_size i")
      case True
      show ?thesis
      proof (cases "realloc_ok env")
        case True
        define j where "j = i\<lparr>inp_size := needed, buffer := b @ junk_bytes env (needed - length b), bufptr := 0, bufcnt := got\<rparr>"
        have "make_room env needed got i = Some (Inr j)"
          using \<open>got = 0 \<or> _\<close> b(1) True \<open>needed > inp_size i\<close> by (simp add: make_room_def j_def Let_def)
        moreover have "in_ok big j"
          using o b(2) gl n(2) \<open>needed > inp_size i\<close> by (simp add: in_ok_def j_def junk_bytes_def)
        moreover have "front j = front i"
          using b(2,3) gl front_at_start [of j] by (simp add: j_def)
        moreover have "bufcnt j < inp_size j" using n(1) by (simp add: j_def got_def)
        ultimately show ?thesis using room [of j] \<open>needed > inp_size i\<close> by (simp add: j_def got_def)
      next
        case False
        have "make_room env needed got i = Some (Inl (i\<lparr>buffer := b\<rparr>))"
          using \<open>got = 0 \<or> _\<close> b(1) False \<open>needed > inp_size i\<close> by (simp add: make_room_def Let_def)
        moreover have "in_ok big (i\<lparr>buffer := b\<rparr>)" using o b(2) by (simp add: in_ok_def)
        ultimately show ?thesis using full by (simp add: got_def)
      qed
    next
      case False
      define j where "j = i\<lparr>buffer := b, bufptr := 0, bufcnt := got\<rparr>"
      have "make_room env needed got i = Some (Inr j)"
        using \<open>got = 0 \<or> _\<close> b(1) False by (simp add: make_room_def j_def Let_def)
      moreover have "in_ok big j" using o b(2) gl by (simp add: in_ok_def j_def)
      moreover have "front j = front i" using b(3) front_at_start [of j] by (simp add: j_def)
      moreover have "bufcnt j < inp_size j" using n(1) False by (simp add: j_def got_def)
      ultimately show ?thesis using room by (simp add: j_def got_def)
    qed
  qed
qed

lemma read_in:
  assumes "in_ok big i" "bufcnt i + length xs \<le> inp_size i"
  defines "j \<equiv> i\<lparr>buffer := take (bufcnt i) (buffer i) @ xs @ drop (bufcnt i + length xs) (buffer i), bufcnt := bufcnt i + length xs\<rparr>"
  shows "wr_bytes (buffer i) (bufcnt i) xs = Some (buffer j)" "in_ok big j" "front j = front i @ xs"
proof -
  have o: "length (buffer i) = inp_size i" "bufptr i \<le> bufcnt i" "bufcnt i \<le> inp_size i" using assms(1) by (simp_all add: in_ok_def)
  show "wr_bytes (buffer i) (bufcnt i) xs = Some (buffer j)" using assms(2) o by (simp add: wr_bytes_def j_def)
  show "in_ok big j" using assms(1,2) by (simp add: in_ok_def j_def)
  define A where "A = take (bufcnt i) (buffer i)"
  have A: "length A = bufcnt i" using o by (simp add: A_def)
  have j: "buffer j = A @ xs @ drop (bufcnt i + length xs) (buffer i)" "bufcnt j = length A + length xs" "bufptr j = bufptr i"
    unfolding A by (simp_all add: j_def A_def)
  have "front j = take (length A + length xs - bufptr i) (drop (bufptr i) (A @ xs @ drop (bufcnt i + length xs) (buffer i)))"
    by (simp add: front_def [of j] j(1) j(2) j(3))
  also have "\<dots> = drop (bufptr i) A @ xs" using A o(2) by simp
  also have "drop (bufptr i) A = front i" by (simp add: A_def front_def drop_take)
  finally show "front j = front i @ xs" .
qed

lemma shrink_ok:
  assumes "in_ok big i" "got = bufcnt i - bufptr i"
  shows "in_ok big (shrink env needed got i)" "front (shrink env needed got i) = front i" "lenLastReq (shrink env needed got i) = lenLastReq i"
    "ignoreBytes (shrink env needed got i) = ignoreBytes i" "bufcnt (shrink env needed got i) - bufptr (shrink env needed got i) = got"
    "needed = inp_size i \<Longrightarrow> inp_size (shrink env needed got i) = inp_size i"
  using assms by (auto simp: shrink_def in_ok_def front_def BUFSIZE_def BUFWATERMARK_def take_drop min_def)

section \<open>Reading follows the format\<close>

named_theorems io_defs \<open>updates of the state\<close>

lemmas [io_defs] = set_input_def set_output_def set_os_def set_cio_def io_log_def YieldControl_def YieldControlNoInput_def
  YieldControlDeath_def mark_client_not_ready_def

definition untouched :: "nat \<Rightarrow> 'z io_scheme \<Rightarrow> 'z io_scheme \<Rightarrow> bool" where
  "untouched c s s' \<longleftrightarrow> (\<forall>d. d \<noteq> c \<longrightarrow> os s' d = os s d \<and> cio s' d = cio s d) \<and> FreeInputs s' = FreeInputs s
     \<and> FreeOutputs s' = FreeOutputs s \<and> swapped (cio s' c) = swapped (cio s c) \<and> big_requests (cio s' c) = big_requests (cio s c)
     \<and> osPrivate (cio s' c) = osPrivate (cio s c)
     \<and> oc_output (os s' c) = oc_output (os s c) \<and> sent (os s' c) = sent (os s c) \<and> sclients s' = sclients s"

lemma untouched_refl: "untouched c s s"
  by (simp add: untouched_def)

lemma untouched_trans: "untouched c s t \<Longrightarrow> untouched c t u \<Longrightarrow> untouched c s u"
  by (simp add: untouched_def)

definition complete :: "client_io \<Rightarrow> bytes \<Rightarrow> bool" where
  "complete cl bs \<longleftrightarrow> header_complete cl bs \<and> request_bytes cl bs \<le> length bs"

text \<open>What a call leaves behind: \<open>F\<close> says whether it may fail, \<open>R\<close> what is left in the socket of a call without
  a request, \<open>ig\<close> bytes were to be ignored, \<open>st\<close> is the stream in front of the reading position, without bytes to be ignored.\<close>

definition outcome :: "bool \<Rightarrow> (bytes \<Rightarrow> bool) \<Rightarrow> nat \<Rightarrow> nat \<Rightarrow> client_io \<Rightarrow> nat \<Rightarrow> bytes \<Rightarrow> bytes \<Rightarrow> int \<Rightarrow> 'z io_scheme \<Rightarrow> bool" where
  "outcome F R big c cl ig st later r s' \<longleftrightarrow>
     (\<exists>i. oc_input (os s' c) = Some i \<and> input_ok big i \<and> AvailableInput s' \<in> {None, Some c}
      \<and> (AvailableInput s' = Some c \<longrightarrow> unread i = [] \<and> ignoreBytes i = 0)
      \<and> (r = -1 \<and> F
         \<or> r = 0 \<and> drop (ignoreBytes i) (unread i @ wire (os s' c) @ later) = st
           \<and> (ig = 0 \<longrightarrow> ignoreBytes i = 0 \<and> \<not> complete cl (unread i) \<and> R (wire (os s' c)))
         \<or> header_complete cl st \<and> r = int (request_bytes cl st)
           \<and> drop (ignoreBytes i) (unread i @ wire (os s' c) @ later) = drop (request_bytes cl st) st
           \<and> (request_bytes cl st \<le> 4 * big \<longrightarrow> request_bytes cl st \<le> length st
                \<and> take (length (delivered cl st)) (drop (requestBuffer (cio s' c)) (buffer i)) = delivered cl st
                \<and> requestBuffer (cio s' c) = bufptr i \<and> lenLastReq i = length (delivered cl st) \<and> ignoreBytes i = 0 \<and> (snd (header cl st) \<longrightarrow> 4 \<le> bufptr i)
                \<and> req_len (cio s' c) = fst (header cl st) - (if snd (header cl st) then 1 else 0))))"

lemma outcome_request:
  assumes "oc_input (os s' c) = Some i" "input_ok big i" "AvailableInput s' \<in> {None, Some c}"
    "AvailableInput s' = Some c \<Longrightarrow> unread i = []" "ignoreBytes i = 0" "header_complete cl st" "n = request_bytes cl st" "n \<le> length st"
    "unread i @ wire (os s' c) @ later = drop n st"
    "take (length (delivered cl st)) (drop (requestBuffer (cio s' c)) (buffer i)) = delivered cl st"
    "req_len (cio s' c) = fst (header cl st) - (if snd (header cl st) then 1 else 0)"
    "requestBuffer (cio s' c) = bufptr i" "lenLastReq i = length (delivered cl st)"
    "snd (header cl st) \<Longrightarrow> 4 \<le> bufptr i"
  shows "outcome F R big c cl ig st later (int n) s'"
  unfolding outcome_def by (rule exI [of _ i]) (use assms in \<open>simp del: append_assoc\<close>)

lemma finish_plain:
  assumes ok: "in_ok big i" and ig: "ignoreBytes i = 0" and got: "got = bufcnt i - bufptr i" and cl: "cl = cio s c"
    and h: "header cl (front i) = (w, mv)" and n: "request_bytes cl (front i) \<le> got" and hc: "header_complete cl (front i)"
    and pr: "proper cl (front i)" and rl: "req_len cl = w" and av: "AvailableInput s = None"
  shows "\<exists>r s'. finish_request c (4 * w) mv got i s = Some (r, s') \<and> untouched c s s'
    \<and> outcome F R big c cl 0 (front i @ wire (os s c) @ later) later r s'"
proof -
  define st where st: "st = front i @ wire (os s c) @ later"
  define n where "n = request_bytes cl (front i)"
  have lf: "length (front i) = got" using length_front [OF ok] got by simp
  have hd: "header cl st = (w, mv)" unfolding st using h header_append [of "front i" cl] hc by (simp add: header_complete_def)
  have hcs: "header_complete cl st" using hc hd h by (auto simp: header_complete_def st)
  have rb: "request_bytes cl st = n" using hd h by (simp add: n_def request_bytes_def)
  have mv2: "mv \<Longrightarrow> 2 \<le> w" using pr hc h by (simp add: proper_def)
  have n1: "(if 4 * w = 0 then if big_requests (cio s c) then 8 else 4 else 4 * w) = n"
  proof (cases "w = 0")
    case True
    then have "\<not> mv" using mv2 by auto
    then have "\<not> big_requests cl" using h True by (auto simp: header_def Let_def split: if_splits)
    then show ?thesis using True h cl by (simp add: n_def request_bytes_def)
  qed (simp add: n_def request_bytes_def h)
  have ng: "n \<le> got" using n by (simp add: n_def)
  have o: "length (buffer i) = inp_size i" "bufptr i + got = bufcnt i" "bufcnt i \<le> inp_size i"
    using in_okD [OF ok] got by simp_all
  have dl: "delivered cl st = (if mv then take 4 (front i) @ drop 8 (take n (front i)) else take n (front i))"
  proof -
    have tn: "take n st = take n (front i)" unfolding st using ng lf by simp
    have "mv \<Longrightarrow> 4 \<le> n" using mv2 h by (simp add: n_def request_bytes_def)
    then have "mv \<Longrightarrow> take 4 (take n (front i)) = take 4 (front i)" by (simp add: min_def)
    then show ?thesis unfolding delivered_def rb Let_def tn hd by simp
  qed
  have dn: "drop n (front i) @ wire (os s c) @ later = drop n st" unfolding st using ng lf by simp
  have ns: "n \<le> length st" unfolding st using ng lf by simp
  have none: "drop n (front i) = []" if "got = n" using that lf by simp
  show ?thesis
  proof (cases mv)
    case False
    define i2 where "i2 = i\<lparr>lenLastReq := n\<rparr>"
    define s1 where "s1 = set_input c (Some i2) s"
    define s' where "s' = set_cio c (\<lambda>r. r\<lparr>requestBuffer := bufptr i\<rparr>)
      (if got = n then s1\<lparr>AvailableInput := Some c\<rparr> else s1)"
    have run: "finish_request c (4 * w) mv got i s = Some (int n, s')"
      using False ig unfolding finish_request_def Let_def n1 by (simp add: s'_def s1_def i2_def)
    have s': "oc_input (os s' c) = Some i2" "wire (os s' c) = wire (os s c)" "requestBuffer (cio s' c) = bufptr i"
      "req_len (cio s' c) = w" "AvailableInput s' = (if got = n then Some c else None)" "untouched c s s'"
      using rl cl av by (auto simp: s'_def s1_def io_defs untouched_def)
    have "bufptr i + n \<le> bufcnt i" using ng o(2) by linarith
    then have ii: "input_ok big i2"
      using ok by (simp add: input_ok_def in_ok_def next_input_def i2_def)
    have un: "unread i2 = drop n (front i)"
      by (simp add: unread_def next_input_def i2_def front_def drop_take add.commute)
    have "take n (drop (bufptr i) (buffer i)) = take n (front i)" using ng got by (simp add: front_def)
    then have tk: "take (length (delivered cl st)) (drop (requestBuffer (cio s' c)) (buffer i2)) = delivered cl st"
      unfolding dl s'(3) using False ng lf by (simp add: i2_def)
    have "outcome F R big c cl 0 st later (int n) s'"
    proof (rule outcome_request [OF s'(1) ii])
      show "AvailableInput s' \<in> {None, Some c}" using s'(5) by simp
      show "unread i2 = []" if "AvailableInput s' = Some c" using that s'(5) none un by (auto split: if_splits)
      show "ignoreBytes i2 = 0" using ig by (simp add: i2_def)
      show "unread i2 @ wire (os s' c) @ later = drop n st" unfolding un s'(2) by (rule dn)
      show "req_len (cio s' c) = fst (header cl st) - (if snd (header cl st) then 1 else 0)" using s'(4) hd False by simp
      show "requestBuffer (cio s' c) = bufptr i2" using s'(3) by (simp add: i2_def)
      show "4 \<le> bufptr i2" if "snd (header cl st)" using that hd False by simp
      show "lenLastReq i2 = length (delivered cl st)" using dl False ng lf by (simp add: i2_def)
    qed (use hcs rb tk ns in simp_all)
    then show ?thesis using run s'(6) unfolding st by blast
  next
    case True
    have n4: "n = 4 * w" "8 \<le> n" using mv2 [OF True] h by (simp_all add: n_def request_bytes_def)
    define b where "b = take (bufptr i + 4) (buffer i) @ take 4 (front i) @ drop (bufptr i + 8) (buffer i)"
    define i3 where "i3 = i\<lparr>buffer := b, bufptr := bufptr i + 4, lenLastReq := n - 4\<rparr>"
    define s1 where "s1 = set_input c (Some (i\<lparr>lenLastReq := n\<rparr>)) s"
    define s2 where "s2 = (if got = n then s1\<lparr>AvailableInput := Some c\<rparr> else s1)"
    define s' where "s' = set_cio c (\<lambda>r. r\<lparr>req_len := req_len r - bytes_to_int32 4, requestBuffer := bufptr i3\<rparr>)
      (set_input c (Some i3) s2)"
    have hr: "rd_bytes (buffer i) (bufptr i) 4 = Some (take 4 (front i))"
      using rd_bytes_front [OF ok, of 0 4] n4 ng got by simp
    have hw: "wr_bytes (buffer i) (bufptr i + 4) (take 4 (front i)) = Some b"
      using o n4 ng lf by (simp add: wr_bytes_def b_def min_def add.commute)
    have run: "finish_request c (4 * w) mv got i s = Some (int n, s')"
      using True ig mv2 [OF True] rl cl hr hw
      unfolding finish_request_def Let_def n1 by (simp add: s'_def s2_def s1_def i3_def bytes_to_int32_def)
    have s': "oc_input (os s' c) = Some i3" "wire (os s' c) = wire (os s c)" "requestBuffer (cio s' c) = bufptr i + 4"
      "req_len (cio s' c) = w - 1" "AvailableInput s' = (if got = n then Some c else None)" "untouched c s s'"
      using rl cl av by (auto simp: s'_def s2_def s1_def i3_def io_defs untouched_def bytes_to_int32_def)
    have bl: "length b = inp_size i" using o n4 ng lf by (simp add: b_def min_def)
    have "bufptr i + n \<le> bufcnt i" using ng o(2) by linarith
    then have ii: "input_ok big i3"
      using ok n4 bl by (simp add: input_ok_def in_ok_def next_input_def i3_def)
    have dr: "drop (bufptr i + k) b = drop (bufptr i + k) (buffer i)" if "8 \<le> k" for k
      using that o n4 ng lf by (simp add: b_def min_def add.commute)
    have un: "unread i3 = drop n (front i)"
    proof -
      have "unread i3 = take (bufcnt i - (bufptr i + n)) (drop (bufptr i + n) b)"
        using n4 by (simp add: unread_def next_input_def i3_def front_def)
      then show ?thesis using dr [OF n4(2)] by (simp add: front_def drop_take add.commute)
    qed
    have "length (take (bufptr i + 4) (buffer i)) = bufptr i + 4" using o n4 ng by simp
    then have "drop (bufptr i + 4) b = take 4 (front i) @ drop (bufptr i + 8) (buffer i)"
      unfolding b_def by (metis append_eq_conv_conj)
    moreover have l4: "length (take 4 (front i)) = 4" using n4 ng lf by simp
    moreover have "take (n - 4) (take 4 (front i)) = take 4 (front i)" using n4(2) l4 by (intro take_all) simp
    ultimately have "take (n - 4) (drop (bufptr i + 4) b) = take 4 (front i) @ take (n - 8) (drop (bufptr i + 8) (buffer i))"
      using n4(2) by (simp only: take_append) simp
    moreover have "take (n - 8) (drop (bufptr i + 8) (buffer i)) = drop 8 (take n (front i))"
      using ng got by (simp add: front_def drop_take add.commute)
    moreover have "length (delivered cl st) = n - 4" using dl True n4 ng lf by (simp add: min_def)
    ultimately have tk: "take (length (delivered cl st)) (drop (requestBuffer (cio s' c)) (buffer i3)) = delivered cl st"
      unfolding s'(3) dl using True by (simp add: i3_def)
    have "outcome F R big c cl 0 st later (int n) s'"
    proof (rule outcome_request [OF s'(1) ii])
      show "AvailableInput s' \<in> {None, Some c}" using s'(5) by simp
      show "unread i3 = []" if "AvailableInput s' = Some c" using that s'(5) none un by (auto split: if_splits)
      show "ignoreBytes i3 = 0" using ig by (simp add: i3_def)
      show "unread i3 @ wire (os s' c) @ later = drop n st" unfolding un s'(2) by (rule dn)
      show "req_len (cio s' c) = fst (header cl st) - (if snd (header cl st) then 1 else 0)" using s'(4) hd True by simp
      show "requestBuffer (cio s' c) = bufptr i3" using s'(3) by (simp add: i3_def)
      show "4 \<le> bufptr i3" by (simp add: i3_def)
      show "lenLastReq i3 = length (delivered cl st)" using \<open>length (delivered cl st) = n - 4\<close> by (simp add: i3_def)
    qed (use hcs rb tk ns in simp_all)
    then show ?thesis using run s'(6) unfolding st by blast
  qed
qed

lemma finish_ignoring:
  assumes ok: "in_ok big i" and ig: "ignoreBytes i > 0" and got: "got = bufcnt i - bufptr i"
    and n: "n = ignoreBytes i \<or> n = inp_size i" "n \<le> ignoreBytes i" "n \<le> got" "0 < n" and av: "AvailableInput s = None"
  shows "\<exists>r s'. finish_request c n False got i s = Some (r, s') \<and> untouched c s s'
    \<and> outcome F R big c cl (ignoreBytes i) (drop (ignoreBytes i) (front i @ wire (os s c) @ later)) later r s'"
proof -
  define i2 where "i2 = i\<lparr>ignoreBytes := ignoreBytes i - n, bufptr := bufptr i + n, lenLastReq := 0\<rparr>"
  define s1 where "s1 = set_input c (Some i2) s"
  define s' where "s' = set_cio c (\<lambda>r. r\<lparr>requestBuffer := bufptr i + n\<rparr>)
    (if got - n = 0 \<and> ignoreBytes i - n = 0 then s1\<lparr>AvailableInput := Some c\<rparr> else s1)"
  have lf: "length (front i) = got" using length_front [OF ok] got by simp
  have run: "finish_request c n False got i s = Some (0, s')"
    using ig n by (auto simp: finish_request_def Let_def s'_def s1_def i2_def)
  have s': "oc_input (os s' c) = Some i2" "wire (os s' c) = wire (os s c)"
    "AvailableInput s' = (if got - n = 0 \<and> ignoreBytes i - n = 0 then Some c else None)" "untouched c s s'"
    using av by (auto simp: s'_def s1_def io_defs untouched_def)
  have ii: "input_ok big i2"
    using ok n(3) got in_okD [OF ok] by (simp add: input_ok_def in_ok_def next_input_def i2_def)
  have un: "unread i2 = drop n (front i)"
    by (simp add: unread_def next_input_def i2_def front_def drop_take add.commute)
  have ig0: "ignoreBytes i \<noteq> 0" using ig by simp
  have dd: "drop (ignoreBytes i - n) (drop n (front i) @ w) = drop (ignoreBytes i) (front i @ w)" for w
    using n(2,3) lf by simp
  have "drop (ignoreBytes i2) (unread i2 @ wire (os s' c) @ later) = drop (ignoreBytes i) (front i @ wire (os s c) @ later)"
    unfolding un s'(2) using dd [of "wire (os s c) @ later"] by (simp add: i2_def del: drop_append)
  moreover have "AvailableInput s' = Some c \<longrightarrow> unread i2 = [] \<and> ignoreBytes i2 = 0"
    unfolding un using s'(3) lf by (simp add: i2_def)
  moreover have "AvailableInput s' \<in> {None, Some c}" using s'(3) by simp
  moreover obtain st where st: "drop (ignoreBytes i) (front i @ wire (os s c) @ later) = st" by blast
  ultimately have "outcome F R big c cl (ignoreBytes i) (drop (ignoreBytes i) (front i @ wire (os s c) @ later)) later 0 s'"
    unfolding st outcome_def using s'(1) ii ig0 by (intro exI [of _ i2]) (simp del: drop_append)
  then show ?thesis using run s'(4) by blast
qed

lemma header_cong:
  assumes "swapped cl = swapped cl'" "big_requests cl = big_requests cl'"
  shows "header cl = header cl'"
  unfolding header_def assms by (rule refl)

lemma outcome_cong:
  assumes "swapped cl = swapped cl'" "big_requests cl = big_requests cl'"
  shows "outcome F R big c cl ig st later r s = outcome F R big c cl' ig st later r s"
  using header_cong [OF assms] by (simp add: outcome_def complete_def header_complete_def request_bytes_def delivered_def)

lemma proper_cong:
  assumes "swapped cl = swapped cl'" "big_requests cl = big_requests cl'"
  shows "proper cl st = proper cl' st" "header_complete cl st = header_complete cl' st"
  using header_cong [OF assms] by (simp_all add: proper_def header_complete_def)

lemma complete_cong:
  assumes "swapped cl = swapped cl'" "big_requests cl = big_requests cl'"
  shows "complete cl st = complete cl' st"
  using header_cong [OF assms] by (simp add: complete_def header_complete_def request_bytes_def)

lemma proper_prefix: "proper cl (bs @ xs) \<Longrightarrow> proper cl bs"
  using header_append [of bs cl xs] by (auto simp: proper_def header_complete_def)

text \<open>What is asked for: bytes to ignore, a header, or the rest of a request.\<close>

definition asked :: "client_io \<Rightarrow> ConnectionInput \<Rightarrow> nat \<Rightarrow> bool \<Rightarrow> bool \<Rightarrow> bool" where
  "asked cl i needed nh mv \<longleftrightarrow>
     (if ignoreBytes i > 0 then needed = min (ignoreBytes i) (inp_size i) \<and> \<not> nh \<and> \<not> mv
      else if nh then needed = 4 \<and> \<not> mv \<or> needed = 8 \<and> 4 \<le> length (front i) \<and> snd (header cl (front i))
      else header_complete cl (front i) \<and> needed = 4 * fst (header cl (front i)) \<and> mv = snd (header cl (front i))
        \<and> req_len cl = fst (header cl (front i)))"

lemma asked_incomplete:
  assumes "asked cl i needed nh mv" "ignoreBytes i = 0" "length (front i @ xs) < needed"
  shows "\<not> complete cl (front i @ xs)"
proof
  assume c: "complete cl (front i @ xs)"
  show False
  proof (cases nh)
    case True
    then show False using assms c header_snd_append [of "front i" cl xs]
      by (auto simp: asked_def complete_def header_complete_def)
  next
    case False
    then have a: "header_complete cl (front i)" "needed = 4 * fst (header cl (front i))" using assms(1,2) by (simp_all add: asked_def)
    then have "header cl (front i @ xs) = header cl (front i)" by (simp add: header_append header_complete_def)
    then show False using c a assms(3) by (auto simp: complete_def request_bytes_def)
  qed
qed

lemma no_input:
  assumes "oc_input (os s c) = Some i" "input_ok big i" "AvailableInput s = None"
    "drop (ignoreBytes i) (unread i @ wire (os s c) @ later) = st" "ig = 0 \<Longrightarrow> ignoreBytes i = 0 \<and> \<not> complete cl (unread i) \<and> R (wire (os s c))"
  shows "outcome F R big c cl ig st later 0 (YieldControlNoInput c s)"
  using assms by (auto simp: outcome_def io_defs Let_def)

lemma unread_front: "lenLastReq i = 0 \<Longrightarrow> unread i = front i" "lenLastReq i = 0 \<Longrightarrow> in_ok big i \<Longrightarrow> input_ok big i"
  by (simp_all add: unread_def input_ok_def next_input_def front_def in_ok_def)

lemma after_read_ok:
  assumes ok: "in_ok big i" and got: "got = bufcnt i - bufptr i" and l: "lenLastReq i = 0" and as: "asked (cio s c) i needed nh mv"
    and lt: "got < needed" and room: "bufcnt i + length xs \<le> inp_size i" and av: "AvailableInput s = None"
    and pr: "ignoreBytes i = 0 \<Longrightarrow> proper (cio s c) (front i @ xs @ wire (os s c) @ later)" and R: "R (wire (os s c))"
  shows "\<exists>r s'. after_read env c needed nh mv got xs i s = Some (r, s') \<and> untouched c s s'
    \<and> outcome F R big c (cio s c) (ignoreBytes i) (drop (ignoreBytes i) (front i @ xs @ wire (os s c) @ later)) later r s'"
proof -
  define cl where "cl = cio s c"
  define j0 where "j0 = i\<lparr>buffer := take (bufcnt i) (buffer i) @ xs @ drop (bufcnt i + length xs) (buffer i), bufcnt := bufcnt i + length xs\<rparr>"
  have w: "wr_bytes (buffer i) (bufcnt i) xs = Some (buffer j0)" and j0: "in_ok big j0" "front j0 = front i @ xs"
    using read_in [OF ok room] by (simp_all add: j0_def)
  define got' where "got' = got + length xs"
  have g0: "got' = bufcnt j0 - bufptr j0" using in_okD(2) [OF ok] got by (simp add: got'_def j0_def)
  define j where "j = shrink env needed got' j0"
  have j: "in_ok big j" "front j = front i @ xs" "lenLastReq j = 0" "ignoreBytes j = ignoreBytes i" "got' = bufcnt j - bufptr j"
    "needed = inp_size i \<Longrightarrow> inp_size j = inp_size i"
    using shrink_ok [OF j0(1) g0, where env = env and needed = needed] j0(2) l by (simp_all add: j_def j0_def)
  have jd: "shrink env needed (got + length xs) (i\<lparr>buffer := buffer j0, bufcnt := bufcnt i + length xs\<rparr>) = j"
    by (simp add: j_def got'_def j0_def)
  have lf: "length (front j) = got'" using length_front [OF j(1)] j(5) by simp
  have ui: "unread j = front j" "input_ok big j" using unread_front j(1,3) by auto
  let ?st = "drop (ignoreBytes i) (front i @ xs @ wire (os s c) @ later)"
  have str: "drop (ignoreBytes j) (unread j @ wire (os s c) @ later) = ?st" using j ui by simp
  show ?thesis
  proof (cases "nh \<and> needed \<le> got'")
    case False
    define s1 where "s1 = set_input c (Some j) s"
    have s1: "oc_input (os s1 c) = Some j" "wire (os s1 c) = wire (os s c)" "AvailableInput s1 = None" "cio s1 = cio s" "untouched c s s1"
      using av by (simp_all add: s1_def io_defs untouched_def)
    have run: "after_read env c needed nh mv got xs i s =
        (if got' < needed then Some (0, YieldControlNoInput c s1) else finish_request c needed mv got' j s1)"
      using False by (cases nh) (simp_all add: after_read_def w Let_def jd s1_def got'_def)
    show ?thesis
    proof (cases "got' < needed")
      case True
      have "\<not> complete (cio s c) (front j)" if "ignoreBytes i = 0"
        using asked_incomplete [OF as that, of xs] True lf j(2) by simp
      then have "outcome F R big c (cio s c) (ignoreBytes i) ?st later 0 (YieldControlNoInput c s1)"
        by (intro no_input [OF s1(1) ui(2) s1(3)]) (use str s1 ui R j(4) in simp_all)
      moreover have "untouched c s (YieldControlNoInput c s1)"
        using s1(5) by (simp add: untouched_def io_defs Let_def)
      ultimately show ?thesis using run True by simp
    next
      case enough: False
      then have nh: "\<not> nh" using False by auto
      show ?thesis
      proof (cases "ignoreBytes i > 0")
        case True
        then have a: "needed = min (ignoreBytes i) (inp_size i)" "\<not> mv" using as by (simp_all add: asked_def)
        have "needed = ignoreBytes j \<or> needed = inp_size j" using a(1) j(4,6) by (auto simp: min_def)
        moreover have "needed \<le> ignoreBytes j" "0 < needed" using a(1) j(4) lt True in_okD(4) [OF ok] by (auto simp: BUFSIZE_def)
        ultimately obtain r s' where "finish_request c needed False got' j s1 = Some (r, s')" "untouched c s1 s'"
          "outcome F R big c (cio s c) (ignoreBytes j) (drop (ignoreBytes j) (front j @ wire (os s1 c) @ later)) later r s'"
          using finish_ignoring [OF j(1) _ j(5) _ _ _ _ s1(3), where F = F and R = R and n = needed and cl = "cio s c" and later = later and c = c] True j(4) enough by auto
        then show ?thesis using run enough a(2) j s1 untouched_trans by auto
      next
        case False
        then have a: "header_complete cl (front i)" "needed = 4 * fst (header cl (front i))" "mv = snd (header cl (front i))"
          "req_len cl = fst (header cl (front i))"
          using as nh by (simp_all add: asked_def cl_def)
        have h: "header cl (front j) = header cl (front i)" using a(1) j(2) by (simp add: header_append header_complete_def)
        have "header cl (front j) = (fst (header cl (front i)), mv)" using h a(3) by simp
        moreover have "request_bytes cl (front j) \<le> got'"
          using h enough a(2) lt by (auto simp: request_bytes_def)
        moreover have "header_complete cl (front j)" using a(1) h j(2) by (auto simp: header_complete_def)
        moreover have "proper cl (front j)" using pr False proper_prefix [of cl "front i @ xs"] j(2) by (simp add: cl_def)
        ultimately obtain r s' where "finish_request c needed mv got' j s1 = Some (r, s')" "untouched c s1 s'"
          "outcome F R big c cl 0 (front j @ wire (os s1 c) @ later) later r s'"
          using finish_plain [OF j(1) _ j(5), where F = F and R = R and cl = cl and s = s1 and c = c and w = "fst (header cl (front i))" and mv = mv and later = later] s1 False j(4) a(2,4)
          by (auto simp: cl_def)
        then show ?thesis using run enough j s1 False untouched_trans [of c s s1] by (auto simp: cl_def)
      qed
    qed
  next
    case True
    then have nh: "nh" "needed \<le> got'" by simp_all
    then have ig: "ignoreBytes i = 0" using as by (auto simp: asked_def split: if_splits)
    have n4: "4 \<le> needed" using as nh(1) ig by (auto simp: asked_def)
    then have g4: "4 \<le> got'" using nh(2) by simp
    obtain w mv' where an: "announced cl j got' = Some (w, mv')" "(w, mv') = (if snd (header cl (front j)) \<and> got' < 8 then (2, True) else header cl (front j))"
      using announced_ok [OF j(1,5) g4, of cl] by (cases "if snd (header cl (front j)) \<and> got' < 8 then (2, True) else header cl (front j)") simp
    have mvv: "mv \<Longrightarrow> mv'"
    proof -
      assume mv
      then have "4 \<le> length (front i)" "snd (header cl (front i))" using as ig nh(1) by (auto simp: asked_def cl_def)
      then have "snd (header cl (front j))" using header_snd_append j(2) by simp
      then show mv' using an(2) by (auto split: if_splits simp: prod_eq_iff)
    qed
    have mor: "(mv \<or> mv') = mv'" using mvv by blast
    define s1 where "s1 = set_cio c (\<lambda>r. r\<lparr>req_len := w\<rparr>) (set_input c (Some j) s)"
    have s1: "oc_input (os s1 c) = Some j" "wire (os s1 c) = wire (os s c)" "AvailableInput s1 = None" "req_len (cio s1 c) = w"
      "swapped (cio s1 c) = swapped cl" "big_requests (cio s1 c) = big_requests cl" "untouched c s s1"
      using av by (simp_all add: s1_def io_defs untouched_def cl_def)
    have prj: "proper cl (front j)" using pr [OF ig] proper_prefix [of cl "front i @ xs"] j(2) by (simp add: cl_def)
    have hcj: "header_complete cl (front j)" if "\<not> (snd (header cl (front j)) \<and> got' < 8)"
      using that g4 lf by (auto simp: header_complete_def)
    have wl: "w \<le> MAXINT div 4"
      using an(2) prj hcj by (cases "snd (header cl (front j)) \<and> got' < 8") (auto simp: proper_def MAXINT_def prod_eq_iff)
    have run: "after_read env c needed nh mv got xs i s =
        (if got' < 4 * w then Some (0, YieldControlNoInput c s1) else finish_request c (4 * w) mv' got' j s1)"
      using nh an(1) wl mor by (simp add: after_read_def w Let_def jd s1_def got'_def cl_def)
    show ?thesis
    proof (cases "got' < 4 * w")
      case True
      have "\<not> complete cl (front j)"
      proof (cases "snd (header cl (front j)) \<and> got' < 8")
        case True
        then show ?thesis using lf by (simp add: complete_def header_complete_def)
      next
        case False
        then have "header cl (front j) = (w, mv')" using an(2) by (auto split: if_splits)
        then show ?thesis using \<open>got' < 4 * w\<close> lf by (simp add: complete_def request_bytes_def)
      qed
      then have "outcome F R big c (cio s c) (ignoreBytes i) ?st later 0 (YieldControlNoInput c s1)"
        by (intro no_input [OF s1(1) ui(2) s1(3)]) (use str s1 ui R j(4) ig in \<open>simp_all add: cl_def\<close>)
      moreover have "untouched c s (YieldControlNoInput c s1)"
        using s1(7) by (simp add: untouched_def io_defs Let_def)
      ultimately show ?thesis using run True by simp
    next
      case False
      have c8: "\<not> (snd (header cl (front j)) \<and> got' < 8)" using an(2) False by auto
      have h: "header cl (front j) = (w, mv')" using an(2) c8 by (auto split: if_splits)
      define cl1 where "cl1 = cio s1 c"
      have hh: "header cl1 = header cl" using header_cong [of cl1 cl] s1(5,6) by (simp add: cl1_def)
      have "request_bytes cl1 (front j) \<le> got'" using h hh False g4 by (auto simp: request_bytes_def)
      moreover have "header_complete cl1 (front j)" "proper cl1 (front j)"
        using hcj [OF c8] prj proper_cong [of cl1 cl] s1(5,6) by (simp_all add: cl1_def)
      ultimately obtain r s' where "finish_request c (4 * w) mv' got' j s1 = Some (r, s')" "untouched c s1 s'"
        "outcome F R big c cl1 0 (front j @ wire (os s1 c) @ later) later r s'"
        using finish_plain [OF j(1) _ j(5), where F = F and R = R and cl = cl1 and s = s1 and c = c and w = w and mv = mv' and later = later] s1 ig j(4) h hh by (auto simp: cl1_def)
      moreover have "outcome F R big c cl1 0 st later r s' = outcome F R big c cl 0 st later r s'" for st
        by (rule outcome_cong) (use s1 in \<open>simp_all add: cl1_def\<close>)
      ultimately show ?thesis using run False j s1 ig untouched_trans [of c s s1] by (auto simp: cl_def)
    qed
  qed
qed

definition may_fail :: "iokernel \<Rightarrow> 'z io_scheme \<Rightarrow> nat \<Rightarrow> bool" where
  "may_fail env s c \<longleftrightarrow> \<not> malloc_ok env \<or> \<not> realloc_ok env \<or> \<not> connected (sclients s c)
     \<or> read_ans env = ReadError \<or> read_ans env = ReadUpTo 0 \<or> wire (os s c) = []"

lemma make_room_grows: "realloc_ok env \<Longrightarrow> make_room env needed got i \<noteq> Some (Inl j)"
  by (auto simp: make_room_def Let_def split: if_splits Option.bind_splits)

lemma read_more_ok:
  assumes ok: "in_ok big i" and got: "got = bufcnt i - bufptr i" and as: "asked (cio s c) i needed nh mv"
    and lt: "got < needed" and av: "AvailableInput s = None"
    and pr: "ignoreBytes i = 0 \<Longrightarrow> proper (cio s c) (front i @ wire (os s c) @ later)"
    and F: "may_fail env s c \<Longrightarrow> (ignoreBytes i = 0 \<Longrightarrow> \<not> complete (cio s c) (front i)) \<Longrightarrow> F" and R: "read_ans env = ReadWouldBlock \<Longrightarrow> R (wire (os s c))"
      "\<And>w. length w < length (wire (os s c)) \<Longrightarrow> R w"
  shows "\<exists>r s'. read_more env big c needed nh mv got i s = Some (r, s') \<and> untouched c s s'
    \<and> outcome F R big c (cio s c) (ignoreBytes i) (drop (ignoreBytes i) (front i @ wire (os s c) @ later)) later r s'"
proof -
  define cl where "cl = cio s c"
  define i0 where "i0 = i\<lparr>lenLastReq := 0\<rparr>"
  have i0: "in_ok big i0" "front i0 = front i" "ignoreBytes i0 = ignoreBytes i" "lenLastReq i0 = 0" "got = bufcnt i0 - bufptr i0"
    "inp_size i0 = inp_size i"
    using ok got by (simp_all add: i0_def in_ok_def front_def)
  have as0: "asked cl i0 needed nh mv" using as i0 by (simp add: asked_def cl_def)
  have lf: "length (front i) = got" using length_front [OF ok] got by simp
  have b16: "16384 \<le> 4 * big" using in_okD(4,5) [OF ok] by (simp add: BUFSIZE_def)
  show ?thesis
  proof (cases "needed > 4 * big")
    case True
    have ig: "ignoreBytes i = 0"
    proof (rule ccontr)
      assume "ignoreBytes i \<noteq> 0"
      then have "needed \<le> inp_size i" using as by (simp add: asked_def)
      then show False using True in_okD(5) [OF ok] by simp
    qed
    have nh: "\<not> nh" using as ig True b16 by (auto simp: asked_def)
    have a: "header_complete cl (front i)" "needed = 4 * fst (header cl (front i))"
      using as ig nh by (simp_all add: asked_def cl_def)
    define i1 where "i1 = i0\<lparr>ignoreBytes := needed - got, lenLastReq := got\<rparr>"
    define s' where "s' = set_input c (Some i1) s"
    have run: "read_more env big c needed nh mv got i s = Some (int needed, s')"
      using True by (simp add: read_more_def s'_def i1_def i0_def)
    have s': "oc_input (os s' c) = Some i1" "wire (os s' c) = wire (os s c)" "AvailableInput s' = None" "untouched c s s'"
      using av by (simp_all add: s'_def io_defs untouched_def)
    have ii: "input_ok big i1"
      using ok got in_okD(2) [OF ok] by (simp add: input_ok_def in_ok_def next_input_def i1_def i0_def)
    have un: "unread i1 = []" using got by (simp add: unread_def next_input_def front_def i1_def i0_def)
    define st where st: "st = front i @ wire (os s c) @ later"
    have h: "header cl st = header cl (front i)" "header_complete cl st"
      using a(1) unfolding st by (auto simp: header_append header_complete_def)
    have rb: "request_bytes cl st = needed" using h(1) a(2) lt by (auto simp: request_bytes_def)
    have "drop (needed - got) (wire (os s c) @ later) = drop needed st"
      unfolding st using lf lt by simp
    then have "outcome F R big c cl (ignoreBytes i) st later (int needed) s'"
      unfolding outcome_def using s' ii un h rb True by (intro exI [of _ i1]) (simp add: i1_def)
    then show ?thesis using run s' ig st by (auto simp: cl_def)
  next
    case False
    define st where st: "st = drop (ignoreBytes i) (front i @ wire (os s c) @ later)"
    have mk: "read_more env big c needed nh mv got i s = Option.bind (make_room env needed got i0) (\<lambda>room. case room of
         Inl i1 \<Rightarrow> Some (-1, YieldControlDeath (set_input c (Some i1) s))
       | Inr i1 \<Rightarrow> receive env c needed nh mv got i1 (set_input c (Some i1) s))"
      using False by (simp add: read_more_def i0_def [symmetric])
    have dead: "outcome F R big c cl (ignoreBytes i) st later (-1) (YieldControlDeath (set_input c (Some j) s))
        \<and> untouched c s (YieldControlDeath (set_input c (Some j) s))" if "input_ok big j" "may_fail env s c" for j
      using that(1) F [OF that(2)] asked_incomplete [OF as, of "[]"] lf lt av by (simp add: outcome_def io_defs untouched_def)
    have lt0: "bufcnt i0 - bufptr i0 < needed" "needed \<le> 4 * big" using lt i0(5) False by simp_all
    from i0(1) lt0 show ?thesis
    proof (cases rule: make_room_ok [where env = env])
      case (full j)
      then have "input_ok big j" using unread_front(2) i0(4) by auto
      moreover have "may_fail env s c" using full(1) make_room_grows [of env needed "bufcnt i0 - bufptr i0" i0 j] by (auto simp: may_fail_def)
      ultimately show ?thesis using dead mk full(1) i0(5) by (simp add: cl_def st)
    next
      case (room j)
      have j: "lenLastReq j = 0" "ignoreBytes j = ignoreBytes i" "front j = front i" "got = bufcnt j - bufptr j"
        using room i0 by simp_all
      have ij: "input_ok big j" "unread j = front i" using unread_front room(2) j(1,3) by auto
      define s1 where "s1 = set_input c (Some j) s"
      have s1: "oc_input (os s1 c) = Some j" "wire (os s1 c) = wire (os s c)" "AvailableInput s1 = None" "cio s1 = cio s"
        "untouched c s s1"
        using av by (simp_all add: s1_def io_defs untouched_def)
      have run: "read_more env big c needed nh mv got i s = receive env c needed nh mv got j s1"
        using mk room(1) i0(5) by (simp add: s1_def)
      have cn: "sclients s1 = sclients s" by (simp add: s1_def io_defs)
      show ?thesis
      proof (cases "connected (sclients s c)")
        case False
        then have "may_fail env s c" by (simp add: may_fail_def)
        then show ?thesis using dead [OF ij(1)] False unfolding run by (simp add: receive_def cn st cl_def s1_def [symmetric])
      next
        case conn: True
        show ?thesis
        proof (cases "read_ans env")
          case ReadWouldBlock
          have "outcome F R big c cl (ignoreBytes i) st later 0 (YieldControlNoInput c (mark_client_not_ready c s1))"
            using asked_incomplete [OF as, of "[]"] lf lt
              R(1) [OF ReadWouldBlock]
            by (intro no_input [where i = j]) (simp_all add: mark_client_not_ready_def s1 ij j st cl_def)
          moreover have "untouched c s (YieldControlNoInput c (mark_client_not_ready c s1))"
            using s1(5) by (simp add: untouched_def io_defs Let_def)
          ultimately show ?thesis using conn ReadWouldBlock unfolding run by (simp add: receive_def cn st cl_def)
        next
          case ReadError
          then have "may_fail env s c" by (simp add: may_fail_def)
          then show ?thesis using dead [OF ij(1)] conn ReadError unfolding run by (simp add: receive_def cn st cl_def s1_def [symmetric])
        next
          case (ReadUpTo k)
          define xs where "xs = take (min k (inp_size j - bufcnt j)) (wire (os s c))"
          show ?thesis
          proof (cases "xs = []")
            case True
            then have "receive env c needed nh mv got j s1 = Some (-1, YieldControlDeath s1)"
              using conn ReadUpTo s1(2) by (simp add: receive_def cn xs_def [symmetric])
            moreover have "may_fail env s c" using True ReadUpTo room(6) by (auto simp: may_fail_def xs_def)
            ultimately show ?thesis using dead [OF ij(1)] unfolding run by (simp add: st cl_def s1_def [symmetric])
          next
            case False
            define s2 where "s2 = set_os c (\<lambda>r. r\<lparr>wire := drop (length xs) (wire r)\<rparr>) s1"
            have s2: "AvailableInput s2 = None" "cio s2 = cio s" "wire (os s2 c) = drop (length xs) (wire (os s c))" "untouched c s s2"
              using s1 by (simp_all add: s2_def set_os_def untouched_def)
            have split: "xs @ wire (os s2 c) = wire (os s c)"
              by (simp add: s2(3) xs_def min_def)
            have shorter: "R (wire (os s2 c))" using R(2) False unfolding s2(3) xs_def by (cases "wire (os s c)") auto
            have fit: "bufcnt j + length xs \<le> inp_size j" using room(6) by (simp add: xs_def)
            have aj: "asked cl j needed nh mv"
            proof (cases "ignoreBytes i > 0")
              case True
              then have "needed \<le> inp_size i0" using as0 i0(3) by (simp add: asked_def)
              then show ?thesis using as0 room(8) j i0 True by (simp add: asked_def)
            next
              case False
              then show ?thesis using as0 j i0 unfolding asked_def by (cases nh) simp_all
            qed
            have "\<exists>r s'. after_read env c needed nh mv got xs j s2 = Some (r, s') \<and> untouched c s2 s'
                \<and> outcome F R big c (cio s2 c) (ignoreBytes j) (drop (ignoreBytes j) (front j @ xs @ wire (os s2 c) @ later)) later r s'"
              by (rule after_read_ok [OF room(2) j(4) j(1) _ lt fit s2(1)])
                (use aj s2(2) pr j(2,3) split shorter in \<open>simp_all add: cl_def flip: append_assoc\<close>)
            moreover have "front j @ xs @ wire (os s2 c) @ later = front i @ wire (os s c) @ later"
              using j(3) split by (metis append_assoc)
            moreover have "read_more env big c needed nh mv got i s = after_read env c needed nh mv got xs j s2"
              using conn ReadUpTo s1(2) False unfolding run by (simp add: receive_def cn xs_def [symmetric] s2_def)
            ultimately show ?thesis using s2(2,4) j(2) untouched_trans by metis
          qed
        qed
      qed
    qed
  qed
qed

lemma read_request_ok:
  fixes s :: "'z io_scheme"
  assumes ok: "input_ok big i" and av: "AvailableInput s = None"
    and pr: "ignoreBytes i = 0 \<Longrightarrow> proper (cio s c) (unread i @ wire (os s c) @ later)"
    and F: "may_fail env s c \<Longrightarrow> (ignoreBytes i = 0 \<Longrightarrow> \<not> complete (cio s c) (unread i)) \<Longrightarrow> F" and R: "read_ans env = ReadWouldBlock \<Longrightarrow> R (wire (os s c))"
      "\<And>w. length w < length (wire (os s c)) \<Longrightarrow> R w"
  shows "\<exists>r s'. read_request env big c i s = Some (r, s') \<and> untouched c s s'
    \<and> outcome F R big c (cio s c) (ignoreBytes i) (drop (ignoreBytes i) (unread i @ wire (os s c) @ later)) later r s'"
proof -
  define cl where "cl = cio s c"
  define j where "j = next_input i"
  have j: "in_ok big j" "front j = unread i" "ignoreBytes j = ignoreBytes i" using ok by (simp_all add: j_def input_ok_def unread_def next_input_def)
  define got where "got = bufcnt j - bufptr j"
  have got: "gotnow j = got" using gotnow_ok [OF j(1)] by (simp add: got_def)
  have lf: "length (front j) = got" using length_front [OF j(1)] by (simp add: got_def)
  define go where "go = (\<lambda>needed nh mv (s1 :: 'z io_scheme). if got < needed then read_more env big c needed nh mv got j s1
    else finish_request c needed mv got j s1)"
  have run: "read_request env big c i s =
     (if ignoreBytes j > 0 then go (min (ignoreBytes j) (inp_size j)) False False s
      else if got < 4 then go 4 True False s
      else do {
        (w, mv) \<leftarrow> announced cl j got;
        let s1 = set_cio c (\<lambda>r. r\<lparr>req_len := w\<rparr>) s;
        if w > MAXINT div 4 then Some (-16, set_input c (Some j) s1) else go (4 * w) (mv \<and> got < 8) mv s1 })"
    unfolding read_request_def j_def [symmetric, unfolded next_input_def] go_def cl_def Let_def got by (rule refl)
  have more: "\<exists>r s'. go needed nh mv t = Some (r, s') \<and> untouched c s s'
      \<and> outcome F R big c cl (ignoreBytes i) (drop (ignoreBytes i) (unread i @ wire (os s c) @ later)) later r s'"
    if as: "asked (cio t c) j needed nh mv" and lt: "got < needed"
      and t: "AvailableInput t = None" "os t = os s" "untouched c s t" for needed nh mv and t :: "'z io_scheme"
  proof -
    have cg: "swapped (cio t c) = swapped cl" "big_requests (cio t c) = big_requests cl" using t(3) by (simp_all add: untouched_def cl_def)
    have pj: "ignoreBytes j = 0 \<Longrightarrow> proper (cio t c) (front j @ wire (os t c) @ later)"
      using pr j t(2) proper_cong(1) [OF cg] by (simp add: cl_def)
    have Ft: "may_fail env t c \<Longrightarrow> (ignoreBytes j = 0 \<Longrightarrow> \<not> complete (cio t c) (front j)) \<Longrightarrow> F"
      using F t(2,3) j(2,3) complete_cong [OF cg] by (simp add: may_fail_def untouched_def cl_def)
    have Rt: "read_ans env = ReadWouldBlock \<Longrightarrow> R (wire (os t c))" "\<And>w. length w < length (wire (os t c)) \<Longrightarrow> R w" using R t(2) by simp_all
    obtain r s' where rr: "read_more env big c needed nh mv got j t = Some (r, s')" "untouched c t s'"
      "outcome F R big c (cio t c) (ignoreBytes j) (drop (ignoreBytes j) (front j @ wire (os t c) @ later)) later r s'"
      using read_more_ok [where R = R, OF j(1) got_def as lt t(1) pj Ft Rt] by blast
    have "outcome F R big c cl (ignoreBytes i) (drop (ignoreBytes i) (unread i @ wire (os s c) @ later)) later r s'"
      using rr(3) unfolding outcome_cong [OF cg] j(2,3) t(2) .
    moreover have "go needed nh mv t = Some (r, s')" using rr(1) lt by (simp add: go_def)
    ultimately show ?thesis using untouched_trans [OF t(3) rr(2)] by blast
  qed
  show ?thesis
  proof (cases "ignoreBytes j > 0")
    case True
    define n where "n = min (ignoreBytes j) (inp_size j)"
    have run1: "read_request env big c i s = go n False False s" using run True by (simp add: n_def)
    show ?thesis
    proof (cases "got < n")
      case lt: True
      have "asked (cio s c) j n False False" using True by (simp add: asked_def n_def)
      from more [OF this lt av refl untouched_refl] show ?thesis unfolding run1 by (simp add: cl_def)
    next
      case False
      have "n = ignoreBytes j \<or> n = inp_size j" "n \<le> ignoreBytes j" "0 < n"
        using True in_okD(4) [OF j(1)] by (auto simp: n_def BUFSIZE_def min_def)
      then obtain r s' where "finish_request c n False got j s = Some (r, s')" "untouched c s s'"
        "outcome F R big c cl (ignoreBytes j) (drop (ignoreBytes j) (front j @ wire (os s c) @ later)) later r s'"
        using finish_ignoring [OF j(1) True got_def, where F = F and R = R and n = n and s = s and c = c and cl = cl and later = later] False av by auto
      then show ?thesis unfolding run1 using False j by (simp add: go_def cl_def)
    qed
  next
    case False
    then have ig: "ignoreBytes j = 0" by simp
    show ?thesis
    proof (cases "got < 4")
      case True
      have "asked (cio s c) j 4 True False" using ig by (simp add: asked_def)
      from more [OF this True av refl untouched_refl] show ?thesis using run ig True by (simp add: cl_def)
    next
      case g4: False
      obtain w mv where an: "announced cl j got = Some (w, mv)"
        "(w, mv) = (if snd (header cl (front j)) \<and> got < 8 then (2, True) else header cl (front j))"
        using announced_ok [OF j(1) got_def, of cl] g4
        by (cases "if snd (header cl (front j)) \<and> got < 8 then (2, True) else header cl (front j)") simp
      have prj: "proper cl (front j)"
        using pr ig j proper_prefix [of cl "front j" "wire (os s c) @ later"] by (simp add: cl_def)
      have hc: "header_complete cl (front j)" if "\<not> (snd (header cl (front j)) \<and> got < 8)"
        using that g4 lf by (auto simp: header_complete_def)
      have wl: "w \<le> MAXINT div 4"
        using an(2) prj hc by (cases "snd (header cl (front j)) \<and> got < 8") (auto simp: proper_def MAXINT_def prod_eq_iff)
      define s1 where "s1 = set_cio c (\<lambda>r. r\<lparr>req_len := w\<rparr>) s"
      have s1: "AvailableInput s1 = None" "os s1 = os s" "untouched c s s1" "req_len (cio s1 c) = w"
        "swapped (cio s1 c) = swapped cl" "big_requests (cio s1 c) = big_requests cl"
        using av by (simp_all add: s1_def io_defs untouched_def cl_def)
      have hh: "header (cio s1 c) = header cl" by (rule header_cong) (use s1 in simp_all)
      have run1: "read_request env big c i s = go (4 * w) (mv \<and> got < 8) mv s1"
        using run ig g4 an(1) wl by (simp add: s1_def Let_def)
      show ?thesis
      proof (cases "got < 4 * w")
        case True
        have "asked (cio s1 c) j (4 * w) (mv \<and> got < 8) mv"
        proof (cases "snd (header cl (front j)) \<and> got < 8")
          case True
          then show ?thesis using an(2) ig g4 lf hh by (simp add: asked_def)
        next
          case False
          then have h: "header cl (front j) = (w, mv)" using an(2) by (auto split: if_splits)
          have "header_complete (cio s1 c) (front j)" using hc [OF False] hh by (simp add: header_complete_def)
          then show ?thesis using h hh ig False s1(4) by (auto simp: asked_def)
        qed
        from more [OF this True s1(1,2,3)] show ?thesis unfolding run1 by (simp add: cl_def)
      next
        case False
        have c8: "\<not> (snd (header cl (front j)) \<and> got < 8)" using an(2) False by (auto split: if_splits)
        have h: "header cl (front j) = (w, mv)" using an(2) c8 by (auto split: if_splits)
        have "request_bytes (cio s1 c) (front j) \<le> got" using h hh False g4 by (auto simp: request_bytes_def)
        moreover have "header_complete (cio s1 c) (front j)" "proper (cio s1 c) (front j)"
          using hc [OF c8] prj proper_cong [of "cio s1 c" cl] s1(5,6) by simp_all
        ultimately obtain r s' where "finish_request c (4 * w) mv got j s1 = Some (r, s')" "untouched c s1 s'"
          "outcome F R big c (cio s1 c) 0 (front j @ wire (os s1 c) @ later) later r s'"
          using finish_plain [OF j(1) ig got_def refl, where F = F and R = R and s = s1 and c = c and w = w and mv = mv and later = later] s1 h hh by auto
        moreover have "outcome F R big c (cio s1 c) 0 st later r s' = outcome F R big c cl 0 st later r s'" for st
          by (rule outcome_cong) (use s1 in simp_all)
        ultimately show ?thesis unfolding run1 using False j s1 ig untouched_trans [of c s s1] by (auto simp: go_def cl_def)
      qed
    qed
  qed
qed

section \<open>All clients\<close>

definition io_ok :: "nat \<Rightarrow> 'z io_scheme \<Rightarrow> bool" where
  "io_ok big s \<longleftrightarrow>
     (\<forall>c i. oc_input (os s c) = Some i \<longrightarrow> input_ok big i)
   \<and> (\<forall>i \<in> set (FreeInputs s). input_ok big i \<and> unread i = [] \<and> ignoreBytes i = 0)
   \<and> (\<forall>d. AvailableInput s = Some d \<longrightarrow> (\<exists>i. oc_input (os s d) = Some i \<and> unread i = [] \<and> ignoreBytes i = 0))
   \<and> BUFSIZE \<le> 4 * big \<and> 4 * big \<le> MAXINT"

text \<open>The bytes of a client the server has still to look at, when \<open>later\<close> arrive in the future.\<close>

definition coming :: "'z io_scheme \<Rightarrow> nat \<Rightarrow> bytes \<Rightarrow> bytes" where
  "coming s c later = (case oc_input (os s c) of None \<Rightarrow> wire (os s c) @ later
     | Some i \<Rightarrow> drop (ignoreBytes i) (unread i @ wire (os s c) @ later))"

lemma coming_cong:
  "oc_input (os s c) = oc_input (os t c) \<Longrightarrow> wire (os s c) = wire (os t c) \<Longrightarrow> coming s c l = coming t c l"
  by (simp only: coming_def)

definition to_ignore :: "'z io_scheme \<Rightarrow> nat \<Rightarrow> nat" where
  "to_ignore s c = (case oc_input (os s c) of None \<Rightarrow> 0 | Some i \<Rightarrow> ignoreBytes i)"

lemma next_available:
  assumes "io_ok big s"
  shows "\<exists>s1. NextAvailableInput c s = Some s1 \<and> io_ok big s1 \<and> AvailableInput s1 = None
    \<and> oc_input (os s1 c) = oc_input (os s c) \<and> (\<forall>d l. coming s1 d l = coming s d l) \<and> cio s1 = cio s
    \<and> sclients s1 = sclients s \<and> (\<forall>d. wire (os s1 d) = wire (os s d))"
proof (cases "AvailableInput s")
  case None
  then show ?thesis using assms by (simp add: NextAvailableInput_def)
next
  case (Some d)
  then obtain i where i: "oc_input (os s d) = Some i" "unread i = []" "ignoreBytes i = 0" using assms by (auto simp: io_ok_def)
  show ?thesis
  proof (cases "d = c")
    case True
    have "coming (s\<lparr>AvailableInput := None\<rparr>) e l = coming s e l" for e l by (rule coming_cong) simp_all
    then show ?thesis using assms Some True by (simp add: NextAvailableInput_def io_ok_def)
  next
    case False
    define s1 where "s1 = (if inp_size i > BUFWATERMARK then s else s\<lparr>FreeInputs := i # FreeInputs s\<rparr>)"
    define s2 where "s2 = (set_input d None s1)\<lparr>AvailableInput := None\<rparr>"
    have run: "NextAvailableInput c s = Some s2" using Some False i(1) by (simp add: NextAvailableInput_def s1_def s2_def Let_def)
    have "io_ok big s2" using assms i by (auto simp: s2_def s1_def io_ok_def io_defs)
    moreover have "coming s2 e l = coming s e l" for e l
    proof (cases "e = d")
      case True
      then show ?thesis using i by (simp add: s2_def s1_def coming_def io_defs)
    next
      case False
      then show ?thesis by (intro coming_cong) (simp_all add: s2_def s1_def io_defs)
    qed
    ultimately show ?thesis using run False by (simp add: s2_def s1_def io_defs)
  qed
qed

definition buffered :: "'z io_scheme \<Rightarrow> nat \<Rightarrow> bytes" where
  "buffered s c = (case oc_input (os s c) of None \<Rightarrow> [] | Some i \<Rightarrow> unread i)"

definition input_view :: "'z io_scheme \<Rightarrow> _" where
  "input_view s = ((\<lambda>d. oc_input (os s d)), (\<lambda>d. wire (os s d)), FreeInputs s, AvailableInput s, (\<lambda>d. swapped (cio s d)),
     (\<lambda>d. big_requests (cio s d)), sclients s, (\<lambda>d. osPrivate (cio s d)))"

lemma read_fd_view: "input_view (snd (ReadFdFromClient c s)) = input_view s"
  by (simp add: ReadFdFromClient_def input_view_def set_cio_def set_os_def fun_eq_iff Let_def split: list.split)

lemma discard_view: "input_view (discard_fds n c s) = input_view s"
proof (induction n arbitrary: s)
  case (Suc n)
  have "input_view (io_log e t) = input_view t" for e and t :: "'a io_scheme"
    by (simp add: input_view_def io_log_def)
  then show ?case using Suc.IH read_fd_view [of c s] by (simp add: case_prod_unfold Let_def)
qed simp

lemma input_viewD:
  assumes "input_view s = input_view t"
  shows "oc_input (os s d) = oc_input (os t d)" "wire (os s d) = wire (os t d)" "FreeInputs s = FreeInputs t"
    "AvailableInput s = AvailableInput t" "swapped (cio s d) = swapped (cio t d)" "big_requests (cio s d) = big_requests (cio t d)"
    "sclients s = sclients t" "osPrivate (cio s d) = osPrivate (cio t d)"
  using assms by (simp_all add: input_view_def fun_eq_iff)

text \<open>One call of \<open>ReadRequestFromClient\<close> on a state that is in order.\<close>

definition request_seen :: "'z io_scheme \<Rightarrow> nat \<Rightarrow> nat \<Rightarrow> bytes" where
  "request_seen s c n = (case oc_input (os s c) of None \<Rightarrow> [] | Some i \<Rightarrow> take n (drop (requestBuffer (cio s c)) (buffer i)))"

definition read_ok :: "iokernel \<Rightarrow> nat \<Rightarrow> 'z io_scheme \<Rightarrow> nat \<Rightarrow> bytes \<Rightarrow> int \<Rightarrow> 'z io_scheme \<Rightarrow> bool" where
  "read_ok env big s c later r s' \<longleftrightarrow> (let cl = cio s c; st = coming s c later in
       r = -1 \<and> may_fail env s c \<and> (to_ignore s c = 0 \<longrightarrow> \<not> complete cl (buffered s c))
     \<or> r = 0 \<and> coming s' c later = st
        \<and> (to_ignore s c = 0 \<longrightarrow> to_ignore s' c = 0 \<and> \<not> complete cl (buffered s' c)
             \<and> (read_ans env = ReadWouldBlock \<or> length (wire (os s' c)) < length (wire (os s c))))
     \<or> r = int (request_bytes cl st) \<and> header_complete cl st \<and> coming s' c later = drop (request_bytes cl st) st
        \<and> (request_bytes cl st \<le> 4 * big \<longrightarrow> request_bytes cl st \<le> length st
             \<and> request_seen s' c (length (delivered cl st)) = delivered cl st
             \<and> (\<exists>i. oc_input (os s' c) = Some i \<and> requestBuffer (cio s' c) = bufptr i
                  \<and> lenLastReq i = length (delivered cl st) \<and> ignoreBytes i = 0 \<and> (snd (header cl st) \<longrightarrow> 4 \<le> bufptr i))
             \<and> req_len (cio s' c) = fst (header cl st) - (if snd (header cl st) then 1 else 0)))"

lemma outcome_read_ok:
  assumes "outcome F R big c (cio s c) (to_ignore s c) (coming s c later) later r s'"
    and F: "F \<Longrightarrow> may_fail env s c \<and> (to_ignore s c = 0 \<longrightarrow> \<not> complete (cio s c) (buffered s c))"
    and R: "\<And>w. R w \<Longrightarrow> read_ans env = ReadWouldBlock \<or> length w < length (wire (os s c))"
  shows "read_ok env big s c later r s'"
proof -
  define cl where "cl = cio s c"
  define st where st: "st = coming s c later"
  obtain i where i: "oc_input (os s' c) = Some i" and k:
    "r = -1 \<and> F
     \<or> r = 0 \<and> drop (ignoreBytes i) (unread i @ wire (os s' c) @ later) = st
       \<and> (to_ignore s c = 0 \<longrightarrow> ignoreBytes i = 0 \<and> \<not> complete cl (unread i) \<and> R (wire (os s' c)))
     \<or> header_complete cl st \<and> r = int (request_bytes cl st)
       \<and> drop (ignoreBytes i) (unread i @ wire (os s' c) @ later) = drop (request_bytes cl st) st
       \<and> (request_bytes cl st \<le> 4 * big \<longrightarrow> request_bytes cl st \<le> length st
            \<and> take (length (delivered cl st)) (drop (requestBuffer (cio s' c)) (buffer i)) = delivered cl st
            \<and> requestBuffer (cio s' c) = bufptr i \<and> lenLastReq i = length (delivered cl st) \<and> ignoreBytes i = 0 \<and> (snd (header cl st) \<longrightarrow> 4 \<le> bufptr i)
            \<and> req_len (cio s' c) = fst (header cl st) - (if snd (header cl st) then 1 else 0))"
    using assms(1) [unfolded outcome_def, folded cl_def st] by (elim exE conjE) (rule that; assumption)
  have v: "coming s' c later = drop (ignoreBytes i) (unread i @ wire (os s' c) @ later)" "to_ignore s' c = ignoreBytes i"
    "buffered s' c = unread i" "\<And>n. request_seen s' c n = take n (drop (requestBuffer (cio s' c)) (buffer i))"
    using i by (simp_all add: coming_def to_ignore_def buffered_def request_seen_def)
  show ?thesis
    unfolding read_ok_def Let_def cl_def [symmetric] st [symmetric] v
    using k
  proof (elim disjE)
    assume "r = -1 \<and> F"
    then show "r = -1 \<and> may_fail env s c \<and> (to_ignore s c = 0 \<longrightarrow> \<not> complete cl (buffered s c)) \<or> X" for X
      using F by (simp add: cl_def)
  next
    assume a: "r = 0 \<and> drop (ignoreBytes i) (unread i @ wire (os s' c) @ later) = st
       \<and> (to_ignore s c = 0 \<longrightarrow> ignoreBytes i = 0 \<and> \<not> complete cl (unread i) \<and> R (wire (os s' c)))"
    show "X \<or> r = 0 \<and> drop (ignoreBytes i) (unread i @ wire (os s' c) @ later) = st
        \<and> (to_ignore s c = 0 \<longrightarrow> ignoreBytes i = 0 \<and> \<not> complete cl (unread i)
             \<and> (read_ans env = ReadWouldBlock \<or> length (wire (os s' c)) < length (wire (os s c)))) \<or> Y" for X Y
      by (intro disjI2 [OF disjI1]) (use a R in blast)
  next
    assume a: "header_complete cl st \<and> r = int (request_bytes cl st)
       \<and> drop (ignoreBytes i) (unread i @ wire (os s' c) @ later) = drop (request_bytes cl st) st
       \<and> (request_bytes cl st \<le> 4 * big \<longrightarrow> request_bytes cl st \<le> length st
            \<and> take (length (delivered cl st)) (drop (requestBuffer (cio s' c)) (buffer i)) = delivered cl st
            \<and> requestBuffer (cio s' c) = bufptr i \<and> lenLastReq i = length (delivered cl st) \<and> ignoreBytes i = 0 \<and> (snd (header cl st) \<longrightarrow> 4 \<le> bufptr i)
            \<and> req_len (cio s' c) = fst (header cl st) - (if snd (header cl st) then 1 else 0))"
    show "X \<or> Y \<or> r = int (request_bytes cl st) \<and> header_complete cl st
        \<and> drop (ignoreBytes i) (unread i @ wire (os s' c) @ later) = drop (request_bytes cl st) st
        \<and> (request_bytes cl st \<le> 4 * big \<longrightarrow> request_bytes cl st \<le> length st
             \<and> take (length (delivered cl st)) (drop (requestBuffer (cio s' c)) (buffer i)) = delivered cl st
             \<and> (\<exists>i. oc_input (os s' c) = Some i \<and> requestBuffer (cio s' c) = bufptr i
                  \<and> lenLastReq i = length (delivered cl st) \<and> ignoreBytes i = 0 \<and> (snd (header cl st) \<longrightarrow> 4 \<le> bufptr i))
             \<and> req_len (cio s' c) = fst (header cl st) - (if snd (header cl st) then 1 else 0))" for X Y
      by (intro disjI2) (use a i in blast)
  qed
qed

lemma get_input_ok:
  assumes "io_ok big s" "AvailableInput s = None" "get_input env c (oc_input (os s c)) s = Some s2"
  shows "\<exists>i. oc_input (os s2 c) = Some i \<and> io_ok big s2 \<and> (\<forall>d l. coming s2 d l = coming s d l) \<and> cio s2 = cio s
    \<and> AvailableInput s2 = None \<and> ignoreBytes i = to_ignore s c \<and> wire (os s2 c) = wire (os s c) \<and> sclients s2 = sclients s \<and> unread i = buffered s c"
proof (cases "oc_input (os s c)")
  case (Some i)
  then show ?thesis using assms by (simp add: get_input_def to_ignore_def buffered_def)
next
  case None
  have new: ?thesis if n: "s2 = set_input c (Some i) (s\<lparr>FreeInputs := fi\<rparr>)" "set fi \<subseteq> set (FreeInputs s)"
      "input_ok big i" "unread i = []" "ignoreBytes i = 0" for i fi
  proof -
    have "io_ok big s2" using assms(1,2) n(2-) unfolding n(1) by (auto simp: io_ok_def io_defs)
    moreover have "coming s2 d l = coming s d l" for d l
    proof (cases "d = c")
      case True
      then show ?thesis using n(3-) None unfolding n(1) by (simp add: coming_def io_defs)
    next
      case False
      then show ?thesis by (intro coming_cong) (simp_all add: n(1) io_defs)
    qed
    ultimately show ?thesis using n(4,5) assms(2) None unfolding n(1) by (simp add: io_defs to_ignore_def buffered_def)
  qed
  show ?thesis
  proof (cases "FreeInputs s")
    case (Cons i fi)
    then have "input_ok big i \<and> unread i = [] \<and> ignoreBytes i = 0" using assms(1) by (auto simp: io_ok_def)
    then show ?thesis using new [of i fi] None assms(3) Cons by (auto simp: get_input_def)
  next
    case Nil
    then obtain i where i: "AllocateInputBuffer env = Some i" "s2 = set_input c (Some i) s"
      using None assms(3) by (auto simp: get_input_def)
    have "input_ok big i \<and> unread i = [] \<and> ignoreBytes i = 0"
      using i(1) assms(1)
      by (auto simp: AllocateInputBuffer_def input_ok_def in_ok_def next_input_def unread_def front_def junk_bytes_def io_ok_def
          split: if_splits)
    then show ?thesis using new [of i "FreeInputs s"] i(2) by simp
  qed
qed

lemma read_request_from_client:
  assumes ok: "io_ok big s" and pr: "to_ignore s c = 0 \<Longrightarrow> proper (cio s c) (coming s c later)"
  shows "\<exists>r s'. ReadRequestFromClient env big c s = Some (r, s') \<and> io_ok big s'
    \<and> (\<forall>d. d \<noteq> c \<longrightarrow> (\<forall>l. coming s' d l = coming s d l)) \<and> (\<forall>d. swapped (cio s' d) = swapped (cio s d))
    \<and> (\<forall>d. big_requests (cio s' d) = big_requests (cio s d)) \<and> (\<forall>d. osPrivate (cio s' d) = osPrivate (cio s d)) \<and> sclients s' = sclients s \<and> read_ok env big s c later r s'"
proof -
  obtain s1 where s1: "NextAvailableInput c s = Some s1" "io_ok big s1" "AvailableInput s1 = None" "oc_input (os s1 c) = oc_input (os s c)"
    "\<And>d l. coming s1 d l = coming s d l" "cio s1 = cio s" "sclients s1 = sclients s" "\<And>d. wire (os s1 d) = wire (os s d)"
    
    using next_available [OF ok, of c] by blast
  show ?thesis
  proof (cases "get_input env c (oc_input (os s c)) s1")
    case None
    have "ReadRequestFromClient env big c s = Some (-1, YieldControlDeath s1)"
      using s1(1) None by (simp add: ReadRequestFromClient_def)
    moreover have "io_ok big (YieldControlDeath s1)" using s1(2) by (simp add: io_ok_def YieldControlDeath_def)
    moreover have "coming (YieldControlDeath s1) d l = coming s d l" for d l
      using s1(5) [of d l] coming_cong [of "YieldControlDeath s1" d s1 l] by (simp add: YieldControlDeath_def)
    moreover have "may_fail env s c" using None by (auto simp: get_input_def AllocateInputBuffer_def may_fail_def split: option.splits list.splits if_splits)
    moreover have "\<not> complete (cio s c) (buffered s c)"
      using None by (auto simp: get_input_def buffered_def complete_def header_complete_def split: option.splits list.splits)
    ultimately show ?thesis using s1(6,7) by (simp add: read_ok_def Let_def YieldControlDeath_def)
  next
    case (Some s2)
    obtain i where i: "oc_input (os s2 c) = Some i" "io_ok big s2" "\<And>d l. coming s2 d l = coming s1 d l" "cio s2 = cio s1"
      "AvailableInput s2 = None" "ignoreBytes i = to_ignore s1 c" "wire (os s2 c) = wire (os s1 c)" "sclients s2 = sclients s1"
      "unread i = buffered s1 c"
      using get_input_ok [OF s1(2,3) Some [folded s1(4)]] by blast
    define s3 where "s3 = discard_fds (req_fds (cio s2 c)) c s2"
    note v = input_viewD [OF discard_view [of "req_fds (cio s2 c)" c s2], folded s3_def]
    have run: "ReadRequestFromClient env big c s = read_request env big c i s3"
      using s1(1) Some i(1) v(1) by (simp add: ReadRequestFromClient_def s3_def [symmetric] Let_def)
    have ok3: "io_ok big s3" using i(2) by (simp add: io_ok_def v)
    have c3: "coming s3 d l = coming s d l" for d l
    proof -
      have "coming s3 d l = coming s2 d l" by (rule coming_cong) (simp_all add: v)
      then show ?thesis using i(3) s1(5) by simp
    qed
    have cl3: "swapped (cio s3 c) = swapped (cio s c)" "big_requests (cio s3 c) = big_requests (cio s c)"
      using v(5,6) i(4) s1(6) by simp_all
    have ti: "to_ignore s c = ignoreBytes i" using i(6) s1(4) by (simp add: to_ignore_def)
    have st: "drop (ignoreBytes i) (unread i @ wire (os s3 c) @ later) = coming s c later"
      using c3 [of c later] i(1) v(1) by (simp add: coming_def)
    have av3: "AvailableInput s3 = None" using i(5) v(4) by simp
    have "ignoreBytes i = 0 \<Longrightarrow> proper (cio s3 c) (unread i @ wire (os s3 c) @ later)"
      using pr ti st proper_cong(1) [OF cl3] by simp
    moreover have "input_ok big i" using i(1,2) by (auto simp: io_ok_def)
    moreover define R where "R = (\<lambda>w :: bytes. read_ans env = ReadWouldBlock \<or> length w < length (wire (os s c)))"
    moreover have w3: "wire (os s3 c) = wire (os s c)" using i(7) v(2) s1(8) by simp
    define F where "F \<longleftrightarrow> may_fail env s c \<and> (to_ignore s c = 0 \<longrightarrow> \<not> complete (cio s c) (buffered s c))"
    have ub: "unread i = buffered s c" using i(9) s1(4) by (simp add: buffered_def)
    have F3: "may_fail env s3 c \<Longrightarrow> (ignoreBytes i = 0 \<Longrightarrow> \<not> complete (cio s3 c) (unread i)) \<Longrightarrow> F"
      using w3 v(7) i(8) s1(7) ti ub complete_cong [OF cl3] by (simp add: may_fail_def F_def)
    moreover have R3: "read_ans env = ReadWouldBlock \<Longrightarrow> R (wire (os s3 c))" "\<And>w. length w < length (wire (os s3 c)) \<Longrightarrow> R w"
      using w3 by (simp_all add: R_def)
    ultimately obtain r s' where r: "read_request env big c i s3 = Some (r, s')" "untouched c s3 s'"
      "outcome F R big c (cio s3 c) (ignoreBytes i) (coming s c later) later r s'"
      using read_request_ok [where R = R, OF _ av3 _ F3 R3, of big i later] st by metis
    have o: "outcome F R big c (cio s c) (ignoreBytes i) (coming s c later) later r s'" using r(3) outcome_cong [OF cl3] by blast
    then obtain j where j: "oc_input (os s' c) = Some j" "input_ok big j" "AvailableInput s' \<in> {None, Some c}"
      "AvailableInput s' = Some c \<Longrightarrow> unread j = [] \<and> ignoreBytes j = 0" by (auto simp: outcome_def)
    have "io_ok big s'"
      unfolding io_ok_def
    proof (intro conjI allI impI)
      show "input_ok big k" if "oc_input (os s' d) = Some k" for d k
        using that j(1,2) r(2) ok3 by (cases "d = c") (auto simp: untouched_def io_ok_def)
      show "\<forall>k \<in> set (FreeInputs s'). input_ok big k \<and> unread k = [] \<and> ignoreBytes k = 0"
        using r(2) ok3 by (simp add: untouched_def io_ok_def)
      show "\<exists>k. oc_input (os s' d) = Some k \<and> unread k = [] \<and> ignoreBytes k = 0" if "AvailableInput s' = Some d" for d
        using that j by auto
    qed (use ok3 in \<open>simp_all add: io_ok_def\<close>)
    moreover have "coming s' d l = coming s d l" if "d \<noteq> c" for d l
    proof -
      have "coming s' d l = coming s3 d l" by (rule coming_cong) (use r(2) that in \<open>simp_all add: untouched_def\<close>)
      then show ?thesis using c3 by simp
    qed
    moreover have "swapped (cio s' d) = swapped (cio s d)" "big_requests (cio s' d) = big_requests (cio s d)"
      "osPrivate (cio s' d) = osPrivate (cio s d)" for d
      using r(2) v(5,6,8) i(4) s1(6) by (cases "d = c", simp_all add: untouched_def)+
    moreover have "sclients s' = sclients s" using r(2) v(7) i(8) s1(7) by (simp add: untouched_def)
    moreover have "read_ok env big s c later r s'"
      by (rule outcome_read_ok [OF o [folded ti]]) (simp_all add: F_def R_def)
    ultimately show ?thesis using run r(1) by simp
  qed
qed

end
