(* ===== verification/Requests.thy ===== *)
theory Requests
  imports Client_IO
begin

text \<open>
  Requests in the input buffers of \<open>xserver/os/io.c\<close>: putting a request in front of the others, running
  the current request again, giving up a client, and the requests a client sees answered over a whole run.
\<close>

section \<open>Putting a request in front and running one again\<close>

definition request_there :: "client_io \<Rightarrow> nat \<Rightarrow> ConnectionInput \<Rightarrow> bool option" where
  "request_there cl got i =
     (if got < 4 then Some False else map_option (\<lambda>w. got \<ge> 4 * w) (get16 (swapped cl) (buffer i) (bufptr i + 2)))"

text \<open>The bytes go right in front of those not read yet; \<open>Inl\<close> when the buffer cannot grow.\<close>

definition splice :: "iokernel \<Rightarrow> bytes \<Rightarrow> ConnectionInput \<Rightarrow> (ConnectionInput + ConnectionInput) option" where
  "splice env bs i0 =
     (let i = i0\<lparr>bufptr := bufptr i0 + lenLastReq i0, lenLastReq := 0\<rparr>;
          got = bufcnt i - bufptr i;
          n = length bs
      in if got + n > inp_size i \<and> \<not> realloc_ok env then Some (Inl i)
         else do {
           let i1 = (if got + n > inp_size i
                     then i\<lparr>inp_size := got + n, buffer := buffer i @ junk_bytes env (got + n - length (buffer i))\<rparr> else i);
           let moveup = n - bufptr i1;
           b \<leftarrow> (if moveup > 0 \<and> got > 0 then memmove (buffer i1) (bufptr i1 + moveup) (bufptr i1) got else Some (buffer i1));
           b' \<leftarrow> wr_bytes b (bufptr i1 + moveup - n) bs;
           Some (Inr (i1\<lparr>buffer := b', bufptr := bufptr i1 + moveup - n, bufcnt := bufcnt i1 + moveup\<rparr>)) })"

definition InsertFakeRequest :: "iokernel \<Rightarrow> nat \<Rightarrow> bytes \<Rightarrow> 'z io_scheme \<Rightarrow> (bool \<times> 'z io_scheme) option" where
  "InsertFakeRequest env c bs s = do {
     s1 \<leftarrow> NextAvailableInput c s;
     case get_input env c (oc_input (os s c)) s1 of
       None \<Rightarrow> Some (False, s1)
     | Some s2 \<Rightarrow> do {
         i0 \<leftarrow> oc_input (os s2 c);
         r \<leftarrow> splice env bs i0;
         case r of
           Inl i \<Rightarrow> Some (False, set_input c (Some i) s2)
         | Inr i \<Rightarrow> do {
             let s3 = set_input c (Some i) s2;
             there \<leftarrow> request_there (cio s3 c) (bufcnt i0 - (bufptr i0 + lenLastReq i0) + length bs) i;
             Some (True, if there then mark_client_ready c s3 else YieldControlNoInput c s3) } } }"

text \<open>The long header of a big request is put back, with the length the client record holds.\<close>

definition big_header :: "client_io \<Rightarrow> ConnectionInput \<Rightarrow> ConnectionInput option" where
  "big_header cl i =
     (if bufptr i < 4 then None
      else do {
        h \<leftarrow> rd_bytes (buffer i) (bufptr i) 4;
        b \<leftarrow> wr_bytes (buffer i) (bufptr i - 4) h;
        b' \<leftarrow> wr_bytes b (bufptr i) (card32 (swapped cl) (req_len cl));
        Some (i\<lparr>buffer := b', bufptr := bufptr i - 4\<rparr>) })"

definition ResetCurrentRequest :: "nat \<Rightarrow> 'z io_scheme \<Rightarrow> 'z io_scheme option" where
  "ResetCurrentRequest c s =
     (if \<not> osPrivate (cio s c) then Some s
      else do {
        i0 \<leftarrow> oc_input (os s c);
        let cl = cio s c;
        let s0 = (if AvailableInput s = Some c then s\<lparr>AvailableInput := None\<rparr> else s);
        let i = i0\<lparr>lenLastReq := 0\<rparr>;
        let got = int (bufcnt i) - int (bufptr i);
        if 0 \<le> got \<and> got < 4 then Some (YieldControlNoInput c (set_input c (Some i) s0))
        else do {
          needed \<leftarrow> get16 (swapped cl) (buffer i) (bufptr i + 2);
          i1 \<leftarrow> (if needed = 0 \<and> big_requests cl then big_header cl i else Some i);
          let s1 = set_input c (Some i1) s0;
          if got \<ge> int (4 * needed)
          then Some (YieldControl (if listen_to_client c s1 then mark_client_ready c s1 else s1))
          else Some (YieldControlNoInput c s1) } })"

text \<open>Ending the connection of a client.\<close>

definition CloseDownFileDescriptor :: "nat \<Rightarrow> 'z io_scheme \<Rightarrow> 'z io_scheme" where
  "CloseDownFileDescriptor c s =
     (if connected (sclients s c)
      then io_log (Disconnected c)
             ((set_sclient c (\<lambda>r. r\<lparr>connected := False\<rparr>) s)\<lparr>listening := (listening s)(c := False)\<rparr>)
      else s)"

definition AbortClient :: "nat \<Rightarrow> 'z io_scheme \<Rightarrow> 'z io_scheme" where
  "AbortClient c s = (if connected (sclients s c) then mark_client_ready c (CloseDownFileDescriptor c s) else s)"

text \<open>The schedule changes at most by making the client ready, and only if the server listens to it.\<close>

lemma reset_schedule_changes:
  assumes "ResetCurrentRequest c s = Some s'"
  shows "schedule s' = schedule s \<or> listen_to_client c s \<and> schedule s' = schedule (mark_client_ready c s)"
proof -
  have v: "schedule (YieldControlNoInput c t) = schedule t" "schedule (YieldControl t) = schedule t"
    "schedule (set_input c i t) = schedule t" for t :: "'a io_scheme" and i
    by (simp_all add: io_defs schedule_def Let_def)
  have m: "schedule (mark_client_ready c t) = schedule (mark_client_ready c s)" "listen_to_client c t = listen_to_client c s"
    if "schedule t = schedule s" for t
    using that by (simp_all add: schedule_def mark_client_ready_def client_is_ready_def listen_to_client_def)
  define s0 where "s0 = (if AvailableInput s = Some c then s\<lparr>AvailableInput := None\<rparr> else s)"
  have s0: "schedule s0 = schedule s" by (simp add: s0_def schedule_def)
  have m': "schedule (mark_client_ready c (set_input c i s0)) = schedule (mark_client_ready c s)"
    "listen_to_client c (set_input c i s0) = listen_to_client c s" for i
    by (rule m, simp only: v s0)+
  show ?thesis
    using assms unfolding ResetCurrentRequest_def Let_def s0_def [symmetric]
    by (auto simp: v m' s0 split: if_splits Option.bind_splits)
qed

text \<open>The two operations that make a client ready without asking whether the server listens to it.\<close>

lemma insert_schedule_changes:
  assumes "InsertFakeRequest env c bs s = Some (r, s')"
  shows "schedule s' = schedule s \<or> schedule s' = schedule (mark_client_ready c s)"
proof -
  have v: "schedule (YieldControlNoInput c t) = schedule t" "schedule (set_input c i t) = schedule t" for t :: "'a io_scheme" and i
    by (simp_all add: io_defs schedule_def Let_def)
  have m: "schedule (mark_client_ready c t) = schedule (mark_client_ready c s)" if "schedule t = schedule s" for t
    using that by (simp add: schedule_def mark_client_ready_def client_is_ready_def)
  obtain s1 where s1: "NextAvailableInput c s = Some s1" using assms by (auto simp: InsertFakeRequest_def split: Option.bind_splits)
  then have e1: "schedule s1 = schedule s"
    by (auto simp: NextAvailableInput_def io_defs schedule_def Let_def split: if_splits option.splits Option.bind_splits)
  show ?thesis
  proof (cases "get_input env c (oc_input (os s c)) s1")
    case None
    then show ?thesis using assms s1 e1 by (simp add: InsertFakeRequest_def)
  next
    case (Some s2)
    then have e2: "schedule s2 = schedule s"
      using e1 by (auto simp: get_input_def io_defs schedule_def Let_def split: if_splits option.splits list.splits Option.bind_splits)
    have e3: "schedule (mark_client_ready c (set_input c i s2)) = schedule (mark_client_ready c s)" for i
      by (rule m) (simp only: v e2)
    show ?thesis using assms s1 Some
      by (auto simp: InsertFakeRequest_def v e2 e3 Let_def split: Option.bind_splits sum.splits if_splits)
  qed
qed

lemma abort_schedule_changes:
  "schedule (AbortClient c s) = schedule s \<or> schedule (AbortClient c s) = schedule (mark_client_ready c (disconnect c s))"
  by (simp add: AbortClient_def CloseDownFileDescriptor_def io_log_def schedule_def mark_client_ready_def client_is_ready_def
      disconnect_def set_sclient_def)

definition pushes_in :: "nat \<Rightarrow> 'z io_scheme \<Rightarrow> 'z io_scheme \<Rightarrow> bool" where
  "pushes_in c s s' \<longleftrightarrow> s' = AbortClient c s \<or> (\<exists>env bs r. InsertFakeRequest env c bs s = Some (r, s'))"

interpretation io_reset: request_reset ResetCurrentRequest pushes_in
proof
  show "schedule s' = schedule s \<or> listen_to_client c s \<and> schedule s' = schedule (mark_client_ready c s)"
    if "ResetCurrentRequest c s = Some s'" for c and s s' :: "'a io_scheme"
    using that by (rule reset_schedule_changes)
  show "schedule s' \<in> {schedule s, schedule (mark_client_ready c s), schedule (mark_client_ready c (disconnect c s))}"
    if "pushes_in c s s'" for c and s s' :: "'a io_scheme"
    using that insert_schedule_changes [of _ c _ s _ s'] abort_schedule_changes [of c s] by (auto simp: pushes_in_def)
qed


section \<open>Putting a request in front\<close>

lemma move_up_ok:
  assumes ok: "in_ok big i" and got: "got = bufcnt i - bufptr i" and room: "got + n \<le> inp_size i" and mu: "mu = n - bufptr i"
  shows "\<exists>b. (if mu > 0 \<and> got > 0 then memmove (buffer i) (bufptr i + mu) (bufptr i) got else Some (buffer i)) = Some b
    \<and> length b = inp_size i \<and> take got (drop (bufptr i + mu) b) = front i"
proof -
  have l: "length (buffer i) = inp_size i" "length (front i) = got" using in_okD(1) [OF ok] length_front [OF ok] got by simp_all
  show ?thesis
  proof (cases "mu > 0 \<and> got > 0")
    case True
    have "rd_bytes (buffer i) (bufptr i) got = Some (front i)" using rd_bytes_front [OF ok, of 0 got] got l(2) by simp
    moreover have p: "bufptr i + mu = n" using True mu by simp
    moreover have "wr_bytes (buffer i) n (front i) = Some (take n (buffer i) @ front i @ drop (n + got) (buffer i))"
      using room l by (simp add: wr_bytes_def add.commute)
    ultimately show ?thesis using True room l by (simp add: memmove_def)
  next
    case False
    have "take got (drop (bufptr i + mu) (buffer i)) = front i"
    proof (cases "got = 0")
      case False
      then have "mu = 0" using \<open>\<not> (mu > 0 \<and> got > 0)\<close> by simp
      then show ?thesis by (simp add: front_def got)
    qed (use l(2) in simp)
    then show ?thesis using False l by auto
  qed
qed

lemma put_in_front:
  assumes "length b = inp_size i" "take got (drop (p + n) b) = front i" "length (front i) = got" "length bs = n" "p + n + got \<le> inp_size i"
  shows "\<exists>b'. wr_bytes b p bs = Some b' \<and> length b' = inp_size i \<and> take (n + got) (drop p b') = bs @ front i"
proof -
  have "wr_bytes b p bs = Some (take p b @ bs @ drop (p + n) b)" using assms by (simp add: wr_bytes_def)
  moreover have "length (take p b) = p" using assms by simp
  ultimately show ?thesis using assms by simp
qed

lemma grow_ok:
  fixes env :: iokernel
  assumes ok: "in_ok big i" and n: "n \<le> 4 * big"
  defines "j \<equiv> i\<lparr>inp_size := n, buffer := buffer i @ junk_bytes env (n - length (buffer i))\<rparr>"
  shows "n > inp_size i \<Longrightarrow> in_ok big j \<and> front j = front i"
  using in_okD [OF ok] n by (simp add: j_def in_ok_def junk_bytes_def front_def)

lemma splice_ok:
  assumes ok: "input_ok big i0" and ig: "ignoreBytes i0 = 0" and fits: "length (unread i0) + length bs \<le> 4 * big"
  shows "(\<exists>j. splice env bs i0 = Some (Inl j) \<and> \<not> realloc_ok env \<and> in_ok big j \<and> front j = unread i0 \<and> lenLastReq j = 0 \<and> ignoreBytes j = 0)
    \<or> (\<exists>j. splice env bs i0 = Some (Inr j) \<and> in_ok big j \<and> front j = bs @ unread i0 \<and> lenLastReq j = 0 \<and> ignoreBytes j = 0)"
proof -
  define i where "i = i0\<lparr>bufptr := bufptr i0 + lenLastReq i0, lenLastReq := 0\<rparr>"
  have i: "in_ok big i" "front i = unread i0" "lenLastReq i = 0" "ignoreBytes i = 0"
    using ok ig by (auto simp: i_def input_ok_def in_ok_def next_input_def unread_def front_def)
  define got where "got = bufcnt i - bufptr i"
  have lf: "length (front i) = got" using length_front [OF i(1)] by (simp add: got_def)
  define n where "n = length bs"
  define i1 where "i1 = (if got + n > inp_size i
    then i\<lparr>inp_size := got + n, buffer := buffer i @ junk_bytes env (got + n - length (buffer i))\<rparr> else i)"
  have run: "splice env bs i0 = (if got + n > inp_size i \<and> \<not> realloc_ok env then Some (Inl i)
     else do {
       b \<leftarrow> (if n - bufptr i1 > 0 \<and> got > 0 then memmove (buffer i1) (bufptr i1 + (n - bufptr i1)) (bufptr i1) got else Some (buffer i1));
       b' \<leftarrow> wr_bytes b (bufptr i1 + (n - bufptr i1) - n) bs;
       Some (Inr (i1\<lparr>buffer := b', bufptr := bufptr i1 + (n - bufptr i1) - n, bufcnt := bufcnt i1 + (n - bufptr i1)\<rparr>)) })"
    unfolding splice_def Let_def i_def [symmetric] got_def [symmetric] n_def [symmetric] i1_def [symmetric] by (rule refl)
  show ?thesis
  proof (cases "got + n > inp_size i \<and> \<not> realloc_ok env")
    case True
    then show ?thesis using run i by auto
  next
    case False
    have fi: "got + n \<le> 4 * big" using fits i(2) lf by (simp add: n_def)
    have i1: "in_ok big i1" "front i1 = front i" "lenLastReq i1 = 0" "ignoreBytes i1 = 0" "bufcnt i1 = bufcnt i" "bufptr i1 = bufptr i"
      "got + n \<le> inp_size i1"
      using grow_ok [OF i(1) fi, of env] i(1,3,4) in_okD(1) [OF i(1)] by (auto simp: i1_def)
    define mu where "mu = n - bufptr i1"
    obtain b where b: "(if mu > 0 \<and> got > 0 then memmove (buffer i1) (bufptr i1 + mu) (bufptr i1) got else Some (buffer i1)) = Some b"
      "length b = inp_size i1" "take got (drop (bufptr i1 + mu) b) = front i1"
      using move_up_ok [OF i1(1) _ i1(7) mu_def] i1(5,6) by (auto simp: got_def)
    define p where "p = bufptr i1 + mu - n"
    have pn: "p + n = bufptr i1 + mu" by (simp add: p_def mu_def)
    have lim: "p + n + got \<le> inp_size i1"
      using i1(5-7) in_okD(2,3) [OF i1(1)] by (auto simp: pn mu_def got_def)
    obtain b' where b': "wr_bytes b p bs = Some b'" "length b' = inp_size i1" "take (n + got) (drop p b') = bs @ front i1"
      using put_in_front [OF b(2) b(3) [folded pn] lf [folded i1(2)] n_def [symmetric] lim] by blast
    define i2 where "i2 = i1\<lparr>buffer := b', bufptr := p, bufcnt := bufcnt i1 + mu\<rparr>"
    have cnt: "bufcnt i2 - bufptr i2 = n + got" "bufptr i2 \<le> bufcnt i2" "bufcnt i2 \<le> inp_size i2"
      using pn lim i1(5,6) in_okD(2) [OF i(1)] by (auto simp: i2_def got_def)
    have f2: "buffer i2 = b'" "bufptr i2 = p" "inp_size i2 = inp_size i1" "lenLastReq i2 = 0" "ignoreBytes i2 = 0"
      using i1(3,4) by (simp_all add: i2_def)
    have "in_ok big i2" unfolding in_ok_def using in_okD(4-6) [OF i1(1)] cnt(2,3) b'(2) unfolding f2 by simp
    moreover have "front i2 = bs @ front i" unfolding front_def [of i2] cnt(1) unfolding f2 b'(3) i1(2) by (rule refl)
    moreover have "splice env bs i0 = Some (Inr i2)"
      using False b(1) b'(1) unfolding run mu_def [symmetric] p_def [symmetric] i2_def by auto
    ultimately show ?thesis using f2 i(2) by simp
  qed
qed

lemma insert_fake_request:
  fixes s :: "'z io_scheme"
  assumes ok: "io_ok big s" and ti: "to_ignore s c = 0" and fits: "length (buffered s c) + length bs \<le> 4 * big"
  shows "\<exists>r s'. InsertFakeRequest env c bs s = Some (r, s') \<and> (r \<or> \<not> malloc_ok env \<or> \<not> realloc_ok env) \<and> io_ok big s'
    \<and> (\<forall>d l. coming s' d l = (if r \<and> d = c then bs else []) @ coming s d l) \<and> to_ignore s' c = 0"
proof -
  obtain s1 where s1: "NextAvailableInput c s = Some s1" "io_ok big s1" "AvailableInput s1 = None" "oc_input (os s1 c) = oc_input (os s c)"
    "\<And>d l. coming s1 d l = coming s d l"
    using next_available [OF ok, of c] by blast
  have b1: "buffered s1 c = buffered s c" "to_ignore s1 c = 0" using s1(4) ti by (simp_all add: buffered_def to_ignore_def)
  show ?thesis
  proof (cases "get_input env c (oc_input (os s c)) s1")
    case None
    then have "\<not> malloc_ok env" by (auto simp: get_input_def AllocateInputBuffer_def split: option.splits list.splits if_splits)
    moreover have "InsertFakeRequest env c bs s = Some (False, s1)" using s1(1) None by (simp add: InsertFakeRequest_def)
    ultimately show ?thesis using s1(2,5) b1(2) by auto
  next
    case (Some s2)
    obtain i0 where i0: "oc_input (os s2 c) = Some i0" "io_ok big s2" "\<And>d l. coming s2 d l = coming s1 d l" "AvailableInput s2 = None"
      "ignoreBytes i0 = 0" "unread i0 = buffered s c"
      using get_input_ok [OF s1(2,3) Some [folded s1(4)]] b1 by auto
    have new: "io_ok big (set_input c (Some j) s2) \<and> to_ignore (set_input c (Some j) s2) c = 0
        \<and> (\<forall>d l. coming (set_input c (Some j) s2) d l = (if d = c then front j @ wire (os s2 c) @ l else coming s d l))"
      if "in_ok big j" "lenLastReq j = 0" "ignoreBytes j = 0" for j
    proof -
      have u: "input_ok big j" "unread j = front j" using unread_front that(1,2) by auto
      have "io_ok big (set_input c (Some j) s2)" using i0(2,4) u(1) by (auto simp: io_ok_def io_defs)
      moreover have "coming (set_input c (Some j) s2) d l = coming s2 d l" if "d \<noteq> c" for d l
        using that by (intro coming_cong) (simp_all add: io_defs)
      ultimately show ?thesis using that(3) u(2) i0(3) s1(5) by (simp add: io_defs coming_def to_ignore_def)
    qed
    have c0: "coming s c l = unread i0 @ wire (os s2 c) @ l" for l
    proof -
      have "coming s2 c l = unread i0 @ wire (os s2 c) @ l" using i0(1,5) by (simp add: coming_def)
      then show ?thesis using i0(3) s1(5) by simp
    qed
    have i0ok: "input_ok big i0" "length (unread i0) + length bs \<le> 4 * big" using i0(1,2,6) fits by (auto simp: io_ok_def)
    from splice_ok [OF i0ok(1) i0(5) i0ok(2), of env] show ?thesis
    proof (elim disjE exE conjE)
      fix j assume j: "splice env bs i0 = Some (Inl j)" "\<not> realloc_ok env" "in_ok big j" "front j = unread i0" "lenLastReq j = 0" "ignoreBytes j = 0"
      then have "InsertFakeRequest env c bs s = Some (False, set_input c (Some j) s2)"
        using s1(1) Some i0(1) by (simp add: InsertFakeRequest_def)
      then show ?thesis using new [OF j(3,5,6)] j(2,4) c0 by auto
    next
      fix j assume j: "splice env bs i0 = Some (Inr j)" "in_ok big j" "front j = bs @ unread i0" "lenLastReq j = 0" "ignoreBytes j = 0"
      define s3 where "s3 = set_input c (Some j) s2"
      define g where "g = bufcnt i0 - (bufptr i0 + lenLastReq i0) + length bs"
      have "length (front j) = g"
        using length_front [of big "next_input i0"] i0ok(1) j(3) by (simp add: g_def unread_def input_ok_def next_input_def)
      then have g: "g = bufcnt j - bufptr j" using length_front [OF j(2)] by simp
      have "request_there (cio s3 c) g j \<noteq> None"
        using rd_bytes_front [OF j(2), of 2 2] g by (auto simp: request_there_def get16_def)
      then obtain t where t: "request_there (cio s3 c) g j = Some t" by blast
      define s' where "s' = (if t then mark_client_ready c s3 else YieldControlNoInput c s3)"
      have run: "InsertFakeRequest env c bs s = Some (True, s')"
        using s1(1) Some i0(1) j(1) t by (simp add: InsertFakeRequest_def s3_def s'_def g_def Let_def)
      have same: "os s' = os s3" "FreeInputs s' = FreeInputs s3" "AvailableInput s' = AvailableInput s3"
        by (simp_all add: s'_def mark_client_ready_def io_defs Let_def)
      have v: "coming s' d l = coming s3 d l" "to_ignore s' c = to_ignore s3 c" "io_ok big s' = io_ok big s3" for d l
        unfolding coming_def to_ignore_def io_ok_def same by (rule refl)+
      note n = new [OF j(2,4,5), folded s3_def]
      have "coming s' d l = (if True \<and> d = c then bs else []) @ coming s d l" for d l
        using n j(3) c0 [of l] unfolding v by (cases "d = c") simp_all
      then show ?thesis using n v(2,3) by (intro exI [of _ True] exI [of _ s']) (simp add: run)
    qed
  qed
qed

section \<open>Running a request again\<close>

lemma big_header_ok:
  assumes ok: "in_ok big j" and f: "front j = f" "4 \<le> length f" and b4: "4 \<le> bufptr j"
  shows "\<exists>k. big_header cl j = Some k \<and> in_ok big k \<and> lenLastReq k = lenLastReq j \<and> ignoreBytes k = ignoreBytes j
    \<and> front k = take 4 f @ card32 (swapped cl) (req_len cl) @ drop 4 f"
proof -
  define got where "got = bufcnt j - bufptr j"
  have g: "length f = got" using length_front [OF ok] f(1) by (simp add: got_def)
  define p where "p = bufptr j - 4"
  define cw where "cw = card32 (swapped cl) (req_len cl)"
  have cw: "length cw = 4" by (simp add: cw_def card32_def Let_def)
  have p: "bufptr j = p + 4" "p + 4 + got = bufcnt j" "bufcnt j \<le> length (buffer j)"
    using b4 in_okD(1-3) [OF ok] by (simp_all add: p_def got_def)
  have h: "rd_bytes (buffer j) (bufptr j) 4 = Some (take 4 f)"
    using rd_bytes_front [OF ok, of 0 4] f g by (simp add: got_def)
  have h4: "length (take 4 f) = 4" using f(2) by simp
  define b where "b = take p (buffer j) @ take 4 f @ drop (p + 4) (buffer j)"
  have b: "wr_bytes (buffer j) p (take 4 f) = Some b" "length b = length (buffer j)"
    using p h4 by (simp_all add: wr_bytes_def b_def)
  define b' where "b' = take (p + 4) b @ cw @ drop (p + 8) b"
  have b': "wr_bytes b (bufptr j) cw = Some b'" "length b' = length (buffer j)"
    using p f(2) g b(2) cw by (simp_all add: wr_bytes_def b'_def add.commute)
  have "take (p + 4) b = take p (buffer j) @ take 4 f" using p h4 by (simp add: b_def)
  moreover have "drop (p + 8) b = drop (p + 8) (buffer j)" using p h4 by (simp add: b_def add.commute)
  ultimately have be: "b' = take p (buffer j) @ take 4 f @ cw @ drop (p + 8) (buffer j)" by (simp add: b'_def)
  have ln: "length (take p (buffer j)) = p" using p by simp
  have "drop p b' = take 4 f @ cw @ drop (p + 8) (buffer j)" unfolding be using ln by simp
  moreover have "bufcnt j - p = 8 + (got - 4)" using p(2) f(2) g by simp
  moreover have "take (8 + (got - 4)) (take 4 f @ cw @ x) = take 4 f @ cw @ take (got - 4) x" for x
    using h4 cw by (simp add: take_add)
  moreover have "take (got - 4) (drop (p + 8) (buffer j)) = drop 4 f"
  proof -
    have fe: "f = take got (drop (p + 4) (buffer j))" using f(1) p(1) by (simp add: front_def got_def)
    have "drop 4 (take n (drop (q + 4) xs)) = take (n - 4) (drop (q + 8) xs)" for n q and xs :: bytes
      by (simp add: drop_take add.commute)
    from this [of got p "buffer j"] show ?thesis unfolding fe [symmetric] by (rule sym)
  qed
  ultimately have fin: "take (bufcnt j - p) (drop p b') = take 4 f @ cw @ drop 4 f" by simp
  define k where "k = j\<lparr>buffer := b', bufptr := p\<rparr>"
  have k: "buffer k = b'" "bufptr k = p" "bufcnt k = bufcnt j" "inp_size k = inp_size j" by (simp_all add: k_def)
  have "front k = take 4 f @ cw @ drop 4 f" unfolding front_def [of k] k by (rule fin)
  moreover have "in_ok big k" using in_okD [OF ok] p(1) b'(2) unfolding in_ok_def k by simp
  moreover have "big_header cl j = Some k" using b4 h b(1) b'(1) unfolding p_def by (simp add: big_header_def k_def p_def cw_def)
  ultimately show ?thesis by (intro exI [of _ k]) (simp add: k_def cw_def)
qed

lemma reset_stream_ok:
  fixes s :: "'z io_scheme"
  assumes ok: "io_ok big s" and os: "osPrivate (cio s c)" and i: "oc_input (os s c) = Some i" "ignoreBytes i = 0"
    and f: "front i = f" "4 \<le> length f" and big: "is_big = (num (swapped (cio s c)) (take 2 (drop 2 f)) = 0 \<and> big_requests (cio s c))"
    "is_big \<Longrightarrow> 4 \<le> bufptr i"
  shows "\<exists>s'. ResetCurrentRequest c s = Some s' \<and> io_ok big s' \<and> to_ignore s' c = 0
    \<and> coming s' c l = (if is_big then take 4 f @ card32 (swapped (cio s c)) (req_len (cio s c)) @ drop 4 f else f) @ wire (os s c) @ l
    \<and> (\<forall>d l. d \<noteq> c \<longrightarrow> coming s' d l = coming s d l) \<and> cio s' = cio s"
proof -
  define cl where "cl = cio s c"
  define s0 where "s0 = (if AvailableInput s = Some c then s\<lparr>AvailableInput := None\<rparr> else s)"
  define j where "j = i\<lparr>lenLastReq := 0\<rparr>"
  have "input_ok big i" using ok i(1) by (simp add: io_ok_def)
  then have j: "in_ok big j" "front j = f" "lenLastReq j = 0" "ignoreBytes j = 0" "bufptr j = bufptr i"
    using f(1) i(2) by (auto simp: j_def input_ok_def in_ok_def next_input_def front_def)
  define got where "got = bufcnt j - bufptr j"
  have g: "length f = got" using length_front [OF j(1)] j(2) by (simp add: got_def)
  have gi: "int (bufcnt j) - int (bufptr j) = int got" using in_okD(2) [OF j(1)] by (simp add: got_def of_nat_diff)
  have g4: "\<not> (0 \<le> int got \<and> int got < 4)" using f(2) g by simp
  define needed where "needed = num (swapped cl) (take 2 (drop 2 f))"
  have nd: "get16 (swapped cl) (buffer j) (bufptr j + 2) = Some needed"
    using rd_bytes_front [OF j(1), of 2 2] f(2) g j(2) by (simp add: get16_def needed_def got_def)
  have bg: "(needed = 0 \<and> big_requests cl) = is_big" using big(1) by (simp add: needed_def cl_def)
  obtain k where k: "(if is_big then big_header cl j else Some j) = Some k" "in_ok big k" "lenLastReq k = 0" "ignoreBytes k = 0"
    "front k = (if is_big then take 4 f @ card32 (swapped cl) (req_len cl) @ drop 4 f else f)"
    using big_header_ok [OF j(1,2) f(2), of cl] big(2) j by (cases is_big) auto
  define s1 where "s1 = set_input c (Some k) s0"
  define s' where "s' = (if int got \<ge> int (4 * needed) then YieldControl (if listen_to_client c s1 then mark_client_ready c s1 else s1)
    else YieldControlNoInput c s1)"
  have osc: "osPrivate cl" using os by (simp add: cl_def)
  have "ResetCurrentRequest c s = (if int got \<ge> int (4 * needed)
      then Some (YieldControl (if listen_to_client c s1 then mark_client_ready c s1 else s1))
      else Some (YieldControlNoInput c s1))"
    unfolding ResetCurrentRequest_def Let_def cl_def [symmetric] i(1) bind.bind_lunit s0_def [symmetric] j_def [symmetric] gi
      if_not_P [OF g4] nd bg k(1) s1_def [symmetric]
    by (simp only: osc not_True_eq_False if_False)
  then have R: "ResetCurrentRequest c s = Some s'" by (simp add: s'_def)
  have same: "os s' = os s1" "FreeInputs s' = FreeInputs s" "AvailableInput s' = AvailableInput s0" "cio s' = cio s"
    by (simp_all add: s'_def s1_def s0_def mark_client_ready_def io_defs Let_def)
  have u: "input_ok big k" "unread k = front k" using unread_front k(2,3) by auto
  have o1: "os s1 d = (if d = c then (os s c)\<lparr>oc_input := Some k\<rparr> else os s d)" for d by (simp add: s1_def s0_def io_defs)
  have "io_ok big s'" using ok u(1) by (auto simp: io_ok_def same o1 s0_def split: if_splits)
  moreover have "coming s' d l = coming s d l" if "d \<noteq> c" for d l
    using that by (intro coming_cong) (simp_all add: same o1)
  moreover have "to_ignore s' c = 0" using k(4) by (simp add: to_ignore_def same o1)
  moreover have "coming s' c l = front k @ wire (os s c) @ l" using k(4) u(2) by (simp add: coming_def same o1)
  ultimately show ?thesis using R k(5) same(4) by (simp add: cl_def)
qed

lemma front_split: "input_ok big i \<Longrightarrow> front i = take (lenLastReq i) (drop (bufptr i) (buffer i)) @ unread i"
proof -
  assume ok: "input_ok big i"
  then have "bufcnt i - bufptr i = lenLastReq i + (bufcnt i - (bufptr i + lenLastReq i))"
    by (simp add: input_ok_def in_ok_def next_input_def)
  then show ?thesis by (simp add: front_def unread_def next_input_def take_add add.commute)
qed

lemma delivered_bytes:
  fixes xs :: bytes
  assumes "header_complete cl st" "proper cl st" "request_bytes cl st \<le> length st"
  defines "f \<equiv> delivered cl st @ xs"
  shows "4 \<le> length f" "take 4 f = take 4 st" "snd (header cl st) = (num (swapped cl) (take 2 (drop 2 f)) = 0 \<and> big_requests cl)"
    "\<not> snd (header cl st) \<Longrightarrow> delivered cl st @ drop (request_bytes cl st) st = st"
    "snd (header cl st) \<Longrightarrow> drop 4 (delivered cl st @ drop (request_bytes cl st) st) = drop 8 st"
proof -
  define n where "n = request_bytes cl st"
  have n4: "4 \<le> n" by (simp add: n_def request_bytes_def)
  have n8: "snd (header cl st) \<Longrightarrow> 8 \<le> n" using assms(1,2) by (auto simp: n_def request_bytes_def proper_def)
  have l: "n \<le> length st" using assms(3) by (simp add: n_def)
  have d: "delivered cl st = (if snd (header cl st) then take 4 st @ drop 8 (take n st) else take n st)"
    using n4 by (simp add: delivered_def n_def [symmetric] Let_def min_def)
  have dl: "4 \<le> length (delivered cl st)" using d n4 n8 l by auto
  show "4 \<le> length f" using dl by (simp add: f_def)
  have t: "take 4 (delivered cl st) = take 4 st" using d n4 l by (auto simp: min_def)
  then show tf: "take 4 f = take 4 st" using dl by (simp add: f_def)
  have "take 2 (drop 2 f) = take 2 (drop 2 (take 4 f))" "take 2 (drop 2 st) = take 2 (drop 2 (take 4 st))" by (simp_all add: drop_take)
  then have "take 2 (drop 2 f) = take 2 (drop 2 st)" using tf by simp
  then show "snd (header cl st) = (num (swapped cl) (take 2 (drop 2 f)) = 0 \<and> big_requests cl)" by (simp add: header_def Let_def)
  show "delivered cl st @ drop (request_bytes cl st) st = st" if "\<not> snd (header cl st)" using that d by (simp add: n_def)
  show "drop 4 (delivered cl st @ drop (request_bytes cl st) st) = drop 8 st" if "snd (header cl st)"
  proof -
    have "length (take 4 st) = 4" using n4 l by simp
    then have "drop 4 (delivered cl st @ drop n st) = drop 8 (take n st) @ drop n st" using d that by simp
    also have "\<dots> = drop 8 (take n st @ drop n st)" using n8 [OF that] l by (simp only: drop_append) simp
    finally show ?thesis by (simp add: n_def)
  qed
qed

lemma read_then_reset:
  fixes s :: "'z io_scheme"
  assumes ok: "io_ok big s" and st: "st = coming s c later" and pr: "proper (cio s c) st"
    and r: "ReadRequestFromClient env big c s = Some (r, s')" "r > 0" and small: "request_bytes (cio s c) st \<le> 4 * big"
    and os: "osPrivate (cio s c)"
  shows "\<exists>s''. ResetCurrentRequest c s' = Some s'' \<and> io_ok big s'' \<and> to_ignore s'' c = 0
    \<and> coming s'' c later = (if snd (header (cio s c) st) then take 4 st @ card32 (swapped (cio s c)) (fst (header (cio s c) st) - 1) @ drop 8 st else st)"
proof -
  define cl where "cl = cio s c"
  define n where "n = request_bytes cl st"
  have k: "io_ok big s'" "swapped (cio s' c) = swapped cl" "big_requests (cio s' c) = big_requests cl" "read_ok env big s c later r s'"
    "osPrivate (cio s' c)"
    using os read_request_from_client [OF ok, of c later env] pr r(1) st by (auto simp: cl_def)
  then obtain i where hc: "header_complete cl st" "coming s' c later = drop n st" "n \<le> length st"
    "request_seen s' c (length (delivered cl st)) = delivered cl st" "oc_input (os s' c) = Some i" "requestBuffer (cio s' c) = bufptr i"
    "lenLastReq i = length (delivered cl st)" "ignoreBytes i = 0" "snd (header cl st) \<Longrightarrow> 4 \<le> bufptr i"
    "req_len (cio s' c) = fst (header cl st) - (if snd (header cl st) then 1 else 0)"
    using r(2) small unfolding read_ok_def Let_def st [symmetric] cl_def [symmetric] n_def [symmetric] by auto
  have ii: "input_ok big i" using k(1) hc(5) by (simp add: io_ok_def)
  have f: "front i = delivered cl st @ unread i"
    using front_split [OF ii] hc(4-7) by (simp add: request_seen_def)
  have rest: "unread i @ wire (os s' c) @ later = drop n st" using hc(2,5,8) by (simp add: coming_def)
  note d = delivered_bytes [OF hc(1) pr [folded cl_def] hc(3) [unfolded n_def]]
  have e: "snd (header cl st) = (num (swapped (cio s' c)) (take 2 (drop 2 (front i))) = 0 \<and> big_requests (cio s' c))"
    unfolding k(2,3) by (rule d(3) [of "unread i", folded f])
  obtain s'' where s'': "ResetCurrentRequest c s' = Some s''" "io_ok big s''" "to_ignore s'' c = 0"
    "coming s'' c later = (if snd (header cl st) then take 4 (front i) @ card32 (swapped cl) (req_len (cio s' c)) @ drop 4 (front i)
      else front i) @ wire (os s' c) @ later"
    using reset_stream_ok [OF k(1,5) hc(5,8) refl d(1) [of "unread i", folded f] e hc(9), where l = later] unfolding k(2) by blast
  have tot: "front i @ wire (os s' c) @ later = delivered cl st @ drop n st" using f rest by simp
  have "coming s'' c later = (if snd (header cl st) then take 4 st @ card32 (swapped cl) (fst (header cl st) - 1) @ drop 8 st else st)"
  proof (cases "snd (header cl st)")
    case True
    have "drop 4 (front i @ wire (os s' c) @ later) = drop 8 st" using d(5) True tot by (simp add: n_def del: drop_append)
    then have "drop 4 (front i) @ wire (os s' c) @ later = drop 8 st" using d(1) [of "unread i"] f by simp
    then show ?thesis using s''(4) True d(2) [of "unread i"] f hc(10) by simp
  next
    case False
    then show ?thesis using s''(4) tot d(4) by (simp add: n_def)
  qed
  then show ?thesis using s''(1-3) by (auto simp: cl_def)
qed

lemma num_card32: "n < 2 ^ 32 \<Longrightarrow> num sw (card32 sw n) = n"
proof -
  assume n: "n < 2 ^ 32"
  have "num sw (card32 sw n) = foldr (\<lambda>b n. unat b + 256 * n) (map (\<lambda>i. word_of_nat (n div 256 ^ i)) [0..<4] :: u8 list) 0"
    by (simp add: num_def card32_def Let_def)
  also have "\<dots> = n mod 256 + 256 * (n div 256 mod 256 + 256 * (n div 65536 mod 256 + 256 * (n div 16777216 mod 256)))"
  proof -
    have l: "[0..<4] = [0, 1, 2, 3 :: nat]" by (simp add: upt_rec)
    have u: "unat (word_of_nat k :: u8) = k mod 256" for k by (simp add: unat_of_nat)
    show ?thesis unfolding l by (simp add: u)
  qed
  also have "\<dots> = n"
  proof -
    have "n div 65536 = n div 256 div 256" "n div 16777216 = n div 65536 div 256" by (simp_all add: div_mult2_eq [symmetric])
    moreover have "n div 16777216 < 256" using n by (simp add: less_mult_imp_div_less)
    ultimately show ?thesis
      using div_mult_mod_eq [of n 256] div_mult_mod_eq [of "n div 256" 256] div_mult_mod_eq [of "n div 65536" 256] by simp
  qed
  finally show ?thesis .
qed

section \<open>A whole run\<close>

text \<open>What the server sees of a client: its requests, requests that are too long for it, and the end.\<close>

datatype item = Request bytes | Overlong nat | Closed

definition entry :: "nat \<Rightarrow> client_io \<Rightarrow> bytes \<Rightarrow> item" where
  "entry big cl st = (if request_bytes cl st \<le> 4 * big then Request (delivered cl st) else Overlong (request_bytes cl st))"

text \<open>The first requests of a stream and what follows them.\<close>

fun parse :: "nat \<Rightarrow> client_io \<Rightarrow> nat \<Rightarrow> bytes \<Rightarrow> item list \<times> bytes" where
  "parse big cl 0 st = ([], st)"
| "parse big cl (Suc k) st = (let (es, rest) = parse big cl k (drop (request_bytes cl st) st) in (entry big cl st # es, rest))"

text \<open>Bytes arrive, and the server reads from a client. A client is closed when reading fails.\<close>

datatype io_step = Arrive nat bytes | Read nat iokernel

definition item_of :: "nat \<Rightarrow> nat \<Rightarrow> int \<Rightarrow> 'z io_scheme \<Rightarrow> item" where
  "item_of big c r s =
     (if r < 0 then Closed else if r > int (4 * big) then Overlong (nat r)
      else Request (request_seen s c (case oc_input (os s c) of None \<Rightarrow> 0 | Some i \<Rightarrow> lenLastReq i)))"

fun serve :: "nat \<Rightarrow> nat set \<Rightarrow> io_step list \<Rightarrow> 'z io_scheme \<Rightarrow> ((nat \<times> item) list \<times> 'z io_scheme) option" where
  "serve big D [] s = Some ([], s)"
| "serve big D (Arrive c bs # xs) s = serve big D xs (set_os c (\<lambda>r. r\<lparr>wire := wire r @ bs\<rparr>) s)"
| "serve big D (Read c env # xs) s =
     (if c \<in> D then serve big D xs s
      else do {
        (r, s1) \<leftarrow> ReadRequestFromClient env big c s;
        (es, s2) \<leftarrow> serve big (if r < 0 then insert c D else D) xs s1;
        Some ((if r = 0 then [] else [(c, item_of big c r s1)]) @ es, s2) })"

fun arrivals :: "nat \<Rightarrow> io_step list \<Rightarrow> bytes" where
  "arrivals c [] = []"
| "arrivals c (Arrive d bs # xs) = (if d = c then bs else []) @ arrivals c xs"
| "arrivals c (Read d env # xs) = arrivals c xs"

definition seen :: "nat \<Rightarrow> (nat \<times> item) list \<Rightarrow> item list" where
  "seen c es = map snd (filter (\<lambda>e. fst e = c) es)"

definition streams_ok :: "nat \<Rightarrow> nat set \<Rightarrow> io_step list \<Rightarrow> 'z io_scheme \<Rightarrow> bool" where
  "streams_ok big D xs s \<longleftrightarrow> (\<forall>c k. c \<notin> D \<longrightarrow> proper (cio s c) (snd (parse big (cio s c) k (coming s c (arrivals c xs)))))"

lemma parse_cong:
  assumes "swapped cl = swapped cl'" "big_requests cl = big_requests cl'"
  shows "parse big cl k st = parse big cl' k st"
  using header_cong [OF assms] by (induction k arbitrary: st) (simp_all add: entry_def request_bytes_def delivered_def)

lemma streams_proper: "streams_ok big D xs s \<Longrightarrow> c \<notin> D \<Longrightarrow> proper (cio s c) (coming s c (arrivals c xs))"
proof -
  assume "streams_ok big D xs s" "c \<notin> D"
  then have "proper (cio s c) (snd (parse big (cio s c) 0 (coming s c (arrivals c xs))))" unfolding streams_ok_def by blast
  then show ?thesis by simp
qed

lemma arrive:
  fixes c :: nat and bs :: bytes
  assumes "io_ok big s"
  defines "t \<equiv> set_os c (\<lambda>r. r\<lparr>wire := wire r @ bs\<rparr>) s"
  shows "io_ok big t" "coming t d l = coming s d ((if d = c then bs else []) @ l)" "cio t = cio s" "sclients t = sclients s"
proof -
  show "io_ok big t" using assms(1) unfolding io_ok_def t_def set_os_def by auto
  show "coming t d l = coming s d ((if d = c then bs else []) @ l)"
    by (cases "d = c") (simp_all add: t_def set_os_def coming_def split: option.split)
qed (simp_all add: t_def set_os_def)

lemma read_item:
  assumes "read_ok env big s c later r s'" "r > 0"
  shows "item_of big c r s' = entry big (cio s c) (coming s c later)"
    "coming s' c later = drop (request_bytes (cio s c) (coming s c later)) (coming s c later)"
  using assms unfolding read_ok_def Let_def item_of_def entry_def by auto

lemma serve_ok:
  fixes s :: "'z io_scheme"
  shows "io_ok big s \<Longrightarrow> streams_ok big D xs s \<Longrightarrow> \<exists>es s'. serve big D xs s = Some (es, s') \<and> io_ok big s'
    \<and> (\<forall>c. c \<notin> D \<longrightarrow> Closed \<notin> set (seen c es) \<longrightarrow>
        parse big (cio s c) (length (seen c es)) (coming s c (arrivals c xs)) = (seen c es, coming s' c []))"
proof (induction xs arbitrary: s D)
  case Nil
  then show ?case by (simp add: seen_def)
next
  case (Cons x xs)
  show ?case
  proof (cases x)
    case (Arrive c bs)
    define t where "t = set_os c (\<lambda>r. r\<lparr>wire := wire r @ bs\<rparr>) s"
    note a = arrive [OF Cons.prems(1), of c bs, folded t_def]
    have ar: "coming t d (arrivals d xs) = coming s d (arrivals d (x # xs))" for d
      unfolding a(2) by (simp add: Arrive)
    have "streams_ok big D xs t" using Cons.prems(2) unfolding streams_ok_def ar a(3) .
    from Cons.IH [OF a(1) this] show ?thesis unfolding ar a(3) by (simp add: Arrive t_def)
  next
    case (Read c env)
    show ?thesis
    proof (cases "c \<in> D")
      case True
      have "streams_ok big D xs s" using Cons.prems(2) by (simp add: streams_ok_def Read)
      from Cons.IH [OF Cons.prems(1) this] show ?thesis using True by (simp add: Read)
    next
      case False
      define later where "later = arrivals c xs"
      have "proper (cio s c) (coming s c later)" using streams_proper [OF Cons.prems(2) False] by (simp add: Read later_def)
      then obtain r s1 where r: "ReadRequestFromClient env big c s = Some (r, s1)" "io_ok big s1"
        "\<And>d l. d \<noteq> c \<Longrightarrow> coming s1 d l = coming s d l" "\<And>d. swapped (cio s1 d) = swapped (cio s d)"
        "\<And>d. big_requests (cio s1 d) = big_requests (cio s d)" "read_ok env big s c later r s1"
        using read_request_from_client [OF Cons.prems(1), of c later env] by blast
      have cp: "parse big (cio s1 d) k st = parse big (cio s d) k st" "proper (cio s1 d) st = proper (cio s d) st" for d k st
        using parse_cong proper_cong(1) r(4,5) by metis+
      define D' where "D' = (if r < 0 then insert c D else D)"
      define N where "N = request_bytes (cio s c) (coming s c later)"
      have co: "coming s1 c later = (if r = 0 then coming s c later else drop N (coming s c later))" if "r \<ge> 0"
        using r(6) that unfolding read_ok_def Let_def N_def by auto
      have "streams_ok big D' xs s1"
        unfolding streams_ok_def
      proof (intro allI impI)
        fix d k assume d: "d \<notin> D'"
        have o: "proper (cio s d) (snd (parse big (cio s d) j (coming s d (arrivals d xs))))" for j
          using Cons.prems(2) d by (auto simp: streams_ok_def Read D'_def split: if_splits)
        show "proper (cio s1 d) (snd (parse big (cio s1 d) k (coming s1 d (arrivals d xs))))"
          unfolding cp
        proof (cases "d = c")
          case True
          then have "r \<ge> 0" using d by (auto simp: D'_def split: if_splits)
          then show "proper (cio s d) (snd (parse big (cio s d) k (coming s1 d (arrivals d xs))))"
            using o [of k] o [of "Suc k"] co True by (auto simp: later_def N_def case_prod_unfold Let_def split: if_splits)
        qed (use o r(3) in simp)
      qed
      from Cons.IH [OF r(2) this] obtain es s' where IH: "serve big D' xs s1 = Some (es, s')" "io_ok big s'"
        "\<And>d. d \<notin> D' \<Longrightarrow> Closed \<notin> set (seen d es) \<Longrightarrow>
          parse big (cio s d) (length (seen d es)) (coming s1 d (arrivals d xs)) = (seen d es, coming s' d [])"
        unfolding cp by blast
      define es' where "es' = (if r = 0 then [] else [(c, item_of big c r s1)]) @ es"
      have run: "serve big D (x # xs) s = Some (es', s')" using False r(1) IH(1) by (simp add: Read D'_def es'_def)
      have "parse big (cio s d) (length (seen d es')) (coming s d (arrivals d (x # xs))) = (seen d es', coming s' d [])"
        if d: "d \<notin> D" "Closed \<notin> set (seen d es')" for d
      proof (cases "d = c \<and> r \<noteq> 0")
        case False
        then have sd: "seen d es' = seen d es" by (auto simp: es'_def seen_def)
        have "d \<notin> D'" using False d(1) by (auto simp: D'_def)
        moreover have "coming s1 d (arrivals d xs) = coming s d (arrivals d xs)"
          using False co r(3) by (cases "d = c") (auto simp: later_def)
        ultimately show ?thesis using IH(3) [of d] d(2) unfolding sd by (simp add: Read)
      next
        case True
        have sd: "seen d es' = item_of big c r s1 # seen c es" using True by (simp add: es'_def seen_def)
        have rp: "r > 0" using d(2) True unfolding sd by (auto simp: item_of_def split: if_splits)
        have "d \<notin> D'" using d(1) rp by (simp add: D'_def)
        then have p: "parse big (cio s c) (length (seen c es)) (drop N (coming s c later)) = (seen c es, coming s' c [])"
          using IH(3) [of c] d(2) co rp True unfolding sd by (simp add: later_def)
        show ?thesis
          using p read_item(1) [OF r(6) rp] True unfolding sd by (simp add: Read later_def N_def)
      qed
      then show ?thesis using run IH(2) by blast
    qed
  qed
qed

section \<open>Nothing is waited for in vain\<close>

fun reads :: "nat \<Rightarrow> nat \<Rightarrow> iokernel list \<Rightarrow> 'z io_scheme \<Rightarrow> (int \<times> 'z io_scheme) option" where
  "reads big c [] s = Some (0, s)"
| "reads big c (e # es) s = do { (r, s1) \<leftarrow> ReadRequestFromClient e big c s; if r = 0 then reads big c es s1 else Some (r, s1) }"

definition willing :: "iokernel \<Rightarrow> bool" where
  "willing env \<longleftrightarrow> malloc_ok env \<and> realloc_ok env \<and> (case read_ans env of ReadUpTo k \<Rightarrow> 0 < k | _ \<Rightarrow> False)"

lemma reads_ok:
  fixes s :: "'z io_scheme"
  shows "io_ok big s \<Longrightarrow> to_ignore s c = 0 \<Longrightarrow> connected (sclients s c) \<Longrightarrow> proper (cio s c) (coming s c [])
    \<Longrightarrow> complete (cio s c) (coming s c []) \<Longrightarrow> \<forall>e \<in> set es. willing e \<Longrightarrow> length (wire (os s c)) < length es
    \<Longrightarrow> \<exists>r s'. reads big c es s = Some (r, s') \<and> r > 0 \<and> item_of big c r s' = entry big (cio s c) (coming s c [])"
proof (induction es arbitrary: s)
  case (Cons e es)
  obtain r s1 where r: "ReadRequestFromClient e big c s = Some (r, s1)" "io_ok big s1"
    "swapped (cio s1 c) = swapped (cio s c)" "big_requests (cio s1 c) = big_requests (cio s c)" "sclients s1 = sclients s"
    "read_ok e big s c [] r s1"
    using read_request_from_client [OF Cons.prems(1), of c "[]" e] Cons.prems(4) by blast
  have w: "willing e" using Cons.prems(6) by simp
  consider (fail) "r = -1" "may_fail e s c" "\<not> complete (cio s c) (buffered s c)"
    | (more) "r = 0" "coming s1 c [] = coming s c []" "to_ignore s1 c = 0" "length (wire (os s1 c)) < length (wire (os s c))"
    | (request) "r > 0"
    using r(6) Cons.prems(2) w unfolding read_ok_def Let_def by (auto simp: willing_def request_bytes_def)
  then show ?case
  proof cases
    case fail
    then have "wire (os s c) = []" using w Cons.prems(3) by (auto simp: may_fail_def willing_def)
    then have "coming s c [] = buffered s c"
      using Cons.prems(2) by (auto simp: coming_def buffered_def to_ignore_def split: option.splits)
    then show ?thesis using fail Cons.prems(5) by simp
  next
    case more
    have cl: "complete (cio s1 c) st = complete (cio s c) st" "proper (cio s1 c) st = proper (cio s c) st"
      "entry big (cio s1 c) st = entry big (cio s c) st" for st
      using complete_cong [OF r(3,4)] proper_cong(1) [OF r(3,4)] header_cong [OF r(3,4)]
      by (simp_all add: entry_def request_bytes_def delivered_def)
    have "\<exists>r s'. reads big c es s1 = Some (r, s') \<and> r > 0 \<and> item_of big c r s' = entry big (cio s1 c) (coming s1 c [])"
    proof (rule Cons.IH)
      show "length (wire (os s1 c)) < length es" using Cons.prems(7) more(4) by simp
    qed (use Cons.prems in \<open>simp_all add: more(2,3) r cl\<close>)
    then show ?thesis using r(1) more(1,2) by (simp add: cl)
  next
    case request
    then show ?thesis using r(1) read_item(1) [OF r(6)] by simp
  qed
qed simp

section \<open>Lengths that are not proper\<close>

text \<open>When a buffer is there and no other buffer is to be given back, only the reading position matters.\<close>

lemma read_with_buffer:
  assumes "AvailableInput s = None" "oc_input (os s c) = Some i"
  shows "\<exists>t. ReadRequestFromClient env big c s = read_request env big c i t \<and> input_view t = input_view s"
proof -
  define t where "t = discard_fds (req_fds (cio s c)) c s"
  have v: "input_view t = input_view s" unfolding t_def by (rule discard_view)
  have "ReadRequestFromClient env big c s = read_request env big c i t"
    using assms input_viewD(1) [OF v, of c] by (simp add: ReadRequestFromClient_def NextAvailableInput_def get_input_def t_def Let_def)
  then show ?thesis using v by blast
qed

lemma announced_cong: "swapped cl = swapped cl' \<Longrightarrow> big_requests cl = big_requests cl' \<Longrightarrow> announced cl i g = announced cl' i g"
  by (simp only: announced_def)

lemma read_request_header:
  assumes "ignoreBytes i = 0" "g = gotnow (next_input i)" "4 \<le> g"
  shows "read_request env big c i s = Option.bind (announced (cio s c) (next_input i) g) (\<lambda>(w, mv).
      let s1 = set_cio c (\<lambda>r. r\<lparr>req_len := w\<rparr>) s
      in if w > MAXINT div 4 then Some (-16, set_input c (Some (next_input i)) s1)
         else if g < 4 * w then read_more env big c (4 * w) (mv \<and> g < 8) mv g (next_input i) s1
         else finish_request c (4 * w) mv g (next_input i) s1)"
proof -
  have n: "\<not> g < 4" "\<not> 0 < ignoreBytes (next_input i)" using assms by (simp_all add: next_input_def)
  show ?thesis
    unfolding read_request_def Let_def next_input_def [symmetric] assms(2) [symmetric] if_not_P [OF n(1)] if_not_P [OF n(2)] by (rule refl)
qed

text \<open>A length of more than 31 bits: the reading position moves behind the last request, whose length is kept.\<close>

lemma overlong_read:
  assumes av: "AvailableInput s = None" and i: "oc_input (os s c) = Some i" "input_ok big i" "ignoreBytes i = 0"
    and hc: "header_complete (cio s c) (unread i)" and w: "fst (header (cio s c) (unread i)) > MAXINT div 4"
  shows "\<exists>s1. ReadRequestFromClient env big c s = Some (-16, s1) \<and> oc_input (os s1 c) = Some (next_input i) \<and> AvailableInput s1 = None"
proof -
  obtain t where t: "ReadRequestFromClient env big c s = read_request env big c i t" "input_view t = input_view s"
    using read_with_buffer [OF av i(1), of env big] by blast
  note v = input_viewD [OF t(2)]
  define j where "j = next_input i"
  have j: "in_ok big j" "front j = unread i" using i(2) by (simp_all add: j_def input_ok_def unread_def)
  define g where "g = gotnow j"
  have g: "g = bufcnt j - bufptr j" "g = length (front j)" using gotnow_ok [OF j(1)] length_front [OF j(1)] by (simp_all add: g_def)
  have l: "4 \<le> g" "snd (header (cio s c) (front j)) \<Longrightarrow> 8 \<le> g"
    using hc unfolding g(2) j(2) header_complete_def by blast+
  obtain w mv where wm: "header (cio s c) (front j) = (w, mv)" by fastforce
  have "announced (cio s c) j g = Some (w, mv)" using announced_ok [OF j(1) g(1) l(1)] l(2) wm by auto
  then have an: "announced (cio t c) (next_input i) g = Some (w, mv)"
    using announced_cong [of "cio t c" "cio s c"] v(5,6) by (simp add: j_def)
  have "MAXINT div 4 < w" using w wm j(2) by simp
  then have "read_request env big c i t = Some (-16, set_input c (Some j) (set_cio c (\<lambda>r. r\<lparr>req_len := w\<rparr>) t))"
    using read_request_header [OF i(3) g_def [unfolded j_def] l(1), of env big c t] an by (simp add: Let_def j_def)
  then show ?thesis unfolding t(1) using v(4) av by (simp add: io_defs j_def)
qed

lemma gotnow_wraps:
  assumes "bufcnt i < bufptr i" "bufptr i - bufcnt i \<le> MAXINT"
  shows "4 \<le> gotnow i"
proof -
  define x where "x = int (bufptr i - bufcnt i)"
  have x: "0 < x" "x \<le> int MAXINT" using assms by (simp_all add: x_def)
  have e: "int (bufcnt i) - int (bufptr i) = - x" using assms(1) by (simp add: x_def of_nat_diff)
  have "LENGTH(32) = 32" by simp
  then have "gotnow i = nat (- x mod 2 ^ 32)"
    by (simp only: gotnow_def e unat_eq_nat_uint uint_word_of_int)
  also have "- x mod 2 ^ 32 = (- x + 2 ^ 32) mod 2 ^ 32" by simp
  also have "\<dots> = - x + 2 ^ 32" using x by (intro mod_pos_pos_trivial) (simp_all add: MAXINT_def)
  finally show ?thesis using x by (simp add: MAXINT_def)
qed

lemma overlong_overruns:
  assumes av: "AvailableInput s = None" and i: "oc_input (os s c) = Some i" "input_ok big i" "ignoreBytes i = 0"
    and hc: "header_complete (cio s c) (unread i)" and w: "fst (header (cio s c) (unread i)) > MAXINT div 4"
    and far: "bufptr i + 2 * lenLastReq i > inp_size i"
  shows "\<exists>s1. ReadRequestFromClient env big c s = Some (-16, s1) \<and> ReadRequestFromClient env' big c s1 = None"
proof -
  obtain s1 where s1: "ReadRequestFromClient env big c s = Some (-16, s1)" "oc_input (os s1 c) = Some (next_input i)" "AvailableInput s1 = None"
    using overlong_read [OF av i hc w, of env] by blast
  obtain t where t: "ReadRequestFromClient env' big c s1 = read_request env' big c (next_input i) t"
    using read_with_buffer [OF s1(3,2), of env' big] by blast
  define k where "k = next_input (next_input i)"
  have o: "bufptr i + lenLastReq i \<le> bufcnt i" "bufcnt i \<le> inp_size i" "inp_size i \<le> MAXINT" "length (buffer i) = inp_size i"
    using i(2) by (simp_all add: input_ok_def in_ok_def next_input_def)
  have k: "bufptr k = bufptr i + 2 * lenLastReq i" "bufcnt k = bufcnt i" "buffer k = buffer i" by (simp_all add: k_def next_input_def)
  have "4 \<le> gotnow k" by (rule gotnow_wraps) (use k o far in simp_all)
  moreover have "announced (cio t c) k g = None" for g
    using k o far by (simp add: announced_def get16_def rd_bytes_def)
  ultimately have "read_request env' big c (next_input i) t = None"
    using read_request_header [of "next_input i" "gotnow k" env' big c t] i(3) by (simp add: k_def next_input_def)
  then show ?thesis using s1(1) t by auto
qed

text \<open>A big request whose length counts one word. The header is read again, with the next word as its length.\<close>

lemma big_length_one:
  assumes av: "AvailableInput s = None" and i: "oc_input (os s c) = Some i" "input_ok big i" "ignoreBytes i = 0"
    and h: "8 \<le> length (unread i)" "header (cio s c) (unread i) = (1, True)"
  shows "\<exists>s1. ReadRequestFromClient env big c s = Some (4, s1) \<and> to_ignore s1 c = 0
    \<and> buffered s1 c = take 4 (unread i) @ drop 8 (unread i)"
proof -
  obtain t where t: "ReadRequestFromClient env big c s = read_request env big c i t" "input_view t = input_view s"
    using read_with_buffer [OF av i(1), of env big] by blast
  note v = input_viewD [OF t(2)]
  define j where "j = next_input i"
  have j: "in_ok big j" "front j = unread i" "ignoreBytes j = 0" using i(2,3) by (simp_all add: j_def input_ok_def unread_def next_input_def)
  define g where "g = gotnow j"
  have g: "g = bufcnt j - bufptr j" "g = length (front j)" using gotnow_ok [OF j(1)] length_front [OF j(1)] by (simp_all add: g_def)
  have l: "8 \<le> g" using h(1) g(2) j(2) by simp
  have "announced (cio s c) j g = Some (1, True)" using announced_ok [OF j(1) g(1)] l h(2) j(2) by simp
  then have an: "announced (cio t c) (next_input i) g = Some (1, True)"
    using announced_cong [of "cio t c" "cio s c"] v(5,6) by (simp add: j_def)
  define t1 where "t1 = set_cio c (\<lambda>r. r\<lparr>req_len := 1\<rparr>) t"
  have run: "read_request env big c i t = finish_request c 4 True g j t1"
    using read_request_header [OF i(3) g_def [unfolded j_def], of env big c t] an l by (simp add: Let_def j_def t1_def MAXINT_def)
  define b where "b = take (bufptr j + 4) (buffer j) @ take 4 (front j) @ drop (bufptr j + 8) (buffer j)"
  have hr: "rd_bytes (buffer j) (bufptr j) 4 = Some (take 4 (front j))"
    using rd_bytes_front [OF j(1), of 0 4] l g(1) by simp
  have lb: "bufptr j + g = bufcnt j" "bufcnt j \<le> length (buffer j)" using in_okD [OF j(1)] g(1) by simp_all
  have hw: "wr_bytes (buffer j) (bufptr j + 4) (take 4 (front j)) = Some b"
    using lb l g(2) by (simp add: wr_bytes_def b_def min_def add.commute)
  define k where "k = j\<lparr>buffer := b, bufptr := bufptr j + 4, lenLastReq := 0\<rparr>"
  obtain s1 where s1: "finish_request c 4 True g j t1 = Some (4, s1)" "oc_input (os s1 c) = Some k"
    using hr hw j(3) l by (simp add: finish_request_def Let_def t1_def io_defs bytes_to_int32_def k_def)
  have f: "front j = take g (drop (bufptr j) (buffer j))" by (simp add: front_def g(1))
  have "unread k = take (g - 4) (drop (bufptr j + 4) b)" using g(1) by (simp add: unread_def front_def next_input_def k_def)
  also have "drop (bufptr j + 4) b = take 4 (front j) @ drop (bufptr j + 8) (buffer j)" using lb l by (simp add: b_def)
  also have "take (g - 4) (take 4 (front j) @ drop (bufptr j + 8) (buffer j)) = take 4 (front j) @ take (g - 8) (drop (bufptr j + 8) (buffer j))"
  proof -
    have "min (g - 4) 4 = 4" "length (take 4 (front j)) = 4" using l g(2) by simp_all
    then show ?thesis by simp
  qed
  also have "take (g - 8) (drop (bufptr j + 8) (buffer j)) = drop 8 (front j)" unfolding f by (simp add: drop_take add.commute)
  finally have "unread k = take 4 (unread i) @ drop 8 (unread i)" using j(2) by simp
  moreover have "ignoreBytes k = 0" using j(3) by (simp add: k_def)
  ultimately show ?thesis using t(1) run s1 by (simp add: to_ignore_def buffered_def)
qed

section \<open>Properties\<close>

text \<open>A server with three clients; the first of them has sent two requests that are in its buffer.\<close>

definition demo_input :: "bytes \<Rightarrow> nat \<Rightarrow> bytes \<Rightarrow> ConnectionInput" where
  "demo_input used n bs = \<lparr>buffer = used @ bs @ replicate (16384 - (n + length bs)) 0, bufptr = 0, bufcnt = n + length bs,
     lenLastReq = n, inp_size = 16384, ignoreBytes = 0\<rparr>"

definition demo_io :: "ConnectionInput \<Rightarrow> io" where
  "demo_io i = \<lparr>sclients = \<lambda>_. \<lparr>priority = 0, smart_priority = 0, smart_start_tick = 0, smart_stop_tick = 0, ignoreCount = 0,
      clientGone = False, ignored = False, impervious = False, connected = True, req_sequence = 0\<rparr>,
    currentMaxClients = 4, in_use = \<lambda>c. c < 4, ready_clients = [1, 2, 3], saved_ready_clients = [],
    SmartLastClient = None, SmartLastIndex = replicate 41 0, SmartScheduleTime = 0, SmartScheduleSlice = 5,
    SmartScheduleInterval = 5, SmartScheduleMaxSlice = 15, SmartScheduleLatencyLimited = 0, GrabInProgress = 0,
    isItTimeToYield = False, grabState = False, grabClient = 0, grabWaiters = \<lambda>_. False, listening = \<lambda>c. c < 4,
    os = \<lambda>c. \<lparr>oc_input = if c = 1 then Some i else None, oc_output = None, wire = [], sent = [], recv_fds = []\<rparr>,
    cio = \<lambda>c. \<lparr>swapped = False, big_requests = True, req_len = 0, requestBuffer = 0, req_fds = 0, noClientException = True,
      running = True, replyBytesRemaining = 0, osPrivate = True\<rparr>,
    FreeInputs = [], FreeOutputs = [], AvailableInput = None, timesThisConnection = 0, NewOutputPending = False,
    CriticalOutputPending = False, output_pending_clients = [], ReplyCallback = False, FlushCallback = False, io_events = []\<rparr>"

definition demo_reader :: iokernel where
  "demo_reader = \<lparr>malloc_ok = True, realloc_ok = True, shrink_ok = True, junk = \<lambda>_. 0, read_ans = ReadUpTo 100, write_ans = \<lambda>_. WroteUpTo 100\<rparr>"

abbreviation demo_bytes :: bytes where "demo_bytes \<equiv> [1, 0, 1, 0, 2, 0, 2, 0, 7, 7, 7, 7]"

abbreviation demo :: io where "demo \<equiv> demo_io (demo_input [] 0 demo_bytes)"

lemma parse_snd: "snd (parse big cl (Suc k) st) = snd (parse big cl k (drop (request_bytes cl st) st))"
  by (simp add: case_prod_unfold Let_def)

lemma proper_after_end: "proper cl (snd (parse big cl k []))"
proof -
  have "snd (parse big cl k []) = []" by (induction k) (simp_all add: case_prod_unfold Let_def)
  then show ?thesis by (simp add: proper_def header_complete_def)
qed

lemma demo_unread: "unread (demo_input used (length used) bs) = bs"
  by (simp add: unread_def front_def next_input_def demo_input_def)

lemma demo_input_ok: "length used + length bs \<le> 16384 \<Longrightarrow> input_ok 4194303 (demo_input used (length used) bs)"
  by (simp add: input_ok_def in_ok_def next_input_def demo_input_def BUFSIZE_def MAXINT_def)

lemma demo_io_ok: "io_ok 4194303 demo" "to_ignore demo 1 = 0" "coming demo 1 l = demo_bytes @ l" "c \<noteq> 1 \<Longrightarrow> coming demo c l = l"
    "buffered demo 1 = demo_bytes" "sched_ok demo" "prios_ok demo"
proof -
  note i = demo_input_ok [of "[]" demo_bytes] demo_unread [of "[]" demo_bytes]
  show "io_ok 4194303 demo" using i by (simp add: io_ok_def demo_io_def BUFSIZE_def MAXINT_def)
  show "to_ignore demo 1 = 0" by (simp add: to_ignore_def demo_io_def demo_input_def)
  show "coming demo 1 l = demo_bytes @ l" using i(2) by (simp add: coming_def demo_io_def) (simp add: demo_input_def)
  show "c \<noteq> 1 \<Longrightarrow> coming demo c l = l" by (simp add: coming_def demo_io_def)
  show "buffered demo 1 = demo_bytes" using i(2) by (simp add: buffered_def demo_io_def)
qed (simp_all add: demo_io_def sched_ok_def prios_ok_def pollable_def listen_to_client_def SMART_MIN_PRIORITY_def SMART_MAX_PRIORITY_def)

lemma demo_cio: "swapped (cio (demo_io i) c) = False" "big_requests (cio (demo_io i) c) = True" "osPrivate (cio (demo_io i) c)"
    "connected (sclients (demo_io i) c)" "wire (os (demo_io i) c) = []"
  by (simp_all add: demo_io_def)

lemmas format_defs = proper_def complete_def header_complete_def header_def request_bytes_def delivered_def entry_def num_def Let_def demo_cio

lemma demo_stream:
  assumes cl: "swapped cl = False" "big_requests cl = True"
  shows "proper cl (snd (parse 4194303 cl k [1, 0, 1, 0, 2, 0, 2, 0, 7, 7, 7, 7, 3, 0, 1, 0]))"
proof -
  have st: "request_bytes cl [1, 0, 1, 0, 2, 0, 2, 0, 7, 7, 7, 7, 3, 0, 1, 0] = 4" "request_bytes cl [2, 0, 2, 0, 7, 7, 7, 7, 3, 0, 1, 0] = 8"
    "request_bytes cl [3, 0, 1, 0] = 4"
    using cl by (simp_all add: request_bytes_def header_def num_def)
  have pr: "proper cl [1, 0, 1, 0, 2, 0, 2, 0, 7, 7, 7, 7, 3, 0, 1, 0]" "proper cl [2, 0, 2, 0, 7, 7, 7, 7, 3, 0, 1, 0]" "proper cl [3, 0, 1, 0]"
    using cl by (simp_all add: proper_def header_def num_def MAXINT_def)
  have d: "drop 4 [1, 0, 1, 0, 2, 0, 2, 0, 7, 7, 7, 7, 3, 0, 1, 0] = [2, 0, 2, 0, 7, 7, 7, 7, 3, 0, 1, 0 :: u8]"
    "drop 8 [2, 0, 2, 0, 7, 7, 7, 7, 3, 0, 1, 0] = [3, 0, 1, 0 :: u8]" "drop 4 [3, 0, 1, 0] = ([] :: u8 list)" by simp_all
  consider "k = 0" | "k = Suc 0" | "k = Suc (Suc 0)" | j where "k = Suc (Suc (Suc j))" by (cases k; metis not0_implies_Suc)
  then show ?thesis
  proof cases
    case 1
    show ?thesis unfolding 1 parse.simps snd_conv by (rule pr)
  next
    case 2
    show ?thesis unfolding 2 parse_snd st d unfolding parse.simps snd_conv by (rule pr)
  next
    case 3
    show ?thesis unfolding 3 parse_snd st d unfolding parse.simps snd_conv by (rule pr)
  next
    case 4
    show ?thesis unfolding 4 parse_snd st d by (rule proper_after_end)
  qed
qed

text \<open>C28: For streams in which the header of every request to come is proper, that is, announces a length the
  server can work with (a stream for which this fails makes the server leave its buffer, as shown below): whatever
  pieces the bytes arrive in and however the reads of the clients are mixed, the server never leaves its
  buffers, and what it sees of each client that is not closed are the first requests of that client's stream, in order
  and complete; the rest of the stream is still to come.\<close>

theorem requests_in_order:
  assumes "io_ok big s" "streams_ok big {} xs s"
  shows "\<exists>es s'. serve big {} xs s = Some (es, s') \<and> io_ok big s'
    \<and> (\<forall>c. Closed \<notin> set (seen c es) \<longrightarrow>
        parse big (cio s c) (length (seen c es)) (coming s c (arrivals c xs)) = (seen c es, coming s' c []))"
  using serve_ok [OF assms] by simp

theorem requests_in_order_witness:
  "\<exists>es s'. serve 4194303 {} [Read 1 demo_reader, Arrive 1 [3, 0, 1], Read 1 demo_reader, Arrive 1 [0], Read 1 demo_reader] demo = Some (es, s')"
proof -
  let ?xs = "[Read 1 demo_reader, Arrive 1 [3, 0, 1], Read 1 demo_reader, Arrive 1 [0], Read 1 demo_reader]"
  have "proper (cio demo c) (snd (parse 4194303 (cio demo c) k (coming demo c (arrivals c ?xs))))" for c k
  proof (cases "c = 1")
    case True
    have "arrivals 1 ?xs = [3, 0, 1, 0]" by simp
    then show ?thesis unfolding True demo_io_ok(3) using demo_stream [OF demo_cio(1,2)] by simp
  qed (use proper_after_end in \<open>simp add: demo_io_ok(4)\<close>)
  then have "streams_ok 4194303 {} ?xs demo" by (simp add: streams_ok_def)
  from requests_in_order [OF demo_io_ok(1) this] show ?thesis by blast
qed

text \<open>C29: A client whose next request has arrived is served: reading again and again gives the request after at most as many calls as
  bytes are in the socket and one more, when the kernel gives at least a byte each time and memory can be had.\<close>

theorem request_arrives:
  assumes "io_ok big s" "to_ignore s c = 0" "connected (sclients s c)" "proper (cio s c) (coming s c [])"
    "complete (cio s c) (coming s c [])" "\<forall>e \<in> set es. willing e" "length (wire (os s c)) < length es"
  shows "\<exists>r s'. reads big c es s = Some (r, s') \<and> r > 0 \<and> item_of big c r s' = entry big (cio s c) (coming s c [])"
  using reads_ok [OF assms] .

theorem request_arrives_witness:
  "\<exists>r s'. reads 4194303 1 [demo_reader] demo = Some (r, s') \<and> r > 0 \<and> item_of 4194303 1 r s' = Request [1, 0, 1, 0]"
  using request_arrives [OF demo_io_ok(1,2), of "[demo_reader]"] demo_cio(4,5)
  unfolding demo_io_ok(3) by (simp add: format_defs MAXINT_def willing_def demo_reader_def)

text \<open>C33: A request that cannot be carried out now is put back: after \<open>ResetCurrentRequest\<close> the stream of the client begins with the
  same request. A big request comes back with a length that is one too small, because the length was adjusted when its header was
  shortened.\<close>

theorem reset_repeats_request:
  fixes s :: "'z io_scheme"
  assumes "io_ok big s" "st = coming s c later" "proper (cio s c) st" "ReadRequestFromClient env big c s = Some (r, s')" "r > 0"
    "request_bytes (cio s c) st \<le> 4 * big" "osPrivate (cio s c)"
  shows "\<exists>s''. ResetCurrentRequest c s' = Some s'' \<and> io_ok big s'' \<and> to_ignore s'' c = 0
    \<and> coming s'' c later = (if snd (header (cio s c) st) then take 4 st @ card32 (swapped (cio s c)) (fst (header (cio s c) st) - 1) @ drop 8 st else st)"
  using read_then_reset [OF assms] .

theorem reset_repeats_request_witness:
  "\<exists>r s' s''. ReadRequestFromClient demo_reader 4194303 1 demo = Some (r, s') \<and> ResetCurrentRequest 1 s' = Some s'' \<and> coming s'' 1 [] = demo_bytes"
proof -
  have "\<exists>r s'. reads 4194303 1 [demo_reader] demo = Some (r, s') \<and> r > 0"
    using reads_ok [OF demo_io_ok(1,2), of "[demo_reader]"] demo_cio(4,5)
    unfolding demo_io_ok(3) by (auto simp: format_defs MAXINT_def willing_def demo_reader_def)
  then obtain r s' where r: "ReadRequestFromClient demo_reader 4194303 1 demo = Some (r, s')" "r > 0"
    by (auto split: Option.bind_splits if_splits)
  have "proper (cio demo 1) demo_bytes" "request_bytes (cio demo 1) demo_bytes \<le> 4 * 4194303" "\<not> snd (header (cio demo 1) demo_bytes)"
    by (simp_all add: format_defs MAXINT_def)
  with reset_repeats_request [OF demo_io_ok(1) _ _ r, of demo_bytes "[]"] demo_io_ok(3) [of "[]"] demo_cio(3)
  show ?thesis using r(1) by auto
qed

text \<open>C34: A fake request goes in front of everything a client has sent and not been answered yet, bytes already buffered included;
  no other client notices.\<close>

theorem fake_request_first:
  fixes s :: "'z io_scheme"
  assumes "io_ok big s" "to_ignore s c = 0" "length (buffered s c) + length bs \<le> 4 * big"
  shows "\<exists>r s'. InsertFakeRequest env c bs s = Some (r, s') \<and> (r \<or> \<not> malloc_ok env \<or> \<not> realloc_ok env) \<and> io_ok big s'
    \<and> (\<forall>d l. coming s' d l = (if r \<and> d = c then bs else []) @ coming s d l) \<and> to_ignore s' c = 0"
  using insert_fake_request [OF assms] .

theorem fake_request_first_witness:
  "\<exists>s'. InsertFakeRequest demo_reader 1 [1, 0, 1, 0] demo = Some (True, s') \<and> coming s' 1 [] = [1, 0, 1, 0] @ demo_bytes"
  using fake_request_first [OF demo_io_ok(1,2), of "[1, 0, 1, 0]" demo_reader] demo_io_ok(3) [of "[]"] demo_io_ok(5)
  by (auto simp: demo_reader_def)

text \<open>C32: While a client holds the server grab the scheduler chooses only that client, impervious ones, and
  those that were let in during this grab and are still on the list of ready clients: the
  clients that \<open>InsertFakeRequest\<close> or \<open>AbortClient\<close> put there, which do not ask whether the server
  listens to the client, and those that gave up being impervious. A new client is let in only by the fake request
  with which its connection begins. Requests, arrivals of input, ends of clients and grabs that had to
  be put off let nobody in.\<close>

theorem grab_excludes_others:
  fixes s :: "'z io_scheme"
  assumes "(sched_step ResetCurrentRequest pushes_in)\<^sup>*\<^sup>* ({}, s) (U, s')" "sched_ok s" "prios_ok s'" "grabState s'"
    "SmartScheduleClient s' = Some (c, t)"
  shows "c = grabClient s' \<or> impervious (sclients s' c) \<or> c \<in> U"
  using io_reset.grab_holds [OF assms] .

theorem grab_excludes_others_witness:
  "\<exists>s' t. (sched_step ResetCurrentRequest pushes_in)\<^sup>*\<^sup>* ({}, demo) ({}, s') \<and> SmartScheduleClient s' = Some (2, t)"
proof -
  define s' where "s' = mark_client_grab 2 ((set_poll_clients (demo\<lparr>GrabInProgress := 2\<rparr>))\<lparr>grabState := True, grabClient := 2\<rparr>)"
  have "ProcGrabServer ResetCurrentRequest 0 True 2 demo = Some (0, s')"
    by (simp add: ProcGrabServer_def OnlyListenToOneClient_def s'_def demo_io_def)
  then have "sched_change ResetCurrentRequest pushes_in {} demo s'"
    by (intro sched_change.grab) (simp_all add: demo_io_def)
  then have "sched_step ResetCurrentRequest pushes_in ({}, demo) (let_in ({} \<union> {}) s', s')" by (rule sched_step.step)
  moreover have "let_in ({} \<union> {}) s' = {}" by (simp add: let_in_def)
  ultimately have "sched_step ResetCurrentRequest pushes_in ({}, demo) ({}, s')" by (simp only:)
  then have step: "(sched_step ResetCurrentRequest pushes_in)\<^sup>*\<^sup>* ({}, demo) ({}, s')" by (rule r_into_rtranclp)
  have s': "grabState s'" "grabClient s' = 2" "prios_ok s'" "\<not> impervious (sclients s' c)" "ready_clients s' = [2]" for c
    using demo_io_ok(7) by (simp_all add: s'_def mark_client_grab_eq set_poll_clients_eq prios_ok_def demo_io_def)
  have "sched_ok_but {} s'" using io_reset.steps_ok [OF step] demo_io_ok(6) by (simp add: sched_ok_but)
  then obtain c t where c: "SmartScheduleClient s' = Some (c, t)"
    using schedule_client [of "{}" s'] s'(3,5) by (metis list.distinct(1))
  have "c = 2" using grab_excludes_others [OF step demo_io_ok(6) s'(3,1) c] s'(2,4) by simp
  then show ?thesis using step c by blast
qed

text \<open>C35: A length of more than 31 bits makes the server lose its place: the call reports the error but keeps the length of the request
  before, so that the next call moves on by that length once more. When that is behind the end of the
  buffer, the header is read from memory that is not the buffer's.\<close>

theorem overlong_length_overruns:
  assumes "AvailableInput s = None" "oc_input (os s c) = Some i" "input_ok big i" "ignoreBytes i = 0"
    "header_complete (cio s c) (unread i)" "fst (header (cio s c) (unread i)) > MAXINT div 4" "bufptr i + 2 * lenLastReq i > inp_size i"
  shows "\<exists>s1. ReadRequestFromClient env big c s = Some (-16, s1) \<and> ReadRequestFromClient env' big c s1 = None"
  using overlong_overruns [OF assms] .

theorem overlong_length_overruns_witness:
  "\<exists>s1. ReadRequestFromClient demo_reader 4194303 1 (demo_io (demo_input (replicate 10000 0) 10000 [0, 0, 0, 0, 255, 255, 255, 255])) = Some (-16, s1)
     \<and> ReadRequestFromClient demo_reader 4194303 1 s1 = None"
proof -
  define i where "i = demo_input (replicate 10000 0) 10000 [0, 0, 0, 0, 255, 255, 255, 255]"
  have u: "unread i = [0, 0, 0, 0, 255, 255, 255, 255]" "input_ok 4194303 i"
    using demo_unread [of "replicate 10000 0"] demo_input_ok [of "replicate 10000 0"] by (simp_all add: i_def)
  have "\<exists>s1. ReadRequestFromClient demo_reader 4194303 1 (demo_io i) = Some (-16, s1) \<and> ReadRequestFromClient demo_reader 4194303 1 s1 = None"
  proof (rule overlong_length_overruns)
    show "oc_input (os (demo_io i) 1) = Some i" by (simp add: demo_io_def)
    show "AvailableInput (demo_io i) = None" by (simp add: demo_io_def)
    show "ignoreBytes i = 0" "bufptr i + 2 * lenLastReq i > inp_size i" by (simp_all add: i_def demo_input_def)
    show "header_complete (cio (demo_io i) 1) (unread i)" "fst (header (cio (demo_io i) 1) (unread i)) > MAXINT div 4"
      unfolding u by (simp_all add: format_defs MAXINT_def)
  qed (rule u)
  then show ?thesis unfolding i_def .
qed
end
