(* ===== verification/Client_Output.thy ===== *)
theory Client_Output
  imports Requests
begin

text \<open>
  Writing to clients, the output side of \<open>xserver/os/io.c\<close> with the closing of connections in
  \<open>xserver/os/connection.c\<close>.

  What the kernel has accepted and what waits in the output buffer are together the stream of a
  client. Each \<open>writev\<close> of a flush has its own answer in the record \<open>iokernel\<close>.
  A \<open>writev\<close> on a stream socket takes at least one byte or fails; under this assumption the number of rounds
  of \<open>FlushClient\<close> is bounded, and a flush that takes more rounds is \<open>None\<close>.
\<close>

section \<open>Pending output\<close>

definition MarkClientException :: "nat \<Rightarrow> 'z io_scheme \<Rightarrow> 'z io_scheme" where
  "MarkClientException c s = set_cio c (\<lambda>r. r\<lparr>noClientException := False\<rparr>) s"

definition output_pending_mark :: "nat \<Rightarrow> 'z io_scheme \<Rightarrow> 'z io_scheme" where
  "output_pending_mark c s =
     (if \<not> clientGone (sclients s c) \<and> c \<notin> set (output_pending_clients s)
      then s\<lparr>output_pending_clients := output_pending_clients s @ [c]\<rparr> else s)"

definition output_pending_clear :: "nat \<Rightarrow> 'z io_scheme \<Rightarrow> 'z io_scheme" where
  "output_pending_clear c s = s\<lparr>output_pending_clients := removeAll c (output_pending_clients s)\<rparr>"

definition any_output_pending :: "'z io_scheme \<Rightarrow> bool" where
  "any_output_pending s \<longleftrightarrow> output_pending_clients s \<noteq> []"

section \<open>Flushing\<close>

definition AllocateOutputBuffer :: "iokernel \<Rightarrow> ConnectionOutput option" where
  "AllocateOutputBuffer env =
     (if malloc_ok env then Some \<lparr>obuf = replicate BUFSIZE 0, out_size = BUFSIZE, out_count = 0\<rparr> else None)"

definition get_output :: "iokernel \<Rightarrow> nat \<Rightarrow> 'z io_scheme \<Rightarrow> 'z io_scheme option" where
  "get_output env c s =
     (case oc_output (os s c) of
        Some _ \<Rightarrow> Some s
      | None \<Rightarrow>
          (case FreeOutputs s of
             i # is \<Rightarrow> Some (set_output c (Some i) (s\<lparr>FreeOutputs := is\<rparr>))
           | [] \<Rightarrow> map_option (\<lambda>i. set_output c (Some i) s) (AllocateOutputBuffer env)))"

text \<open>One piece of what is written: \<open>before\<close> bytes of it are written already, \<open>remain\<close> bytes may be added.\<close>

definition insert_iov :: "bytes \<Rightarrow> nat \<Rightarrow> int \<times> int \<times> bytes \<Rightarrow> (int \<times> int \<times> bytes) option" where
  "insert_iov ptr n = (\<lambda>(before, remain, iov).
     let l = min (int n - before) remain
     in if l \<le> 0 then Some (- l, remain, iov)
        else do { xs \<leftarrow> rd_bytes ptr (nat before) (nat l); Some (0, remain - l, iov @ xs) })"

definition pieces :: "ConnectionOutput \<Rightarrow> bytes \<Rightarrow> nat \<Rightarrow> nat \<Rightarrow> bytes option" where
  "pieces oc extra written todo = do {
     a \<leftarrow> insert_iov (obuf oc) (out_count oc) (int written, int todo, []);
     b \<leftarrow> insert_iov extra (length extra) a;
     (_, _, iov) \<leftarrow> insert_iov (replicate 3 0) (padding_for_int32 (length extra)) b;
     Some iov }"

definition give_up :: "nat \<Rightarrow> 'z io_scheme \<Rightarrow> 'z io_scheme" where
  "give_up c s = MarkClientException c (AbortClient c s)"

definition drop_count :: "nat \<Rightarrow> 'z io_scheme \<Rightarrow> 'z io_scheme" where
  "drop_count c s = set_os c (\<lambda>r. r\<lparr>oc_output := map_option (\<lambda>oc. oc\<lparr>out_count := 0\<rparr>) (oc_output r)\<rparr>) s"

text \<open>The client does not read at the moment: the rest is kept.\<close>

definition moved_up :: "nat \<Rightarrow> ConnectionOutput \<Rightarrow> (nat \<times> ConnectionOutput) option" where
  "moved_up written oc =
     (if written < out_count oc
      then if written > 0
           then do {
             b \<leftarrow> memmove (obuf oc) 0 written (out_count oc - written);
             Some (0, oc\<lparr>obuf := b, out_count := out_count oc - written\<rparr>) }
           else Some (written, oc)
      else Some (written - out_count oc, oc\<lparr>out_count := 0\<rparr>))"

definition buffer_rest :: "iokernel \<Rightarrow> nat \<Rightarrow> bytes \<Rightarrow> nat \<Rightarrow> nat \<Rightarrow> ConnectionOutput \<Rightarrow> 'z io_scheme \<Rightarrow> (int \<times> 'z io_scheme) option" where
  "buffer_rest env c extra written notWritten oc s = do {
     let s1 = output_pending_mark c s;
     (w, oc1) \<leftarrow> moved_up written oc;
     if notWritten > out_size oc1 \<and> \<not> (notWritten + BUFSIZE \<le> MAXINT \<and> realloc_ok env)
     then Some (-1, drop_count c (give_up c (set_output c (Some oc1) s1)))
     else do {
       let oc2 = (if notWritten > out_size oc1
                  then oc1\<lparr>out_size := notWritten + BUFSIZE, obuf := obuf oc1 @ junk_bytes env (notWritten + BUFSIZE - length (obuf oc1))\<rparr>
                  else oc1);
       b \<leftarrow> wr_bytes (obuf oc2) (out_count oc2) (drop w extra);
       Some (int (length extra),
         io_log (ListenWrite c) (set_output c (Some (oc2\<lparr>obuf := b, out_count := notWritten\<rparr>)) s1)) } }"

definition flush_done :: "nat \<Rightarrow> bytes \<Rightarrow> ConnectionOutput \<Rightarrow> 'z io_scheme \<Rightarrow> int \<times> 'z io_scheme" where
  "flush_done c extra oc s =
     (let s1 = output_pending_clear c s;
          s2 = (if out_size oc > BUFWATERMARK then s1 else s1\<lparr>FreeOutputs := oc\<lparr>out_count := 0\<rparr> # FreeOutputs s1\<rparr>)
      in (int (length extra), set_output c None s2))"

fun flush_loop :: "iokernel \<Rightarrow> nat \<Rightarrow> nat \<Rightarrow> nat \<Rightarrow> bytes \<Rightarrow> ConnectionOutput \<Rightarrow> nat \<Rightarrow> nat \<Rightarrow> nat \<Rightarrow> 'z io_scheme
    \<Rightarrow> (int \<times> 'z io_scheme) option" where
  "flush_loop env 0 k c extra oc written notWritten todo s = None"
| "flush_loop env (Suc fuel) k c extra oc written notWritten todo s =
     (if notWritten = 0 then Some (flush_done c extra oc s)
      else do {
        iov \<leftarrow> pieces oc extra written todo;
        if \<not> connected (sclients s c) then Some (-1, drop_count c (give_up c s))
        else case write_ans env k of
            WroteUpTo n \<Rightarrow>
              let xs = take n iov; left = notWritten - length xs
              in flush_loop env fuel (Suc k) c extra oc (written + length xs) left left (set_os c (\<lambda>r. r\<lparr>sent := sent r @ xs\<rparr>) s)
          | WriteWouldBlock \<Rightarrow> buffer_rest env c extra written notWritten oc s
          | MessageTooLong \<Rightarrow>
              if todo = 1 then buffer_rest env c extra written notWritten oc s
              else flush_loop env fuel (Suc k) c extra oc written notWritten (todo div 2) s
          | WriteError \<Rightarrow> Some (-1, drop_count c (give_up c s)) })"

definition FlushClient :: "iokernel \<Rightarrow> nat \<Rightarrow> bytes \<Rightarrow> 'z io_scheme \<Rightarrow> (int \<times> 'z io_scheme) option" where
  "FlushClient env c extra s =
     (case oc_output (os s c) of
        None \<Rightarrow> Some (0, s)
      | Some oc \<Rightarrow>
          let n = out_count oc + length extra + padding_for_int32 (length extra)
          in if n = 0 then Some (0, s)
             else flush_loop env ((n + 1) * (n + 1)) 0 c extra oc 0 n n (if FlushCallback s then io_log (Flushing c) s else s))"

section \<open>Writing\<close>

text \<open>Callbacks for replies; a reply is announced in full by its header.\<close>

definition reply_info :: "nat \<Rightarrow> bytes \<Rightarrow> 'z io_scheme \<Rightarrow> 'z io_scheme option" where
  "reply_info c bs s =
     (let cl = cio s c; n = length bs + padding_for_int32 (length bs)
      in if \<not> ReplyCallback s then Some s
         else if replyBytesRemaining cl \<noteq> 0
         then let left = replyBytesRemaining cl - word_of_nat n
              in Some (io_log (ReplyInfo c n False left) (set_cio c (\<lambda>r. r\<lparr>replyBytesRemaining := left\<rparr>) s))
         else if running cl \<and> bs ! 0 = 1
         then do {
           l \<leftarrow> get32 (swapped cl) bs 4;
           let left = word_of_nat l * 4 + 32 - word_of_nat n;
           Some (io_log (ReplyInfo c n True left) (set_cio c (\<lambda>r. r\<lparr>replyBytesRemaining := left\<rparr>) s)) }
         else Some s)"

definition WriteToClient :: "iokernel \<Rightarrow> nat \<Rightarrow> bytes \<Rightarrow> 'z io_scheme \<Rightarrow> (int \<times> 'z io_scheme) option" where
  "WriteToClient env c bs s =
     (if bs = [] \<or> c = 0 \<or> clientGone (sclients s c) then Some (0, s)
      else
        case get_output env c s of
          None \<Rightarrow> Some (-1, give_up c s)
        | Some s1 \<Rightarrow> do {
            oc \<leftarrow> oc_output (os s1 c);
            s2 \<leftarrow> reply_info c bs s1;
            let n = length bs;
            let pad = padding_for_int32 n;
            if out_count oc = 0 \<or> out_count oc + n + pad > out_size oc
            then
              let s3 = output_pending_clear c s2
              in FlushClient env c bs (if any_output_pending s3 then s3 else s3\<lparr>CriticalOutputPending := False, NewOutputPending := False\<rparr>)
            else do {
              let s3 = output_pending_mark c (s2\<lparr>NewOutputPending := True\<rparr>);
              b \<leftarrow> wr_bytes (obuf oc) (out_count oc) bs;
              b' \<leftarrow> wr_bytes b (out_count oc + n) (replicate pad 0);
              Some (int n, set_output c (Some (oc\<lparr>obuf := b', out_count := out_count oc + n + pad\<rparr>)) s3) } })"

text \<open>All clients with output, except those the server still has requests from.\<close>

fun flush_clients :: "(nat \<Rightarrow> iokernel) \<Rightarrow> nat list \<Rightarrow> 'z io_scheme \<Rightarrow> 'z io_scheme option" where
  "flush_clients env [] s = Some s"
| "flush_clients env (c # cs) s =
     (if clientGone (sclients s c) then flush_clients env cs s
      else if client_is_ready c s then flush_clients env cs (s\<lparr>NewOutputPending := True\<rparr>)
      else do { (_, s1) \<leftarrow> FlushClient (env c) c [] s; flush_clients env cs s1 })"

definition FlushAllOutput :: "(nat \<Rightarrow> iokernel) \<Rightarrow> 'z io_scheme \<Rightarrow> 'z io_scheme option" where
  "FlushAllOutput env s =
     (if \<not> NewOutputPending s then Some s
      else flush_clients env (output_pending_clients s) (s\<lparr>CriticalOutputPending := False, NewOutputPending := False\<rparr>))"

definition FlushIfCriticalOutputPending :: "(nat \<Rightarrow> iokernel) \<Rightarrow> 'z io_scheme \<Rightarrow> 'z io_scheme option" where
  "FlushIfCriticalOutputPending env s = (if CriticalOutputPending s then FlushAllOutput env s else Some s)"

definition SetCriticalOutputPending :: "'z io_scheme \<Rightarrow> 'z io_scheme" where
  "SetCriticalOutputPending s = s\<lparr>CriticalOutputPending := True\<rparr>"

section \<open>Buffers of a connection that ends\<close>

definition free_input :: "nat \<Rightarrow> 'z io_scheme \<Rightarrow> 'z io_scheme" where
  "free_input c s =
     (case oc_input (os s c) of
        Some i \<Rightarrow> if FreeInputs s \<noteq> [] then s
                  else s\<lparr>FreeInputs := [i\<lparr>bufptr := 0, bufcnt := 0, lenLastReq := 0, ignoreBytes := 0\<rparr>]\<rparr>
      | None \<Rightarrow> s)"

definition free_output :: "nat \<Rightarrow> 'z io_scheme \<Rightarrow> 'z io_scheme" where
  "free_output c s =
     (case oc_output (os s c) of
        Some oc \<Rightarrow> if FreeOutputs s \<noteq> [] then s else s\<lparr>FreeOutputs := [oc\<lparr>out_count := 0\<rparr>]\<rparr>
      | None \<Rightarrow> s)"

definition FreeOsBuffers :: "nat \<Rightarrow> 'z io_scheme \<Rightarrow> 'z io_scheme" where
  "FreeOsBuffers c s =
     free_output c (free_input c (if AvailableInput s = Some c then s\<lparr>AvailableInput := None\<rparr> else s))"

definition ResetOsBuffers :: "'z io_scheme \<Rightarrow> 'z io_scheme" where
  "ResetOsBuffers s = s\<lparr>FreeInputs := [], FreeOutputs := []\<rparr>"

definition CloseDownConnection :: "iokernel \<Rightarrow> nat \<Rightarrow> 'z io_scheme \<Rightarrow> 'z io_scheme option" where
  "CloseDownConnection env c s = do {
     let s1 = (if FlushCallback s then io_log (Flushing c) s else s);
     (_, s2) \<leftarrow> (if oc_output (os s1 c) \<noteq> None then FlushClient env c [] s1 else Some (0, s1));
     let s3 = FreeOsBuffers c (CloseDownFileDescriptor c s2);
     Some (set_cio c (\<lambda>r. r\<lparr>osPrivate := False\<rparr>) (set_os c (\<lambda>r. r\<lparr>oc_input := None, oc_output := None\<rparr>) s3)) }"


text \<open>Descriptors for a client go straight to the transport, which gives the answer.\<close>

definition WriteFdToClient :: "int \<Rightarrow> nat \<Rightarrow> int \<Rightarrow> bool \<Rightarrow> 'z io_scheme \<Rightarrow> int \<times> 'z io_scheme" where
  "WriteFdToClient answer c fd do_close s = (answer, io_log (SentFd c fd do_close) s)"

section \<open>The stream of a client\<close>

definition oc_ok :: "ConnectionOutput \<Rightarrow> bool" where
  "oc_ok oc \<longleftrightarrow> length (obuf oc) = out_size oc \<and> out_count oc \<le> out_size oc"

definition out_ok :: "'z io_scheme \<Rightarrow> bool" where
  "out_ok s \<longleftrightarrow> (\<forall>c oc. oc_output (os s c) = Some oc \<longrightarrow> oc_ok oc) \<and> (\<forall>oc \<in> set (FreeOutputs s). oc_ok oc \<and> out_count oc = 0)"

definition waiting :: "'z io_scheme \<Rightarrow> nat \<Rightarrow> bytes" where
  "waiting s c = (case oc_output (os s c) of None \<Rightarrow> [] | Some oc \<Rightarrow> take (out_count oc) (obuf oc))"

definition out_stream :: "'z io_scheme \<Rightarrow> nat \<Rightarrow> bytes" where
  "out_stream s c = sent (os s c) @ waiting s c"

definition keen :: "iokernel \<Rightarrow> bool" where
  "keen env \<longleftrightarrow> (\<forall>k n. write_ans env k = WroteUpTo n \<longrightarrow> 0 < n)"

text \<open>Nothing of the other clients changes but the free buffers.\<close>

definition others_kept :: "nat \<Rightarrow> 'z io_scheme \<Rightarrow> 'z io_scheme \<Rightarrow> bool" where
  "others_kept c s s' \<longleftrightarrow> (\<forall>d. d \<noteq> c \<longrightarrow> os s' d = os s d \<and> connected (sclients s' d) = connected (sclients s d))
     \<and> (\<forall>d. clientGone (sclients s' d) = clientGone (sclients s d) \<and> oc_input (os s' d) = oc_input (os s d) \<and> wire (os s' d) = wire (os s d))
     \<and> FreeInputs s' = FreeInputs s \<and> AvailableInput s' = AvailableInput s"

lemma others_kept_refl: "others_kept c s s"
  by (simp add: others_kept_def)

lemma others_kept_trans: "others_kept c s t \<Longrightarrow> others_kept c t u \<Longrightarrow> others_kept c s u"
  by (simp add: others_kept_def)

lemma insert_iov_ok:
  assumes "n \<le> length ptr"
  shows "insert_iov ptr n (int b, int r, iov) = Some (int (b - n), int (r - (n - b)), iov @ take r (drop b (take n ptr)))"
proof (cases "b < n \<and> 0 < r")
  case True
  define l where "l = min (n - b) r"
  have l: "min (int n - int b) (int r) = int l" "0 < l" "b + l \<le> n" using True by (auto simp: l_def of_nat_diff min_def)
  have "rd_bytes ptr b l = Some (take l (drop b ptr))" using l(3) assms by (simp add: rd_bytes_def)
  moreover have "take l (drop b ptr) = take r (drop b (take n ptr))" by (simp add: l_def drop_take min.commute)
  moreover have "int r - int l = int (r - (n - b))" by (auto simp: l_def min_def)
  moreover have "int (b - n) = 0" using True by simp
  ultimately show ?thesis using l(1,2) by (simp add: insert_iov_def Let_def)
next
  case False
  then show ?thesis using assms by (auto simp: insert_iov_def Let_def min_def of_nat_diff)
qed

definition whole :: "ConnectionOutput \<Rightarrow> bytes \<Rightarrow> bytes" where
  "whole oc extra = take (out_count oc) (obuf oc) @ extra @ replicate (padding_for_int32 (length extra)) 0"

lemma padding_small: "padding_for_int32 n \<le> 3" "(n + padding_for_int32 n) mod 4 = 0"
proof -
  have "- int n mod 4 < 4" "0 \<le> - int n mod 4" by simp_all
  then show "padding_for_int32 n \<le> 3" by (simp add: padding_for_int32_def)
  have "(int n + (- int n) mod 4) mod 4 = 0" by (simp add: mod_add_right_eq)
  then have "int ((n + padding_for_int32 n) mod 4) = 0" by (simp add: padding_for_int32_def zmod_int)
  then show "(n + padding_for_int32 n) mod 4 = 0" by simp
qed

lemma pieces_ok: "oc_ok oc \<Longrightarrow> pieces oc extra w todo = Some (take todo (drop w (whole oc extra)))"
proof -
  assume ok: "oc_ok oc"
  define A where "A = take (out_count oc) (obuf oc)"
  have A: "length A = out_count oc" "out_count oc \<le> length (obuf oc)" using ok by (simp_all add: A_def oc_ok_def)
  define p where "p = padding_for_int32 (length extra)"
  have p: "p \<le> length (replicate 3 (0 :: u8))" "take p (replicate 3 0) = replicate p (0 :: u8)"
    using padding_small(1) [of "length extra"] by (simp_all add: p_def min_def)
  show ?thesis
    unfolding pieces_def insert_iov_ok [OF A(2)] bind.bind_lunit insert_iov_ok [OF order_refl] p_def [symmetric] insert_iov_ok [OF p(1)] prod.case
    using padding_small(1) [of "length extra"]
    by (simp add: whole_def p(2) A_def [symmetric] A(1) p_def [symmetric] min_absorb1)
qed

lemma length_whole: "oc_ok oc \<Longrightarrow> length (whole oc extra) = out_count oc + length extra + padding_for_int32 (length extra)"
  by (simp add: whole_def oc_ok_def)

section \<open>Keeping the rest\<close>

lemma moved_up_ok:
  assumes "oc_ok oc"
  shows "\<exists>w' oc1. moved_up w oc = Some (w', oc1) \<and> oc_ok oc1 \<and> out_size oc1 = out_size oc
    \<and> take (out_count oc1) (obuf oc1) = drop w (take (out_count oc) (obuf oc)) \<and> w' = w - out_count oc \<and> out_count oc1 = out_count oc - w"
proof (cases "w < out_count oc \<and> 0 < w")
  case True
  have o: "length (obuf oc) = out_size oc" "out_count oc \<le> out_size oc" using assms by (simp_all add: oc_ok_def)
  define n where "n = out_count oc - w"
  define b where "b = take n (drop w (obuf oc)) @ drop n (obuf oc)"
  have "memmove (obuf oc) 0 w n = Some b" using True o by (simp add: memmove_def rd_bytes_def wr_bytes_def b_def n_def)
  moreover have "length b = out_size oc" "take n b = drop w (take (out_count oc) (obuf oc))"
    using True o by (simp_all add: b_def n_def drop_take)
  ultimately show ?thesis using True o by (simp add: moved_up_def n_def oc_ok_def)
next
  case False
  then show ?thesis using assms by (auto simp: moved_up_def oc_ok_def)
qed


lemma pending_mark_os: "os (output_pending_mark c s) = os s" "sclients (output_pending_mark c s) = sclients s"
    "FreeOutputs (output_pending_mark c s) = FreeOutputs s" "FreeInputs (output_pending_mark c s) = FreeInputs s"
    "AvailableInput (output_pending_mark c s) = AvailableInput s"
  by (simp_all add: output_pending_mark_def)

lemma give_up_ok:
  "out_ok s \<Longrightarrow> out_ok (drop_count c (give_up c s)) \<and> others_kept c s (drop_count c (give_up c s))
     \<and> \<not> connected (sclients (drop_count c (give_up c s)) c) \<and> sent (os (drop_count c (give_up c s)) c) = sent (os s c)"
  "out_ok s \<Longrightarrow> out_ok (give_up c s) \<and> others_kept c s (give_up c s)
     \<and> \<not> connected (sclients (give_up c s) c) \<and> sent (os (give_up c s) c) = sent (os s c)"
  by (auto simp: out_ok_def oc_ok_def drop_count_def give_up_def MarkClientException_def AbortClient_def CloseDownFileDescriptor_def
      mark_client_ready_def set_sclient_def others_kept_def io_defs)

lemma buffer_rest_ok:
  fixes s :: "'z io_scheme"
  assumes ok: "out_ok s" "oc_ok oc" and n: "written < length (whole oc extra)" "notWritten = length (whole oc extra) - written"
    and st: "sent (os s c) = before @ take written (whole oc extra)"
  shows "\<exists>r s'. buffer_rest env c extra written notWritten oc s = Some (r, s') \<and> out_ok s' \<and> others_kept c s s'
    \<and> (r = -1 \<and> \<not> connected (sclients s' c) \<and> (\<not> realloc_ok env \<or> notWritten + BUFSIZE > MAXINT) \<and> sent (os s' c) = sent (os s c)
       \<or> r = int (length extra) \<and> connected (sclients s' c) = connected (sclients s c)
         \<and> (\<exists>P. length P = padding_for_int32 (length extra)
              \<and> out_stream s' c = before @ take (out_count oc) (obuf oc) @ extra @ P))"
proof -
  define D where "D = take (out_count oc) (obuf oc)"
  define p where "p = padding_for_int32 (length extra)"
  have lD: "length D = out_count oc" using ok(2) by (simp add: D_def oc_ok_def)
  have W: "whole oc extra = D @ extra @ replicate p 0" by (simp add: whole_def D_def p_def)
  obtain w oc1 where m: "moved_up written oc = Some (w, oc1)" "oc_ok oc1" "out_size oc1 = out_size oc"
    "take (out_count oc1) (obuf oc1) = drop written D" "w = written - out_count oc" "out_count oc1 = out_count oc - written"
    using moved_up_ok [OF ok(2), of written] by (auto simp: D_def)
  define s1 where "s1 = output_pending_mark c s"
  have s1: "out_ok s1" "others_kept c s s1" "connected (sclients s1 c) = connected (sclients s c)" "sent (os s1 c) = sent (os s c)"
    using ok(1) by (simp_all add: s1_def out_ok_def others_kept_def pending_mark_os)
  show ?thesis
  proof (cases "notWritten > out_size oc1 \<and> \<not> (notWritten + BUFSIZE \<le> MAXINT \<and> realloc_ok env)")
    case True
    define t where "t = set_output c (Some oc1) s1"
    have t: "out_ok t" "others_kept c s1 t" "sent (os t c) = sent (os s1 c)"
      using s1(1) m(2) by (auto simp: t_def out_ok_def others_kept_def io_defs)
    have "buffer_rest env c extra written notWritten oc s = Some (-1, drop_count c (give_up c t))"
      using True m(1) by (simp add: buffer_rest_def Let_def s1_def [symmetric] t_def)
    moreover note g = give_up_ok(1) [OF t(1), of c]
    moreover have "others_kept c s (drop_count c (give_up c t))" using others_kept_trans [OF s1(2)] others_kept_trans [OF t(2)] g by blast
    moreover have "\<not> realloc_ok env \<or> notWritten + BUFSIZE > MAXINT" using True by auto
    ultimately show ?thesis using s1(4) t(3) by (intro exI [of _ "-1"] exI [of _ "drop_count c (give_up c t)"]) simp
  next
    case False
    define oc2 where "oc2 = (if notWritten > out_size oc1
      then oc1\<lparr>out_size := notWritten + BUFSIZE, obuf := obuf oc1 @ junk_bytes env (notWritten + BUFSIZE - length (obuf oc1))\<rparr> else oc1)"
    have oc2: "length (obuf oc2) = out_size oc2" "notWritten \<le> out_size oc2" "out_count oc2 = out_count oc1"
      "take (out_count oc1) (obuf oc2) = drop written D"
      using m(2,4) by (auto simp: oc2_def oc_ok_def junk_bytes_def)
    define n where "n = out_count oc - written"
    define x where "x = drop w extra"
    have nw: "n + length x \<le> notWritten" "notWritten \<le> n + length x + p" "length x = length extra - w"
      using n lD unfolding W by (auto simp: n_def x_def m(5))
    define b where "b = take n (obuf oc2) @ x @ drop (n + length x) (obuf oc2)"
    have b: "wr_bytes (obuf oc2) (out_count oc2) x = Some b" "length b = out_size oc2"
      using oc2 nw(1) m(6) lD by (simp_all add: wr_bytes_def b_def n_def)
    define oc3 where "oc3 = oc2\<lparr>obuf := b, out_count := notWritten\<rparr>"
    define s' where "s' = io_log (ListenWrite c) (set_output c (Some oc3) s1)"
    have run: "buffer_rest env c extra written notWritten oc s = Some (int (length extra), s')"
      using False m(1) b(1) by (simp add: buffer_rest_def Let_def s1_def [symmetric] oc2_def [symmetric] x_def [symmetric] s'_def oc3_def)
    have "oc_ok oc3" using b(2) oc2(2) by (simp add: oc_ok_def oc3_def)
    then have "out_ok s'" using s1(1) by (auto simp: s'_def out_ok_def io_defs)
    moreover have "others_kept c s1 s'" by (simp add: s'_def others_kept_def io_defs)
    moreover have "connected (sclients s' c) = connected (sclients s1 c)" "sent (os s' c) = sent (os s1 c)" "waiting s' c = take notWritten b"
      by (simp_all add: s'_def io_defs waiting_def oc3_def)
    ultimately have o': "out_ok s'" "others_kept c s s'" "connected (sclients s' c) = connected (sclients s c)"
      "sent (os s' c) = sent (os s c)" "waiting s' c = take notWritten b"
      using s1(2-4) others_kept_trans [of c s s1 s'] by simp_all
    define R where "R = take (notWritten - (n + length x)) (drop (n + length x) (obuf oc2))"
    have tn: "take n (obuf oc2) = drop written D" using oc2(4) m(6) by (simp add: n_def)
    have ln: "length (take n (obuf oc2)) = n" using oc2(1,2) nw(1) by simp
    have tb: "take notWritten b = drop written D @ x @ R"
      using nw(1) ln unfolding b_def tn R_def by (simp add: tn)
    have lR: "length R = notWritten - (n + length x)" using oc2(1,2) nw(1) by (simp add: R_def)
    define P where "P = take (written - (length D + length extra)) (replicate p 0) @ R"
    have lP: "length P = p"
    proof -
      have l: "written < out_count oc + length extra + p" using n(1) lD unfolding W by simp
      have nw': "notWritten = out_count oc + length extra + p - written" using n(2) lD unfolding W by simp
      have e: "length P = min (written - (out_count oc + length extra)) p + (notWritten - (n + (length extra - w)))"
        using lR lD nw(3) by (simp add: P_def)
      consider "written \<le> out_count oc" | "out_count oc < written" "written \<le> out_count oc + length extra"
        | "out_count oc + length extra < written" by linarith
      then show ?thesis
        unfolding e nw' n_def m(5) by cases (use l in \<open>simp_all add: min_def\<close>)
    qed
    have "take written (whole oc extra) @ drop written D @ x @ R = D @ extra @ P"
    proof (cases "written \<le> length D")
      case True
      then have "w = 0" "x = extra" using lD by (simp_all add: m(5) x_def)
      then show ?thesis using True by (simp add: W P_def)
    next
      case False
      then have "w = written - length D" by (simp add: m(5) lD)
      then show ?thesis using False by (cases "written \<le> length D + length extra") (simp_all add: W P_def x_def)
    qed
    then have "out_stream s' c = before @ D @ extra @ P"
      unfolding out_stream_def o'(4,5) st tb by simp
    then show ?thesis using run o' lP by (auto simp: D_def p_def)
  qed
qed


section \<open>Flushing keeps the stream\<close>

definition may_break :: "iokernel \<Rightarrow> nat \<Rightarrow> 'z io_scheme \<Rightarrow> nat \<Rightarrow> bool" where
  "may_break env n s c \<longleftrightarrow> \<not> malloc_ok env \<or> \<not> realloc_ok env \<or> n + BUFSIZE > MAXINT \<or> \<not> connected (sclients s c)
     \<or> (\<exists>k. write_ans env k = WriteError)"

text \<open>The result of a call that had to add \<open>extra\<close> to the stream.\<close>

definition wrote :: "bool \<Rightarrow> nat \<Rightarrow> bytes \<Rightarrow> bytes \<Rightarrow> 'z io_scheme \<Rightarrow> int \<Rightarrow> 'z io_scheme \<Rightarrow> bool" where
  "wrote F c extra st s r s' \<longleftrightarrow> out_ok s' \<and> others_kept c s s'
     \<and> (r = -1 \<and> F \<and> \<not> connected (sclients s' c)
        \<or> r = int (length extra) \<and> connected (sclients s' c) = connected (sclients s c)
          \<and> (\<exists>P. length P = padding_for_int32 (length extra) \<and> out_stream s' c = st @ extra @ P))"

lemma wroteI_broken: "out_ok s' \<Longrightarrow> others_kept c s s' \<Longrightarrow> F \<Longrightarrow> \<not> connected (sclients s' c) \<Longrightarrow> wrote F c extra st s (-1) s'"
  by (simp add: wrote_def)

lemma wrote_from: "wrote F c extra st t r s' \<Longrightarrow> others_kept c s t \<Longrightarrow> connected (sclients t c) = connected (sclients s c) \<Longrightarrow> wrote F c extra st s r s'"
  using others_kept_trans [of c s t s'] by (auto simp: wrote_def)

lemma flush_loop_ok:
  fixes s :: "'z io_scheme"
  assumes keen: "keen env" and ok: "oc_ok oc" and T: "T = whole oc extra"
  shows "out_ok s \<Longrightarrow> oc_output (os s c) = Some oc \<Longrightarrow> sent (os s c) = before @ take written T \<Longrightarrow> notWritten = length T - written
    \<Longrightarrow> written \<le> length T \<Longrightarrow> todo \<le> notWritten \<Longrightarrow> (0 < notWritten \<longrightarrow> 0 < todo) \<Longrightarrow> notWritten * (length T + 1) + todo < fuel
    \<Longrightarrow> \<exists>r s'. flush_loop env fuel k c extra oc written notWritten todo s = Some (r, s')
      \<and> wrote (may_break env (length T) s c) c extra (before @ take (out_count oc) (obuf oc)) s r s'"
proof (induction fuel arbitrary: k written notWritten todo s)
  case (Suc fuel)
  define p where "p = padding_for_int32 (length extra)"
  define D where "D = take (out_count oc) (obuf oc)"
  have TD: "T = D @ extra @ replicate p 0" by (simp add: T whole_def D_def p_def)
  show ?case
  proof (cases "notWritten = 0")
    case True
    define s' where "s' = snd (flush_done c extra oc s)"
    have "out_stream s' c = before @ D @ extra @ replicate p 0"
      using Suc.prems True by (simp add: s'_def flush_done_def Let_def out_stream_def waiting_def output_pending_clear_def io_defs TD)
    moreover have "out_ok s'" using Suc.prems(1) ok
      by (auto simp: s'_def flush_done_def Let_def out_ok_def output_pending_clear_def io_defs oc_ok_def)
    moreover have "others_kept c s s'" "sclients s' = sclients s"
      by (simp_all add: s'_def flush_done_def Let_def others_kept_def output_pending_clear_def io_defs)
    moreover have "flush_loop env (Suc fuel) k c extra oc written notWritten todo s = Some (int (length extra), s')"
      using True by (simp add: s'_def flush_done_def Let_def)
    moreover have "length (replicate p (0 :: u8)) = p" by simp
    ultimately show ?thesis unfolding wrote_def D_def p_def by auto
  next
    case False
    define iov where "iov = take todo (drop written T)"
    have pc: "pieces oc extra written todo = Some iov" using pieces_ok [OF ok, of extra written todo] by (simp add: iov_def T)
    have liov: "length iov = todo" "0 < todo" using Suc.prems(4-7) False by (simp_all add: iov_def)
    define gu where "gu = drop_count c (give_up c s)"
    have gu: "wrote (may_break env (length T) s c) c extra st s (-1) gu" if "may_break env (length T) s c" for st
      using give_up_ok(1) [OF Suc.prems(1), of c] that by (intro wroteI_broken) (simp_all add: gu_def)
    have run: "flush_loop env (Suc fuel) k c extra oc written notWritten todo s =
        (if \<not> connected (sclients s c) then Some (-1, gu)
        else case write_ans env k of
            WroteUpTo n \<Rightarrow>
              let xs = take n iov; left = notWritten - length xs
              in flush_loop env fuel (Suc k) c extra oc (written + length xs) left left (set_os c (\<lambda>r. r\<lparr>sent := sent r @ xs\<rparr>) s)
          | WriteWouldBlock \<Rightarrow> buffer_rest env c extra written notWritten oc s
          | MessageTooLong \<Rightarrow>
              if todo = 1 then buffer_rest env c extra written notWritten oc s
              else flush_loop env fuel (Suc k) c extra oc written notWritten (todo div 2) s
          | WriteError \<Rightarrow> Some (-1, gu))"
      unfolding flush_loop.simps if_not_P [OF False] pc bind.bind_lunit gu_def by (rule refl)
    have rest: "\<exists>r s'. buffer_rest env c extra written notWritten oc s = Some (r, s')
        \<and> wrote (may_break env (length T) s c) c extra (before @ D) s r s'"
    proof -
      have "written < length T" using False Suc.prems(4) by simp
      from buffer_rest_ok [OF Suc.prems(1) ok this [unfolded T] Suc.prems(4) [unfolded T] Suc.prems(3) [unfolded T], of env]
      obtain r s' where r: "buffer_rest env c extra written notWritten oc s = Some (r, s')" "out_ok s'" "others_kept c s s'"
        "r = -1 \<and> \<not> connected (sclients s' c) \<and> (\<not> realloc_ok env \<or> notWritten + BUFSIZE > MAXINT) \<and> sent (os s' c) = sent (os s c)
       \<or> r = int (length extra) \<and> connected (sclients s' c) = connected (sclients s c)
         \<and> (\<exists>P. length P = padding_for_int32 (length extra) \<and> out_stream s' c = before @ D @ extra @ P)"
        unfolding D_def by blast
      have "\<not> realloc_ok env \<or> notWritten + BUFSIZE > MAXINT \<Longrightarrow> may_break env (length T) s c"
        using Suc.prems(4) by (auto simp: may_break_def)
      then show ?thesis using r unfolding wrote_def by auto
    qed
    show ?thesis
    proof (cases "connected (sclients s c)")
      case False
      then show ?thesis using gu unfolding run by (simp add: may_break_def)
    next
      case conn: True
      show ?thesis
      proof (cases "write_ans env k")
        case (WroteUpTo n)
        define xs where "xs = take n iov"
        define t where "t = set_os c (\<lambda>r. r\<lparr>sent := sent r @ xs\<rparr>) s"
        have "0 < n" using keen WroteUpTo by (auto simp: keen_def)
        then have lx: "0 < length xs" "length xs \<le> todo" using liov by (simp_all add: xs_def)
        define left where "left = notWritten - length xs"
        have xs: "take (written + length xs) T = take written T @ xs"
        proof -
          have "xs = take (length xs) (drop written T)" by (simp add: xs_def iov_def min_def)
          then show ?thesis by (metis take_add)
        qed
        have t: "out_ok t" "oc_output (os t c) = Some oc" "sent (os t c) = before @ take (written + length xs) T"
          "others_kept c s t" "sclients t = sclients s"
          using Suc.prems(1-3) unfolding xs by (auto simp: t_def out_ok_def others_kept_def set_os_def)
        have mb: "may_break env (length T) t c = may_break env (length T) s c" by (simp add: may_break_def t(5))
        have "left * (length T + 1) + left < notWritten * (length T + 1) + todo"
        proof -
          have "left + 1 \<le> notWritten" "left \<le> length T" using lx Suc.prems(4,6) unfolding left_def by linarith+
          then have "(left + 1) * (length T + 1) \<le> notWritten * (length T + 1)" by (intro mult_le_mono1)
          then have "left * (length T + 1) + (length T + 1) \<le> notWritten * (length T + 1)" by simp
          then show ?thesis using \<open>left \<le> length T\<close> by linarith
        qed
        then have fu: "left * (length T + 1) + left < fuel" using Suc.prems(8) by simp
        have "left = length T - (written + length xs)" "written + length xs \<le> length T"
          using Suc.prems(4-6) lx by (simp_all add: left_def)
        from Suc.IH [OF t(1-3) this order_refl _ fu, of "Suc k"]
        obtain r s' where r: "flush_loop env fuel (Suc k) c extra oc (written + length xs) left left t = Some (r, s')"
            "wrote (may_break env (length T) s c) c extra (before @ take (out_count oc) (obuf oc)) t r s'"
          unfolding mb by blast
        have "wrote (may_break env (length T) s c) c extra (before @ take (out_count oc) (obuf oc)) s r s'"
          by (rule wrote_from [OF r(2) t(4)]) (simp only: t(5))
        then show ?thesis
          using conn r(1) unfolding run WroteUpTo by (auto simp: Let_def xs_def [symmetric] left_def [symmetric] t_def [symmetric])
      next
        case WriteWouldBlock
        then show ?thesis using conn rest unfolding run D_def by simp
      next
        case MessageTooLong
        show ?thesis
        proof (cases "todo = 1")
          case True
          then show ?thesis using conn rest MessageTooLong unfolding run D_def by simp
        next
          case False
          then have half: "0 < todo div 2" "todo div 2 \<le> notWritten" "todo div 2 < todo" using liov(2) Suc.prems(6) by auto
          have "notWritten * (length T + 1) + todo div 2 < fuel" using half(3) Suc.prems(8) by linarith
          from Suc.IH [OF Suc.prems(1-5) half(2) _ this, of "Suc k"] half(1)
          show ?thesis using conn MessageTooLong False unfolding run by simp
        qed
      next
        case WriteError
        then have "may_break env (length T) s c" by (auto simp: may_break_def)
        then show ?thesis using gu WriteError conn unfolding run by simp
      qed
    qed
  qed
qed simp

lemma flush_client_ok:
  fixes s :: "'z io_scheme"
  assumes keen: "keen env" and ok: "out_ok s" and oc: "oc_output (os s c) \<noteq> None \<or> extra = []"
  shows "\<exists>r s'. FlushClient env c extra s = Some (r, s')
    \<and> wrote (may_break env (length (waiting s c) + length extra + padding_for_int32 (length extra)) s c) c extra (out_stream s c) s r s'"
proof (cases "oc_output (os s c)")
  case None
  then have "wrote F c extra (out_stream s c) s 0 s" for F
    using ok oc others_kept_refl by (simp add: wrote_def padding_for_int32_def)
  then show ?thesis using None by (simp add: FlushClient_def)
next
  case (Some oc)
  have o: "oc_ok oc" using ok Some by (simp add: out_ok_def)
  define T where "T = whole oc extra"
  define n where "n = out_count oc + length extra + padding_for_int32 (length extra)"
  have n: "n = length T" using length_whole [OF o, of extra] by (simp add: n_def T_def)
  have q: "waiting s c = take (out_count oc) (obuf oc)" "length (waiting s c) = out_count oc" using Some o by (simp_all add: waiting_def oc_ok_def)
  define t where "t = (if FlushCallback s then io_log (Flushing c) s else s)"
  have t: "out_ok t" "oc_output (os t c) = Some oc" "sent (os t c) = sent (os s c) @ take 0 T" "others_kept c s t" "sclients t = sclients s"
    using ok Some by (simp_all add: t_def io_log_def out_ok_def others_kept_def)
  show ?thesis
  proof (cases "n = 0")
    case True
    then have "wrote F c extra (out_stream s c) s 0 s" for F
      using ok others_kept_refl by (simp add: wrote_def n_def padding_for_int32_def)
    moreover have "FlushClient env c extra s = Some (0, s)"
      unfolding FlushClient_def Some option.case Let_def n_def [symmetric] True by simp
    ultimately show ?thesis by blast
  next
    case False
    have run: "FlushClient env c extra s = flush_loop env ((n + 1) * (n + 1)) 0 c extra oc 0 n n t"
      using Some False by (simp add: FlushClient_def n_def [symmetric] t_def Let_def)
    have fuel: "n * (length T + 1) + n < (n + 1) * (n + 1)" using n by simp
    obtain r s' where r: "flush_loop env ((n + 1) * (n + 1)) 0 c extra oc 0 n n t = Some (r, s')"
      "wrote (may_break env (length T) t c) c extra (sent (os s c) @ take (out_count oc) (obuf oc)) t r s'"
      using flush_loop_ok [OF keen o T_def t(1-3) _ _ order_refl _ fuel, of 0] n False by auto
    have "may_break env (length T) t c = may_break env (length (waiting s c) + length extra + padding_for_int32 (length extra)) s c"
      unfolding n [symmetric] n_def q(2) may_break_def t(5) by (rule refl)
    moreover have "connected (sclients t c) = connected (sclients s c)" by (simp only: t(5))
    ultimately show ?thesis
      using r(1) wrote_from [OF r(2) t(4)] unfolding run out_stream_def q(1) by auto
  qed
qed


section \<open>Writing adds to the stream\<close>

text \<open>The header of a reply is written in one piece when somebody listens for replies.\<close>

definition reply_whole :: "bytes \<Rightarrow> bool" where
  "reply_whole bs \<longleftrightarrow> (bs \<noteq> [] \<and> bs ! 0 = 1 \<longrightarrow> 8 \<le> length bs)"

lemma reply_info_ok:
  assumes "reply_whole bs" "bs \<noteq> []"
  shows "\<exists>t. reply_info c bs s = Some t \<and> os t = os s \<and> sclients t = sclients s \<and> FreeOutputs t = FreeOutputs s
    \<and> FreeInputs t = FreeInputs s \<and> AvailableInput t = AvailableInput s"
proof -
  have "8 \<le> length bs \<Longrightarrow> get32 sw bs 4 = Some (num sw (take 4 (drop 4 bs)))" for sw by (simp add: get32_def rd_bytes_def)
  then show ?thesis using assms by (auto simp: reply_info_def Let_def reply_whole_def io_defs)
qed

lemma get_output_ok:
  assumes "out_ok s" "get_output env c s = Some t"
  shows "out_ok t \<and> others_kept c s t \<and> oc_output (os t c) \<noteq> None \<and> out_stream t c = out_stream s c \<and> sclients t = sclients s
    \<and> waiting t c = waiting s c \<and> cio t = cio s \<and> ReplyCallback t = ReplyCallback s"
proof (cases "oc_output (os s c)")
  case (Some oc)
  then show ?thesis using assms others_kept_refl by (auto simp: get_output_def)
next
  case None
  have new: ?thesis if "t = set_output c (Some oc) (s\<lparr>FreeOutputs := fs\<rparr>)" "oc_ok oc" "out_count oc = 0" "set fs \<subseteq> set (FreeOutputs s)" for oc fs
    using that assms(1) None by (auto simp: out_ok_def others_kept_def io_defs out_stream_def waiting_def)
  show ?thesis
  proof (cases "FreeOutputs s")
    case (Cons oc fs)
    then have "oc_ok oc \<and> out_count oc = 0" using assms(1) by (simp add: out_ok_def)
    then show ?thesis using new [of oc fs] None assms(2) Cons by (auto simp: get_output_def)
  next
    case Nil
    define oc where "oc = \<lparr>obuf = replicate BUFSIZE (0 :: u8), out_size = BUFSIZE, out_count = 0\<rparr>"
    have "t = set_output c (Some oc) s"
      using None assms(2) Nil by (auto simp: get_output_def AllocateOutputBuffer_def oc_def split: if_splits)
    then have "t = set_output c (Some oc) (s\<lparr>FreeOutputs := FreeOutputs s\<rparr>)" by simp
    then show ?thesis by (rule new) (simp_all add: oc_def oc_ok_def)
  qed
qed

lemma add_to_buffer:
  assumes "oc_ok oc" "out_count oc + length bs + p \<le> out_size oc"
  shows "\<exists>b b'. wr_bytes (obuf oc) (out_count oc) bs = Some b \<and> wr_bytes b (out_count oc + length bs) (replicate p 0) = Some b'
    \<and> length b' = out_size oc \<and> take (out_count oc + length bs + p) b' = take (out_count oc) (obuf oc) @ bs @ replicate p 0"
proof -
  define A where "A = take (out_count oc) (obuf oc)"
  have A: "length A = out_count oc" "length (obuf oc) = out_size oc" using assms(1) by (simp_all add: A_def oc_ok_def)
  define b where "b = A @ bs @ drop (length A + length bs) (obuf oc)"
  have "wr_bytes (obuf oc) (out_count oc) bs = Some b" using assms(2) A by (simp add: wr_bytes_def b_def A_def [symmetric])
  moreover have "wr_bytes b (length A + length bs) (replicate p 0) = Some (A @ bs @ replicate p 0 @ drop (length A + length bs + p) (obuf oc))"
    using assms(2) A by (simp add: wr_bytes_def b_def add.commute add.left_commute)
  ultimately show ?thesis using assms(2) A by (simp add: A_def [symmetric])
qed

lemma write_to_client_ok:
  fixes s :: "'z io_scheme"
  assumes keen: "keen env" and ok: "out_ok s" and bs: "reply_whole bs" and live: "c \<noteq> 0" "\<not> clientGone (sclients s c)"
  shows "\<exists>r s'. WriteToClient env c bs s = Some (r, s')
    \<and> wrote (may_break env (length (waiting s c) + length bs + padding_for_int32 (length bs)) s c) c bs (out_stream s c) s r s'"
proof (cases "bs = []")
  case True
  then show ?thesis using ok others_kept_refl by (auto simp: WriteToClient_def wrote_def padding_for_int32_def)
next
  case ne: False
  define n where "n = length bs"
  define p where "p = padding_for_int32 n"
  show ?thesis
  proof (cases "get_output env c s")
    case None
    then have "\<not> malloc_ok env" by (auto simp: get_output_def AllocateOutputBuffer_def split: option.splits list.splits if_splits)
    moreover have "WriteToClient env c bs s = Some (-1, give_up c s)" using ne live None by (simp add: WriteToClient_def)
    ultimately show ?thesis using give_up_ok(2) [OF ok, of c] wroteI_broken [of "give_up c s" c s] by (auto simp: may_break_def)
  next
    case (Some s1)
    note g = get_output_ok [OF ok Some]
    obtain oc where oc: "oc_output (os s1 c) = Some oc" using g by blast
    obtain s2 where s2: "reply_info c bs s1 = Some s2" "os s2 = os s1" "sclients s2 = sclients s1" "FreeOutputs s2 = FreeOutputs s1"
      "FreeInputs s2 = FreeInputs s1" "AvailableInput s2 = AvailableInput s1"
      using reply_info_ok [OF bs ne, of c s1] by blast
    have same: "out_stream s2 c = out_stream s1 c" "waiting s2 c = waiting s1 c" unfolding out_stream_def waiting_def s2(2) by (rule refl)+
    have g2: "out_ok s2" "others_kept c s s2" "oc_output (os s2 c) = Some oc" "out_stream s2 c = out_stream s c" "sclients s2 = sclients s"
      "waiting s2 c = waiting s c"
      using g s2 oc same by (simp_all add: out_ok_def others_kept_def)
    have o: "oc_ok oc" using g2(1,3) by (simp add: out_ok_def)
    have run: "WriteToClient env c bs s = (if out_count oc = 0 \<or> out_count oc + n + p > out_size oc
            then FlushClient env c bs (if any_output_pending (output_pending_clear c s2) then output_pending_clear c s2
              else (output_pending_clear c s2)\<lparr>CriticalOutputPending := False, NewOutputPending := False\<rparr>)
            else do {
              b \<leftarrow> wr_bytes (obuf oc) (out_count oc) bs;
              b' \<leftarrow> wr_bytes b (out_count oc + n) (replicate p 0);
              Some (int n, set_output c (Some (oc\<lparr>obuf := b', out_count := out_count oc + n + p\<rparr>))
                (output_pending_mark c (s2\<lparr>NewOutputPending := True\<rparr>))) })"
      using ne live Some oc s2(1) by (simp add: WriteToClient_def Let_def n_def p_def)
    show ?thesis
    proof (cases "out_count oc = 0 \<or> out_count oc + n + p > out_size oc")
      case True
      define t where "t = (if any_output_pending (output_pending_clear c s2) then output_pending_clear c s2
              else (output_pending_clear c s2)\<lparr>CriticalOutputPending := False, NewOutputPending := False\<rparr>)"
      have t: "os t = os s2" "sclients t = sclients s2" "FreeOutputs t = FreeOutputs s2" "FreeInputs t = FreeInputs s2"
        "AvailableInput t = AvailableInput s2"
        by (simp_all add: t_def output_pending_clear_def)
      have t2: "out_ok t" "others_kept c s t" "oc_output (os t c) \<noteq> None" "out_stream t c = out_stream s c" "waiting t c = waiting s c"
        using g2 t by (simp_all add: out_ok_def others_kept_def out_stream_def waiting_def)
      obtain r s' where r: "FlushClient env c bs t = Some (r, s')"
        "wrote (may_break env (length (waiting t c) + length bs + padding_for_int32 (length bs)) t c) c bs (out_stream t c) t r s'"
        using flush_client_ok [OF keen t2(1), of c bs] t2(3) by blast
      have "may_break env m t c = may_break env m s c" for m unfolding may_break_def t(2) g2(5) by (rule refl)
      moreover have "WriteToClient env c bs s = Some (r, s')" unfolding run if_P [OF True] t_def [symmetric] by (rule r(1))
      moreover have "connected (sclients t c) = connected (sclients s c)" by (simp only: t(2) g2(5))
      ultimately show ?thesis using wrote_from [OF r(2) t2(2)] unfolding t2(4,5) by auto
    next
      case False
      then have fit: "out_count oc + length bs + p \<le> out_size oc" by (simp add: n_def)
      obtain b b' where b: "wr_bytes (obuf oc) (out_count oc) bs = Some b" "wr_bytes b (out_count oc + n) (replicate p 0) = Some b'"
        "length b' = out_size oc" "take (out_count oc + n + p) b' = take (out_count oc) (obuf oc) @ bs @ replicate p 0"
        using add_to_buffer [OF o fit] unfolding n_def by blast
      define oc' where "oc' = oc\<lparr>obuf := b', out_count := out_count oc + n + p\<rparr>"
      define s' where "s' = set_output c (Some oc') (output_pending_mark c (s2\<lparr>NewOutputPending := True\<rparr>))"
      have "WriteToClient env c bs s = Some (int n, s')"
        unfolding run if_not_P [OF False] b(1,2) bind.bind_lunit s'_def oc'_def by (rule refl)
      moreover have "oc_ok oc'" using b(3) fit by (simp add: oc'_def oc_ok_def n_def)
      then have "out_ok s'" using g2(1) by (auto simp: s'_def out_ok_def io_defs pending_mark_os)
      moreover have "others_kept c s s'" using g2(2,5) by (auto simp: s'_def others_kept_def io_defs pending_mark_os)
      moreover have "connected (sclients s' c) = connected (sclients s c)" by (simp add: s'_def io_defs pending_mark_os g2(5))
      moreover have "out_stream s' c = out_stream s c @ bs @ replicate p 0"
      proof -
        have "out_stream s' c = sent (os s2 c) @ take (out_count oc + n + p) b'"
          by (simp add: out_stream_def waiting_def s'_def io_defs pending_mark_os oc'_def)
        also have "\<dots> = out_stream s2 c @ bs @ replicate p 0" using g2(3) by (simp add: b(4) out_stream_def waiting_def)
        finally show ?thesis using g2(4) by simp
      qed
      moreover have "length (replicate p (0 :: u8)) = padding_for_int32 (length bs)" by (simp add: p_def n_def)
      ultimately show ?thesis unfolding wrote_def n_def by auto
    qed
  qed
qed

section \<open>A whole run\<close>

datatype out_step = Message nat bytes iokernel | FlushAll "nat \<Rightarrow> iokernel"

fun send_all :: "out_step list \<Rightarrow> 'z io_scheme \<Rightarrow> 'z io_scheme option" where
  "send_all [] s = Some s"
| "send_all (Message c bs env # xs) s = do { (_, s1) \<leftarrow> WriteToClient env c bs s; send_all xs s1 }"
| "send_all (FlushAll env # xs) s = do { s1 \<leftarrow> FlushAllOutput env s; send_all xs s1 }"

fun messages :: "nat \<Rightarrow> out_step list \<Rightarrow> bytes list" where
  "messages c [] = []"
| "messages c (Message d bs env # xs) = (if d = c then [bs] else []) @ messages c xs"
| "messages c (FlushAll env # xs) = messages c xs"

text \<open>Messages one after the other, each filled up to whole words.\<close>

fun framed :: "bytes list \<Rightarrow> bytes \<Rightarrow> bool" where
  "framed [] bs \<longleftrightarrow> bs = []"
| "framed (m # ms) bs \<longleftrightarrow> length m + padding_for_int32 (length m) \<le> length bs \<and> take (length m) bs = m
     \<and> framed ms (drop (length m + padding_for_int32 (length m)) bs)"

declare framed.simps [simp del]

fun step_keen :: "out_step \<Rightarrow> bool" where
  "step_keen (Message c bs env) \<longleftrightarrow> keen env \<and> reply_whole bs"
| "step_keen (FlushAll env) \<longleftrightarrow> (\<forall>c. keen (env c))"

text \<open>What is written to a client that stays is added to its stream.\<close>

definition stream_added :: "(nat \<Rightarrow> bytes \<Rightarrow> bool) \<Rightarrow> 'z io_scheme \<Rightarrow> 'z io_scheme \<Rightarrow> bool" where
  "stream_added A s s' \<longleftrightarrow> (\<forall>c. clientGone (sclients s' c) = clientGone (sclients s c)
     \<and> (connected (sclients s' c) \<longrightarrow> connected (sclients s c) \<and> (\<exists>x. A c x \<and> out_stream s' c = out_stream s c @ x)))"

lemma wrote_added:
  assumes "wrote F c m (out_stream s c) s r s'"
  shows "stream_added (\<lambda>d. framed (if d = c then [m] else [])) s s'"
  unfolding stream_added_def
proof (intro allI conjI impI)
  fix d
  show "clientGone (sclients s' d) = clientGone (sclients s d)" using assms by (simp add: wrote_def others_kept_def)
  assume conn: "connected (sclients s' d)"
  show "connected (sclients s d)" using assms conn by (cases "d = c") (auto simp: wrote_def others_kept_def)
  show "\<exists>x. framed (if d = c then [m] else []) x \<and> out_stream s' d = out_stream s d @ x"
  proof (cases "d = c")
    case True
    then obtain P where "length P = padding_for_int32 (length m)" "out_stream s' c = out_stream s c @ m @ P"
      using assms conn by (auto simp: wrote_def)
    then show ?thesis using True by (intro exI [of _ "m @ P"]) (simp add: framed.simps)
  next
    case False
    then have "os s' d = os s d" using assms by (simp add: wrote_def others_kept_def)
    then show ?thesis using False by (simp add: out_stream_def waiting_def framed.simps)
  qed
qed

lemma framed_append: "framed ms x \<Longrightarrow> framed ms' y \<Longrightarrow> framed (ms @ ms') (x @ y)"
  by (induction ms arbitrary: x) (auto simp: framed.simps)

lemma added_trans:
  assumes "stream_added (\<lambda>c. framed (f c)) s t" "stream_added (\<lambda>c. framed (g c)) t u"
  shows "stream_added (\<lambda>c. framed (f c @ g c)) s u"
  using assms framed_append unfolding stream_added_def by (metis append_assoc)

lemma added_refl: "stream_added (\<lambda>c. framed []) s s"
  by (simp add: stream_added_def framed.simps)

lemma framed_empty_message: "framed [[]] x \<longleftrightarrow> x = []"
  by (simp add: padding_for_int32_def framed.simps)

lemma flush_clients_ok:
  fixes s :: "'z io_scheme"
  shows "out_ok s \<Longrightarrow> \<forall>c. keen (env c) \<Longrightarrow> \<exists>s'. flush_clients env cs s = Some s' \<and> out_ok s' \<and> stream_added (\<lambda>c. framed []) s s'"
proof (induction cs arbitrary: s)
  case Nil
  then show ?case using added_refl [of s] by simp
next
  case (Cons c cs)
  show ?case
  proof (cases "clientGone (sclients s c) \<or> client_is_ready c s")
    case True
    define t where "t = (if clientGone (sclients s c) then s else s\<lparr>NewOutputPending := True\<rparr>)"
    have t: "out_ok t" "stream_added (\<lambda>c. framed []) s t"
      using Cons.prems(1) by (simp_all add: t_def out_ok_def stream_added_def out_stream_def waiting_def framed.simps)
    have "flush_clients env (c # cs) s = flush_clients env cs t" using True by (auto simp: t_def)
    then show ?thesis using Cons.IH [OF t(1) Cons.prems(2)] added_trans [OF t(2)] by auto
  next
    case False
    have k: "keen (env c)" using Cons.prems(2) by blast
    obtain r t where t: "FlushClient (env c) c [] s = Some (r, t)"
      "wrote (may_break (env c) (length (waiting s c) + length ([] :: bytes) + padding_for_int32 (length ([] :: bytes))) s c) c [] (out_stream s c) s r t"
      using flush_client_ok [OF k Cons.prems(1), of c "[]"] by blast
    have "stream_added (\<lambda>c. framed []) s t"
      using wrote_added [OF t(2)] framed_empty_message unfolding stream_added_def by (metis framed.simps(1))
    moreover have "out_ok t" using t(2) by (simp add: wrote_def)
    ultimately show ?thesis using False t(1) Cons.IH [of t] Cons.prems(2) added_trans [of "\<lambda>_. []" s t "\<lambda>_. []"] by auto
  qed
qed

lemma send_all_ok:
  fixes s :: "'z io_scheme"
  shows "out_ok s \<Longrightarrow> \<forall>x \<in> set xs. step_keen x \<Longrightarrow> \<exists>s'. send_all xs s = Some s' \<and> out_ok s'
    \<and> stream_added (\<lambda>c. framed (if c = 0 \<or> clientGone (sclients s c) then [] else messages c xs)) s s'"
proof (induction xs arbitrary: s)
  case Nil
  have "(if c = 0 \<or> clientGone (sclients s c) then [] else messages c []) = []" for c by simp
  then show ?case using added_refl [of s] Nil by (simp del: messages.simps)
next
  case (Cons x xs)
  define g where "g = (\<lambda>(t :: 'z io_scheme) ys c. if c = 0 \<or> clientGone (sclients t c) then [] else messages c ys)"
  have gt: "g t ys = g s ys" if "stream_added A s t" for A t ys using that by (simp add: g_def stream_added_def fun_eq_iff)
  have go: ?case if t: "out_ok t" "stream_added (\<lambda>c. framed (h c)) s t" "send_all (x # xs) s = send_all xs t"
      and h: "\<And>c. h c @ g s xs c = g s (x # xs) c" for h t
  proof -
    obtain s' where s': "send_all xs t = Some s'" "out_ok s'" "stream_added (\<lambda>c. framed (g t xs c)) t s'"
      using Cons.IH [OF t(1)] Cons.prems(2) by (auto simp: g_def)
    have "stream_added (\<lambda>c. framed (g s (x # xs) c)) s s'"
      using added_trans [OF t(2) s'(3)] unfolding gt [OF t(2)] h .
    then show ?thesis using s'(1,2) t(3) by (auto simp: g_def)
  qed
  show ?case
  proof (cases x)
    case (Message c bs env)
    show ?thesis
    proof (cases "c = 0 \<or> clientGone (sclients s c)")
      case True
      have "WriteToClient env c bs s = Some (0, s)" using True by (auto simp: WriteToClient_def)
      then show ?thesis using True by (intro go [OF Cons.prems(1) added_refl]) (auto simp: Message g_def)
    next
      case False
      have k: "keen env" "reply_whole bs" using Cons.prems(2) by (simp_all add: Message)
      obtain r t where t: "WriteToClient env c bs s = Some (r, t)"
        "wrote (may_break env (length (waiting s c) + length bs + padding_for_int32 (length bs)) s c) c bs (out_stream s c) s r t"
        using write_to_client_ok [OF k(1) Cons.prems(1) k(2)] False by blast
      have "out_ok t" using t(2) by (simp add: wrote_def)
      then show ?thesis using False t(1) by (intro go [OF _ wrote_added [OF t(2)]]) (auto simp: Message g_def)
    qed
  next
    case (FlushAll env)
    define s0 where "s0 = s\<lparr>CriticalOutputPending := False, NewOutputPending := False\<rparr>"
    have s0: "out_ok s0" "stream_added (\<lambda>c. framed []) s s0"
      using Cons.prems(1) by (simp_all add: s0_def out_ok_def stream_added_def out_stream_def waiting_def framed.simps)
    have "\<exists>t. FlushAllOutput env s = Some t \<and> out_ok t \<and> stream_added (\<lambda>c. framed []) s t"
    proof (cases "NewOutputPending s")
      case True
      have ke: "\<forall>c. keen (env c)" using Cons.prems(2) by (simp add: FlushAll)
      obtain t where "flush_clients env (output_pending_clients s) s0 = Some t" "out_ok t" "stream_added (\<lambda>c. framed []) s0 t"
        using flush_clients_ok [OF s0(1) ke, of "output_pending_clients s"] by blast
      then show ?thesis using True added_trans [OF s0(2), of "\<lambda>_. []" t] by (simp add: FlushAllOutput_def s0_def)
    next
      case False
      then show ?thesis using Cons.prems(1) added_refl [of s] by (auto simp: FlushAllOutput_def)
    qed
    then obtain t where t: "FlushAllOutput env s = Some t" "out_ok t" "stream_added (\<lambda>c. framed []) s t" by blast
    then show ?thesis by (intro go [OF t(2,3)]) (auto simp: FlushAll g_def)
  qed
qed


section \<open>Bytes that fill up a word\<close>

text \<open>When the client does not read, \<open>FlushClient\<close> keeps the message but leaves the padding as it finds it in the buffer.\<close>

lemma padding_kept:
  fixes s :: "'z io_scheme"
  assumes none: "oc_output (os s c) = None" and free: "FreeOutputs s = oc # fs" "oc_ok oc" "out_count oc = 0"
    and live: "c \<noteq> 0" "\<not> clientGone (sclients s c)" "connected (sclients s c)" and bs: "bs \<noteq> []" "\<not> ReplyCallback s"
    and block: "write_ans env 0 = WriteWouldBlock" and fit: "length bs + padding_for_int32 (length bs) \<le> out_size oc"
  shows "\<exists>s'. WriteToClient env c bs s = Some (int (length bs), s')
    \<and> out_stream s' c = sent (os s c) @ bs @ take (padding_for_int32 (length bs)) (drop (length bs) (obuf oc))"
proof -
  define n where "n = length bs + padding_for_int32 (length bs)"
  define s1 where "s1 = set_output c (Some oc) (s\<lparr>FreeOutputs := fs\<rparr>)"
  define s3 where "s3 = output_pending_clear c s1"
  define s4 where "s4 = (if any_output_pending s3 then s3 else s3\<lparr>CriticalOutputPending := False, NewOutputPending := False\<rparr>)"
  define s5 where "s5 = (if FlushCallback s4 then io_log (Flushing c) s4 else s4)"
  have v: "oc_output (os s4 c) = Some oc" "connected (sclients s5 c)" "sent (os s5 c) = sent (os s c)"
    using live by (simp_all add: s1_def s3_def s4_def s5_def output_pending_clear_def io_defs)
  have n0: "n \<noteq> 0" using bs(1) by (simp add: n_def)
  have "reply_info c bs s1 = Some s1" using bs(2) by (simp add: reply_info_def Let_def s1_def io_defs)
  moreover have "get_output env c s = Some s1" using none free by (simp add: get_output_def s1_def)
  moreover have "oc_output (os s1 c) = Some oc" by (simp add: s1_def io_defs)
  ultimately have "WriteToClient env c bs s = FlushClient env c bs s4"
    using live bs(1) free(3) by (simp add: WriteToClient_def Let_def s3_def s4_def)
  also have "\<dots> = flush_loop env ((n + 1) * (n + 1)) 0 c bs oc 0 n n s5"
    using v(1) free(3) n0 by (simp add: FlushClient_def Let_def n_def [symmetric] s5_def)
  also have "(n + 1) * (n + 1) = Suc (n * n + 2 * n)" by simp
  also have "flush_loop env (Suc (n * n + 2 * n)) 0 c bs oc 0 n n s5 = buffer_rest env c bs 0 n oc s5"
    unfolding flush_loop.simps if_not_P [OF n0] pieces_ok [OF free(2)] bind.bind_lunit using v(2) block by simp
  finally have run: "WriteToClient env c bs s = buffer_rest env c bs 0 n oc s5" .
  define b where "b = bs @ drop (length bs) (obuf oc)"
  have l: "length (obuf oc) = out_size oc" using free(2) by (simp add: oc_ok_def)
  have wb: "wr_bytes (obuf oc) 0 bs = Some b" using l fit by (simp add: wr_bytes_def b_def)
  have mv: "moved_up 0 oc = Some (0, oc)" using free(3) by (simp add: moved_up_def)
  have nf: "\<not> n > out_size oc" using fit by (simp add: n_def)
  define s' where "s' = io_log (ListenWrite c) (set_output c (Some (oc\<lparr>obuf := b, out_count := n\<rparr>)) (output_pending_mark c s5))"
  have "buffer_rest env c bs 0 n oc s5 = Some (int (length bs), s')"
    using nf wb free(3) by (simp add: buffer_rest_def Let_def mv s'_def)
  moreover have "out_stream s' c = sent (os s c) @ take n b"
    using v(3) by (simp add: s'_def out_stream_def waiting_def io_defs pending_mark_os)
  moreover have "take n b = bs @ take (padding_for_int32 (length bs)) (drop (length bs) (obuf oc))" by (simp add: b_def n_def)
  ultimately show ?thesis using run by simp
qed

section \<open>Closing a connection\<close>

lemma close_down_fd: "os (CloseDownFileDescriptor c s) = os s" "FreeInputs (CloseDownFileDescriptor c s) = FreeInputs s"
    "FreeOutputs (CloseDownFileDescriptor c s) = FreeOutputs s" "AvailableInput (CloseDownFileDescriptor c s) = AvailableInput s"
    "\<not> connected (sclients (CloseDownFileDescriptor c s) c)" "cio (CloseDownFileDescriptor c s) = cio s"
    "d \<noteq> c \<Longrightarrow> sclients (CloseDownFileDescriptor c s) d = sclients s d"
  by (simp_all add: CloseDownFileDescriptor_def set_sclient_def io_log_def)

lemma free_buffers: "os (FreeOsBuffers c s) = os s" "sclients (FreeOsBuffers c s) = sclients s"
    "AvailableInput (FreeOsBuffers c s) = (if AvailableInput s = Some c then None else AvailableInput s)"
  by (simp_all add: FreeOsBuffers_def free_input_def free_output_def split: option.split)

lemma fresh_input: "input_ok big i \<Longrightarrow> input_ok big (i\<lparr>bufptr := 0, bufcnt := 0, lenLastReq := 0, ignoreBytes := 0\<rparr>)
    \<and> unread (i\<lparr>bufptr := 0, bufcnt := 0, lenLastReq := 0, ignoreBytes := 0\<rparr>) = []"
  by (simp add: input_ok_def in_ok_def next_input_def unread_def front_def)

lemma freed_lists:
  assumes "io_ok big s" "out_ok s"
  shows "\<forall>i \<in> set (FreeInputs (FreeOsBuffers c s)). input_ok big i \<and> unread i = [] \<and> ignoreBytes i = 0"
    "\<forall>oc \<in> set (FreeOutputs (FreeOsBuffers c s)). oc_ok oc \<and> out_count oc = 0"
proof -
  have "oc_ok oc \<Longrightarrow> oc_ok (oc\<lparr>out_count := 0\<rparr>)" for oc by (simp add: oc_ok_def)
  then show "\<forall>oc \<in> set (FreeOutputs (FreeOsBuffers c s)). oc_ok oc \<and> out_count oc = 0"
    using assms(2) by (auto simp: FreeOsBuffers_def free_output_def free_input_def out_ok_def split: option.split)
  show "\<forall>i \<in> set (FreeInputs (FreeOsBuffers c s)). input_ok big i \<and> unread i = [] \<and> ignoreBytes i = 0"
    using assms(1) fresh_input by (auto simp: FreeOsBuffers_def free_output_def free_input_def io_ok_def split: option.split)
qed

lemma close_connection_ok:
  fixes s :: "'z io_scheme"
  assumes io: "io_ok big s" and out: "out_ok s" and keen: "keen env"
  shows "\<exists>s'. CloseDownConnection env c s = Some s' \<and> io_ok big s' \<and> out_ok s' \<and> \<not> connected (sclients s' c) \<and> \<not> osPrivate (cio s' c)
    \<and> oc_input (os s' c) = None \<and> oc_output (os s' c) = None
    \<and> (\<forall>d. d \<noteq> c \<longrightarrow> os s' d = os s d \<and> connected (sclients s' d) = connected (sclients s d))"
proof -
  define s1 where "s1 = (if FlushCallback s then io_log (Flushing c) s else s)"
  have s1: "out_ok s1" "others_kept c s s1" using out by (simp_all add: s1_def io_log_def out_ok_def others_kept_def)
  obtain r s2 where s2: "(if oc_output (os s1 c) \<noteq> None then FlushClient env c [] s1 else Some (0, s1)) = Some (r, s2)" "out_ok s2" "others_kept c s1 s2"
  proof (cases "oc_output (os s1 c)")
    case None
    then show ?thesis using that [of 0 s1] s1(1) others_kept_refl [of c s1] by simp
  next
    case (Some oc)
    from flush_client_ok [OF keen s1(1), of c "[]"] show ?thesis using that Some unfolding wrote_def by auto
  qed
  have k: "others_kept c s s2" using others_kept_trans s1(2) s2(3) .
  have io2: "io_ok big s2"
    using io k unfolding io_ok_def others_kept_def by metis
  define s3 where "s3 = CloseDownFileDescriptor c s2"
  have s3: "io_ok big s3" "out_ok s3" using io2 s2(2) by (simp_all add: s3_def io_ok_def out_ok_def close_down_fd)
  define s4 where "s4 = FreeOsBuffers c s3"
  define s' where "s' = set_cio c (\<lambda>r. r\<lparr>osPrivate := False\<rparr>) (set_os c (\<lambda>r. r\<lparr>oc_input := None, oc_output := None\<rparr>) s4)"
  have run: "CloseDownConnection env c s = Some s'"
    unfolding CloseDownConnection_def Let_def s1_def [symmetric] s2(1) by (simp add: s'_def s4_def s3_def)
  have o: "os s' d = (if d = c then (os s2 c)\<lparr>oc_input := None, oc_output := None\<rparr> else os s2 d)" for d
    by (simp add: s'_def s4_def s3_def free_buffers close_down_fd io_defs)
  have f: "FreeInputs s' = FreeInputs s4" "FreeOutputs s' = FreeOutputs s4"
    "AvailableInput s' = (if AvailableInput s2 = Some c then None else AvailableInput s2)" "sclients s' = sclients s3"
    by (simp_all add: s'_def s4_def s3_def free_buffers close_down_fd io_defs)
  have "io_ok big s'"
    using io2 freed_lists(1) [OF s3, of c] unfolding io_ok_def f s4_def [symmetric] by (auto simp: o split: if_splits)
  moreover have "out_ok s'"
    using s2(2) freed_lists(2) [OF s3, of c] unfolding out_ok_def f s4_def [symmetric] by (auto simp: o split: if_splits)
  moreover have "\<not> connected (sclients s' c)" unfolding f s3_def by (rule close_down_fd)
  moreover have "\<not> osPrivate (cio s' c)" by (simp add: s'_def io_defs)
  moreover have "os s' d = os s d \<and> connected (sclients s' d) = connected (sclients s d)" if "d \<noteq> c" for d
    using k that unfolding f s3_def by (simp add: o others_kept_def close_down_fd(7))
  ultimately show ?thesis using run by (simp add: o)
qed

section \<open>Properties\<close>

definition blocked :: iokernel where
  "blocked = \<lparr>malloc_ok = True, realloc_ok = True, shrink_ok = True, junk = \<lambda>_. 0, read_ans = ReadWouldBlock, write_ans = \<lambda>_. WriteWouldBlock\<rparr>"

lemma demo_out: "out_ok demo" "keen demo_reader" "keen blocked"
  by (simp_all add: out_ok_def demo_io_def keen_def demo_reader_def blocked_def)

text \<open>C36: However writes to several clients and flushes of all output follow each other, and whatever part of the
  data the kernel takes each time: every call returns, no buffer is left, and what was sent to a client that stays connected
  together with what is queued for it grows by exactly the messages for it, in order, each filled up to whole words.\<close>

theorem messages_in_order:
  fixes s :: "'z io_scheme"
  assumes "out_ok s" "\<forall>x \<in> set xs. step_keen x"
  shows "\<exists>s'. send_all xs s = Some s' \<and> out_ok s'
    \<and> (\<forall>c. c \<noteq> 0 \<and> \<not> clientGone (sclients s c) \<and> connected (sclients s' c) \<longrightarrow>
        (\<exists>x. framed (messages c xs) x \<and> out_stream s' c = out_stream s c @ x))"
proof -
  obtain s' where s': "send_all xs s = Some s'" "out_ok s'"
    "stream_added (\<lambda>c. framed (if c = 0 \<or> clientGone (sclients s c) then [] else messages c xs)) s s'"
    using send_all_ok [OF assms] by blast
  have "\<exists>x. framed (messages c xs) x \<and> out_stream s' c = out_stream s c @ x"
    if "c \<noteq> 0" "\<not> clientGone (sclients s c)" "connected (sclients s' c)" for c
    using s'(3) that unfolding stream_added_def by auto
  then show ?thesis using s'(1,2) by blast
qed

theorem messages_in_order_witness:
  "\<exists>s'. send_all [Message 1 [5, 5, 5, 5, 5] blocked, Message 2 [7] demo_reader, Message 1 [6, 6, 6, 6] demo_reader, FlushAll (\<lambda>_. demo_reader)] demo = Some s'
     \<and> out_ok s'"
  using messages_in_order [OF demo_out(1), of "[Message 1 [5, 5, 5, 5, 5] blocked, Message 2 [7] demo_reader, Message 1 [6, 6, 6, 6] demo_reader,
      FlushAll (\<lambda>_. demo_reader)]"] demo_out(2,3)
  by (auto simp: reply_whole_def)

text \<open>C37: \<open>WriteToClient\<close> returns the length of the message and adds it to the stream of the client, or it closes the connection; it
  closes it only when memory cannot be had, the connection is broken or the output would exceed an \<open>int\<close>.\<close>

theorem message_written:
  fixes s :: "'z io_scheme"
  assumes "keen env" "out_ok s" "reply_whole bs" "c \<noteq> 0" "\<not> clientGone (sclients s c)"
  shows "\<exists>r s'. WriteToClient env c bs s = Some (r, s') \<and> out_ok s' \<and> others_kept c s s'
    \<and> (r = -1 \<and> \<not> connected (sclients s' c)
         \<and> may_break env (length (waiting s c) + length bs + padding_for_int32 (length bs)) s c
       \<or> r = int (length bs) \<and> connected (sclients s' c) = connected (sclients s c)
         \<and> (\<exists>P. length P = padding_for_int32 (length bs) \<and> out_stream s' c = out_stream s c @ bs @ P))"
  using write_to_client_ok [OF assms] unfolding wrote_def by blast

theorem message_written_witness:
  "\<exists>s' P. WriteToClient blocked 1 [5, 5, 5, 5, 5] demo = Some (5, s') \<and> out_stream s' 1 = [5, 5, 5, 5, 5] @ P \<and> length P = 3"
proof -
  have d: "reply_whole [5, 5, 5, 5, 5]" "\<not> clientGone (sclients demo 1)" "out_stream demo 1 = []"
    "\<not> may_break blocked (length (waiting demo 1) + length [5, 5, 5, 5, 5 :: u8] + padding_for_int32 (length [5, 5, 5, 5, 5 :: u8])) demo 1"
    by (simp_all add: reply_whole_def demo_io_def out_stream_def waiting_def may_break_def blocked_def padding_for_int32_def BUFSIZE_def MAXINT_def)
  have p: "padding_for_int32 (length [5, 5, 5, 5, 5 :: u8]) = 3" "int (length [5, 5, 5, 5, 5 :: u8]) = 5" by (simp_all add: padding_for_int32_def)
  have "(1 :: nat) \<noteq> 0" by simp
  from message_written [OF demo_out(3,1) d(1) this d(2)] d(3,4) show ?thesis unfolding p by auto
qed

text \<open>C38: The bytes that fill up the last word are not set when the client does not read: they are what the buffer, which is handed
  from client to client, held before. Bytes of messages for one client reach another.\<close>

theorem padding_leaks:
  fixes s :: "'z io_scheme"
  assumes "oc_output (os s c) = None" "FreeOutputs s = oc # fs" "oc_ok oc" "out_count oc = 0" "c \<noteq> 0" "\<not> clientGone (sclients s c)"
    "connected (sclients s c)" "bs \<noteq> []" "\<not> ReplyCallback s" "write_ans env 0 = WriteWouldBlock"
    "length bs + padding_for_int32 (length bs) \<le> out_size oc"
  shows "\<exists>s'. WriteToClient env c bs s = Some (int (length bs), s')
    \<and> out_stream s' c = sent (os s c) @ bs @ take (padding_for_int32 (length bs)) (drop (length bs) (obuf oc))"
  using padding_kept [OF assms] .

theorem padding_leaks_witness:
  "\<exists>s'. WriteToClient blocked 1 [5] (demo\<lparr>FreeOutputs := [\<lparr>obuf = [83, 69, 67, 82], out_size = 4, out_count = 0\<rparr>]\<rparr>) = Some (1, s')
     \<and> out_stream s' 1 = [5, 69, 67, 82]"
proof -
  define oc where "oc = \<lparr>obuf = [83, 69, 67, 82], out_size = 4, out_count = 0\<rparr>"
  define s where "s = demo\<lparr>FreeOutputs := [oc]\<rparr>"
  have "oc_output (os s 1) = None" "FreeOutputs s = oc # []" "oc_ok oc" "out_count oc = 0" "(1 :: nat) \<noteq> 0" "\<not> clientGone (sclients s 1)"
    "connected (sclients s 1)" "[5 :: u8] \<noteq> []" "\<not> ReplyCallback s" "write_ans blocked 0 = WriteWouldBlock"
    "length [5 :: u8] + padding_for_int32 (length [5 :: u8]) \<le> out_size oc"
    by (simp_all add: s_def oc_def demo_io_def oc_ok_def blocked_def padding_for_int32_def)
  note this = padding_leaks [OF this]
  moreover have "take (padding_for_int32 (length [5 :: u8])) (drop (length [5 :: u8]) (obuf oc)) = [69, 67, 82]" "sent (os s 1) = []"
    by (simp_all add: oc_def padding_for_int32_def s_def demo_io_def)
  ultimately show ?thesis unfolding s_def [symmetric] oc_def [symmetric] by simp
qed

text \<open>C39: Closing a connection keeps the buffers of the server in order: the client has none any more, the other clients
  keep theirs, and a buffer that becomes free is empty.\<close>

theorem connection_closed:
  fixes s :: "'z io_scheme"
  assumes "io_ok big s" "out_ok s" "keen env"
  shows "\<exists>s'. CloseDownConnection env c s = Some s' \<and> io_ok big s' \<and> out_ok s' \<and> \<not> connected (sclients s' c) \<and> \<not> osPrivate (cio s' c)
    \<and> oc_input (os s' c) = None \<and> oc_output (os s' c) = None
    \<and> (\<forall>d. d \<noteq> c \<longrightarrow> os s' d = os s d \<and> connected (sclients s' d) = connected (sclients s d))"
  using close_connection_ok [OF assms] .

theorem connection_closed_witness:
  "\<exists>s'. CloseDownConnection demo_reader 1 demo = Some s' \<and> io_ok 4194303 s' \<and> oc_input (os s' 1) = None"
  using connection_closed [OF demo_io_ok(1) demo_out(1,2), of 1] by auto

end
