(* ===== verification/Spec2Isabelle.thy ===== *)
theory Spec2Isabelle
  imports Prelude Clipboard_Text Selections Properties Clipboard Event_Queue Work_Queue Dix_Utils Callbacks Presentation Screen_Setup Shared_Memory Fences Resources Scheduler Client_IO Requests Client_Output
begin

text \<open>
  Verification of the native X server of kali\_GUI, the C sources below
  \<open>app/src/main/linux-x11/src/main/cpp\<close> (all file names in these theories are relative to it).

  \<^bold>\<open>The program.\<close> The Android application runs an X server as a native library. The server is the
  X.Org server (\<open>xserver\<close>: \<open>dix\<close> dispatches the protocol, \<open>mi\<close> holds the machine independent
  parts, \<open>os\<close> the connections) with a device dependent part of its own, \<open>lorie\<close>: the screen
  and the Present driver (\<open>InitOutput.c\<close>), pixel buffers that can be shared with the renderer
  (\<open>buffer.c\<close>), the bridge to the clipboard of Android (\<open>clipboard.c\<close>) and replacements for what
  Android lacks (\<open>shm/shmem.c\<close>, \<open>xshmfence.c\<close>). Clients reach \<open>dix\<close> through requests;
  requests change atoms, properties, selections and resources; the clipboard bridge
  replaces the request handlers of selections and listens to changes of selections through a callback list;
  input events of Android wait in the ring of \<open>mieq.c\<close> until the main loop hands them out; copies of
  pixmaps are handed to the renderer process through a ring in shared memory.

  \<^bold>\<open>The theories\<close>, in the order of their imports:

  \<^item> \<open>Prelude\<close>: machine words, C objects as lists with checked accesses (\<open>rd\<close>, \<open>wr\<close>: \<open>None\<close>
    is an access outside the object), lemmas on bytes and words.

  \<^item> \<open>Clipboard_Text\<close>: the conversions at the top of \<open>lorie/clipboard.c\<close>. Buffers are byte lists, the
    loops are recursive functions that carry the indices of the code. The lemmas show the round
    trip between Latin-1 and UTF-8, decoding and encoding of every scalar value, the contents after
    dropping carriage returns, and where the code reads one byte too far.

  \<^item> \<open>Atoms\<close>: \<open>dix/atom.c\<close> and \<open>dix/initatoms.c\<close>. State \<open>atoms\<close>: node table, search tree, last atom,
    table length. The invariant ties tree and table together; \<open>MakeAtom\<close> refines interning a name
    in a list. Allocation failures are an argument.

  \<^item> \<open>Dix_Base\<close>: time stamps, window and drawable lookup, request length checks and the guard of
    \<open>WriteEventsToClient\<close>, as far as the next theories use them.

  \<^item> \<open>Selections\<close> (\<open>dix/selection.c\<close>), \<open>Properties\<close> (\<open>dix/property.c\<close>): the request handlers with every
    error branch; the events they send are a list in the state. Access control hooks and the
    type of a window tree are arguments.

  \<^item> \<open>Clipboard\<close>: the state machine of \<open>lorie/clipboard.c\<close> on top of \<open>Selections\<close>, \<open>Properties\<close> and
    \<open>Atoms\<close>: waiting requests, the cached text, the announcement of Android. A waiting request may name a client
    whose structure has been freed (\<open>freed\<close>); using it is the error value.

  \<^item> \<open>Queues\<close>: the locale \<open>fifo\<close> (a container whose contents are a list) and lemmas on ring indices.
    It is interpreted on the event queue (\<open>mq\<close>) and on the ring of GPU copies (\<open>gq\<close>).

  \<^item> \<open>Event_Queue\<close>: \<open>mi/mieq.c\<close>, a ring that grows, with motion compression, custom handlers and the
    loop that hands events out. \<open>mieqEnqueue\<close> refines appending to a list; the loop uses as much
    fuel as events are pending, which is shown to be enough.

  \<^item> \<open>Work_Queue\<close>: work queue and sleeping clients of \<open>dix/dixutils.c\<close>. The linked list lives in a store
    with the pointer to its end; a freed cell that is followed is an error value. The budget of
    \<open>ProcessWorkQueue\<close> bounds the work that functions queue while the queue is scanned.

  \<^item> \<open>Dix_Utils\<close>, \<open>Callbacks\<close>: the other parts of \<open>dixutils.c\<close>. The functions that are called are
    parameters on the whole state, so that they may change the lists that are being walked; the
    fuel of the handler loops is the number of handlers.

  \<^item> \<open>Buffers\<close>: \<open>lorie/buffer.c\<close> and \<open>buffer.h\<close>. Descriptors, mappings and hardware buffers are
    resources of the process; every release of a resource that is not held is an error value. \<open>buffer_step\<close> keeps
    beside the state a ledger of what the rest of the process holds and of what has leaked.

  \<^item> \<open>Presentation\<close>: pixmaps, CPU access, copies on the GPU, flips and vertical blanks of
    \<open>lorie/InitOutput.c\<close>, with the reading side of \<open>renderer.cpp\<close> for the ring; the record extends
    that of \<open>Buffers\<close>. \<open>Screen_Setup\<close>: cursor, test image, command line of the same file.

  \<^item> \<open>Shared_Memory\<close>: \<open>lorie/shm/shmem.c\<close>. The answers of the kernel and of other processes are the
    record \<open>kernel\<close>; a call that does not return is \<open>None\<close>. The search for the owner of a key is given
    fuel, one unit per round; one round more than other processes interfere is enough. The listening thread
    is a state machine of its own (\<open>ashv_thread_step\<close>) that waits while the mutex is held.

  \<^item> \<open>Fences\<close>: \<open>lorie/xshmfence.c\<close> with the futex and pthread versions of \<open>libxshmfence\<close>, as step
    relations of arbitrarily many threads. The locale \<open>fence\<close> states what makes a step relation a fence
    and is interpreted on both versions and on the choice between them.

  \<^item> \<open>Resources\<close>: the resource database of \<open>dix/resource.c\<close>, one growing hash table per client. The
    functions that destroy resources are a parameter on the whole database, so that they may free further resources
    while a chain is walked; the fuel of the walks is bounded by the number of resources. Resource types and classes,
    the range and the list of unused identifiers.

  \<^item> \<open>Scheduler\<close>: ready lists, \<open>SmartScheduleClient\<close> and server grab of \<open>dix/dispatch.c\<close>, ignoring and polling
    clients of \<open>os/connection.c\<close>. The relation \<open>sched_step\<close> has the operations as steps and keeps the set of clients
    that were let in during the current grab; the locale \<open>request_reset\<close> states what putting a request back, and the
    operations that make a client ready without asking whether it is listened to, may do to the lists.

  \<^item> \<open>Client_IO\<close>: the input side of \<open>os/io.c\<close>. The state extends that of \<open>Scheduler\<close> by buffers and sockets;
    what the kernel and the allocator answer is the record \<open>iokernel\<close>. \<open>coming s c later\<close> is the stream of a client that
    the server has still to look at, and one call takes exactly one request off it. \<open>Requests\<close>: fake requests, resetting a request and
    aborting a client (the interpretation of \<open>request_reset\<close>), whole runs with their parse of the streams, and headers that are not proper.

  \<^item> \<open>Client_Output\<close>: the output side of \<open>os/io.c\<close> and closing connections. \<open>out_stream\<close> is what was sent and what is
    queued. A flush of \<open>n\<close> bytes has fuel for \<open>(n + 1) * (n + 1)\<close> rounds, which is enough because each round writes a byte or halves
    the amount it tries.

  \<^bold>\<open>Conventions.\<close> Fields and functions carry the names of the code. Integers keep their width
  where it matters (\<open>u8\<close> to \<open>u64\<close>, \<open>size_t\<close> has 64 bits); other integers are \<open>int\<close> or \<open>nat\<close>. Undefined behaviour and
  accesses outside objects are \<open>None\<close> or \<open>Inl\<close>. Functions of Android, of the kernel, of libraries
  and of drivers are parameters, and what is expected of them is stated as a
  hypothesis where it is needed. The configuration is the one of \<open>recipes/xserver.cmake\<close>: no
  XFreeXDGA, with DPMS.

  \<^bold>\<open>Properties.\<close> The theorems that carry a number, C1 onwards, state what the components are for; each
  that has hypotheses is followed by a theorem that applies it to concrete values. Several
  of them state that the code misbehaves on certain inputs; the model follows the code.

  \<^bold>\<open>Not modelled.\<close> The redraw loop, the import of DRI3 buffers and the RandR code of \<open>InitOutput.c\<close>, the
  keyboard map of \<open>InputXKB.c\<close>, the device set-up of \<open>InitInput.c\<close>, and the C++ files
  (\<open>activity.cpp\<close>, \<open>cmdentrypoint.cpp\<close>, \<open>renderer.cpp\<close> apart from the ring, \<open>workqueue.cpp\<close>), which are
  calls of the Java and GL interfaces; the greater part of \<open>xserver\<close> (dispatch of the other
  requests, windows, devices, fonts, colour maps, rendering, extensions, XKB, GLX); the libraries beside it
  (\<open>libx11\<close>, \<open>pixman\<close>, \<open>xkbcomp\<close>, \<open>libtirpc\<close> and others), which are copies of their upstream projects.
\<close>

end
